(* ===== verification/Prelude.thy ===== *)
theory Prelude
  imports Main "HOL-Library.Word" "HOL-Library.Monad_Syntax"
begin

text \<open>
  Shared material of the TinyOS development: the widths of the C integers, the
  constants of \<^verbatim>\<open>tinyos.h\<close> and \<^verbatim>\<open>bios.h\<close> that several components use, the theorem
  collections that carry the component proofs, and generic lemmas on lists, options
  and finite iteration.

  Operations that can hit an \<^verbatim>\<open>assert\<close>, a \<^verbatim>\<open>FATAL\<close>, a dangling or a null pointer
  have an option type; \<open>None\<close> means that the C program has stopped or has
  undefined behaviour at that point.
\<close>

named_theorems kdefs \<open>definitions unfolded in the component proofs\<close>
named_theorems run_simps \<open>inversion of successful runs of option-valued operations\<close>

type_synonym byte = "8 word"
type_synonym uint32 = "32 word"
type_synonym TimerDuration = "64 word"

text \<open>
  The mutexes and condition variables of the kernel by their place in the data
  structures, so that an operation can name the one it uses.  The numbers are the
  addresses of the object that contains the variable.
\<close>

datatype cv_ref =
    kernel_sem_cv
  | child_exit nat
  | exit_cv nat
  | has_space nat
  | has_data nat
  | req_available nat
  | connected_cv nat
  | rx_ready nat
  | user_cv nat

datatype mutex_ref =
    kernel_mutex
  | waitset_lock cv_ref
  | user_mutex nat

text \<open>The C macro \<^verbatim>\<open>assert\<close>.\<close>

definition c_assert :: "bool \<Rightarrow> unit option" where
  "c_assert b = (if b then Some () else None)"

section \<open>Inversion of successful runs\<close>

lemma c_assert_simps [simp]: "c_assert True = Some ()" "c_assert False = None"
  by (simp_all add: c_assert_def)

lemma c_assert_Some_iff [run_simps]: "c_assert b = Some u \<longleftrightarrow> b"
  by (simp add: c_assert_def)


lemma bind_SomeE [elim!]:
  assumes "Option.bind m f = Some r"
  obtains x where "m = Some x" and "f x = Some r"
  using assms by (cases m) auto

lemma bind_Some_iff [run_simps]:
  "Option.bind m f = Some r \<longleftrightarrow> (\<exists>x. m = Some x \<and> f x = Some r)"
  by (cases m) auto

lemma if_None_else_Some_iff [run_simps]:
  "(if b then None else m) = Some r \<longleftrightarrow> \<not> b \<and> m = Some r"
  by simp

lemma if_Some_else_None_iff [run_simps]:
  "(if b then m else None) = Some r \<longleftrightarrow> b \<and> m = Some r"
  by simp

end
