(* ===== verification/Monitor.thy ===== *)
theory Monitor
  imports Prelude
begin

text \<open>
  Programs in which threads share an object under one mutex.  The state is the place of every thread in its
  program and the object; a thread that is ready makes a step, the code from taking the mutex up to
  releasing it or sleeping, and the result is \<open>None\<close> if an assertion fails.  The barrier, the table of the
  philosophers, the dialogue of the remote client and server, and the kernel lock with single accesses as its steps are such programs.
\<close>

type_synonym ('t, 'pc, 's) mstate = "('t \<Rightarrow> 'pc) \<times> 's"

text \<open>A run in which the threads take the mutex in the order of a list.\<close>

fun run_threads :: "('t \<Rightarrow> ('t, 'pc, 's) mstate \<Rightarrow> bool) \<Rightarrow> ('t \<Rightarrow> 'pc \<Rightarrow> 's \<Rightarrow> ('pc \<times> 's) option) \<Rightarrow>
  't list \<Rightarrow> ('t, 'pc, 's) mstate \<Rightarrow> ('t, 'pc, 's) mstate option" where
  "run_threads ready thread [] T = Some T"
| "run_threads ready thread (t # ts) (pc, S) =
     (if ready t (pc, S)
      then thread t (pc t) S \<bind> (\<lambda>(q, S'). run_threads ready thread ts (pc(t := q), S')) else None)"

locale monitor =
  fixes step :: "('t, 'pc, 's) mstate \<Rightarrow> ('t, 'pc, 's) mstate \<Rightarrow> bool"
    and ready :: "'t \<Rightarrow> ('t, 'pc, 's) mstate \<Rightarrow> bool"
    and thread :: "'t \<Rightarrow> 'pc \<Rightarrow> 's \<Rightarrow> ('pc \<times> 's) option"
    and inv :: "('t, 'pc, 's) mstate \<Rightarrow> bool"
  assumes step_iff: "step (pc, S) T \<longleftrightarrow>
      (\<exists>t q S'. ready t (pc, S) \<and> thread t (pc t) S = Some (q, S') \<and> T = (pc(t := q), S'))"
    and thread_keeps: "inv (pc, S) \<Longrightarrow> ready t (pc, S) \<Longrightarrow>
      \<exists>q S'. thread t (pc t) S = Some (q, S') \<and> inv (pc(t := q), S')"
begin

lemma step_keeps:
  assumes "inv T" "step T T'"
  shows "inv T'"
proof (cases T)
  case (Pair pc S)
  then obtain t q S' where "ready t (pc, S)" "thread t (pc t) S = Some (q, S')" "T' = (pc(t := q), S')"
    using assms(2) step_iff by blast
  then show ?thesis using thread_keeps assms(1) Pair by fastforce
qed

lemma steps_keep: "step\<^sup>*\<^sup>* T T' \<Longrightarrow> inv T \<Longrightarrow> inv T'"
  by (induction rule: rtranclp_induct) (auto intro: step_keeps)

text \<open>A ready thread can make its step: no assertion fails.\<close>

lemma ready_steps:
  assumes "inv (pc, S)" "ready t (pc, S)"
  shows "thread t (pc t) S \<noteq> None" "\<exists>T. step (pc, S) T"
  using thread_keeps [OF assms] assms(2) step_iff by (force, blast)

lemma run_threads_steps: "run_threads ready thread ts T = Some T' \<Longrightarrow> (step ^^ length ts) T T'"
proof (induction ts arbitrary: T)
  case (Cons t ts)
  obtain pc S where T: "T = (pc, S)" by (cases T)
  with Cons.prems obtain q S' where s: "ready t (pc, S)" "thread t (pc t) S = Some (q, S')"
      "run_threads ready thread ts (pc(t := q), S') = Some T'"
    by (auto simp: bind_Some_iff split: if_splits)
  then have "step T (pc(t := q), S')" using step_iff T by blast
  with Cons.IH [OF s(3)] show ?case by (metis length_Cons relpowp_Suc_I2)
qed simp

end

text \<open>A monitor in which every step shortens what is left to do.\<close>

locale bounded_monitor = monitor step ready thread inv
  for step :: "('t, 'pc, 's) mstate \<Rightarrow> ('t, 'pc, 's) mstate \<Rightarrow> bool" and ready and thread and inv +
  fixes left :: "('t, 'pc, 's) mstate \<Rightarrow> nat"
  assumes step_shortens: "inv T \<Longrightarrow> step T T' \<Longrightarrow> left T' < left T"
begin

lemma run_bounded:
  assumes "(step ^^ n) T T'" "inv T"
  shows "inv T' \<and> n + left T' \<le> left T"
  using assms(1)
proof (induction n arbitrary: T')
  case 0
  then show ?case using assms(2) by simp
next
  case (Suc n)
  then obtain R where R: "(step ^^ n) T R" "step R T'" by auto
  then show ?case using Suc.IH [OF R(1)] step_keeps [of R T'] step_shortens [of R T'] by simp
qed

text \<open>Every run can be completed.\<close>

lemma run_ends: "inv T \<Longrightarrow> \<exists>n T'. (step ^^ n) T T' \<and> (\<nexists>R. step T' R)"
proof (induction "left T" arbitrary: T rule: less_induct)
  case less
  show ?case
  proof (cases "\<exists>R. step T R")
    case True
    then obtain R where R: "step T R" by blast
    from less.hyps [OF step_shortens [OF less.prems R] step_keeps [OF less.prems R]] obtain n T' where
      "(step ^^ n) R T'" "\<nexists>Q. step T' Q" by blast
    then show ?thesis using R by (metis relpowp_Suc_I2)
  qed (metis relpowp_0_I)
qed

end

end
