(* ===== verification/Lock_Steps.thy ===== *)
theory Lock_Steps
  imports Monitor
begin

text \<open>
  The kernel lock of \<^verbatim>\<open>kernel_cc.c\<close> with one access to shared memory per step, for any number of threads:
  \<^verbatim>\<open>kernel_lock\<close>, \<^verbatim>\<open>kernel_unlock\<close>, \<^verbatim>\<open>kernel_wait_wchan\<close>, \<^verbatim>\<open>kernel_sleep\<close>, and \<^verbatim>\<open>cv_wait\<close>, \<^verbatim>\<open>cv_signal\<close>,
  \<^verbatim>\<open>Cond_Signal\<close> and \<^verbatim>\<open>Cond_Broadcast\<close> on the semaphore's condition variable and on others.  Between any two
  accesses any other thread may run, so that the order in which the code takes \<^verbatim>\<open>kernel_mutex\<close> and
  \<^verbatim>\<open>waitset_lock\<close>, enters the ring, unlocks and sleeps matters.  Only what runs under \<^verbatim>\<open>sched_spinlock\<close> is one
  step: \<^verbatim>\<open>wakeup\<close>, and the change to \<^verbatim>\<open>STOPPED\<close> and the unlocking in \<^verbatim>\<open>sleep_releasing\<close>.
\<close>

section \<open>State\<close>

text \<open>The condition variables: \<^verbatim>\<open>kernel_sem_cv\<close> and those of the rest of the kernel.\<close>

datatype kcv = Sem | Cv nat

record lock_state =
  kmutex :: bool
  ws_lock :: "kcv \<Rightarrow> bool"
  ring :: "kcv \<Rightarrow> nat list"
  sem :: int
  stopped :: "nat \<Rightarrow> bool"
  w_signalled :: "nat \<Rightarrow> bool"
  w_removed :: "nat \<Rightarrow> bool"

text \<open>What a thread does after \<^verbatim>\<open>Cond_Signal\<close> or \<^verbatim>\<open>Cond_Broadcast\<close>.\<close>

datatype cont = To_unlock | To_wait kcv | To_sleep | To_out | To_in

text \<open>
  The places in the code: outside and inside the kernel and ended (\<open>L\<close>), \<^verbatim>\<open>kernel_lock\<close> (\<open>K\<close>), the release of the
  semaphore (\<open>R\<close>), \<^verbatim>\<open>cv_wait\<close> (\<open>W\<close>), and \<^verbatim>\<open>Cond_Signal\<close> and \<^verbatim>\<open>Cond_Broadcast\<close> (\<open>S\<close>, with a flag for the latter).
\<close>

datatype lpc = L_out | L_in | L_gone
  | K_lock | K_test | K_take | K_done
  | R_lock cont | R_inc cont | R_unlock | R_sleep
  | W_lock kcv | W_push kcv | W_release kcv | W_sleep kcv | W_relock kcv | W_check kcv | W_unlock kcv
  | S_lock kcv bool cont | S_pop kcv bool cont | S_wake kcv bool cont nat | S_mark kcv bool cont nat | S_unlock kcv bool cont

text \<open>What threads ask for, outside or inside the kernel; \<open>C_wakeup\<close> is a timeout or a wakeup by another routine.\<close>

datatype cmd = C_lock | C_unlock | C_wait nat | C_sleep | C_signal nat | C_broadcast nat | C_wakeup nat

section \<open>The code\<close>

text \<open>\<^verbatim>\<open>cv_wait\<close> in thread \<open>t\<close>.  The result is \<open>None\<close> if the assertion fails.\<close>

fun cv_wait_turn :: "nat \<Rightarrow> lpc \<Rightarrow> lock_state \<Rightarrow> (lpc \<times> lock_state) option" where
  "cv_wait_turn t (W_lock cv) S = Some (W_push cv, S\<lparr>ws_lock := (ws_lock S)(cv := True),
     w_signalled := (w_signalled S)(t := False), w_removed := (w_removed S)(t := False)\<rparr>)"
| "cv_wait_turn t (W_push cv) S = Some (W_release cv, S\<lparr>ring := (ring S)(cv := ring S cv @ [t])\<rparr>)"
| "cv_wait_turn t (W_release cv) S = Some (W_sleep cv, S\<lparr>kmutex := False\<rparr>)"
| "cv_wait_turn t (W_sleep cv) S = Some (W_relock cv, S\<lparr>stopped := (stopped S)(t := True), ws_lock := (ws_lock S)(cv := False)\<rparr>)"
| "cv_wait_turn t (W_relock cv) S = Some (W_check cv, S\<lparr>ws_lock := (ws_lock S)(cv := True)\<rparr>)"
| "cv_wait_turn t (W_check cv) S =
     (if \<not> w_removed S t
      then if w_signalled S t then None
           else Some (W_unlock cv, S\<lparr>ring := (ring S)(cv := remove1 t (ring S cv))\<rparr>)
      else Some (W_unlock cv, S))"
| "cv_wait_turn t (W_unlock cv) S = Some (K_lock, S\<lparr>ws_lock := (ws_lock S)(cv := False)\<rparr>)"
| "cv_wait_turn t _ S = None"

fun resume_at :: "cont \<Rightarrow> lpc" where
  "resume_at To_unlock = R_unlock"
| "resume_at (To_wait cv) = W_lock cv"
| "resume_at To_sleep = R_sleep"
| "resume_at To_out = L_out"
| "resume_at To_in = L_in"

text \<open>\<^verbatim>\<open>Cond_Signal\<close>, \<^verbatim>\<open>Cond_Broadcast\<close> and \<^verbatim>\<open>cv_signal\<close>; the loop of the broadcast tests the ring again after a signal.\<close>

fun cv_signal_turn :: "lpc \<Rightarrow> lock_state \<Rightarrow> (lpc \<times> lock_state) option" where
  "cv_signal_turn (S_lock cv b k) S = Some (S_pop cv b k, S\<lparr>ws_lock := (ws_lock S)(cv := True)\<rparr>)"
| "cv_signal_turn (S_pop cv b k) S =
     (case ring S cv of
        [] \<Rightarrow> Some (S_unlock cv b k, S)
      | w # ws \<Rightarrow> Some (S_wake cv b k w, S\<lparr>ring := (ring S)(cv := ws), w_removed := (w_removed S)(w := True)\<rparr>))"
| "cv_signal_turn (S_wake cv b k w) S =
     Some (if stopped S w then (S_mark cv b k w, S\<lparr>stopped := (stopped S)(w := False)\<rparr>) else (S_pop cv b k, S))"
| "cv_signal_turn (S_mark cv b k w) S =
     Some (if b then S_pop cv b k else S_unlock cv b k, S\<lparr>w_signalled := (w_signalled S)(w := True)\<rparr>)"
| "cv_signal_turn (S_unlock cv b k) S = Some (resume_at k, S\<lparr>ws_lock := (ws_lock S)(cv := False)\<rparr>)"
| "cv_signal_turn _ S = None"

text \<open>
  The bodies of \<^verbatim>\<open>kernel_lock\<close> and of the three functions that give the semaphore back: \<^verbatim>\<open>kernel_unlock\<close> (which goes on
  with \<open>R_unlock\<close>), \<^verbatim>\<open>kernel_wait_wchan\<close> (which goes on with \<^verbatim>\<open>cv_wait\<close>) and \<^verbatim>\<open>kernel_sleep\<close> (\<open>R_sleep\<close>).  A thread that comes
  back from \<^verbatim>\<open>cv_wait\<close> takes \<^verbatim>\<open>kernel_mutex\<close> and tests the semaphore, in \<^verbatim>\<open>kernel_lock\<close> as in \<^verbatim>\<open>kernel_wait_wchan\<close>.
\<close>

fun kernel_turn :: "nat \<Rightarrow> lpc \<Rightarrow> lock_state \<Rightarrow> (lpc \<times> lock_state) option" where
  "kernel_turn t K_lock S = Some (K_test, S\<lparr>kmutex := True\<rparr>)"
| "kernel_turn t K_test S = Some (if sem S \<le> 0 then W_lock Sem else K_take, S)"
| "kernel_turn t K_take S = Some (K_done, S\<lparr>sem := sem S - 1\<rparr>)"
| "kernel_turn t K_done S = Some (L_in, S\<lparr>kmutex := False\<rparr>)"
| "kernel_turn t (R_lock k) S = Some (R_inc k, S\<lparr>kmutex := True\<rparr>)"
| "kernel_turn t (R_inc k) S = Some (S_lock Sem False k, S\<lparr>sem := sem S + 1\<rparr>)"
| "kernel_turn t R_unlock S = Some (L_out, S\<lparr>kmutex := False\<rparr>)"
| "kernel_turn t R_sleep S = Some (L_gone, S\<lparr>kmutex := False\<rparr>)"
| "kernel_turn t pc S = (case cv_wait_turn t pc S of Some r \<Rightarrow> Some r | None \<Rightarrow> cv_signal_turn pc S)"

text \<open>The start of a call; \<open>None\<close> for a call that a thread makes at the wrong place.\<close>

definition call_turn :: "lpc \<Rightarrow> cmd \<Rightarrow> lock_state \<Rightarrow> (lpc \<times> lock_state) option" where
  "call_turn pc c S = (case c of
       C_lock \<Rightarrow> if pc = L_out then Some (K_lock, S) else None
     | C_unlock \<Rightarrow> if pc = L_in then Some (R_lock To_unlock, S) else None
     | C_wait n \<Rightarrow> if pc = L_in then Some (R_lock (To_wait (Cv n)), S) else None
     | C_sleep \<Rightarrow> if pc = L_in then Some (R_lock To_sleep, S) else None
     | C_signal n \<Rightarrow> Some (S_lock (Cv n) False (if pc = L_in then To_in else To_out), S)
     | C_broadcast n \<Rightarrow> Some (S_lock (Cv n) True (if pc = L_in then To_in else To_out), S)
     | C_wakeup u \<Rightarrow> Some (pc, S\<lparr>stopped := (stopped S)(u := False)\<rparr>))"

text \<open>A thread is a place in the code and the calls it will make.\<close>

fun lock_turn :: "nat \<Rightarrow> lpc \<times> cmd list \<Rightarrow> lock_state \<Rightarrow> ((lpc \<times> cmd list) \<times> lock_state) option" where
  "lock_turn t (pc, cs) S =
     (if pc = L_out \<or> pc = L_in
      then (case cs of [] \<Rightarrow> None | c # cs' \<Rightarrow> map_option (\<lambda>(q, S'). ((q, cs'), S')) (call_turn pc c S))
      else map_option (\<lambda>(q, S'). ((q, cs), S')) (kernel_turn t pc S))"

text \<open>A thread can go on unless it sleeps, spins at a mutex, or has nothing left to do.\<close>

fun can_go :: "nat \<Rightarrow> lpc \<Rightarrow> lock_state \<Rightarrow> bool" where
  "can_go t L_gone S = False"
| "can_go t K_lock S = (\<not> kmutex S)"
| "can_go t (R_lock k) S = (\<not> kmutex S)"
| "can_go t (W_lock cv) S = (\<not> ws_lock S cv)"
| "can_go t (W_relock cv) S = (\<not> stopped S t \<and> \<not> ws_lock S cv)"
| "can_go t (S_lock cv b k) S = (\<not> ws_lock S cv)"
| "can_go t pc S = True"

definition lock_ready :: "nat \<Rightarrow> (nat, lpc \<times> cmd list, lock_state) mstate \<Rightarrow> bool" where
  "lock_ready t T = (case T of (pc, S) \<Rightarrow>
     if fst (pc t) = L_out \<or> fst (pc t) = L_in
     then (case snd (pc t) of [] \<Rightarrow> False | c # _ \<Rightarrow> call_turn (fst (pc t)) c S \<noteq> None)
     else can_go t (fst (pc t)) S)"

inductive lock_step :: "(nat, lpc \<times> cmd list, lock_state) mstate \<Rightarrow> (nat, lpc \<times> cmd list, lock_state) mstate \<Rightarrow> bool" where
  "lock_ready t (pc, S) \<Longrightarrow> lock_turn t (pc t) S = Some (q, S') \<Longrightarrow> lock_step (pc, S) (pc(t := q), S')"

text \<open>The static storage of \<^verbatim>\<open>kernel_cc.c\<close>, and threads that will make the given calls.\<close>

definition lock_start :: "(nat \<Rightarrow> cmd list) \<Rightarrow> (nat, lpc \<times> cmd list, lock_state) mstate" where
  "lock_start calls = (\<lambda>t. (L_out, calls t),
     \<lparr>kmutex = False, ws_lock = \<lambda>_. False, ring = \<lambda>_. [], sem = 1, stopped = \<lambda>_. False,
      w_signalled = \<lambda>_. False, w_removed = \<lambda>_. False\<rparr>)"

section \<open>The invariant\<close>

text \<open>Who holds \<^verbatim>\<open>kernel_mutex\<close>, a \<^verbatim>\<open>waitset_lock\<close>, and the semaphore.\<close>

fun kholds :: "lpc \<Rightarrow> bool" where
  "kholds K_test = True" | "kholds K_take = True" | "kholds K_done = True"
| "kholds (R_inc k) = True" | "kholds R_unlock = True" | "kholds R_sleep = True"
| "kholds (W_lock cv) = True" | "kholds (W_push cv) = True" | "kholds (W_release cv) = True"
| "kholds (S_lock cv b k) = (cv = Sem)" | "kholds (S_pop cv b k) = (cv = Sem)" | "kholds (S_wake cv b k w) = (cv = Sem)"
| "kholds (S_mark cv b k w) = (cv = Sem)" | "kholds (S_unlock cv b k) = (cv = Sem)"
| "kholds _ = False"

fun wsholds :: "kcv \<Rightarrow> lpc \<Rightarrow> bool" where
  "wsholds v (W_push cv) = (cv = v)" | "wsholds v (W_release cv) = (cv = v)" | "wsholds v (W_sleep cv) = (cv = v)"
| "wsholds v (W_check cv) = (cv = v)" | "wsholds v (W_unlock cv) = (cv = v)"
| "wsholds v (S_pop cv b k) = (cv = v)" | "wsholds v (S_wake cv b k w) = (cv = v)"
| "wsholds v (S_mark cv b k w) = (cv = v)" | "wsholds v (S_unlock cv b k) = (cv = v)"
| "wsholds v _ = False"

fun owns_sem :: "lpc \<Rightarrow> bool" where
  "owns_sem L_in = True" | "owns_sem K_done = True" | "owns_sem (R_lock k) = True" | "owns_sem (R_inc k) = True"
| "owns_sem (S_lock cv b k) = (k = To_in)" | "owns_sem (S_pop cv b k) = (k = To_in)" | "owns_sem (S_wake cv b k w) = (k = To_in)"
| "owns_sem (S_mark cv b k w) = (k = To_in)" | "owns_sem (S_unlock cv b k) = (k = To_in)"
| "owns_sem _ = False"

definition excl :: "bool \<Rightarrow> ('a \<Rightarrow> bool) \<Rightarrow> (nat \<Rightarrow> 'a) \<Rightarrow> bool" where
  "excl L H P \<longleftrightarrow> (L \<longleftrightarrow> (\<exists>t. H (P t))) \<and> (\<forall>t u. H (P t) \<longrightarrow> H (P u) \<longrightarrow> t = u)"

text \<open>A release of the semaphore signals \<^verbatim>\<open>kernel_sem_cv\<close>, and a signal to another condition variable is a call of its own.\<close>

fun releases :: "cont \<Rightarrow> bool" where
  "releases To_unlock = True" | "releases (To_wait cv) = (cv \<noteq> Sem)" | "releases To_sleep = True" | "releases _ = False"

definition goes_on :: "kcv \<Rightarrow> cont \<Rightarrow> bool" where
  "goes_on cv k \<longleftrightarrow> (if cv = Sem then releases k else k = To_in \<or> k = To_out)"

fun place_ok :: "lpc \<Rightarrow> bool" where
  "place_ok (R_lock k) = releases k" | "place_ok (R_inc k) = releases k"
| "place_ok (S_lock cv b k) = goes_on cv k" | "place_ok (S_pop cv b k) = goes_on cv k"
| "place_ok (S_wake cv b k w) = goes_on cv k" | "place_ok (S_mark cv b k w) = goes_on cv k"
| "place_ok (S_unlock cv b k) = goes_on cv k"
| "place_ok _ = True"

fun in_ring :: "kcv \<Rightarrow> lpc \<Rightarrow> bool" where
  "in_ring v (W_release cv) = (cv = v)" | "in_ring v (W_sleep cv) = (cv = v)"
| "in_ring v (W_relock cv) = (cv = v)" | "in_ring v (W_check cv) = (cv = v)" | "in_ring v _ = False"

text \<open>A thread that sleeps for the semaphore or is about to, and a thread that is about to test it or to wake another.\<close>

definition sleeper :: "lock_state \<Rightarrow> nat \<Rightarrow> lpc \<Rightarrow> bool" where
  "sleeper S t pc \<longleftrightarrow> pc \<in> {W_lock Sem, W_push Sem, W_release Sem, W_sleep Sem} \<or> pc = W_relock Sem \<and> stopped S t"

fun helper :: "lock_state \<Rightarrow> nat \<Rightarrow> lpc \<Rightarrow> bool" where
  "helper S t K_lock = True" | "helper S t K_test = True" | "helper S t K_take = True"
| "helper S t (W_relock cv) = (cv = Sem \<and> \<not> stopped S t)" | "helper S t (W_check cv) = (cv = Sem)" | "helper S t (W_unlock cv) = True"
| "helper S t (S_lock cv b k) = (cv = Sem)" | "helper S t (S_pop cv b k) = (cv = Sem)" | "helper S t (S_wake cv b k w) = (cv = Sem)"
| "helper S t _ = False"

lemma resume_at_facts [simp]:
  "place_ok (resume_at k)" "\<not> wsholds v (resume_at k)" "\<not> in_ring v (resume_at k)" "\<not> helper S t (resume_at k)" 
  "resume_at k \<noteq> K_take" "resume_at k \<noteq> S_wake cv b j w" "resume_at k \<noteq> S_mark cv b j w" "resume_at k \<noteq> W_relock cv"
  "resume_at k \<noteq> W_push cv" "resume_at k \<noteq> W_release cv" "resume_at k \<noteq> W_sleep cv"
  "owns_sem (resume_at k) = (k = To_in)" "goes_on cv k \<Longrightarrow> kholds (resume_at k) = (cv = Sem)"
  "goes_on cv k \<Longrightarrow> resume_at k \<noteq> W_lock Sem"
  by (cases k; simp add: goes_on_def split: if_splits)+

definition locks_ok :: "(nat \<Rightarrow> lpc) \<Rightarrow> lock_state \<Rightarrow> bool" where
  "locks_ok P S \<longleftrightarrow> excl (kmutex S) kholds P \<and> (\<forall>cv. excl (ws_lock S cv) (wsholds cv) P)"

definition sem_held :: "(nat \<Rightarrow> lpc) \<Rightarrow> lock_state \<Rightarrow> bool" where
  "sem_held P S \<longleftrightarrow> excl (sem S = 0) owns_sem P \<and> sem S \<in> {0, 1} \<and> (\<forall>t. P t = K_take \<longrightarrow> sem S = 1) \<and> (\<forall>t. place_ok (P t))"

definition ring_ok :: "(nat \<Rightarrow> lpc) \<Rightarrow> lock_state \<Rightarrow> bool" where
  "ring_ok P S \<longleftrightarrow> (\<forall>cv. distinct (ring S cv) \<and> (\<forall>t. t \<in> set (ring S cv) \<longleftrightarrow> in_ring cv (P t) \<and> \<not> w_removed S t)) \<and>
     (\<forall>t cv. P t \<in> {W_push cv, W_release cv, W_sleep cv} \<longrightarrow> \<not> w_removed S t \<and> \<not> w_signalled S t) \<and>
     (\<forall>t cv. in_ring cv (P t) \<longrightarrow> w_signalled S t \<longrightarrow> w_removed S t)"

definition wake_ok :: "(nat \<Rightarrow> lpc) \<Rightarrow> lock_state \<Rightarrow> bool" where
  "wake_ok P S \<longleftrightarrow> (\<forall>t. stopped S t \<longrightarrow> (\<exists>cv. P t = W_relock cv)) \<and>
     (\<forall>t cv. stopped S t \<longrightarrow> P t = W_relock cv \<longrightarrow> w_removed S t \<longrightarrow> (\<exists>m b k. P m = S_wake cv b k t)) \<and>
     (\<forall>m cv b k w. P m = S_wake cv b k w \<or> P m = S_mark cv b k w \<longrightarrow> P w = W_relock cv \<and> w_removed S w)"

definition kept_ok :: "(nat \<Rightarrow> lpc) \<Rightarrow> lock_state \<Rightarrow> bool" where
  "kept_ok P S \<longleftrightarrow> (sem S > 0 \<longrightarrow> (\<exists>t. sleeper S t (P t)) \<longrightarrow> (\<exists>m. helper S m (P m)))"

definition lock_inv :: "(nat \<Rightarrow> lpc) \<Rightarrow> lock_state \<Rightarrow> bool" where
  "lock_inv P S \<longleftrightarrow> locks_ok P S \<and> sem_held P S \<and> ring_ok P S \<and> wake_ok P S \<and> kept_ok P S"

lemmas inv_defs = locks_ok_def sem_held_def ring_ok_def wake_ok_def kept_ok_def

lemma excl_step:
  assumes "excl L H P" "H q = H (P t) \<and> L' = L \<or> \<not> L \<and> H q \<and> L' \<or> H (P t) \<and> \<not> H q \<and> \<not> L'"
  shows "excl L' H (P(t := q))"
  using assms by (auto simp: excl_def split: if_splits)

text \<open>One step of a thread inside the code, and the beginning of a call.\<close>

lemma locks_kept:
  assumes "locks_ok P S" "place_ok (P t)" "can_go t (P t) S" "kernel_turn t (P t) S = Some (q, S')"
  shows "locks_ok (P(t := q)) S'"
proof -
  have "kholds q = kholds (P t) \<and> kmutex S' = kmutex S \<or> \<not> kmutex S \<and> kholds q \<and> kmutex S' \<or> kholds (P t) \<and> \<not> kholds q \<and> \<not> kmutex S'"
    using assms(2-4) by (cases "P t") (auto split: if_splits list.splits)
  moreover have "wsholds cv q = wsholds cv (P t) \<and> ws_lock S' cv = ws_lock S cv \<or> \<not> ws_lock S cv \<and> wsholds cv q \<and> ws_lock S' cv \<or>
      wsholds cv (P t) \<and> \<not> wsholds cv q \<and> \<not> ws_lock S' cv" for cv
    using assms(2-4) by (cases "P t") (auto split: if_splits list.splits)
  ultimately show ?thesis using assms(1) excl_step unfolding locks_ok_def by metis
qed

lemma excl_same: "excl L H P \<Longrightarrow> H (P t) \<Longrightarrow> H (P u) \<Longrightarrow> u = t"
  by (auto simp: excl_def)

lemma in_ring_unique: "in_ring cv p \<Longrightarrow> in_ring cv' p \<Longrightarrow> cv = cv'"
  by (cases p) auto

lemma releases_not [simp]: "\<not> releases To_in" "releases k \<Longrightarrow> k \<noteq> To_in"
  by auto

lemma sem_kept:
  assumes "sem_held P S" "locks_ok P S" "kernel_turn t (P t) S = Some (q, S')"
  shows "sem_held (P(t := q)) S'"
proof -
  have h: "excl (sem S = 0) owns_sem P" "sem S = 0 \<or> sem S = 1" "\<And>u. P u = K_take \<Longrightarrow> sem S = 1" "\<And>u. place_ok (P u)"
    using assms(1) by (auto simp: sem_held_def)
  have k: "u = t" if "P u = K_take" "kholds (P t)" for u using assms(2) that excl_same [of "kmutex S" kholds P] by (auto simp: locks_ok_def)
  have own: "sem S = 0" if "owns_sem (P t)" using h(1) that by (auto simp: excl_def)
  have "owns_sem q = owns_sem (P t) \<and> sem S' = sem S \<or> sem S = 1 \<and> owns_sem q \<and> sem S' = 0 \<or> owns_sem (P t) \<and> \<not> owns_sem q \<and> sem S' = 1"
    using assms(3) h(2) h(3) [of t] h(4) [of t] own
    by (cases "P t") (auto split: if_splits list.splits)
  moreover from this have "excl (sem S' = 0) owns_sem (P(t := q))" by (intro excl_step [OF h(1)]) auto
  moreover have "sem S' = 1" if "(P(t := q)) u = K_take" for u
  proof (cases "u = t")
    case True
    then have "q = K_take" using that by simp
    then show ?thesis using assms(3) h(2) by (cases "P t") (auto split: if_splits list.splits)
  next
    case False
    then have u: "P u = K_take" "\<not> kholds (P t)" using that k [of u] by auto
    have "sem S' = sem S" using assms(3) u(2) by (cases "P t") (auto split: if_splits list.splits)
    then show ?thesis using h(3) [OF u(1)] by simp
  qed
  moreover have "place_ok q"
    using assms(3) h(4) [of t] by (cases "P t") (auto simp: goes_on_def split: if_splits list.splits)
  ultimately show ?thesis using h(2,4) by (auto simp: sem_held_def)
qed

text \<open>The rings and the flags of the waiters.\<close>

definition enters :: "lpc \<Rightarrow> bool" where
  "enters p \<longleftrightarrow> (\<exists>cv. p \<in> {W_push cv, W_release cv, W_sleep cv})"

lemma ring_okD:
  assumes "ring_ok P S"
  shows "distinct (ring S cv)" "t \<in> set (ring S cv) \<longleftrightarrow> in_ring cv (P t) \<and> \<not> w_removed S t"
    "enters (P t) \<Longrightarrow> \<not> w_removed S t \<and> \<not> w_signalled S t" "in_ring cv (P t) \<Longrightarrow> w_signalled S t \<Longrightarrow> w_removed S t"
  using assms by (auto simp: ring_ok_def enters_def)

lemma ring_okI:
  assumes "\<And>cv. distinct (ring S cv)" "\<And>t cv. t \<in> set (ring S cv) \<longleftrightarrow> in_ring cv (P t) \<and> \<not> w_removed S t"
    "\<And>t. enters (P t) \<Longrightarrow> \<not> w_removed S t \<and> \<not> w_signalled S t" "\<And>t cv. in_ring cv (P t) \<Longrightarrow> w_signalled S t \<Longrightarrow> w_removed S t"
  shows "ring_ok P S"
  using assms unfolding ring_ok_def enters_def by blast

lemma wake_okD:
  assumes "wake_ok P S"
  shows "stopped S t \<Longrightarrow> \<exists>cv. P t = W_relock cv"
    "stopped S t \<Longrightarrow> P t = W_relock cv \<Longrightarrow> w_removed S t \<Longrightarrow> \<exists>m b k. P m = S_wake cv b k t"
    "P t = S_wake cv b k w \<or> P t = S_mark cv b k w \<Longrightarrow> P w = W_relock cv \<and> w_removed S w"
  using assms unfolding wake_ok_def by blast+

lemma ring_same:
  assumes "ring_ok P S" "ring S' = ring S" "w_removed S' = w_removed S" "w_signalled S' = w_signalled S"
    "\<And>cv. in_ring cv q = in_ring cv (P t)" "enters q \<Longrightarrow> enters (P t)"
  shows "ring_ok (P(t := q)) S'"
  by (rule ring_okI) (use ring_okD [OF assms(1)] assms(2-6) in \<open>auto split: if_splits\<close>)

lemma ring_kept:
  assumes "ring_ok P S" "locks_ok P S" "wake_ok P S" "kernel_turn t (P t) S = Some (q, S')"
  shows "ring_ok (P(t := q)) S'"
proof -
  note r = ring_okD [OF assms(1)]
  show ?thesis
  proof (cases "P t")
    case (W_lock cv)
    then have "q = W_push cv" "ring S' = ring S" "w_removed S' = (w_removed S)(t := False)" "w_signalled S' = (w_signalled S)(t := False)"
      using assms(4) by auto
    with W_lock show ?thesis by (intro ring_okI) (use r in \<open>auto split: if_splits\<close>)
  next
    case (W_push cv)
    then have s: "q = W_release cv" "S' = S\<lparr>ring := (ring S)(cv := ring S cv @ [t])\<rparr>" using assms(4) by auto
    have "t \<notin> set (ring S v)" for v using r(2) [of t v] W_push by simp
    with s W_push show ?thesis by (intro ring_okI) (use r in \<open>auto simp: enters_def split: if_splits\<close>)
  next
    case (W_check cv)
    show ?thesis
    proof (cases "w_removed S t")
      case True
      then have "q = W_unlock cv" "S' = S" using W_check assms(4) by (auto split: if_splits)
      with True W_check show ?thesis by (intro ring_okI) (use r in \<open>auto simp: enters_def split: if_splits\<close>)
    next
      case False
      then have "q = W_unlock cv" "S' = S\<lparr>ring := (ring S)(cv := remove1 t (ring S cv))\<rparr>" using W_check assms(4) by (auto split: if_splits)
      with False W_check show ?thesis by (intro ring_okI) (use r in \<open>auto simp: enters_def split: if_splits\<close>)
    qed
  next
    case (S_pop cv b k)
    show ?thesis
    proof (cases "ring S cv")
      case Nil
      then show ?thesis using S_pop assms(4) by (intro ring_same [OF assms(1)]) (auto simp: enters_def)
    next
      case (Cons w ws)
      then have s: "q = S_wake cv b k w" "S' = S\<lparr>ring := (ring S)(cv := ws), w_removed := (w_removed S)(w := True)\<rparr>"
        using S_pop assms(4) by auto
      have w: "in_ring cv (P w)" "w \<notin> set ws" using r(1) [of cv] r(2) [of w cv] Cons by auto
      have wt: "w \<noteq> t" using w(1) S_pop by auto
      have "\<not> wsholds cv (P w)" using assms(2) wt S_pop excl_same [of "ws_lock S cv" "wsholds cv" P t w] by (auto simp: locks_ok_def)
      then have e: "\<not> enters (P w)" using w(1) by (cases "P w") (auto simp: enters_def)
      have "u \<in> set ws \<longleftrightarrow> in_ring cv (P u) \<and> \<not> w_removed S u" if "u \<noteq> w" for u using r(2) [of u cv] that Cons by simp
      moreover have "distinct ws" using r(1) [of cv] Cons by simp
      moreover have "\<not> in_ring v (P w)" if "v \<noteq> cv" for v using in_ring_unique w(1) that by blast
      ultimately show ?thesis using w(2) e S_pop unfolding s by (intro ring_okI) (use r in \<open>auto simp: enters_def split: if_splits\<close>)
    qed
  next
    case (S_mark cv b k w)
    then have w: "P w = W_relock cv" "w_removed S w" using wake_okD(3) [OF assms(3), of t cv b k w] by simp_all
    have "ring S' = ring S" "w_removed S' = w_removed S" "w_signalled S' = (w_signalled S)(w := True)" "q = S_pop cv b k \<or> q = S_unlock cv b k"
      using S_mark assms(4) by (auto split: if_splits)
    with w S_mark show ?thesis by (intro ring_okI) (use r in \<open>auto simp: enters_def split: if_splits\<close>)
  qed (use assms(4) in \<open>auto intro!: ring_same [OF assms(1)] simp: enters_def split: if_splits\<close>)
qed

text \<open>Who sleeps, and who is being woken up.\<close>

lemma turn_stopped:
  assumes "kernel_turn t p S = Some (q, S')"
  shows "u \<noteq> t \<Longrightarrow> stopped S' u \<Longrightarrow> stopped S u" "stopped S' t \<Longrightarrow> stopped S t \<or> (\<exists>cv. p = W_sleep cv \<and> q = W_relock cv \<and> w_removed S' = w_removed S)"
    "u \<noteq> t \<Longrightarrow> w_removed S u \<Longrightarrow> w_removed S' u"
    "u \<noteq> t \<Longrightarrow> w_removed S' u \<Longrightarrow> w_removed S u \<or> (\<exists>cv b k ws. p = S_pop cv b k \<and> ring S cv = u # ws \<and> q = S_wake cv b k u)"
  using assms by (cases p; auto split: if_splits list.splits)+

lemma popped_asleep:
  assumes "ring_ok P S" "locks_ok P S" "P t = S_pop cv b k" "ring S cv = w # ws"
  shows "P w = W_relock cv" "w \<noteq> t"
proof -
  have w: "in_ring cv (P w)" using ring_okD(2) [OF assms(1), of w cv] assms(4) by simp
  then show wt: "w \<noteq> t" using assms(3) by auto
  have "\<not> wsholds cv (P w)" using assms(2,3) wt excl_same [of "ws_lock S cv" "wsholds cv" P t w] by (auto simp: locks_ok_def)
  then show "P w = W_relock cv" using w by (cases "P w") auto
qed

lemma turn_wakes:
  assumes "kernel_turn t p S = Some (q, S')" "q = S_wake cv b k w \<or> q = S_mark cv b k w"
  shows "p = S_wake cv b k w \<and> stopped S w \<and> \<not> stopped S' w \<and> w_removed S' = w_removed S \<or>
    p = S_pop cv b k \<and> (\<exists>ws. ring S cv = w # ws) \<and> w_removed S' w"
  using assms by (cases p) (auto split: if_splits list.splits)

lemma wake_kept:
  assumes "wake_ok P S" "locks_ok P S" "ring_ok P S" "can_go t (P t) S" "kernel_turn t (P t) S = Some (q, S')"
  shows "wake_ok (P(t := q)) S'"
proof -
  note w = wake_okD [OF assms(1)] and ts = turn_stopped [OF assms(5)]
  have awake: "\<not> stopped S t" using w(1) [of t] assms(4) by auto
  have busy: "w \<noteq> t" if "P m = S_wake cv b k w \<or> P m = S_mark cv b k w" for m cv b k w
  proof
    assume "w = t"
    then have "\<not> ws_lock S cv" using w(3) [OF that] assms(4) by simp
    moreover have "wsholds cv (P m)" using that by auto
    ultimately show False using assms(2) by (auto simp: locks_ok_def excl_def)
  qed
  have "\<exists>cv. (P(t := q)) u = W_relock cv" if "stopped S' u" for u
    using that ts(1,2) w(1) awake by (cases "u = t") auto
  moreover have "\<exists>m b k. (P(t := q)) m = S_wake cv b k u" if u: "stopped S' u" "(P(t := q)) u = W_relock cv" "w_removed S' u" for u cv
  proof (cases "u = t")
    case True
    then obtain v where "P t = W_sleep v" "w_removed S' = w_removed S" using ts(2) u(1) awake by auto
    then show ?thesis using ring_okD(3) [OF assms(3), of t] u(3) True by (simp add: enters_def)
  next
    case False
    then have pu: "P u = W_relock cv" "stopped S u" using u(1,2) ts(1) by auto
    from ts(4) [OF False u(3)] show ?thesis
    proof
      assume "w_removed S u"
      then obtain m b k where m: "P m = S_wake cv b k u" using w(2) pu by blast
      have "m \<noteq> t"
      proof
        assume "m = t"
        then have "\<not> stopped S' u" using m assms(5) pu(2) by auto
        then show False using u(1) by simp
      qed
      then show ?thesis using m by auto
    next
      assume "\<exists>v b k ws. P t = S_pop v b k \<and> ring S v = u # ws \<and> q = S_wake v b k u"
      then obtain v b k ws where v: "P t = S_pop v b k" "ring S v = u # ws" "q = S_wake v b k u" by blast
      then have "v = cv" using popped_asleep(1) [OF assms(3,2) v(1,2)] pu(1) by simp
      then show ?thesis using v(3) by (intro exI [of _ t]) simp
    qed
  qed
  moreover have "(P(t := q)) u = W_relock cv \<and> w_removed S' u" if m: "(P(t := q)) m = S_wake cv b k u \<or> (P(t := q)) m = S_mark cv b k u" for m cv b k u
  proof (cases "m = t")
    case True
    with turn_wakes [OF assms(5), of cv b k u] m
    have "P t = S_wake cv b k u \<and> w_removed S' = w_removed S \<or> P t = S_pop cv b k \<and> (\<exists>ws. ring S cv = u # ws) \<and> w_removed S' u" by auto
    then show ?thesis
    proof
      assume "P t = S_wake cv b k u \<and> w_removed S' = w_removed S"
      then show ?thesis using w(3) [of t cv b k u] busy [of t cv b k u] by simp
    next
      assume "P t = S_pop cv b k \<and> (\<exists>ws. ring S cv = u # ws) \<and> w_removed S' u"
      then show ?thesis using popped_asleep [OF assms(3,2), of t cv b k u] by auto
    qed
  next
    case False
    then have pm: "P m = S_wake cv b k u \<or> P m = S_mark cv b k u" using m by simp
    show ?thesis using w(3) [OF pm] busy [OF pm] ts(3) [OF busy [OF pm]] by simp
  qed
  ultimately show ?thesis unfolding wake_ok_def by blast
qed

text \<open>No wakeup is lost.\<close>

lemma turn_sleeper:
  assumes "kernel_turn t p S = Some (q, S')" "place_ok p" "0 < sem S"
  shows "sleeper S' t q \<Longrightarrow> \<not> stopped S t \<Longrightarrow> sleeper S t p"
  using assms by (cases p) (auto simp: sleeper_def split: if_splits list.splits)

lemma turn_helper:
  assumes "kernel_turn t p S = Some (q, S')" "helper S t p" "0 < sem S'" "sem S \<le> 1" "\<And>b k. p = S_pop Sem b k \<Longrightarrow> ring S Sem \<noteq> []"
    "\<And>b k w. p = S_wake Sem b k w \<Longrightarrow> \<not> stopped S w"
  shows "helper S' t q"
  using assms by (cases p) (auto split: if_splits list.splits)

lemma kept_kept:
  assumes "lock_inv P S" "can_go t (P t) S" "kernel_turn t (P t) S = Some (q, S')"
  shows "kept_ok (P(t := q)) S'"
  unfolding kept_ok_def
proof (intro impI)
  have ok: "locks_ok P S" "sem_held P S" "ring_ok P S" "wake_ok P S" "kept_ok P S" using assms(1) by (simp_all add: lock_inv_def)
  note ts = turn_stopped [OF assms(3)]
  have pl: "place_ok (P t)" "sem S = 0 \<or> sem S = 1" using ok(2) by (auto simp: sem_held_def)
  have awake: "\<not> stopped S t" using wake_okD(1) [OF ok(4), of t] assms(2) by auto
  assume sem: "0 < sem S'" and "\<exists>u. sleeper S' u ((P(t := q)) u)"
  then obtain u where u: "sleeper S' u ((P(t := q)) u)" by blast
  show "\<exists>m. helper S' m ((P(t := q)) m)"
  proof (cases "sem S = 1")
    case False
    then have "sem S = 0" using pl(2) by simp
    then have "helper S' t q" using assms(3) sem by (cases "P t") (auto split: if_splits list.splits)
    then show ?thesis by (intro exI [of _ t]) simp
  next
    case True
    have su: "sleeper S u (P u)"
    proof (cases "u = t")
      case True
      with turn_sleeper [OF assms(3) pl(1)] u awake \<open>sem S = 1\<close> show ?thesis by simp
    next
      case False
      with u ts(1) [OF False] show ?thesis by (auto simp: sleeper_def)
    qed
    then obtain m where m: "helper S m (P m)" using ok(5) True unfolding kept_ok_def by force
    show ?thesis
    proof (cases "m = t")
      case False
      have "helper S' m (P m)" using m ts(1) [OF False] by (cases "P m") auto
      then show ?thesis using False by (intro exI [of _ m]) simp
    next
      case mt: True
      consider (wake) b k w where "P t = S_wake Sem b k w" "stopped S w" | (other) "\<And>b k w. P t = S_wake Sem b k w \<Longrightarrow> \<not> stopped S w" by blast
      then show ?thesis
      proof cases
        case wake
        then have "S' = S\<lparr>stopped := (stopped S)(w := False)\<rparr>" "P w = W_relock Sem" "w \<noteq> t"
          using assms(3) wake_okD(3) [OF ok(4), of t Sem b k w] awake by auto
        then show ?thesis by (intro exI [of _ w]) simp
      next
        case other
        have "ring S Sem \<noteq> []" if pt: "P t = S_pop Sem b k" for b k
        proof
          assume e: "ring S Sem = []"
          have k: "kholds (P u) \<Longrightarrow> u = t" "wsholds Sem (P u) \<Longrightarrow> u = t" for u
            using ok(1) pt excl_same [of "kmutex S" kholds P t u] excl_same [of "ws_lock S Sem" "wsholds Sem" P t u] by (auto simp: locks_ok_def)
          have "P u = W_relock Sem" "stopped S u" using su k [of u] pt by (auto simp: sleeper_def)
          moreover from this have "w_removed S u" using ring_okD(2) [OF ok(3), of u Sem] e by simp
          ultimately obtain m b k where "P m = S_wake Sem b k u" using wake_okD(2) [OF ok(4)] by blast
          then show False using k(2) [of m] pt by auto
        qed
        from turn_helper [OF assms(3) _ sem _ this other] m mt True have "helper S' t q" by simp
        then show ?thesis by (intro exI [of _ t]) simp
      qed
    qed
  qed
qed

lemma lock_inv_turn:
  assumes "lock_inv P S" "can_go t (P t) S" "kernel_turn t (P t) S = Some (q, S')"
  shows "lock_inv (P(t := q)) S'"
proof -
  have "locks_ok P S" "sem_held P S" "ring_ok P S" "wake_ok P S" "place_ok (P t)" using assms(1) by (simp_all add: lock_inv_def sem_held_def)
  then show ?thesis using assms locks_kept sem_kept ring_kept wake_kept kept_kept unfolding lock_inv_def by metis
qed

text \<open>The beginning of a call.\<close>

lemma lock_inv_call:
  assumes "lock_inv P S" "P t = L_out \<or> P t = L_in" "call_turn (P t) c S = Some (q, S')"
  shows "lock_inv (P(t := q)) S'"
proof -
  have S': "\<exists>Z. S' = S\<lparr>stopped := Z\<rparr> \<and> (\<forall>u. Z u \<longrightarrow> stopped S u)"
    using assms(3) by (auto simp: call_turn_def split: cmd.splits if_splits intro: exI [of _ "stopped S"])
  then obtain Z where Z: "S' = S\<lparr>stopped := Z\<rparr>" "\<And>u. Z u \<Longrightarrow> stopped S u" by blast
  have q: "kholds q = kholds (P t)" "\<And>cv. wsholds cv q = wsholds cv (P t)" "owns_sem q = owns_sem (P t)" "place_ok q" "q \<noteq> K_take"
    "\<And>cv. in_ring cv q = in_ring cv (P t)" "\<not> enters q" "\<And>cv. q \<noteq> W_relock cv" "\<And>cv b k w. q \<noteq> S_wake cv b k w \<and> q \<noteq> S_mark cv b k w"
    "\<not> sleeper S' t q"
    using assms(2,3) by (auto simp: call_turn_def goes_on_def enters_def sleeper_def split: cmd.splits if_splits)
  have ok: "locks_ok P S" "sem_held P S" "ring_ok P S" "wake_ok P S" "kept_ok P S" using assms(1) by (simp_all add: lock_inv_def)
  have "locks_ok (P(t := q)) S'" using ok(1) q(1,2) Z(1) by (auto simp: locks_ok_def intro!: excl_step)
  moreover have "sem_held (P(t := q)) S'" using ok(2) q(3-5) Z(1) excl_step [of "sem S = 0" owns_sem P q t "sem S' = 0"] by (auto simp: sem_held_def)
  moreover have "ring_ok (P(t := q)) S'" using Z(1) q(6,7) by (intro ring_same [OF ok(3)]) simp_all
  moreover have "wake_ok (P(t := q)) S'"
  proof -
    note w = wake_okD [OF ok(4)]
    have nt: "P u \<noteq> L_out \<and> P u \<noteq> L_in \<Longrightarrow> u \<noteq> t" for u using assms(2) by auto
    show ?thesis unfolding wake_ok_def
    proof (intro conjI allI impI)
      fix u assume "stopped S' u"
      then obtain cv where "P u = W_relock cv" using w(1) Z by auto
      then show "\<exists>cv. (P(t := q)) u = W_relock cv" using nt [of u] by auto
    next
      fix u cv assume "stopped S' u" "(P(t := q)) u = W_relock cv" "w_removed S' u"
      then have "stopped S u" "P u = W_relock cv" "w_removed S u" using Z q(8) by (auto split: if_splits)
      then obtain m b k where "P m = S_wake cv b k u" using w(2) by blast
      then show "\<exists>m b k. (P(t := q)) m = S_wake cv b k u" using nt [of m] by auto
    next
      fix m cv b k u assume "(P(t := q)) m = S_wake cv b k u \<or> (P(t := q)) m = S_mark cv b k u"
      then have "P m = S_wake cv b k u \<or> P m = S_mark cv b k u" using q(9) by (auto split: if_splits)
      from w(3) [OF this] show "(P(t := q)) u = W_relock cv" "w_removed S' u" using nt [of u] Z(1) by auto
    qed
  qed
  moreover have "kept_ok (P(t := q)) S'"
    unfolding kept_ok_def
  proof (intro impI)
    assume "0 < sem S'" "\<exists>u. sleeper S' u ((P(t := q)) u)"
    then obtain u where "sleeper S u (P u)" "0 < sem S" using Z q(10) by (auto simp: sleeper_def split: if_splits)
    then obtain m where m: "helper S m (P m)" using ok(5) unfolding kept_ok_def by blast
    then have "helper S' m (P m)" "m \<noteq> t" using Z assms(2) by (cases "P m"; auto)+
    then show "\<exists>m. helper S' m ((P(t := q)) m)" by (intro exI [of _ m]) simp
  qed
  ultimately show ?thesis by (simp add: lock_inv_def)
qed

section \<open>The threads as a monitor\<close>

definition places :: "(nat \<Rightarrow> lpc \<times> cmd list) \<Rightarrow> nat \<Rightarrow> lpc" where
  "places pc = fst \<circ> pc"

definition protocol_inv :: "(nat, lpc \<times> cmd list, lock_state) mstate \<Rightarrow> bool" where
  "protocol_inv T \<longleftrightarrow> lock_inv (places (fst T)) (snd T)"

text \<open>A thread that is not held back can make its turn.\<close>

lemma turn_total:
  assumes "ring_ok P S" "can_go t (P t) S" "P t \<noteq> L_out" "P t \<noteq> L_in"
  shows "\<exists>q S'. kernel_turn t (P t) S = Some (q, S')"
proof (cases "P t")
  case (W_check cv)
  then show ?thesis using ring_okD(4) [OF assms(1), of cv t] by auto
next
  case (S_pop cv b k)
  then show ?thesis by (cases "ring S cv") auto
qed (use assms in auto)

interpretation lock_monitor: monitor lock_step lock_ready lock_turn protocol_inv
proof
  show "lock_step (pc, S) T \<longleftrightarrow> (\<exists>t q S'. lock_ready t (pc, S) \<and> lock_turn t (pc t) S = Some (q, S') \<and> T = (pc(t := q), S'))" for pc S T
    by (auto simp: lock_step.simps)
next
  fix pc S t assume i: "protocol_inv (pc, S)" and r: "lock_ready t (pc, S)"
  obtain p cs where p: "pc t = (p, cs)" by (cases "pc t")
  have inv: "lock_inv (places pc) S" and pt: "places pc t = p" using i p by (simp_all add: protocol_inv_def places_def)
  have upd: "places (pc(t := (q, ds))) = (places pc)(t := q)" for q ds by (auto simp: places_def)
  show "\<exists>q S'. lock_turn t (pc t) S = Some (q, S') \<and> protocol_inv (pc(t := q), S')"
  proof (cases "p = L_out \<or> p = L_in")
    case True
    then obtain c ds q S' where c: "cs = c # ds" "call_turn p c S = Some (q, S')"
      using r p by (auto simp: lock_ready_def split: list.splits)
    moreover have "lock_inv ((places pc)(t := q)) S'" using lock_inv_call [OF inv] True c(2) pt by simp
    ultimately show ?thesis using True p by (auto simp: protocol_inv_def upd)
  next
    case False
    then have g: "can_go t (places pc t) S" using r p pt by (simp add: lock_ready_def)
    have "ring_ok (places pc) S" using inv by (simp add: lock_inv_def)
    then obtain q S' where q: "kernel_turn t (places pc t) S = Some (q, S')" using turn_total g False pt by fastforce
    then show ?thesis using lock_inv_turn [OF inv g q] False p pt by (auto simp: protocol_inv_def upd)
  qed
qed

lemma lock_start_inv: "protocol_inv (lock_start calls)"
  by (simp add: protocol_inv_def lock_start_def places_def comp_def lock_inv_def inv_defs excl_def sleeper_def)

text \<open>A thread in the code of the lock that is not asleep.\<close>

definition midway :: "lock_state \<Rightarrow> nat \<Rightarrow> lpc \<Rightarrow> bool" where
  "midway S t p \<longleftrightarrow> p \<notin> {L_out, L_in, L_gone} \<and> \<not> stopped S t"

lemma someone_can_go:
  assumes "lock_inv P S" "midway S m (P m)"
  shows "\<exists>u. midway S u (P u) \<and> can_go u (P u) S"
proof -
  have ok: "excl (kmutex S) kholds P" "\<And>cv. excl (ws_lock S cv) (wsholds cv) P" "wake_ok P S"
    using assms(1) by (simp_all add: lock_inv_def locks_ok_def)
  have awake: "\<not> stopped S u" if "kholds (P u) \<or> wsholds cv (P u)" for u cv
    using wake_okD(1) [OF ok(3), of u] that by auto
  have ws: "\<exists>u. midway S u (P u) \<and> can_go u (P u) S" if l: "ws_lock S cv" for cv
  proof -
    from l ok(2) [of cv] obtain u where u: "wsholds cv (P u)" by (auto simp: excl_def)
    then have "can_go u (P u) S" "P u \<notin> {L_out, L_in, L_gone}" by (cases "P u"; simp)+
    then show ?thesis using awake u by (auto simp: midway_def)
  qed
  have free: "can_go u (P u) S \<or> kmutex S \<and> \<not> kholds (P u) \<or> (\<exists>cv. ws_lock S cv)" if "midway S u (P u)" for u
    using that by (cases "P u") (auto simp: midway_def)
  have km: "\<exists>u. midway S u (P u) \<and> can_go u (P u) S" if l: "kmutex S"
  proof -
    from l ok(1) obtain u where u: "kholds (P u)" by (auto simp: excl_def)
    then have "midway S u (P u)" using awake by (cases "P u") (auto simp: midway_def)
    then show ?thesis using free ws u by blast
  qed
  show ?thesis using free [OF assms(2)] assms(2) ws km by blast
qed

lemma helper_midway: "wake_ok P S \<Longrightarrow> helper S m (P m) \<Longrightarrow> midway S m (P m)"
  using wake_okD(1) [of P S m] by (cases "P m") (auto simp: midway_def)

section \<open>Properties\<close>

text \<open>
  C17. No wakeup is lost, whatever the order of the accesses of the threads.  A thread that sleeps is in the ring of its
  condition variable, or another thread has just taken it from there and is about to wake it up.  When the
  kernel semaphore is free and a thread sleeps for it, some other thread is awake and about to test the semaphore or to
  wake up a sleeper, and some thread in the code of the lock can make its next step.  More generally, threads that
  are awake in this code never all block each other, no assertion fails, and at most one thread owns the semaphore.
\<close>

theorem kernel_lock_no_lost_wakeup:
  assumes "lock_step\<^sup>*\<^sup>* (lock_start calls) (pc, S)"
  shows "(\<forall>t. stopped S t \<longrightarrow> (\<exists>cv. places pc t = W_relock cv \<and> (t \<in> set (ring S cv) \<or> (\<exists>m b k. places pc m = S_wake cv b k t)))) \<and>
    (0 < sem S \<longrightarrow> (\<exists>t. stopped S t \<and> places pc t = W_relock Sem) \<longrightarrow>
       (\<exists>m. helper S m (places pc m) \<and> midway S m (places pc m))) \<and>
    (\<forall>m. midway S m (places pc m) \<longrightarrow> (\<exists>u. midway S u (places pc u) \<and> lock_ready u (pc, S))) \<and>
    (\<forall>u. lock_ready u (pc, S) \<longrightarrow> lock_turn u (pc u) S \<noteq> None) \<and>
    (\<forall>t u. owns_sem (places pc t) \<longrightarrow> owns_sem (places pc u) \<longrightarrow> t = u)"
proof -
  have i: "protocol_inv (pc, S)" by (rule lock_monitor.steps_keep [OF assms lock_start_inv])
  then have inv: "lock_inv (places pc) S" by (simp add: protocol_inv_def)
  then have ok: "ring_ok (places pc) S" "wake_ok (places pc) S" "kept_ok (places pc) S" "excl (sem S = 0) owns_sem (places pc)"
    by (simp_all add: lock_inv_def sem_held_def)
  have "\<exists>cv. places pc t = W_relock cv \<and> (t \<in> set (ring S cv) \<or> (\<exists>m b k. places pc m = S_wake cv b k t))" if st: "stopped S t" for t
  proof -
    obtain cv where cv: "places pc t = W_relock cv" using wake_okD(1) [OF ok(2) st] by blast
    then show ?thesis using wake_okD(2) [OF ok(2) st cv] ring_okD(2) [OF ok(1), of t cv] by auto
  qed
  moreover have "\<exists>m. helper S m (places pc m) \<and> midway S m (places pc m)" if sl: "0 < sem S" "stopped S t" "places pc t = W_relock Sem" for t
  proof -
    have "sleeper S t (places pc t)" using sl by (simp add: sleeper_def)
    then obtain m where "helper S m (places pc m)" using ok(3) sl(1) unfolding kept_ok_def by blast
    then show ?thesis using helper_midway [OF ok(2)] by blast
  qed
  moreover have "\<exists>u. midway S u (places pc u) \<and> lock_ready u (pc, S)" if m: "midway S m (places pc m)" for m
  proof -
    obtain u where u: "midway S u (places pc u)" "can_go u (places pc u) S" using someone_can_go [OF inv m] by blast
    then have "lock_ready u (pc, S)" by (simp add: lock_ready_def places_def midway_def)
    then show ?thesis using u by blast
  qed
  moreover have "lock_turn u (pc u) S \<noteq> None" if "lock_ready u (pc, S)" for u by (rule lock_monitor.ready_steps(1) [OF i that])
  moreover have "t = u" if "owns_sem (places pc t)" "owns_sem (places pc u)" for t u using ok(4) that by (simp add: excl_def)
  ultimately show ?thesis by blast
qed

text \<open>
  Thread 0 is in the kernel while thread 1 comes, finds the semaphore taken and falls asleep; then thread 0 gives
  the semaphore back and is about to signal.
\<close>

definition lock_run :: "(nat, lpc \<times> cmd list, lock_state) mstate option" where
  "lock_run = run_threads lock_ready lock_turn [0, 0, 0, 0, 0, 1, 1, 1, 1, 1, 1, 1, 0, 0, 0]
     (lock_start (\<lambda>t. if t = 0 then [C_lock, C_unlock] else if t = 1 then [C_lock] else []))"

theorem kernel_lock_no_lost_wakeup_witness:
  "\<exists>calls pc S. lock_step\<^sup>*\<^sup>* (lock_start calls) (pc, S) \<and> sem S = 1 \<and> stopped S 1 \<and> places pc 1 = W_relock Sem \<and> 1 \<in> set (ring S Sem) \<and>
     (\<exists>m. helper S m (places pc m) \<and> midway S m (places pc m)) \<and> (\<exists>u. lock_ready u (pc, S) \<and> lock_turn u (pc u) S \<noteq> None)"
proof -
  let ?calls = "\<lambda>t :: nat. if t = 0 then [C_lock, C_unlock] else if t = 1 then [C_lock] else []"
  obtain pc S where r: "lock_run = Some (pc, S)" "sem S = 1" "stopped S 1" "places pc 1 = W_relock Sem" "1 \<in> set (ring S Sem)"
    by (simp add: lock_run_def lock_start_def lock_ready_def call_turn_def places_def)
  have "(lock_step ^^ length [0, 0, 0, 0, 0, 1, 1, 1, 1, 1, 1, 1, 0, 0, 0 :: nat]) (lock_start ?calls) (pc, S)"
    by (rule lock_monitor.run_threads_steps) (use r(1) in \<open>simp add: lock_run_def\<close>)
  then have s: "lock_step\<^sup>*\<^sup>* (lock_start ?calls) (pc, S)" by (rule relpowp_imp_rtranclp)
  note p = kernel_lock_no_lost_wakeup [OF s]
  have "\<exists>m. helper S m (places pc m) \<and> midway S m (places pc m)"
    using p [THEN conjunct2, THEN conjunct1] r(2-4) by auto
  moreover from this have "\<exists>u. lock_ready u (pc, S) \<and> lock_turn u (pc u) S \<noteq> None" using p by blast
  ultimately show ?thesis using s r(2-5) by blast
qed

end
