(* ===== verification/Barrier.thy ===== *)
theory Barrier
  imports Monitor
begin

text \<open>
  The barrier of \<^verbatim>\<open>tinyoslib.c\<close>: \<^verbatim>\<open>BarrierSync(bar, n)\<close> for the threads \<open>0, ..., n - 1\<close>.

  The body runs with the mutex of the barrier held except while it sleeps on the condition
  variable, so that the code up to the sleep or the return, and every pass of the loop after a
  wake-up, is one step.  The two counters are 32-bit and wrap around.
\<close>

section \<open>The operation\<close>

record barrier =
  bar_count :: uint32
  bar_epoch :: uint32
  bar_cv :: "nat list"

definition BARRIER_INIT :: barrier where
  "BARRIER_INIT = \<lparr>bar_count = 0, bar_epoch = 0, bar_cv = []\<rparr>"

text \<open>A thread is outside, having returned from \<open>k\<close> calls, or inside its call number \<open>k\<close> with its local \<^verbatim>\<open>epoch\<close>.\<close>

datatype bar_pc = Outside nat | Inside nat uint32

text \<open>\<^verbatim>\<open>while(epoch == bar->epoch) Cond_Wait(&bar->mx, &bar->cv);\<close> up to the sleep or the return.\<close>

definition barrier_loop :: "nat \<Rightarrow> nat \<Rightarrow> uint32 \<Rightarrow> barrier \<Rightarrow> bar_pc \<times> barrier" where
  "barrier_loop t k e bar =
     (if e = bar_epoch bar then (Inside k e, bar\<lparr>bar_cv := bar_cv bar @ [t]\<rparr>) else (Outside (k + 1), bar))"

definition BarrierSync :: "nat \<Rightarrow> nat \<Rightarrow> uint32 \<Rightarrow> barrier \<Rightarrow> (bar_pc \<times> barrier) option" where
  "BarrierSync t k n bar =
     do { c_assert (n > 0);
          let epoch = bar_epoch bar;
          c_assert (bar_count bar < n);
          let bar1 = bar\<lparr>bar_count := bar_count bar + 1\<rparr>;
          let bar2 = (if bar_count bar1 = n
                      then bar1\<lparr>bar_epoch := bar_epoch bar1 + 1, bar_count := 0, bar_cv := []\<rparr> else bar1);
          Some (barrier_loop t k epoch bar2) }"

definition bar_thread :: "nat \<Rightarrow> uint32 \<Rightarrow> bar_pc \<Rightarrow> barrier \<Rightarrow> (bar_pc \<times> barrier) option" where
  "bar_thread t n pc bar =
     (case pc of Outside k \<Rightarrow> BarrierSync t k n bar | Inside k e \<Rightarrow> Some (barrier_loop t k e bar))"

definition bar_awake :: "nat \<Rightarrow> barrier \<Rightarrow> bool" where
  "bar_awake t bar \<longleftrightarrow> t \<notin> set (bar_cv bar)"

definition bar_ready :: "uint32 \<Rightarrow> nat \<Rightarrow> (nat, bar_pc, barrier) mstate \<Rightarrow> bool" where
  "bar_ready n t T \<longleftrightarrow> t < unat n \<and> bar_awake t (snd T)"

inductive bar_step :: "uint32 \<Rightarrow> (nat, bar_pc, barrier) mstate \<Rightarrow> (nat, bar_pc, barrier) mstate \<Rightarrow> bool" for n where
  "bar_ready n t (pc, bar) \<Longrightarrow> bar_thread t n (pc t) bar = Some (q, bar') \<Longrightarrow> bar_step n (pc, bar) (pc(t := q), bar')"

inductive_simps bar_step_iff: "bar_step n (pc, bar) T"

definition bar_start :: "(nat, bar_pc, barrier) mstate" where
  "bar_start = (\<lambda>_. Outside 0, BARRIER_INIT)"

section \<open>The invariant\<close>

text \<open>The number of the last round that a thread has entered.\<close>

definition entered :: "bar_pc \<Rightarrow> nat" where
  "entered pc = (case pc of Outside k \<Rightarrow> k | Inside k e \<Rightarrow> k + 1)"

text \<open>
  In round \<open>r\<close> a thread has not arrived yet, or has arrived and sleeps, or still has to leave
  the round before.
\<close>

definition bar_at :: "nat \<Rightarrow> nat \<Rightarrow> bar_pc \<Rightarrow> barrier \<Rightarrow> bool" where
  "bar_at r t pc bar \<longleftrightarrow>
     (case pc of Outside k \<Rightarrow> k = r \<and> t \<notin> set (bar_cv bar)
      | Inside k e \<Rightarrow> k = r \<and> e = of_nat r \<and> t \<in> set (bar_cv bar) \<or> Suc k = r \<and> e = of_nat k \<and> t \<notin> set (bar_cv bar))"

definition bar_arrived :: "uint32 \<Rightarrow> nat \<Rightarrow> (nat \<Rightarrow> bar_pc) \<Rightarrow> nat set" where
  "bar_arrived n r pc = {t. t < unat n \<and> entered (pc t) = r + 1}"

definition bar_inv :: "uint32 \<Rightarrow> nat \<Rightarrow> (nat, bar_pc, barrier) mstate \<Rightarrow> bool" where
  "bar_inv n r T \<longleftrightarrow>
     bar_epoch (snd T) = of_nat r \<and> (\<forall>t < unat n. bar_at r t (fst T t) (snd T)) \<and>
     unat (bar_count (snd T)) = card (bar_arrived n r (fst T)) \<and> bar_count (snd T) < n"

lemma bar_start_inv: "0 < n \<Longrightarrow> bar_inv n 0 bar_start"
  by (simp add: bar_inv_def bar_start_def BARRIER_INIT_def bar_at_def bar_arrived_def entered_def)

lemma bar_inv_at: "bar_inv n r (pc, bar) \<Longrightarrow> t < unat n \<Longrightarrow> bar_at r t (pc t) bar"
  by (simp add: bar_inv_def)

lemma epoch_next: "(of_nat r :: uint32) \<noteq> of_nat (Suc r)"
  by simp

lemma bar_atD: "bar_at r t pc bar \<Longrightarrow> entered pc = r + 1 \<longleftrightarrow> t \<in> set (bar_cv bar)"
  by (auto simp: bar_at_def entered_def split: bar_pc.splits)

lemma bar_arrived_upd:
  assumes "t < unat n" "entered (pc t) = r" "entered q = r + 1"
  shows "card (bar_arrived n r (pc(t := q))) = card (bar_arrived n r pc) + 1"
proof -
  have "bar_arrived n r (pc(t := q)) = insert t (bar_arrived n r pc)" "t \<notin> bar_arrived n r pc"
    using assms by (auto simp: bar_arrived_def)
  moreover have "finite (bar_arrived n r pc)" by (simp add: bar_arrived_def)
  ultimately show ?thesis by simp
qed

text \<open>A thread that still has to leave the round before.\<close>

lemma leave_inv:
  assumes "bar_inv n r (pc, bar)" "t < unat n" "pc t = Inside k e" "bar_awake t bar"
  shows "barrier_loop t k e bar = (Outside r, bar)" "bar_inv n r (pc(t := Outside r), bar)"
proof -
  have at: "Suc k = r" "e = of_nat k" "bar_at r t (pc t) bar"
    using assms by (auto simp: bar_inv_def bar_at_def bar_awake_def)
  then show "barrier_loop t k e bar = (Outside r, bar)"
    using assms(1) epoch_next [of k] by (auto simp: barrier_loop_def bar_inv_def)
  have "bar_arrived n r (pc(t := Outside r)) = bar_arrived n r pc"
    using assms(2,3) at(1) by (auto simp: bar_arrived_def entered_def)
  then show "bar_inv n r (pc(t := Outside r), bar)"
    using assms by (auto simp: bar_inv_def bar_at_def bar_awake_def)
qed

lemma count_next:
  fixes c n :: uint32
  assumes "c < n"
  shows "unat (c + 1) = unat c + 1" "c + 1 \<noteq> n \<Longrightarrow> c + 1 < n"
proof -
  have "unat n < 2 ^ 32" using unsigned_less [of n] by simp
  then show u: "unat (c + 1) = unat c + 1"
    using assms unat_add_lem [of c 1] by (simp add: word_less_nat_alt)
  show "c + 1 < n" if "c + 1 \<noteq> n"
  proof -
    have "unat (c + 1) \<noteq> unat n" using that unfolding word_unat_eq_iff .
    then show ?thesis using assms u by (simp add: word_less_nat_alt)
  qed
qed

text \<open>An arrival that does not complete the round.\<close>

lemma arrive_inv:
  assumes "bar_inv n r (pc, bar)" "t < unat n" "pc t = Outside k" "bar_count bar + 1 \<noteq> n"
  obtains bar' where "BarrierSync t k n bar = Some (Inside r (of_nat r), bar')" "bar_inv n r (pc(t := Inside r (of_nat r)), bar')"
proof -
  have at: "k = r" "bar_epoch bar = of_nat r" "bar_count bar < n" "\<forall>u < unat n. bar_at r u (pc u) bar"
    using assms by (auto simp: bar_inv_def bar_at_def)
  let ?bar = "bar\<lparr>bar_count := bar_count bar + 1, bar_cv := bar_cv bar @ [t]\<rparr>"
  have "0 < n" using at(3) by (metis word_gt_0 word_not_simps(1))
  then have "BarrierSync t k n bar = Some (Inside r (of_nat r), ?bar)"
    using at assms(4) by (simp add: BarrierSync_def barrier_loop_def Let_def)
  moreover have "bar_inv n r (pc(t := Inside r (of_nat r)), ?bar)"
  proof -
    have "card (bar_arrived n r (pc(t := Inside r (of_nat r)))) = card (bar_arrived n r pc) + 1"
      using assms(2,3) at(1) by (intro bar_arrived_upd) (simp_all add: entered_def)
    moreover have "bar_at r u ((pc(t := Inside r (of_nat r))) u) ?bar" if "u < unat n" for u
      using at(4) that by (auto simp: bar_at_def split: bar_pc.splits)
    ultimately show ?thesis
      using assms(1) at(2,3) count_next [OF at(3)] assms(4) by (simp add: bar_inv_def)
  qed
  ultimately show ?thesis by (rule that)
qed

text \<open>The arrival of the last thread completes the round and starts the next one.\<close>

lemma complete_inv:
  assumes "bar_inv n r (pc, bar)" "t < unat n" "pc t = Outside k" "bar_count bar + 1 = n"
  obtains bar' where "BarrierSync t k n bar = Some (Outside (r + 1), bar')" "bar_inv n (r + 1) (pc(t := Outside (r + 1)), bar')"
    "\<forall>u < unat n. r + 1 \<le> entered ((pc(t := Outside (r + 1))) u)"
proof -
  have at: "k = r" "bar_epoch bar = of_nat r" "bar_count bar < n" "\<forall>u < unat n. bar_at r u (pc u) bar"
    using assms by (auto simp: bar_inv_def bar_at_def)
  let ?bar = "bar\<lparr>bar_count := 0, bar_epoch := bar_epoch bar + 1, bar_cv := []\<rparr>"
  let ?pc = "pc(t := Outside (r + 1))"
  have n: "0 < n" using at(3) by (metis word_gt_0 word_not_simps(1))
  have sync: "BarrierSync t k n bar = Some (Outside (r + 1), ?bar)"
    using at assms(4) n by (simp add: BarrierSync_def barrier_loop_def Let_def)
  have "card (bar_arrived n r ?pc) = unat n"
    using bar_arrived_upd [of t n pc r "Outside (r + 1)"] assms count_next(1) [OF at(3)] at(1)
    by (simp add: bar_inv_def entered_def)
  moreover have "bar_arrived n r ?pc \<subseteq> {..<unat n}" by (auto simp: bar_arrived_def)
  ultimately have all: "bar_arrived n r ?pc = {..<unat n}" by (intro card_subset_eq) simp_all
  have e: "entered (?pc u) = r + 1" if "u < unat n" for u
  proof -
    have "u \<in> bar_arrived n r ?pc" unfolding all using that by simp
    then show ?thesis unfolding bar_arrived_def by blast
  qed
  have "bar_at (r + 1) u (?pc u) ?bar" if "u < unat n" for u
  proof (cases "u = t")
    case False
    then have "entered (pc u) = r + 1" using e [OF that] by simp
    then show ?thesis using at(4) that False by (auto simp: bar_at_def entered_def split: bar_pc.splits)
  qed (simp add: bar_at_def)
  moreover have "bar_arrived n (r + 1) ?pc = {}" using e by (auto simp: bar_arrived_def)
  ultimately have "bar_inv n (r + 1) (?pc, ?bar)" using at(2) n by (simp add: bar_inv_def)
  with sync show ?thesis using e by (intro that) auto
qed

lemma bar_thread_step:
  assumes "bar_inv n r (pc, bar)" "t < unat n" "bar_awake t bar"
  obtains q bar' r' where "bar_thread t n (pc t) bar = Some (q, bar')" "bar_inv n r' (pc(t := q), bar')"
proof (cases "pc t")
  case (Outside k)
  then have sync: "bar_thread t n (pc t) bar = BarrierSync t k n bar" by (simp add: bar_thread_def)
  show ?thesis
  proof (cases "bar_count bar + 1 = n")
    case True
    then show ?thesis using that unfolding sync by (rule complete_inv [OF assms(1,2) Outside]) blast
  next
    case False
    then show ?thesis using that unfolding sync by (rule arrive_inv [OF assms(1,2) Outside]) blast
  qed
next
  case (Inside k e)
  then show ?thesis using that leave_inv [OF assms(1,2) Inside assms(3)] by (auto simp: bar_thread_def)
qed

interpretation bar: monitor "bar_step n" "bar_ready n" "\<lambda>t. bar_thread t n" "\<lambda>T. \<exists>r. bar_inv n r T" for n
proof
  show "\<exists>q bar'. bar_thread t n (pc t) bar = Some (q, bar') \<and> (\<exists>r. bar_inv n r (pc(t := q), bar'))"
    if "\<exists>r. bar_inv n r (pc, bar)" "bar_ready n t (pc, bar)" for pc bar t
    using that bar_thread_step [of n _ pc bar t] by (metis bar_ready_def snd_conv)
qed (auto simp: bar_step_iff)

text \<open>Somebody is always awake: not all the \<open>n\<close> threads have arrived.\<close>

lemma bar_someone_awake:
  assumes "bar_inv n r (pc, bar)"
  obtains t where "t < unat n" "bar_awake t bar"
proof -
  have "card (bar_arrived n r pc) < card {..<unat n}" using assms by (simp add: bar_inv_def word_less_nat_alt)
  moreover have "finite (bar_arrived n r pc)" by (simp add: bar_arrived_def)
  ultimately have "\<not> {..<unat n} \<subseteq> bar_arrived n r pc" using card_mono leD by blast
  then obtain t where "t < unat n" "entered (pc t) \<noteq> r + 1" by (auto simp: bar_arrived_def)
  then show ?thesis using assms bar_atD [of r t "pc t" bar] by (intro that) (auto simp: bar_inv_def bar_awake_def)
qed

lemma bar_run1:
  "map_option (\<lambda>(pc, bar). (pc 0, pc 1, bar_epoch bar)) (run_threads (bar_ready 2) (\<lambda>t. bar_thread t 2) [0, 1] bar_start) = Some (Inside 0 0, Outside 1, 1)"
  by code_simp

section \<open>Properties\<close>

text \<open>
  C34.  The barrier separates the rounds of the \<open>n\<close> threads that share it, for any number of rounds
  (the counter of the epochs wraps around at \<open>2^32\<close>): a thread that has returned \<open>k\<close> times knows that
  every thread has made its call number \<open>k\<close>, the assertions of \<^verbatim>\<open>BarrierSync\<close> hold whenever a thread
  runs it, and some thread can always run, so that nobody waits for ever.
\<close>

theorem barrier_separates_rounds:
  assumes "(bar_step n)\<^sup>*\<^sup>* bar_start (pc, bar)" "0 < n"
  shows "(\<forall>t < unat n. \<forall>u < unat n. \<forall>k. pc t = Outside k \<longrightarrow> k \<le> entered (pc u)) \<and>
    (\<forall>t < unat n. bar_awake t bar \<longrightarrow> bar_thread t n (pc t) bar \<noteq> None) \<and>
    (\<exists>T. bar_step n (pc, bar) T)"
proof (intro conjI allI impI)
  obtain r where inv: "bar_inv n r (pc, bar)" using bar.steps_keep [OF assms(1)] bar_start_inv [OF assms(2)] by blast
  show "k \<le> entered (pc u)" if "t < unat n" "u < unat n" "pc t = Outside k" for t u k
  proof -
    have "bar_at r t (pc t) bar" "bar_at r u (pc u) bar" using bar_inv_at [OF inv] that(1,2) by blast+
    then show ?thesis using that(3) by (auto simp: bar_at_def entered_def split: bar_pc.splits)
  qed
  show "bar_thread t n (pc t) bar \<noteq> None" if "t < unat n" "bar_awake t bar" for t
    using bar.ready_steps(1) [of n pc bar t] inv that by (auto simp: bar_ready_def)
  show "\<exists>T. bar_step n (pc, bar) T"
    by (rule bar_someone_awake [OF inv]) (use bar.ready_steps(2) [of n pc bar] inv in \<open>auto simp: bar_ready_def\<close>)
qed

theorem barrier_separates_rounds_witness:
  "\<exists>pc bar. run_threads (bar_ready 2) (\<lambda>t. bar_thread t 2) [0, 1] bar_start = Some (pc, bar) \<and> pc 1 = Outside 1 \<and> 1 \<le> entered (pc 0) \<and>
     (\<exists>T. bar_step 2 (pc, bar) T)"
proof -
  obtain pc bar where r: "run_threads (bar_ready 2) (\<lambda>t. bar_thread t 2) [0, 1] bar_start = Some (pc, bar)" "pc (Suc 0) = Outside (Suc 0)" using bar_run1 by auto
  have "(0 :: uint32) < 2" "unat (2 :: uint32) = 2" by simp_all
  with barrier_separates_rounds [OF relpowp_imp_rtranclp [OF bar.run_threads_steps [OF r(1)]]]
  have "\<forall>t < 2. \<forall>u < 2. \<forall>k. pc t = Outside k \<longrightarrow> k \<le> entered (pc u)" "\<exists>T. bar_step 2 (pc, bar) T"
    by simp_all
  from this(1) [rule_format, of 1 0 1] this(2) r show ?thesis by (intro exI [of _ pc] exI [of _ bar]) simp
qed

end
