(* ===== verification/Symposium.thy ===== *)
theory Symposium
  imports Monitor "HOL-Library.Signed_Division"
begin

text \<open>
  The dining philosophers of \<^verbatim>\<open>symposium.c\<close>.

  The table is a monitor: every access to the states of the philosophers happens with its mutex
  held, so that the code between two locks of the mutex is one step.  A philosopher is at one of
  the places of \<^verbatim>\<open>SymposiumTable_philosopher\<close> where the mutex is not held; \<open>hungry S i\<close> holds
  the philosophers that sleep on the condition variable \<^verbatim>\<open>hungry[i]\<close>.
\<close>

section \<open>The table\<close>

datatype PHIL = NOTHERE | THINKING | HUNGRY | EATING

record symposium_t =
  symp_N :: nat
  bites :: nat
  fmin :: int
  fmax :: int

record SymposiumTable =
  symp :: symposium_t
  phils :: "PHIL list"
  hungry :: "nat \<Rightarrow> nat list"

definition LEFT :: "nat \<Rightarrow> nat \<Rightarrow> nat" where
  "LEFT i N = (i + 1) mod N"

definition RIGHT :: "nat \<Rightarrow> nat \<Rightarrow> nat" where
  "RIGHT i N = (i + N - 1) mod N"

definition set_phil :: "nat \<Rightarrow> PHIL \<Rightarrow> SymposiumTable \<Rightarrow> SymposiumTable" where
  "set_phil i x S = S\<lparr>phils := (phils S)[i := x]\<rparr>"

definition signal_hungry :: "nat \<Rightarrow> SymposiumTable \<Rightarrow> SymposiumTable" where
  "signal_hungry i S = S\<lparr>hungry := (hungry S)(i := tl (hungry S i))\<rparr>"

definition trytoeat :: "nat \<Rightarrow> SymposiumTable \<Rightarrow> SymposiumTable" where
  "trytoeat i S =
     (let N = symp_N (symp S) in
      if phils S ! i = HUNGRY \<and> phils S ! LEFT i N \<noteq> EATING \<and> phils S ! RIGHT i N \<noteq> EATING
      then signal_hungry i (set_phil i EATING S) else S)"

definition SymposiumTable_init :: "symposium_t \<Rightarrow> SymposiumTable" where
  "SymposiumTable_init sy = \<lparr>symp = sy, phils = replicate (symp_N sy) NOTHERE, hungry = (\<lambda>_. [])\<rparr>"

section \<open>The philosopher\<close>

text \<open>
  Before the arrival, thinking before bite \<open>j\<close>, sleeping hungry, eating, after the loop, and at the end.
\<close>

datatype phil_pc = At_arrive | At_think nat | At_wait nat | At_eat nat | At_leave | At_end

definition loop_head :: "nat \<Rightarrow> nat \<Rightarrow> phil_pc" where
  "loop_head b j = (if j < b then At_think j else At_leave)"

text \<open>The loop \<^verbatim>\<open>while(state[i]==HUNGRY) Cond_Wait(..)\<close> and the assertion after it.\<close>

definition wait_hungry :: "nat \<Rightarrow> nat \<Rightarrow> SymposiumTable \<Rightarrow> (phil_pc \<times> SymposiumTable) option" where
  "wait_hungry i j S =
     (if phils S ! i = HUNGRY then Some (At_wait j, S\<lparr>hungry := (hungry S)(i := hungry S i @ [i])\<rparr>)
      else do { c_assert (phils S ! i = EATING); Some (At_eat j, S) })"

definition become_hungry :: "nat \<Rightarrow> nat \<Rightarrow> SymposiumTable \<Rightarrow> (phil_pc \<times> SymposiumTable) option" where
  "become_hungry i j S = wait_hungry i j (trytoeat i (set_phil i HUNGRY S))"

definition stop_eating :: "nat \<Rightarrow> SymposiumTable \<Rightarrow> SymposiumTable" where
  "stop_eating i S =
     (let N = symp_N (symp S) in trytoeat (RIGHT i N) (trytoeat (LEFT i N) (set_phil i THINKING S)))"

text \<open>
  One step of a philosopher who neither sleeps nor has returned; the result is \<open>None\<close> if the
  assertion fails.
\<close>

definition runnable :: "nat \<Rightarrow> phil_pc \<Rightarrow> SymposiumTable \<Rightarrow> bool" where
  "runnable i pc S \<longleftrightarrow> pc \<noteq> At_end \<and> i \<notin> set (hungry S i)"

definition philosopher :: "nat \<Rightarrow> phil_pc \<Rightarrow> SymposiumTable \<Rightarrow> (phil_pc \<times> SymposiumTable) option" where
  "philosopher i pc S =
     (case pc of
        At_arrive \<Rightarrow> Some (loop_head (bites (symp S)) 0, set_phil i THINKING S)
      | At_think j \<Rightarrow> become_hungry i j S
      | At_wait j \<Rightarrow> wait_hungry i j S
      | At_eat j \<Rightarrow> Some (loop_head (bites (symp S)) (j + 1), stop_eating i S)
      | At_leave \<Rightarrow> Some (At_end, set_phil i NOTHERE S)
      | At_end \<Rightarrow> Some (At_end, S))"

type_synonym symp_state = "(nat, phil_pc, SymposiumTable) mstate"

definition phil_ready :: "nat \<Rightarrow> symp_state \<Rightarrow> bool" where
  "phil_ready i T \<longleftrightarrow> i < symp_N (symp (snd T)) \<and> runnable i (fst T i) (snd T)"

inductive symp_step :: "symp_state \<Rightarrow> symp_state \<Rightarrow> bool" where
  "phil_ready i (pc, S) \<Longrightarrow> philosopher i (pc i) S = Some (q, S') \<Longrightarrow> symp_step (pc, S) (pc(i := q), S')"

inductive_simps symp_step_iff: "symp_step (pc, S) T"

definition symp_start :: "symposium_t \<Rightarrow> symp_state" where
  "symp_start sy = (\<lambda>_. At_arrive, SymposiumTable_init sy)"

section \<open>Neighbours\<close>

definition nb :: "nat \<Rightarrow> nat \<Rightarrow> nat set" where
  "nb N i = {LEFT i N, RIGHT i N}"

lemma RIGHT_eq: "i < N \<Longrightarrow> RIGHT i N = (if i = 0 then N - 1 else i - 1)"
proof (cases i)
  case (Suc m)
  moreover assume "i < N"
  moreover have "(m + N) mod N = m mod N" by (rule mod_add_self2)
  ultimately show ?thesis by (simp add: RIGHT_def)
qed (simp add: RIGHT_def)

lemma LEFT_eq: "i < N \<Longrightarrow> LEFT i N = (if i + 1 = N then 0 else i + 1)"
  by (auto simp: LEFT_def)

lemma nb_lt: "i < N \<Longrightarrow> k \<in> nb N i \<Longrightarrow> k < N"
  by (auto simp: nb_def LEFT_eq RIGHT_eq)

lemma nb_sym: "i < N \<Longrightarrow> k < N \<Longrightarrow> k \<in> nb N i \<longleftrightarrow> i \<in> nb N k"
  by (auto simp: nb_def LEFT_eq RIGHT_eq split: if_splits)

section \<open>The invariant\<close>

text \<open>No two neighbours eat, and a hungry philosopher outside \<open>H\<close> has a neighbour who eats.\<close>

definition no_neighbours :: "PHIL list \<Rightarrow> bool" where
  "no_neighbours st \<longleftrightarrow> (\<forall>i < length st. \<forall>k \<in> nb (length st) i. k \<noteq> i \<longrightarrow> st ! i = EATING \<longrightarrow> st ! k \<noteq> EATING)"

definition hungry_ok :: "nat set \<Rightarrow> PHIL list \<Rightarrow> bool" where
  "hungry_ok H st \<longleftrightarrow> (\<forall>i < length st. i \<notin> H \<longrightarrow> st ! i = HUNGRY \<longrightarrow> (\<exists>k \<in> nb (length st) i. st ! k = EATING))"

definition try_list :: "nat \<Rightarrow> PHIL list \<Rightarrow> PHIL list" where
  "try_list i st = (if st ! i = HUNGRY \<and> (\<forall>k \<in> nb (length st) i. st ! k \<noteq> EATING) then st[i := EATING] else st)"

lemma try_list_length [simp]: "length (try_list i st) = length st"
  by (simp add: try_list_def)

lemma try_list_ok:
  assumes "no_neighbours st" "hungry_ok H st" "i < length st"
  shows "no_neighbours (try_list i st)" "hungry_ok (H - {i}) (try_list i st)"
proof -
  let ?n = "length st"
  show "no_neighbours (try_list i st)"
  proof (cases "st ! i = HUNGRY \<and> (\<forall>k \<in> nb ?n i. st ! k \<noteq> EATING)")
    case True
    then have t: "try_list i st = st[i := EATING]" by (simp add: try_list_def)
    show ?thesis unfolding no_neighbours_def t length_list_update
    proof (intro allI ballI impI)
      fix a k assume a: "a < ?n" "k \<in> nb ?n a" "k \<noteq> a" "st[i := EATING] ! a = EATING"
      then have "k < ?n" using nb_lt by blast
      show "st[i := EATING] ! k \<noteq> EATING"
      proof (cases "a = i")
        case True
        then show ?thesis using a \<open>st ! i = HUNGRY \<and> _\<close> by simp
      next
        case False
        then have "st ! a = EATING" using a(4) by simp
        moreover from this have "a \<notin> nb ?n i" using True by blast
        then have "k \<noteq> i" using a(1,2) nb_sym [OF a(1) assms(3)] by blast
        ultimately show ?thesis using assms(1) a(1-3) by (simp add: no_neighbours_def)
      qed
    qed
  next
    case False
    then have "try_list i st = st" unfolding try_list_def by (rule if_not_P)
    then show ?thesis using assms(1) by simp
  qed
  show "hungry_ok (H - {i}) (try_list i st)"
  proof (cases "st ! i = HUNGRY \<and> (\<forall>k \<in> nb ?n i. st ! k \<noteq> EATING)")
    case True
    then have t: "try_list i st = st[i := EATING]" by (simp add: try_list_def)
    show ?thesis unfolding hungry_ok_def t length_list_update
    proof (intro allI impI)
      fix a assume a: "a < ?n" "a \<notin> H - {i}" "st[i := EATING] ! a = HUNGRY"
      then have "a \<noteq> i" using assms(3) by auto
      then have "st ! a = HUNGRY" "a \<notin> H" using a by auto
      then obtain k where k: "k \<in> nb ?n a" "st ! k = EATING" using assms(2) a(1) by (auto simp: hungry_ok_def)
      then have "st[i := EATING] ! k = EATING" using nb_lt [OF a(1) k(1)] by (cases "k = i") simp_all
      then show "\<exists>k \<in> nb ?n a. st[i := EATING] ! k = EATING" using k(1) by blast
    qed
  next
    case False
    then show ?thesis using assms(2) by (auto simp: try_list_def hungry_ok_def)
  qed
qed

lemma leaves_plate:
  assumes "no_neighbours st" "hungry_ok {} st" "i < length st" "x \<noteq> EATING"
  shows "no_neighbours (st[i := x])" "x \<noteq> HUNGRY \<Longrightarrow> hungry_ok (nb (length st) i) (st[i := x])"
    "st ! i \<noteq> EATING \<Longrightarrow> hungry_ok {i} (st[i := x])" "st ! i \<noteq> EATING \<Longrightarrow> x \<noteq> HUNGRY \<Longrightarrow> hungry_ok {} (st[i := x])"
proof -
  let ?n = "length st"
  have stays: "st ! k = EATING" if "k < ?n" "st[i := x] ! k = EATING" for k
    using that assms(4) by (cases "k = i") simp_all
  show "no_neighbours (st[i := x])" unfolding no_neighbours_def length_list_update
  proof (intro allI ballI impI notI)
    fix a k assume a: "a < ?n" "k \<in> nb ?n a" "k \<noteq> a" "st[i := x] ! a = EATING" "st[i := x] ! k = EATING"
    then have "st ! a = EATING" "st ! k = EATING" using stays nb_lt [OF a(1,2)] by auto
    then show False using assms(1) a(1-3) by (simp add: no_neighbours_def)
  qed
  show "hungry_ok (nb ?n i) (st[i := x])" if "x \<noteq> HUNGRY" unfolding hungry_ok_def length_list_update
  proof (intro allI impI)
    fix a assume a: "a < ?n" "a \<notin> nb ?n i" "st[i := x] ! a = HUNGRY"
    then have "a \<noteq> i" using that assms(3) by auto
    then obtain k where k: "k \<in> nb ?n a" "st ! k = EATING" using a assms(2) by (auto simp: hungry_ok_def)
    then have "k \<noteq> i" using a(1,2) nb_sym [OF a(1) assms(3)] by blast
    then show "\<exists>k \<in> nb ?n a. st[i := x] ! k = EATING" using k by (intro bexI [of _ k]) simp_all
  qed
  have other: "\<exists>k \<in> nb ?n a. st[i := x] ! k = EATING" if "st ! i \<noteq> EATING" "a < ?n" "a \<noteq> i" "st[i := x] ! a = HUNGRY" for a
  proof -
    have "st ! a = HUNGRY" using that(3,4) by simp
    with that(2) obtain k where k: "k \<in> nb ?n a" "st ! k = EATING" using assms(2) by (auto simp: hungry_ok_def)
    moreover from this have "k \<noteq> i" using that(1) by auto
    ultimately show ?thesis by (intro bexI [of _ k]) simp_all
  qed
  show "hungry_ok {i} (st[i := x])" if "st ! i \<noteq> EATING" using other [OF that] by (simp add: hungry_ok_def)
  show "hungry_ok {} (st[i := x])" if "st ! i \<noteq> EATING" "x \<noteq> HUNGRY" unfolding hungry_ok_def length_list_update
  proof (intro allI impI)
    fix a assume a: "a < ?n" "st[i := x] ! a = HUNGRY"
    then have "a \<noteq> i" using that(2) by auto
    then show "\<exists>k \<in> nb ?n a. st[i := x] ! k = EATING" using other [OF that(1) a(1) _ a(2)] by blast
  qed
qed

text \<open>What the place of philosopher \<open>i\<close> says of her state and of her condition variable.\<close>

definition phil_ok :: "nat \<Rightarrow> nat \<Rightarrow> phil_pc \<Rightarrow> PHIL \<Rightarrow> nat list \<Rightarrow> bool" where
  "phil_ok b i pc x h =
     (case pc of
        At_arrive \<Rightarrow> x = NOTHERE \<and> h = []
      | At_think j \<Rightarrow> j < b \<and> x = THINKING \<and> h = []
      | At_wait j \<Rightarrow> j < b \<and> (x = HUNGRY \<and> h = [i] \<or> x = EATING \<and> h = [])
      | At_eat j \<Rightarrow> j < b \<and> x = EATING \<and> h = []
      | At_leave \<Rightarrow> x = THINKING \<and> h = []
      | At_end \<Rightarrow> x = NOTHERE \<and> h = [])"

definition table_ok :: "nat set \<Rightarrow> SymposiumTable \<Rightarrow> bool" where
  "table_ok H S \<longleftrightarrow> length (phils S) = symp_N (symp S) \<and> no_neighbours (phils S) \<and> hungry_ok H (phils S)"

definition symp_inv :: "symposium_t \<Rightarrow> symp_state \<Rightarrow> bool" where
  "symp_inv sy T \<longleftrightarrow> symp (snd T) = sy \<and> table_ok {} (snd T) \<and>
     (\<forall>i < symp_N sy. phil_ok (bites sy) i (fst T i) (phils (snd T) ! i) (hungry (snd T) i))"

lemma trytoeat_symp [simp]: "symp (trytoeat i S) = symp S"
  by (simp add: trytoeat_def Let_def signal_hungry_def set_phil_def)

lemma set_phil_sel [simp]: "symp (set_phil i x S) = symp S" "phils (set_phil i x S) = (phils S)[i := x]"
  "hungry (set_phil i x S) = hungry S"
  by (simp_all add: set_phil_def)

lemma trytoeat_phils: "length (phils S) = symp_N (symp S) \<Longrightarrow> phils (trytoeat i S) = try_list i (phils S)"
  by (simp add: trytoeat_def try_list_def Let_def nb_def signal_hungry_def)

lemma trytoeat_ok: "table_ok H S \<Longrightarrow> i < symp_N (symp S) \<Longrightarrow> table_ok (H - {i}) (trytoeat i S)"
  using try_list_ok [of "phils S" H i] by (simp add: table_ok_def trytoeat_phils)

text \<open>A call of \<open>trytoeat\<close> changes at most one hungry philosopher, who then eats and is awake.\<close>

lemma trytoeat_at:
  assumes "k < length (phils S)"
  obtains "phils (trytoeat i S) ! k = phils S ! k" "hungry (trytoeat i S) k = hungry S k"
  | "k = i" "phils S ! k = HUNGRY" "phils (trytoeat i S) ! k = EATING" "hungry (trytoeat i S) k = tl (hungry S k)"
proof (cases "trytoeat i S = S")
  case False
  then have t: "phils S ! i = HUNGRY" "trytoeat i S = signal_hungry i (set_phil i EATING S)"
    by (auto simp: trytoeat_def Let_def split: if_splits)
  show ?thesis
    using that assms t by (cases "k = i") (simp_all add: signal_hungry_def)
qed (use that in simp)

lemma trytoeat_phil_ok:
  assumes "k < length (phils S)" "phil_ok b k pc (phils S ! k) (hungry S k)"
  shows "phil_ok b k pc (phils (trytoeat i S) ! k) (hungry (trytoeat i S) k)"
  by (rule trytoeat_at [OF assms(1), of i]) (use assms(2) in \<open>auto simp: phil_ok_def split: phil_pc.splits\<close>)

lemma trytoeat_length [simp]: "length (phils (trytoeat i S)) = length (phils S)"
  by (simp add: trytoeat_def Let_def signal_hungry_def)

section \<open>Every step keeps the invariant\<close>

text \<open>The table while philosopher \<open>i\<close> holds the mutex: all the others are where they say.\<close>

definition holds_table :: "symposium_t \<Rightarrow> nat \<Rightarrow> (nat \<Rightarrow> phil_pc) \<Rightarrow> nat set \<Rightarrow> SymposiumTable \<Rightarrow> bool" where
  "holds_table sy i pc H S \<longleftrightarrow> symp S = sy \<and> i < symp_N sy \<and> table_ok H S \<and>
     (\<forall>k < symp_N sy. k \<noteq> i \<longrightarrow> phil_ok (bites sy) k (pc k) (phils S ! k) (hungry S k))"

lemma holds_set:
  assumes "symp_inv sy (pc, S)" "i < symp_N sy" "x \<noteq> EATING"
  shows "x \<noteq> HUNGRY \<Longrightarrow> holds_table sy i pc (nb (symp_N sy) i) (set_phil i x S)"
    "phils S ! i \<noteq> EATING \<Longrightarrow> holds_table sy i pc {i} (set_phil i x S)"
    "phils S ! i \<noteq> EATING \<Longrightarrow> x \<noteq> HUNGRY \<Longrightarrow> holds_table sy i pc {} (set_phil i x S)"
  using assms leaves_plate [of "phils S" i x] by (simp_all add: symp_inv_def table_ok_def holds_table_def)

lemma holds_try:
  assumes "holds_table sy i pc H S" "a < symp_N sy"
  shows "holds_table sy i pc (H - {a}) (trytoeat a S)"
  using assms trytoeat_ok [of H S a] trytoeat_phil_ok [of _ S "bites sy"]
  by (simp add: holds_table_def table_ok_def)

lemma holds_release:
  assumes "holds_table sy i pc {} S" "phil_ok (bites sy) i q (phils S ! i) (hungry S i)"
  shows "symp_inv sy (pc(i := q), S)"
  using assms by (simp add: holds_table_def symp_inv_def)

lemma try_self:
  assumes "i < length (phils S)" "phils S ! i \<noteq> HUNGRY"
  shows "phils (trytoeat a S) ! i = phils S ! i" "hungry (trytoeat a S) i = hungry S i"
  by (rule trytoeat_at [OF assms(1), of a]; use assms(2) in simp)+

lemma stop_eating_ok:
  assumes "symp_inv sy (pc, S)" "i < symp_N sy" "hungry S i = []"
  shows "holds_table sy i pc {} (stop_eating i S)" "phils (stop_eating i S) ! i = THINKING" "hungry (stop_eating i S) i = []"
proof -
  let ?N = "symp_N sy" and ?S = "set_phil i THINKING S"
  have N: "symp S = sy" "length (phils S) = ?N" using assms(1) by (simp_all add: symp_inv_def table_ok_def)
  have lr: "LEFT i ?N < ?N" "RIGHT i ?N < ?N" using assms(2) nb_lt by (simp_all add: nb_def)
  have "holds_table sy i pc (nb ?N i - {LEFT i ?N} - {RIGHT i ?N}) (trytoeat (RIGHT i ?N) (trytoeat (LEFT i ?N) ?S))"
    using holds_set(1) [OF assms(1,2)] lr by (intro holds_try) simp_all
  moreover have "nb ?N i - {LEFT i ?N} - {RIGHT i ?N} = {}" by (auto simp: nb_def)
  ultimately show "holds_table sy i pc {} (stop_eating i S)" by (simp add: stop_eating_def N Let_def)
  have "i < length (phils ?S)" "phils ?S ! i = THINKING" "hungry ?S i = []" using N assms(2,3) by simp_all
  then show "phils (stop_eating i S) ! i = THINKING" "hungry (stop_eating i S) i = []"
    by (simp_all add: stop_eating_def N Let_def try_self)
qed

lemma become_hungry_ok:
  assumes "symp_inv sy (pc, S)" "i < symp_N sy" "pc i = At_think j"
  obtains q S' where "become_hungry i j S = Some (q, S')" "q = At_wait j \<or> q = At_eat j" "symp_inv sy (pc(i := q), S')"
proof -
  let ?S = "set_phil i HUNGRY S" and ?T = "trytoeat i (set_phil i HUNGRY S)"
  have N: "symp S = sy" "length (phils S) = symp_N sy" "j < bites sy" "phils S ! i = THINKING" "hungry S i = []"
    using assms by (auto simp: symp_inv_def table_ok_def phil_ok_def split: phil_pc.splits)
  have "holds_table sy i pc ({i} - {i}) ?T" using holds_set(2) [OF assms(1,2)] N(4) assms(2) by (intro holds_try) simp_all
  then have held: "holds_table sy i pc {} ?T" by simp
  have at: "i < length (phils ?S)" "phils ?S ! i = HUNGRY" "hungry ?S i = []" using N assms(2) by simp_all
  show ?thesis
  proof (rule trytoeat_at [OF at(1), of i])
    assume "phils ?T ! i = phils ?S ! i" "hungry ?T i = hungry ?S i"
    then have T: "phils ?T ! i = HUNGRY" "hungry ?T i = []" using at by simp_all
    let ?U = "?T\<lparr>hungry := (hungry ?T)(i := [i])\<rparr>"
    have "holds_table sy i pc {} ?U" using held by (simp add: holds_table_def table_ok_def)
    then have "symp_inv sy (pc(i := At_wait j), ?U)" using T N(3) by (intro holds_release) (simp_all add: phil_ok_def)
    then show ?thesis using T by (intro that) (simp_all add: become_hungry_def wait_hungry_def)
  next
    assume T: "phils ?T ! i = EATING" "hungry ?T i = tl (hungry ?S i)"
    then have "symp_inv sy (pc(i := At_eat j), ?T)" using at N(3) held by (intro holds_release) (simp_all add: phil_ok_def)
    then show ?thesis using T by (intro that) (simp_all add: become_hungry_def wait_hungry_def)
  qed
qed

text \<open>How much of the program a philosopher at a place still has to do.\<close>

definition phil_left :: "nat \<Rightarrow> phil_pc \<Rightarrow> nat" where
  "phil_left b pc =
     (case pc of At_arrive \<Rightarrow> 3 * b + 2 | At_think j \<Rightarrow> 3 * (b - j) + 1 | At_wait j \<Rightarrow> 3 * (b - j)
      | At_eat j \<Rightarrow> 3 * (b - j) - 1 | At_leave \<Rightarrow> 1 | At_end \<Rightarrow> 0)"

definition symp_left :: "symposium_t \<Rightarrow> (nat \<Rightarrow> phil_pc) \<Rightarrow> nat" where
  "symp_left sy pc = (\<Sum>i < symp_N sy. phil_left (bites sy) (pc i))"

lemma symp_left_upd:
  assumes "i < symp_N sy" "phil_left (bites sy) q < phil_left (bites sy) (pc i)"
  shows "symp_left sy (pc(i := q)) < symp_left sy pc"
  unfolding symp_left_def
proof (rule sum_strict_mono_ex1)
  show "\<exists>k \<in> {..<symp_N sy}. phil_left (bites sy) ((pc(i := q)) k) < phil_left (bites sy) (pc k)"
    using assms by (intro bexI [of _ i]) simp_all
qed (use assms(2) in auto)

text \<open>A philosopher who can run makes a step, which keeps the invariant and shortens what is left.\<close>

lemma philosopher_step:
  assumes "symp_inv sy (pc, S)" "i < symp_N sy" "runnable i (pc i) S"
  obtains q S' where "philosopher i (pc i) S = Some (q, S')" "symp_inv sy (pc(i := q), S')"
    "phil_left (bites sy) q < phil_left (bites sy) (pc i)"
proof -
  have sy: "symp S = sy" "length (phils S) = symp_N sy"
    and me: "phil_ok (bites sy) i (pc i) (phils S ! i) (hungry S i)"
    using assms(1,2) by (simp_all add: symp_inv_def table_ok_def)
  note sets = holds_set [OF assms(1,2)]
  show ?thesis
  proof (cases "pc i")
    case At_arrive
    then have "symp_inv sy (pc(i := loop_head (bites sy) 0), set_phil i THINKING S)"
      using me sets(3) [of THINKING] sy assms(2)
      by (intro holds_release) (auto simp: phil_ok_def loop_head_def)
    then show ?thesis using At_arrive sy by (intro that) (auto simp: philosopher_def phil_left_def loop_head_def)
  next
    case (At_think j)
    then have "j < bites sy" using me by (simp add: phil_ok_def)
    then show ?thesis using that At_think
      by (auto intro: become_hungry_ok [OF assms(1,2) At_think] simp: philosopher_def phil_left_def)
  next
    case (At_wait j)
    then have "phils S ! i = EATING" "hungry S i = []" "j < bites sy"
      using me assms(3) by (auto simp: phil_ok_def runnable_def)
    moreover from this have "symp_inv sy (pc(i := At_eat j), S)" using assms(1) by (simp add: symp_inv_def phil_ok_def)
    ultimately show ?thesis using At_wait by (intro that) (auto simp: philosopher_def wait_hungry_def phil_left_def)
  next
    case (At_eat j)
    then have j: "j < bites sy" "hungry S i = []" using me by (simp_all add: phil_ok_def)
    have "symp_inv sy (pc(i := loop_head (bites sy) (j + 1)), stop_eating i S)"
      using stop_eating_ok [OF assms(1,2) j(2)] by (intro holds_release) (simp_all add: phil_ok_def loop_head_def)
    then show ?thesis using At_eat sy j(1) by (intro that) (auto simp: philosopher_def phil_left_def loop_head_def)
  next
    case At_leave
    then have "symp_inv sy (pc(i := At_end), set_phil i NOTHERE S)"
      using me sets(3) [of NOTHERE] sy assms(2) by (intro holds_release) (simp_all add: phil_ok_def)
    then show ?thesis using At_leave by (intro that) (auto simp: philosopher_def phil_left_def)
  next
    case At_end
    then show ?thesis using assms(3) by (simp add: runnable_def)
  qed
qed

lemma symp_inv_sy: "symp_inv sy (pc, S) \<Longrightarrow> symp S = sy"
  by (simp add: symp_inv_def)

interpretation table: bounded_monitor symp_step phil_ready philosopher "symp_inv sy" "\<lambda>T. symp_left sy (fst T)" for sy
proof
  fix pc S i assume T: "symp_inv sy (pc, S)" "phil_ready i (pc, S)"
  then have i: "i < symp_N sy" "runnable i (pc i) S" using symp_inv_sy by (auto simp: phil_ready_def)
  show "\<exists>q S'. philosopher i (pc i) S = Some (q, S') \<and> symp_inv sy (pc(i := q), S')"
    by (rule philosopher_step [OF T(1) i]) blast
next
  fix T T' assume inv: "symp_inv sy T" and "symp_step T T'"
  then obtain pc S i q S' where s: "T = (pc, S)" "phil_ready i (pc, S)" "philosopher i (pc i) S = Some (q, S')" "T' = (pc(i := q), S')"
    by (cases T) (auto simp: symp_step_iff)
  then have i: "i < symp_N sy" "runnable i (pc i) S" using inv symp_inv_sy by (auto simp: phil_ready_def)
  show "symp_left sy (fst T') < symp_left sy (fst T)"
    by (rule philosopher_step [OF inv [unfolded s(1)] i]) (use s symp_left_upd [OF i(1)] in auto)
qed (auto simp: symp_step_iff)

lemma symp_start_inv: "symp_inv sy (symp_start sy)"
  by (auto simp: symp_start_def SymposiumTable_init_def symp_inv_def table_ok_def no_neighbours_def hungry_ok_def phil_ok_def)

lemma symp_runs:
  assumes "(symp_step ^^ n) (symp_start sy) T"
  shows "symp_inv sy T \<and> n + symp_left sy (fst T) \<le> symp_N sy * (3 * bites sy + 2)"
  using table.run_bounded [OF assms symp_start_inv] by (simp add: symp_left_def symp_start_def phil_left_def)

text \<open>While a philosopher has not finished, some philosopher can run: the one who eats beside a hungry one.\<close>

lemma someone_runs:
  assumes "symp_inv sy (pc, S)" "i < symp_N sy" "pc i \<noteq> At_end"
  obtains k where "k < symp_N sy" "runnable k (pc k) S"
proof (cases "runnable i (pc i) S")
  case False
  have ok: "phil_ok (bites sy) k (pc k) (phils S ! k) (hungry S k)" if "k < symp_N sy" for k
    using assms(1) that by (simp add: symp_inv_def)
  have "phils S ! i = HUNGRY"
    using False assms(3) ok [OF assms(2)] by (auto simp: runnable_def phil_ok_def split: phil_pc.splits)
  then obtain k where k: "k \<in> nb (symp_N sy) i" "phils S ! k = EATING"
    using assms(1,2) by (auto simp: symp_inv_def table_ok_def hungry_ok_def)
  then have lt: "k < symp_N sy" using nb_lt assms(2) by blast
  then have "runnable k (pc k) S"
    using ok [OF lt] k(2) by (auto simp: runnable_def phil_ok_def split: phil_pc.splits)
  with lt show ?thesis by (rule that)
qed (use that assms(2) in blast)

text \<open>Two runs: to the end, and to a state in which one philosopher waits for another.\<close>

lemma run1:
  "map_option (\<lambda>(pc, S). (pc 0, pc 1, symp_N (symp S)))
     (run_threads phil_ready philosopher [0, 1, 0, 1, 0, 1, 1, 0, 1] (symp_start \<lparr>symp_N = 2, bites = 1, fmin = 25, fmax = 35\<rparr>)) =
   Some (At_end, At_end, 2)"
  by code_simp

lemma run2:
  "map_option (\<lambda>(pc, S). (pc 0, pc 1, phils S ! 0))
     (run_threads phil_ready philosopher [0, 1, 0, 1] (symp_start \<lparr>symp_N = 3, bites = 1, fmin = 25, fmax = 35\<rparr>)) =
   Some (At_eat 0, At_wait 0, EATING)"
  by code_simp

section \<open>Burning cycles\<close>

text \<open>
  The recursion of \<^verbatim>\<open>fibo\<close> on \<^verbatim>\<open>unsigned int\<close>, the draw of its argument from the long \<open>r\<close> that
  \<^verbatim>\<open>lrand48\<close> returned, and a period of thinking.  An argument below zero is converted to unsigned.
\<close>

function fibo :: "32 word \<Rightarrow> 32 word" where
  "fibo n = (if n < 2 then n else fibo (n - 1) + fibo (n - 2))"
  by auto

termination
proof (relation "measure unat")
  fix n :: "32 word" assume "\<not> n < 2"
  then have "1 \<le> n" "2 \<le> n" by (simp_all add: word_le_nat_alt word_less_nat_alt)
  then show "(n - 1, n) \<in> measure unat" "(n - 2, n) \<in> measure unat"
    by (simp_all add: unat_sub word_le_nat_alt)
qed simp

definition fiborand :: "int \<Rightarrow> int \<Rightarrow> int \<Rightarrow> int option" where
  "fiborand r lo hi = (if hi - lo + 1 = 0 then None else Some (r smod (hi - lo + 1) + lo))"

definition think :: "int \<Rightarrow> int \<Rightarrow> int \<Rightarrow> (32 word) option" where
  "think r lo hi = map_option (\<lambda>n. fibo (word_of_int n)) (fiborand r lo hi)"

declare fibo.simps [simp del]

text \<open>The recurrence of the documentation, \<open>F(0) = 0\<close>, \<open>F(1) = 1\<close>, \<open>F(n+2) = F(n+1) + F(n)\<close>.\<close>

fun fib :: "nat \<Rightarrow> nat" where
  "fib 0 = 0"
| "fib (Suc 0) = 1"
| "fib (Suc (Suc n)) = fib (Suc n) + fib n"

text \<open>The linear computation of the same number.\<close>

fun fib_loop :: "nat \<Rightarrow> nat \<Rightarrow> nat \<Rightarrow> nat" where
  "fib_loop 0 a b = a"
| "fib_loop (Suc n) a b = fib_loop n b (a + b)"

lemma fib_loop_fib: "fib_loop n (fib k) (fib (Suc k)) = fib (n + k)"
proof (induction n arbitrary: k)
  case (Suc n)
  then show ?case using Suc.IH [of "Suc k"] by (simp add: add.commute [of "fib k"])
qed simp

lemma fib_loop_numeral: "fib_loop (numeral w) a b = fib_loop (pred_numeral w) b (a + b)"
  by (simp add: numeral_eq_Suc)

lemma fib_loop_1: "fib_loop 1 a b = b"
  by simp

lemma fib_mono: "m \<le> n \<Longrightarrow> fib m \<le> fib n"
proof (induction n rule: fib.induct)
  case (3 n)
  then show ?case by (cases "m = Suc (Suc n)") auto
qed (auto simp: le_Suc_eq)

lemma unat_word_of_int: "0 \<le> x \<Longrightarrow> x < 4294967296 \<Longrightarrow> unat (word_of_int x :: 32 word) = nat x"
  by (simp add: unsigned_of_int take_bit_int_eq_self)

lemma fib_47: "fib 47 = 2971215073"
proof -
  have "fib_loop 47 0 1 = 2971215073" by (simp add: fib_loop_numeral fib_loop_1 del: One_nat_def)
  then show ?thesis using fib_loop_fib [of 47 0] by simp
qed

lemma fibo_fib: "fibo n = of_nat (fib (unat n))"
proof (induction n rule: fibo.induct)
  case (1 n)
  show ?case
  proof (cases "n < 2")
    case True
    then have "unat n < 2" by (simp add: word_less_nat_alt)
    then have "unat n = 0 \<or> unat n = 1" by linarith
    then have "fib (unat n) = unat n" by auto
    then show ?thesis using True by (simp add: fibo.simps [of n])
  next
    case False
    then have "2 \<le> unat n" by (simp add: word_less_nat_alt)
    then obtain m where m: "unat n = Suc (Suc m)" by (metis Suc_le_D numeral_2_eq_2 Suc_le_mono)
    have "1 \<le> n" "2 \<le> n" using m by (simp_all add: word_le_nat_alt)
    then have "unat (n - 1) = Suc m" "unat (n - 2) = m" using m by (simp_all add: unat_sub)
    then show ?thesis using 1 [OF False] False m by (simp add: fibo.simps [of n])
  qed
qed

section \<open>Properties\<close>

text \<open>
  C38.  Two neighbours of the symposium never eat at the same time: in every state that the
  philosophers can reach, at most one of a philosopher and the one to her left holds the state
  \<^verbatim>\<open>EATING\<close>, and at most one is between the two critical sections where \<^verbatim>\<open>eat\<close> is called.
\<close>

theorem symposium_exclusion:
  assumes "symp_step\<^sup>*\<^sup>* (symp_start sy) (pc, S)" "i < symp_N sy" "2 \<le> symp_N sy"
  shows "\<not> (phils S ! i = EATING \<and> phils S ! LEFT i (symp_N sy) = EATING) \<and>
    \<not> (pc i = At_eat j \<and> pc (LEFT i (symp_N sy)) = At_eat l)"
proof -
  let ?k = "LEFT i (symp_N sy)"
  have k: "?k < symp_N sy" "?k \<noteq> i" "?k \<in> nb (symp_N sy) i" using assms(2,3) by (auto simp: LEFT_eq nb_def)
  obtain n where "(symp_step ^^ n) (symp_start sy) (pc, S)" using assms(1) by (meson rtranclp_imp_relpowp)
  then have inv: "symp_inv sy (pc, S)" using symp_runs by blast
  then have *: "\<not> (phils S ! i = EATING \<and> phils S ! ?k = EATING)"
    using k assms(2) by (auto simp: symp_inv_def table_ok_def no_neighbours_def)
  have "phil_ok (bites sy) a (pc a) (phils S ! a) (hungry S a)" if "a < symp_N sy" for a
    using inv that by (simp add: symp_inv_def)
  from this [OF k(1)] this [OF assms(2)] * have "\<not> (pc i = At_eat j \<and> pc ?k = At_eat l)"
    by (auto simp: phil_ok_def)
  with * show ?thesis by blast
qed

theorem symposium_exclusion_witness:
  "\<exists>pc S. run_threads phil_ready philosopher [0, 1, 0, 1] (symp_start \<lparr>symp_N = 3, bites = 1, fmin = 25, fmax = 35\<rparr>) = Some (pc, S) \<and>
     pc 0 = At_eat 0 \<and> pc 1 = At_wait 0 \<and> phils S ! 0 = EATING \<and>
     \<not> (phils S ! 0 = EATING \<and> phils S ! LEFT 0 3 = EATING)"
proof -
  let ?sy = "\<lparr>symp_N = 3, bites = 1, fmin = 25, fmax = 35\<rparr>"
  obtain pc S where r: "run_threads phil_ready philosopher [0, 1, 0, 1] (symp_start ?sy) = Some (pc, S)"
    and e: "pc 0 = At_eat 0" "pc (Suc 0) = At_wait 0" "phils S ! 0 = EATING"
    using run2 by auto
  have "symp_step\<^sup>*\<^sup>* (symp_start ?sy) (pc, S)" using table.run_threads_steps [OF r] by (rule relpowp_imp_rtranclp)
  then show ?thesis using symposium_exclusion [of ?sy pc S 0] r e by simp
qed

text \<open>
  C39.  Every symposium ends.  Whatever the order in which the \<open>N\<close> philosophers take the mutex, they
  make at most \<open>N * (3 * bites + 2)\<close> steps; a philosopher who is not asleep can always make hers, so
  that the assertion of \<^verbatim>\<open>SymposiumTable_philosopher\<close> holds; and when nobody can make one, every
  philosopher has returned and left the table, so that there is no deadlock.
\<close>

theorem symposium_completes:
  assumes "(symp_step ^^ n) (symp_start sy) (pc, S)"
  shows "n \<le> symp_N sy * (3 * bites sy + 2) \<and>
    (\<forall>i < symp_N sy. runnable i (pc i) S \<longrightarrow> philosopher i (pc i) S \<noteq> None) \<and>
    ((\<nexists>T. symp_step (pc, S) T) \<longrightarrow> (\<forall>i < symp_N sy. pc i = At_end \<and> phils S ! i = NOTHERE))"
proof (intro conjI allI impI)
  note run = symp_runs [OF assms]
  show "n \<le> symp_N sy * (3 * bites sy + 2)" using run by simp
  have inv: "symp_inv sy (pc, S)" using run by blast
  have ready: "phil_ready k (pc, S)" if "k < symp_N sy" "runnable k (pc k) S" for k
    using that symp_inv_sy [OF inv] by (simp add: phil_ready_def)
  show "philosopher i (pc i) S \<noteq> None" if "i < symp_N sy" "runnable i (pc i) S" for i
    using table.ready_steps(1) [OF inv ready [OF that]] .
  have finished: "pc i = At_end \<and> phils S ! i = NOTHERE" if "\<nexists>T. symp_step (pc, S) T" "i < symp_N sy" for i
  proof (cases "pc i = At_end")
    case True
    then show ?thesis using inv that(2) by (auto simp: symp_inv_def phil_ok_def)
  next
    case False
    from inv that(2) False obtain k where k: "k < symp_N sy" "runnable k (pc k) S" by (rule someone_runs)
    then show ?thesis using table.ready_steps(2) [OF inv ready [OF k]] that(1) by blast
  qed
  show "pc i = At_end" "phils S ! i = NOTHERE" if "\<nexists>T. symp_step (pc, S) T" "i < symp_N sy" for i
    using finished [OF that] by blast+
qed

theorem symposium_completes_witness:
  "\<exists>pc S. run_threads phil_ready philosopher [0, 1, 0, 1, 0, 1, 1, 0, 1] (symp_start \<lparr>symp_N = 2, bites = 1, fmin = 25, fmax = 35\<rparr>) = Some (pc, S) \<and>
     (9 :: nat) \<le> 2 * (3 * 1 + 2) \<and> pc 0 = At_end \<and> pc 1 = At_end \<and> phils S ! 0 = NOTHERE"
proof -
  let ?sy = "\<lparr>symp_N = 2, bites = 1, fmin = 25, fmax = 35\<rparr>"
  obtain pc S where r: "run_threads phil_ready philosopher [0, 1, 0, 1, 0, 1, 1, 0, 1] (symp_start ?sy) = Some (pc, S)"
    and e: "pc 0 = At_end" "pc (Suc 0) = At_end" "symp_N (symp S) = 2"
    using run1 by auto
  have "pc i = At_end" if "i < 2" for i using e that by (auto dest!: less_2_cases)
  then have "\<nexists>T. symp_step (pc, S) T" using e(3) by (auto simp: symp_step_iff phil_ready_def runnable_def)
  then show ?thesis
    using symposium_completes [of 9 ?sy pc S] table.run_threads_steps [OF r] r by (auto simp: numeral_eq_Suc)
qed

text \<open>
  C40.  \<^verbatim>\<open>fibo\<close>, a recursion on 32-bit unsigned integers, computes the number of the documented
  recurrence modulo \<open>2^32\<close>, and exactly that number up to \<open>n = 47\<close>, which includes the largest
  argument \<open>FBASE + FGAP = 45\<close> of the default symposium; the linear recurrence \<open>fib_loop\<close>, which
  belongs to the specification and not to the program, gives the same.
\<close>

theorem fibo_fibonacci:
  "unat (fibo n) = fib (unat n) mod 2 ^ 32 \<and> (unat n \<le> 47 \<longrightarrow> unat (fibo n) = fib_loop (unat n) 0 1)"
proof (intro conjI impI)
  show *: "unat (fibo n) = fib (unat n) mod 2 ^ 32" by (simp add: fibo_fib unat_of_nat)
  show "unat (fibo n) = fib_loop (unat n) 0 1" if "unat n \<le> 47"
    using fib_mono [OF that] fib_47 fib_loop_fib [of "unat n" 0] * by simp
qed

theorem fibo_fibonacci_witness: "unat (fibo 45) = 1134903170"
proof -
  have "fib_loop 45 0 1 = 1134903170" by (simp add: fib_loop_numeral fib_loop_1 del: One_nat_def)
  then show ?thesis using fibo_fibonacci [of 45] by simp
qed

text \<open>
   Every draw of \<^verbatim>\<open>fiborand\<close> from a non-empty interval stays within it, whatever non-negative
  number \<^verbatim>\<open>lrand48\<close> returns, so that a symposium with \<^verbatim>\<open>fmin\<close> at least 0 and \<^verbatim>\<open>fmax\<close> at most 47 thinks
  about Fibonacci numbers that fit the machine word.
\<close>

theorem fiborand_in_range:
  assumes "0 \<le> r" "lo \<le> hi"
  shows "\<exists>x. fiborand r lo hi = Some x \<and> lo \<le> x \<and> x \<le> hi \<and>
    (0 \<le> lo \<longrightarrow> hi \<le> 47 \<longrightarrow> (\<exists>w. think r lo hi = Some w \<and> unat w = fib (nat x)))"
proof -
  let ?x = "r smod (hi - lo + 1) + lo"
  have "0 < hi - lo + 1" using assms(2) by simp
  note smod_int_compares(1,2) [OF assms(1) this]
  then have b: "lo \<le> ?x" "?x \<le> hi" by linarith+
  have f: "fiborand r lo hi = Some ?x" using assms by (simp add: fiborand_def)
  have "unat (fibo (word_of_int ?x)) = fib (nat ?x)" if "0 \<le> lo" "hi \<le> 47"
  proof -
    have u: "unat (word_of_int ?x :: 32 word) = nat ?x" using b that by (intro unat_word_of_int) linarith+
    then have "fib (nat ?x) \<le> fib 47" using b that by (intro fib_mono) simp
    then show ?thesis using u fib_47 by (simp add: fibo_fib unat_of_nat)
  qed
  then show ?thesis using f b by (simp add: think_def)
qed

theorem fiborand_in_range_witness: "fiborand 1804289383 25 35 = Some 31 \<and> (\<exists>w. think 1804289383 25 35 = Some w \<and> unat w = fib 31)"
  using fiborand_in_range [of 1804289383 25 35] by (simp add: fiborand_def smod_int_alt_def)

end
