(* ===== verification/Args.thy ===== *)
theory Args
  imports Prelude
begin

text \<open>
  Packing of string vectors into argument buffers: \<^verbatim>\<open>argvlen\<close>, \<^verbatim>\<open>argvpack\<close>, \<^verbatim>\<open>argscount\<close>
  and \<^verbatim>\<open>argvunpack\<close> of \<^verbatim>\<open>util.h\<close>.

  A buffer is the memory behind a \<^verbatim>\<open>char*\<close>: a function from the offset to the byte
  stored there.  A source string is the list of the bytes before its terminating zero;
  a byte list that holds a zero itself ends there, as in C.  The scan for a terminator
  need not end on arbitrary memory and is a \<^theory_text>\<open>partial_function (option)\<close>.
\<close>

type_synonym mem = "nat \<Rightarrow> byte"

section \<open>The operations\<close>

definition strlen :: "byte list \<Rightarrow> nat" where
  "strlen s = length (takeWhile (\<lambda>c. c \<noteq> 0) s)"

primrec argvlen_loop :: "byte list list \<Rightarrow> nat \<Rightarrow> nat" where
  "argvlen_loop [] l = l"
| "argvlen_loop (s # argv) l = argvlen_loop argv (l + (strlen s + 1))"

definition argvlen :: "byte list list \<Rightarrow> nat" where
  "argvlen argv = argvlen_loop argv 0"

text \<open>\<^verbatim>\<open>while(( *pos++ = *s++ )) argl++;\<close> from offset \<open>pos\<close>.\<close>

fun copy_str :: "byte list \<Rightarrow> nat \<Rightarrow> mem \<Rightarrow> nat \<Rightarrow> nat \<times> mem \<times> nat" where
  "copy_str [] pos m argl = (pos + 1, m(pos := 0), argl)"
| "copy_str (c # cs) pos m argl =
     (if c = 0 then (pos + 1, m(pos := 0), argl)
      else copy_str cs (pos + 1) (m(pos := c)) (argl + 1))"

fun argvpack_loop :: "byte list list \<Rightarrow> nat \<Rightarrow> mem \<Rightarrow> nat \<Rightarrow> mem \<times> nat" where
  "argvpack_loop [] pos m argl = (m, argl)"
| "argvpack_loop (s # argv) pos m argl =
     (let (pos', m', argl') = copy_str s pos m argl in argvpack_loop argv pos' m' argl')"

text \<open>
  An integer converted to \<^verbatim>\<open>int\<close>.  The counter \<^verbatim>\<open>argl\<close> of \<^verbatim>\<open>argvpack\<close> is an \<^verbatim>\<open>int\<close>, which wraps around; its sum
  with \<^verbatim>\<open>argc\<close> is a \<^verbatim>\<open>size_t\<close>.
\<close>

definition c_int :: "int \<Rightarrow> int" where
  "c_int x = sint (word_of_int x :: 32 word)"

definition argvpack :: "nat \<Rightarrow> byte list list \<Rightarrow> mem \<Rightarrow> mem \<times> nat" where
  "argvpack args argv m =
     (let (m', argl) = argvpack_loop argv args m 0
      in (m', nat ((c_int (int argl) + int (length argv)) mod 2 ^ 64)))"

primrec argscount_loop :: "nat \<Rightarrow> nat \<Rightarrow> mem \<Rightarrow> nat \<Rightarrow> nat" where
  "argscount_loop 0 a m n = n"
| "argscount_loop (Suc k) a m n = argscount_loop k (a + 1) m (if m a = 0 then n + 1 else n)"

text \<open>The parameter is an \<^verbatim>\<open>int\<close>; the loop over \<^verbatim>\<open>i < argl\<close> does nothing if it is negative, and \<^verbatim>\<open>n\<close> is at most \<^verbatim>\<open>argl\<close>.\<close>

definition argscount :: "int \<Rightarrow> nat \<Rightarrow> mem \<Rightarrow> nat" where
  "argscount argl args m = argscount_loop (nat argl) args m 0"

text \<open>\<^verbatim>\<open>while(*a++);\<close>\<close>

partial_function (option) skip_str :: "nat \<Rightarrow> mem \<Rightarrow> nat option" where
  "skip_str a m = (if m a \<noteq> 0 then skip_str (a + 1) m else Some (a + 1))"

fun argvunpack_loop :: "nat \<Rightarrow> nat \<Rightarrow> mem \<Rightarrow> nat list \<Rightarrow> (nat list \<times> nat) option" where
  "argvunpack_loop 0 a m argv = Some (argv, a)"
| "argvunpack_loop (Suc k) a m argv =
     do { a' \<leftarrow> skip_str a m; argvunpack_loop k a' m (argv @ [a]) }"

text \<open>The vector of string pointers and the first location not unpacked.\<close>

definition argvunpack :: "nat \<Rightarrow> nat \<Rightarrow> mem \<Rightarrow> (nat list \<times> nat) option" where
  "argvunpack argc args m = argvunpack_loop argc args m []"

section \<open>What the buffer holds\<close>

text \<open>\<open>stored m a bs\<close>: the bytes \<open>bs\<close> lie in memory from offset \<open>a\<close> on.\<close>

fun stored :: "mem \<Rightarrow> nat \<Rightarrow> byte list \<Rightarrow> bool" where
  "stored m a [] \<longleftrightarrow> True"
| "stored m a (b # bs) \<longleftrightarrow> m a = b \<and> stored m (a + 1) bs"

text \<open>The C string at an address.\<close>

definition string_at :: "mem \<Rightarrow> nat \<Rightarrow> byte list \<Rightarrow> bool" where
  "string_at m a s \<longleftrightarrow> 0 \<notin> set s \<and> stored m a (s @ [0])"

definition cstring :: "byte list \<Rightarrow> byte list" where
  "cstring s = takeWhile (\<lambda>c. c \<noteq> 0) s"

fun offsets :: "nat \<Rightarrow> byte list list \<Rightarrow> nat list" where
  "offsets a [] = []"
| "offsets a (s # ss) = a # offsets (a + strlen s + 1) ss"

lemma strlen_cstring: "strlen s = length (cstring s)"
  by (simp add: strlen_def cstring_def)

lemma cstring_nonzero: "0 \<notin> set (cstring s)"
  by (auto simp: cstring_def dest: set_takeWhileD)

lemma stored_append: "stored m a (xs @ ys) \<longleftrightarrow> stored m a xs \<and> stored m (a + length xs) ys"
  by (induction xs arbitrary: a) auto

lemma stored_frame:
  "(\<And>i. a \<le> i \<Longrightarrow> i < a + length bs \<Longrightarrow> m' i = m i) \<Longrightarrow> stored m' a bs = stored m a bs"
proof (induction bs arbitrary: a)
  case (Cons b bs)
  from Cons.prems have "stored m' (a + 1) bs = stored m (a + 1) bs"
    by (intro Cons.IH) auto
  with Cons.prems show ?case by auto
qed simp

lemma argvlen_loop_eq: "argvlen_loop argv l = l + (\<Sum>s\<leftarrow>argv. strlen s + 1)"
  by (induction argv arbitrary: l) auto

lemma argvlen_eq: "argvlen argv = length (concat (map (\<lambda>s. cstring s @ [0]) argv))"
  by (simp add: argvlen_def argvlen_loop_eq length_concat comp_def strlen_cstring)

lemma copy_str_spec:
  assumes "copy_str s pos m argl = (pos', m', argl')"
  shows "pos' = pos + strlen s + 1 \<and> argl' = argl + strlen s \<and>
    stored m' pos (cstring s @ [0]) \<and> (\<forall>i. i < pos \<or> pos' \<le> i \<longrightarrow> m' i = m i)"
  using assms
proof (induction s pos m argl rule: copy_str.induct)
  case (1 pos m argl)
  then show ?case by (auto simp: strlen_def cstring_def)
next
  case (2 c cs pos m argl)
  show ?case
  proof (cases "c = 0")
    case True
    with 2 show ?thesis by (auto simp: strlen_def cstring_def)
  next
    case False
    with "2.prems" have "copy_str cs (pos + 1) (m(pos := c)) (argl + 1) = (pos', m', argl')"
      by simp
    note IH = "2.IH" [OF False this]
    have "m' pos = c" and "\<And>i. i < pos \<or> pos' \<le> i \<Longrightarrow> m' i = m i"
      using IH by (force, force)
    with IH False show ?thesis by (auto simp: strlen_def cstring_def)
  qed
qed

lemma argvpack_loop_spec:
  assumes "argvpack_loop argv pos m argl = (m', argl')"
  shows "argl' + length argv = argl + argvlen argv \<and>
    stored m' pos (concat (map (\<lambda>s. cstring s @ [0]) argv)) \<and>
    (\<forall>i. i < pos \<or> pos + argvlen argv \<le> i \<longrightarrow> m' i = m i)"
  using assms
proof (induction argv arbitrary: pos m argl)
  case Nil
  then show ?case by (simp add: argvlen_def)
next
  case (Cons s argv)
  obtain p1 m1 l1 where c: "copy_str s pos m argl = (p1, m1, l1)" by (cases "copy_str s pos m argl")
  note cs = copy_str_spec [OF c]
  from Cons.prems c have "argvpack_loop argv p1 m1 l1 = (m', argl')" by simp
  note IH = Cons.IH [OF this]
  have "stored m' pos (cstring s @ [0]) = stored m1 pos (cstring s @ [0])"
    using IH cs by (intro stored_frame) (auto simp: strlen_cstring)
  moreover have "argvlen (s # argv) = strlen s + 1 + argvlen argv"
    by (simp add: argvlen_eq strlen_cstring)
  ultimately show ?case
    using IH cs by (auto simp: stored_append strlen_cstring add.assoc)
qed

lemma skip_str_stored:
  "0 \<notin> set s \<Longrightarrow> stored m a (s @ [0]) \<Longrightarrow> skip_str a m = Some (a + length s + 1)"
proof (induction s arbitrary: a)
  case Nil
  then show ?case by (simp add: skip_str.simps)
next
  case (Cons c s)
  then show ?case by (subst skip_str.simps) auto
qed

lemma argvunpack_loop_stored:
  assumes "stored m a (concat (map (\<lambda>s. cstring s @ [0]) argv))"
  shows "argvunpack_loop (length argv) a m acc =
    Some (acc @ offsets a argv, a + argvlen argv)"
  using assms
proof (induction argv arbitrary: a acc)
  case Nil
  then show ?case by (simp add: argvlen_def)
next
  case (Cons s argv)
  then have s: "stored m a (cstring s @ [0])"
    and rest: "stored m (a + strlen s + 1) (concat (map (\<lambda>s. cstring s @ [0]) argv))"
    by (simp_all add: stored_append strlen_cstring)
  have "skip_str a m = Some (a + strlen s + 1)"
    using skip_str_stored [OF cstring_nonzero s] by (simp add: strlen_cstring)
  with Cons.IH [OF rest] show ?case by (simp add: argvlen_eq strlen_cstring)
qed

lemma strings_at_offsets:
  assumes "stored m a (concat (map (\<lambda>s. cstring s @ [0]) argv))"
  shows "list_all2 (string_at m) (offsets a argv) (map cstring argv)"
  using assms
proof (induction argv arbitrary: a)
  case (Cons s argv)
  then show ?case
    by (auto simp: string_at_def stored_append cstring_nonzero strlen_cstring)
qed simp

lemma argscount_loop_stored:
  "stored m a bs \<Longrightarrow> argscount_loop (length bs) a m n = n + count_list bs 0"
  by (induction bs arbitrary: a n) auto

lemma count_zero_packed:
  "count_list (concat (map (\<lambda>s. cstring s @ [0]) argv)) 0 = length argv"
  by (induction argv) (simp_all add: count_list_append count_list_0_iff cstring_nonzero)

lemma c_int_id: "- (2 ^ 31) \<le> x \<Longrightarrow> x < 2 ^ 31 \<Longrightarrow> c_int x = x"
  by (simp add: c_int_def signed_of_int signed_take_bit_int_eq_self)

lemma packed_length:
  assumes "argl + length argv = argvlen argv" "argvlen argv < 2 ^ 31"
  shows "nat ((c_int (int argl) + int (length argv)) mod 2 ^ 64) = argvlen argv"
proof -
  have "c_int (int argl) = int argl" using assms by (intro c_int_id) simp_all
  moreover have "int argl + int (length argv) = int (argvlen argv)" using assms(1) by simp
  ultimately show ?thesis using assms(2) by simp
qed

section \<open>Properties\<close>

text \<open>
  C32. Packing a string vector and unpacking the buffer gives the strings back, if the packed area has
  less than \<open>2 ^ 31\<close> bytes, so that its length is an \<^verbatim>\<open>int\<close>: the value returned is \<^verbatim>\<open>argvlen\<close>, the number of
  zero bytes counted by \<^verbatim>\<open>argscount\<close> is the number of strings, \<^verbatim>\<open>argvunpack\<close> ends at the end of the packed
  area, and the pointers it returns address the strings of the vector; nothing outside that area is
  written.
\<close>

theorem argv_roundtrip:
  assumes "argvpack args argv m = (m', argl)" "argvlen argv < 2 ^ 31"
  shows "argl = argvlen argv \<and> argscount (c_int (int argl)) args m' = length argv \<and>
    (\<exists>ptrs. argvunpack (length argv) args m' = Some (ptrs, args + argl) \<and>
       list_all2 (string_at m') ptrs (map cstring argv)) \<and>
    (\<forall>i. i < args \<or> args + argl \<le> i \<longrightarrow> m' i = m i)"
proof -
  obtain l where l: "argvpack_loop argv args m 0 = (m', l)" "argl = nat ((c_int (int l) + int (length argv)) mod 2 ^ 64)"
    using assms(1) by (auto simp: argvpack_def split: prod.splits)
  note spec = argvpack_loop_spec [OF l(1)]
  have argl: "argl = argvlen argv" using packed_length [of l argv] spec l(2) assms(2) by simp
  have "c_int (int argl) = int argl" using argl assms(2) by (intro c_int_id) simp_all
  then have "argscount (c_int (int argl)) args m' = length argv"
    using argscount_loop_stored [of m' args "concat (map (\<lambda>s. cstring s @ [0]) argv)" 0] spec
    by (simp add: argscount_def argl argvlen_eq count_zero_packed)
  then show ?thesis
    using spec argl argvunpack_loop_stored [of m' args argv "[]"] strings_at_offsets [of m' args argv]
    by (auto simp: argvunpack_def)
qed

theorem argv_roundtrip_witness:
  "\<exists>m'. argvpack 3 [[104, 105], [], [65, 0, 66]] (\<lambda>_. 7) = (m', 6) \<and>
     argscount 6 3 m' = 3 \<and> m' 9 = 7 \<and>
     (\<exists>ptrs. argvunpack 3 3 m' = Some (ptrs, 9) \<and>
        list_all2 (string_at m') ptrs [[104, 105], [], [65]])"
proof -
  let ?argv = "[[104, 105], [], [65, 0, 66]] :: byte list list"
  obtain m' argl where e: "argvpack 3 ?argv (\<lambda>_. 7) = (m', argl)"
    by (cases "argvpack 3 ?argv (\<lambda>_. 7)")
  have a: "argvlen ?argv = 6" by (simp add: argvlen_def strlen_def)
  note rt = argv_roundtrip [OF e]
  have l: "argl = 6" using rt by (simp add: a)
  have i: "c_int (int 6) = 6" by (simp add: c_int_id)
  have c: "map cstring ?argv = [[104, 105], [], [65]]"
    and n: "length ?argv = 3" "3 + 6 = (9 :: nat)"
    by (simp_all add: cstring_def)
  have "argvlen ?argv < 2 ^ 31" by (simp add: a)
  from rt [OF this] e show ?thesis unfolding l c n i by force
qed

end
