(* ===== verification/Bios.thy ===== *)
theory Bios
  imports Prelude
begin

text \<open>
  The virtual machine of \<^verbatim>\<open>bios.c\<close>: the interrupt vector of each core, the halting and
  restarting of cores, the core timers and the serial ports.

  The POSIX services below the machine appear in the model through what the code sees
  of them: the \<^verbatim>\<open>SIGUSR1\<close> signals queued for a core (\<open>sigusr1\<close>), whether that signal is
  blocked on the core's thread (\<open>sigmask\<close>), the value of the core's POSIX timer
  (\<open>timer\<close>), the coarse clock (\<open>clock\<close>) and, for a serial port, the result of the
  \<^verbatim>\<open>read\<close> or \<^verbatim>\<open>write\<close> call, which is an argument of the operation.  Atomic
  read-modify-write instructions are single steps; the compare-and-exchange loop of
  \<^verbatim>\<open>intr_fetch_lowest\<close> ends with the iteration whose exchange succeeds, and that
  iteration is the model.
\<close>

unbundle bit_operations_syntax

section \<open>State\<close>

datatype Interrupt = ICI | ALARM | SERIAL_RX_READY | SERIAL_TX_READY

definition maximum_interrupt_no :: nat where
  "maximum_interrupt_no = 4"

fun intno :: "Interrupt \<Rightarrow> nat" where
  "intno ICI = 0"
| "intno ALARM = 1"
| "intno SERIAL_RX_READY = 2"
| "intno SERIAL_TX_READY = 3"

definition of_intno :: "nat \<Rightarrow> Interrupt" where
  "of_intno n = [ICI, ALARM, SERIAL_RX_READY, SERIAL_TX_READY] ! n"

definition MAX_CORES :: nat where "MAX_CORES = 32"
definition MAX_TERMINALS :: nat where "MAX_TERMINALS = 4"

text \<open>The handlers that the kernel installs with \<^verbatim>\<open>cpu_interrupt_handler\<close>.\<close>

datatype interrupt_handler = yield_handler | ici_handler | serial_rx_ptr | serial_tx_ptr

datatype io_direction = IODIR_RX | IODIR_TX

record io_device =
  fd :: int
  iodir :: io_direction
  int_core :: nat
  ready :: bool
  last_int :: TimerDuration

record terminal =
  con :: io_device
  kbd :: io_device

record bios =
  ncores :: nat
  physical_cores :: nat
  intr_pending :: "nat \<Rightarrow> uint32"
  intvec :: "nat \<Rightarrow> Interrupt \<Rightarrow> interrupt_handler option"
  sigusr1 :: "nat \<Rightarrow> nat"
  sigmask :: "nat \<Rightarrow> bool"
  pic_signals :: nat
  halt_vector :: uint32
  timer :: "nat \<Rightarrow> nat \<times> nat"
  clock :: TimerDuration
  nterm :: nat
  TERMS :: "nat \<Rightarrow> terminal"

section \<open>Interrupts\<close>

text \<open>\<^verbatim>\<open>__builtin_ctz\<close>: the index of the lowest bit that is set.\<close>

definition ctz :: "uint32 \<Rightarrow> nat" where
  "ctz w = length (takeWhile (\<lambda>i. \<not> bit w i) [0..<32])"

definition sel_bit :: "nat \<Rightarrow> uint32" where
  "sel_bit i = push_bit i 1"

definition intr_fetch_set :: "nat \<Rightarrow> Interrupt \<Rightarrow> 'a bios_scheme \<Rightarrow> bool \<times> 'a bios_scheme" where
  "intr_fetch_set core i s =
     (let sel = sel_bit (intno i); old = intr_pending s core
      in (old AND sel \<noteq> 0, s\<lparr>intr_pending := (intr_pending s)(core := old OR sel)\<rparr>))"

definition intr_fetch_clear :: "nat \<Rightarrow> Interrupt \<Rightarrow> 'a bios_scheme \<Rightarrow> bool \<times> 'a bios_scheme" where
  "intr_fetch_clear core i s =
     (let sel = sel_bit (intno i); old = intr_pending s core
      in (old AND sel \<noteq> 0, s\<lparr>intr_pending := (intr_pending s)(core := old AND NOT sel)\<rparr>))"

text \<open>\<open>None\<close> is the failed assertion \<^verbatim>\<open>irq < maximum_interrupt_no\<close>.\<close>

definition intr_fetch_lowest ::
  "nat \<Rightarrow> 'a bios_scheme \<Rightarrow> (Interrupt option \<times> 'a bios_scheme) option" where
  "intr_fetch_lowest core s =
     (let ipvec = intr_pending s core
      in if ipvec = 0 then Some (None, s)
         else let irq = ctz ipvec
           in if irq < maximum_interrupt_no
              then Some (Some (of_intno irq),
                s\<lparr>intr_pending := (intr_pending s)(core := ipvec AND NOT (sel_bit irq))\<rparr>)
              else None)"

definition interrupt_core :: "nat \<Rightarrow> 'a bios_scheme \<Rightarrow> 'a bios_scheme" where
  "interrupt_core core s = s\<lparr>sigusr1 := (sigusr1 s)(core := sigusr1 s core + 1)\<rparr>"

definition raise_interrupt :: "nat \<Rightarrow> Interrupt \<Rightarrow> 'a bios_scheme \<Rightarrow> 'a bios_scheme" where
  "raise_interrupt core i s =
     (let (old, s1) = intr_fetch_set core i s in if \<not> old then interrupt_core core s1 else s1)"

text \<open>
  The dispatch loop.  \<open>run\<close> executes a handler and returns the core on which the calling
  thread is running afterwards; \<open>self\<close> is that core at the start of an iteration.
\<close>

partial_function (option) dispatch_loop ::
  "(interrupt_handler \<Rightarrow> 'a bios_scheme \<Rightarrow> (nat \<times> 'a bios_scheme) option) \<Rightarrow> nat \<Rightarrow>
   'a bios_scheme \<Rightarrow> (nat \<times> 'a bios_scheme) option" where
  "dispatch_loop run core s =
     do { (irq, s1) \<leftarrow> intr_fetch_lowest core s;
          (case irq of
             None \<Rightarrow> Some (core, s1)
           | Some i \<Rightarrow>
               do { (self, s2) \<leftarrow> (case intvec s1 core i of
                      None \<Rightarrow> Some (core, s1) | Some handler \<Rightarrow> run handler s1);
                    if self \<noteq> core then Some (self, s2) else dispatch_loop run core s2 }) }"

definition dispatch_interrupts ::
  "(interrupt_handler \<Rightarrow> 'a bios_scheme \<Rightarrow> (nat \<times> 'a bios_scheme) option) \<Rightarrow> nat \<Rightarrow> nat \<Rightarrow>
   'a bios_scheme \<Rightarrow> (nat \<times> 'a bios_scheme) option" where
  "dispatch_interrupts run self core s = (if self = core then dispatch_loop run core s else None)"

definition cpu_interrupt_handler ::
  "nat \<Rightarrow> Interrupt \<Rightarrow> interrupt_handler option \<Rightarrow> 'a bios_scheme \<Rightarrow> 'a bios_scheme" where
  "cpu_interrupt_handler self i handler s =
     s\<lparr>intvec := (intvec s)(self := (intvec s self)(i := handler))\<rparr>"

definition cpu_interrupts_enabled :: "nat \<Rightarrow> 'a bios_scheme \<Rightarrow> bool" where
  "cpu_interrupts_enabled self s \<longleftrightarrow> \<not> sigmask s self"

definition cpu_disable_interrupts :: "nat \<Rightarrow> 'a bios_scheme \<Rightarrow> bool \<times> 'a bios_scheme" where
  "cpu_disable_interrupts self s = (\<not> sigmask s self, s\<lparr>sigmask := (sigmask s)(self := True)\<rparr>)"

definition cpu_enable_interrupts :: "nat \<Rightarrow> 'a bios_scheme \<Rightarrow> 'a bios_scheme" where
  "cpu_enable_interrupts self s = s\<lparr>sigmask := (sigmask s)(self := False)\<rparr>"

definition cpu_ici :: "nat \<Rightarrow> 'a bios_scheme \<Rightarrow> 'a bios_scheme option" where
  "cpu_ici core s = (if core < ncores s then Some (raise_interrupt core ICI s) else None)"

section \<open>Halting and restarting cores\<close>

text \<open>
  \<^verbatim>\<open>cpu_core_halt\<close> before and after the wait for a signal.  With a signal the pending
  interrupts are dispatched, as in \<^verbatim>\<open>cpu_core_halt\<close>.
\<close>

definition cpu_core_halt_enter :: "nat \<Rightarrow> 'a bios_scheme \<Rightarrow> 'a bios_scheme" where
  "cpu_core_halt_enter self s =
     (let s1 = s\<lparr>sigmask := (sigmask s)(self := True)\<rparr>
      in s1\<lparr>halt_vector := halt_vector s1 OR sel_bit self\<rparr>)"

definition cpu_core_halt_leave ::
  "(interrupt_handler \<Rightarrow> 'a bios_scheme \<Rightarrow> (nat \<times> 'a bios_scheme) option) \<Rightarrow> nat \<Rightarrow> bool \<Rightarrow>
   'a bios_scheme \<Rightarrow> 'a bios_scheme option" where
  "cpu_core_halt_leave run self signalled s =
     do { s1 \<leftarrow> (if signalled
            then do { (_, s1) \<leftarrow> dispatch_interrupts run self self
                        (s\<lparr>sigusr1 := (sigusr1 s)(self := sigusr1 s self - 1)\<rparr>); Some s1 }
            else Some s);
          let s2 = s1\<lparr>halt_vector := halt_vector s1 AND NOT (sel_bit self)\<rparr>;
          Some (s2\<lparr>sigmask := (sigmask s2)(self := False)\<rparr>) }"

definition core_restart :: "nat \<Rightarrow> 'a bios_scheme \<Rightarrow> bool \<times> 'a bios_scheme" where
  "core_restart c s =
     (let cmask = sel_bit c; prevhv = halt_vector s;
          s1 = s\<lparr>halt_vector := prevhv AND NOT cmask\<rparr>
      in if prevhv AND cmask \<noteq> 0 then (True, interrupt_core c s1) else (False, s1))"

definition cpu_core_restart_one :: "'a bios_scheme \<Rightarrow> 'a bios_scheme" where
  "cpu_core_restart_one s =
     (let hv = halt_vector s
      in if hv \<noteq> 0
         then let c = ctz hv in if c < physical_cores s then snd (core_restart c s) else s
         else s)"

primrec restart_loop :: "nat \<Rightarrow> nat \<Rightarrow> 'a bios_scheme \<Rightarrow> 'a bios_scheme" where
  "restart_loop 0 c s = s"
| "restart_loop (Suc k) c s = restart_loop k (c + 1) (snd (core_restart c s))"

definition cpu_core_restart_all :: "'a bios_scheme \<Rightarrow> 'a bios_scheme" where
  "cpu_core_restart_all s = restart_loop (ncores s) 0 s"

section \<open>Timers\<close>

definition bios_set_timer ::
  "nat \<Rightarrow> TimerDuration \<Rightarrow> 'a bios_scheme \<Rightarrow> TimerDuration \<times> 'a bios_scheme" where
  "bios_set_timer self usec s =
     (let sec = unat (usec div 1000000);
          nsec = unat ((usec mod 1000000) * 1000);
          (osec, onsec) = timer s self
      in (1000000 * of_nat osec + of_nat (onsec div 1000),
          s\<lparr>timer := (timer s)(self := (sec, nsec))\<rparr>))"

definition bios_cancel_timer :: "nat \<Rightarrow> 'a bios_scheme \<Rightarrow> TimerDuration \<times> 'a bios_scheme" where
  "bios_cancel_timer self s = bios_set_timer self 0 s"

definition bios_clock :: "'a bios_scheme \<Rightarrow> TimerDuration" where
  "bios_clock s = clock s"

section \<open>Serial ports\<close>

definition bios_serial_ports :: "'a bios_scheme \<Rightarrow> nat" where
  "bios_serial_ports s = nterm s"

definition bios_serial_interrupt_core ::
  "nat \<Rightarrow> Interrupt \<Rightarrow> nat \<Rightarrow> 'a bios_scheme \<Rightarrow> 'a bios_scheme" where
  "bios_serial_interrupt_core serial i coreid s =
     (if \<not> serial < nterm s then s
      else if \<not> (i = SERIAL_RX_READY \<or> i = SERIAL_TX_READY) then s
      else if \<not> coreid < ncores s then s
      else if i = SERIAL_RX_READY
        then s\<lparr>TERMS := (TERMS s)(serial := (TERMS s serial)\<lparr>kbd := (kbd (TERMS s serial))\<lparr>int_core := coreid\<rparr>\<rparr>)\<rparr>
        else s\<lparr>TERMS := (TERMS s)(serial := (TERMS s serial)\<lparr>con := (con (TERMS s serial))\<lparr>int_core := coreid\<rparr>\<rparr>)\<rparr>)"

text \<open>
  The result of \<^verbatim>\<open>read(fd, ptr, 1)\<close> after its retries on \<^verbatim>\<open>EINTR\<close>: a byte, end of file,
  \<^verbatim>\<open>EAGAIN\<close>, or another error (which fails the assertion).
\<close>

datatype read_result = RByte byte | REof | RAgain | RError
datatype write_result = WOk | WAgain | WPipe | WError

definition io_device_read ::
  "io_device \<Rightarrow> read_result \<Rightarrow> 'a bios_scheme \<Rightarrow> (byte option \<times> io_device \<times> 'a bios_scheme) option" where
  "io_device_read this rc s =
     (if iodir this \<noteq> IODIR_RX \<or> rc = RError then None
      else case rc of
        RByte b \<Rightarrow> Some (Some b, this, s)
      | _ \<Rightarrow> (if ready this then Some (None, this\<lparr>ready := False\<rparr>, s\<lparr>pic_signals := pic_signals s + 1\<rparr>)
              else Some (None, this, s)))"

definition io_device_write ::
  "io_device \<Rightarrow> write_result \<Rightarrow> 'a bios_scheme \<Rightarrow> (bool \<times> io_device \<times> 'a bios_scheme) option" where
  "io_device_write this rc s =
     (if iodir this \<noteq> IODIR_TX \<or> rc = WError then None
      else if rc = WOk then Some (True, this, s)
      else if ready this then Some (False, this\<lparr>ready := False\<rparr>, s\<lparr>pic_signals := pic_signals s + 1\<rparr>)
      else Some (False, this, s))"

definition bios_read_serial ::
  "nat \<Rightarrow> read_result \<Rightarrow> 'a bios_scheme \<Rightarrow> (byte option \<times> 'a bios_scheme) option" where
  "bios_read_serial serial rc s =
     do { (b, dev, s1) \<leftarrow> io_device_read (kbd (TERMS s serial)) rc s;
          Some (b, s1\<lparr>TERMS := (TERMS s1)(serial := (TERMS s1 serial)\<lparr>kbd := dev\<rparr>)\<rparr>) }"

definition bios_write_serial ::
  "nat \<Rightarrow> write_result \<Rightarrow> 'a bios_scheme \<Rightarrow> (bool \<times> 'a bios_scheme) option" where
  "bios_write_serial serial rc s =
     do { (ok, dev, s1) \<leftarrow> io_device_write (con (TERMS s serial)) rc s;
          Some (ok, s1\<lparr>TERMS := (TERMS s1)(serial := (TERMS s1 serial)\<lparr>con := dev\<rparr>)\<rparr>) }"

text \<open>
  The part of the PIC loop that turns a ready or timed-out device into an interrupt;
  \<open>is_ready\<close> is what \<^verbatim>\<open>select\<close> reported for the device's file descriptor.
\<close>

definition SERIAL_TIMEOUT :: TimerDuration where "SERIAL_TIMEOUT = 300000"

definition term_dev_raise_if_ready ::
  "io_device \<Rightarrow> bool \<Rightarrow> TimerDuration \<Rightarrow> 'a bios_scheme \<Rightarrow> io_device \<times> 'a bios_scheme" where
  "term_dev_raise_if_ready dev is_ready system_clock s =
     (if is_ready \<or> system_clock - last_int dev > SERIAL_TIMEOUT
      then (dev\<lparr>ready := True, last_int := system_clock\<rparr>,
            raise_interrupt (int_core dev)
              (case iodir dev of IODIR_RX \<Rightarrow> SERIAL_RX_READY | IODIR_TX \<Rightarrow> SERIAL_TX_READY) s)
      else (dev, s))"

section \<open>The pending vector as a set of interrupts\<close>

definition pending :: "nat \<Rightarrow> 'a bios_scheme \<Rightarrow> nat set" where
  "pending core s = {i. bit (intr_pending s core) i}"

lemma bit_sel_bit [simp]: "bit (sel_bit i) n \<longleftrightarrow> i = n \<and> n < 32"
  by (auto simp: sel_bit_def bit_simps)

lemma bit_uint32_less: "bit (w :: uint32) n \<Longrightarrow> n < 32"
  using bit_imp_le_length [of w n] by simp

lemma and_sel_bit: "i < 32 \<Longrightarrow> w AND sel_bit i \<noteq> 0 \<longleftrightarrow> bit w i"
proof -
  assume "i < 32"
  have "w AND sel_bit i = 0 \<longleftrightarrow> (\<forall>n. \<not> bit (w AND sel_bit i) n)"
    by (auto simp: bit_eq_iff [of "w AND sel_bit i"] dest: bit_uint32_less)
  with \<open>i < 32\<close> show ?thesis by (auto simp: bit_and_iff)
qed

lemma bit_and_not_sel_bit: "bit (w AND NOT (sel_bit i)) n \<longleftrightarrow> bit w n \<and> n \<noteq> i"
  by (auto simp: bit_and_iff bit_not_iff bit_uint32_less)

lemma intno_less [simp]: "intno i < 32"
  by (cases i) auto

lemma of_intno_intno [simp]: "of_intno (intno i) = i"
  by (cases i) (auto simp: of_intno_def)

lemma intno_of_intno: "n < maximum_interrupt_no \<Longrightarrow> intno (of_intno n) = n"
  by (auto simp: maximum_interrupt_no_def of_intno_def less_Suc_eq eval_nat_numeral)

lemma intno_bound: "intno i < maximum_interrupt_no"
  by (cases i) (auto simp: maximum_interrupt_no_def)

lemma intno_inj: "intno i = intno j \<longleftrightarrow> i = j"
  by (cases i; cases j) auto

lemma length_takeWhile_upt:
  assumes "bit (w :: uint32) n" "\<And>i. i < n \<Longrightarrow> \<not> bit w i"
  shows "ctz w = n"
proof -
  have "n < 32" using assms(1) by (rule bit_uint32_less)
  then have "[0..<32] = [0..<n] @ n # [Suc n..<32]"
    by (metis upt_add_eq_append upt_conv_Cons le_add_same_cancel1 le_add_diff_inverse
        less_imp_le_nat zero_le)
  moreover have "takeWhile (\<lambda>i. \<not> bit w i) ([0..<n] @ n # [Suc n..<32]) = [0..<n]"
    using assms by (subst takeWhile_append2) auto
  ultimately show ?thesis by (simp add: ctz_def)
qed

lemma ctz_lowest:
  assumes "(w :: uint32) \<noteq> 0"
  shows "bit w (ctz w)" and "\<And>i. i < ctz w \<Longrightarrow> \<not> bit w i"
proof -
  from assms obtain m where "bit w m" by (auto simp: bit_eq_iff)
  define n where "n = (LEAST i. bit w i)"
  have n: "bit w n" "\<And>i. i < n \<Longrightarrow> \<not> bit w i"
    using \<open>bit w m\<close> unfolding n_def by (auto intro: LeastI dest: not_less_Least)
  then have "ctz w = n" by (rule length_takeWhile_upt)
  with n show "bit w (ctz w)" "\<And>i. i < ctz w \<Longrightarrow> \<not> bit w i" by auto
qed

lemma pending_intr_fetch_set:
  "pending c (snd (intr_fetch_set core i s)) =
     (if c = core then insert (intno i) (pending c s) else pending c s)"
  by (auto simp: intr_fetch_set_def Let_def pending_def bit_simps)

lemma pending_raise_interrupt:
  "pending c (raise_interrupt core i s) =
     (if c = core then insert (intno i) (pending c s) else pending c s)"
  unfolding raise_interrupt_def intr_fetch_set_def interrupt_core_def
  by (auto simp: Let_def pending_def bit_or_iff)

lemma raise_interrupt_signal:
  "sigusr1 (raise_interrupt core i s) c =
     (if c = core \<and> intno i \<notin> pending core s then sigusr1 s c + 1 else sigusr1 s c)"
  by (auto simp: raise_interrupt_def intr_fetch_set_def interrupt_core_def Let_def pending_def
      and_sel_bit)

section \<open>Properties\<close>

text \<open>
  Raising an interrupt adds it to the pending set of that core and of no other, and
  sends the core one signal exactly when it was not pending; fetching delivers the
  lowest-numbered pending interrupt, removes that one only, and reports none exactly when
  none is pending.  With pending interrupts below \<^verbatim>\<open>maximum_interrupt_no\<close> the assertion
  of \<^verbatim>\<open>intr_fetch_lowest\<close> holds.
\<close>

theorem interrupt_delivery:
  assumes wf: "pending core s \<subseteq> {..<maximum_interrupt_no}"
  shows "pending c (raise_interrupt core i s) =
      (if c = core then insert (intno i) (pending c s) else pending c s) \<and>
    sigusr1 (raise_interrupt core i s) core =
      sigusr1 s core + (if intno i \<in> pending core s then 0 else 1) \<and>
    (\<exists>irq s'. intr_fetch_lowest core s = Some (irq, s') \<and>
      (irq = None \<longleftrightarrow> pending core s = {}) \<and>
      (\<forall>j. irq = Some j \<longrightarrow> intno j \<in> pending core s \<and>
         (\<forall>k \<in> pending core s. intno j \<le> k) \<and>
         pending core s' = pending core s - {intno j}))"
proof -
  have "\<exists>irq s'. intr_fetch_lowest core s = Some (irq, s') \<and>
      (irq = None \<longleftrightarrow> pending core s = {}) \<and>
      (\<forall>j. irq = Some j \<longrightarrow> intno j \<in> pending core s \<and>
         (\<forall>k \<in> pending core s. intno j \<le> k) \<and> pending core s' = pending core s - {intno j})"
  proof (cases "intr_pending s core = 0")
    case True
    then show ?thesis by (auto simp: intr_fetch_lowest_def pending_def)
  next
    case False
    note low = ctz_lowest [OF False]
    let ?n = "ctz (intr_pending s core)"
    have n: "?n < maximum_interrupt_no" using low(1) wf by (auto simp: pending_def)
    then show ?thesis
      using False low bit_imp_le_length [OF low(1)]
      by (auto simp: intr_fetch_lowest_def Let_def pending_def intno_of_intno
          bit_and_not_sel_bit intro: leI)
  qed
  then show ?thesis by (auto simp: pending_raise_interrupt raise_interrupt_signal)
qed

definition bios0 :: bios where
  "bios0 = \<lparr>ncores = 2, physical_cores = 2, intr_pending = (\<lambda>_. 0), intvec = (\<lambda>_ _. None),
     sigusr1 = (\<lambda>_. 0), sigmask = (\<lambda>_. False), pic_signals = 0, halt_vector = 0,
     timer = (\<lambda>_. (0, 0)), clock = 0, nterm = 0,
     TERMS = (\<lambda>_. \<lparr>con = \<lparr>fd = 0, iodir = IODIR_TX, int_core = 0, ready = True, last_int = 0\<rparr>,
                  kbd = \<lparr>fd = 0, iodir = IODIR_RX, int_core = 0, ready = True, last_int = 0\<rparr>\<rparr>)\<rparr>"

theorem interrupt_delivery_witness:
  "\<exists>s'. intr_fetch_lowest 0 (raise_interrupt 0 ALARM (raise_interrupt 0 SERIAL_TX_READY bios0)) =
      Some (Some ALARM, s') \<and> pending 0 s' = {3}"
proof -
  let ?s = "raise_interrupt 0 ALARM (raise_interrupt 0 SERIAL_TX_READY bios0)"
  have p: "pending 0 ?s = {1, 3}"
    by (auto simp: pending_raise_interrupt) (auto simp: pending_def bios0_def)
  then have "pending 0 ?s \<subseteq> {..<maximum_interrupt_no}" by (auto simp: maximum_interrupt_no_def)
  from interrupt_delivery [OF this, of 0 ICI] obtain irq s' where
    f: "intr_fetch_lowest 0 ?s = Some (irq, s')" and ne: "irq \<noteq> None"
    and j: "\<forall>j. irq = Some j \<longrightarrow> intno j \<in> {1, 3} \<and> (\<forall>k \<in> {1, 3}. intno j \<le> k) \<and>
       pending 0 s' = {1, 3} - {intno j}"
    unfolding p by auto
  then obtain i where i: "irq = Some i" by auto
  with j have *: "intno i \<in> {1, 3}" "intno i \<le> 1" "pending 0 s' = {1, 3} - {intno i}"
    by blast+
  then have "intno i = 1" by auto
  then have "i = ALARM" by (cases i) auto
  with f i * show ?thesis by simp
qed

text \<open>
  \<^verbatim>\<open>cpu_core_restart_one\<close> restarts the lowest-numbered halted core if it is backed by a
  physical core: it clears the halt bit of that core and of no other and sends it one
  signal; otherwise the machine is unchanged.
\<close>

theorem cpu_core_restart_one_spec:
  "(if halt_vector s \<noteq> 0 \<and> ctz (halt_vector s) < physical_cores s
    then bit (halt_vector s) (ctz (halt_vector s)) \<and>
      (\<forall>i < ctz (halt_vector s). \<not> bit (halt_vector s) i) \<and>
      (\<forall>i. bit (halt_vector (cpu_core_restart_one s)) i \<longleftrightarrow>
         bit (halt_vector s) i \<and> i \<noteq> ctz (halt_vector s)) \<and>
      sigusr1 (cpu_core_restart_one s) =
        (sigusr1 s)(ctz (halt_vector s) := sigusr1 s (ctz (halt_vector s)) + 1)
    else cpu_core_restart_one s = s)"
proof (cases "halt_vector s = 0")
  case False
  note low = ctz_lowest [OF False]
  have "ctz (halt_vector s) < 32" using bit_imp_le_length [OF low(1)] by simp
  with low False show ?thesis
    by (auto simp: cpu_core_restart_one_def core_restart_def interrupt_core_def Let_def and_sel_bit
        bit_and_not_sel_bit)
qed (simp add: cpu_core_restart_one_def)

theorem cpu_core_restart_one_witness:
  "halt_vector (cpu_core_restart_one (bios0\<lparr>halt_vector := 2\<rparr>)) = 0 \<and>
   sigusr1 (cpu_core_restart_one (bios0\<lparr>halt_vector := 2\<rparr>)) 1 = 1"
proof -
  have b: "bit (2 :: uint32) i \<longleftrightarrow> i = 1" for i by (auto simp: bit_2_iff)
  have c: "ctz 2 = 1" by (rule length_takeWhile_upt) (simp_all add: b)
  show ?thesis
    using cpu_core_restart_one_spec [of "bios0\<lparr>halt_vector := 2\<rparr>"]
    by (auto simp: c b bios0_def bit_2_iff bit_eq_iff [of "halt_vector _"])
qed

text \<open>
  The conversion between microseconds and the seconds and nanoseconds of the POSIX
  timer loses nothing: cancelling a timer at the instant it was set returns exactly the
  duration it was set to, for every 64-bit duration.
\<close>

theorem timer_roundtrip:
  "fst (bios_cancel_timer self (snd (bios_set_timer self usec s))) = usec"
proof -
  have "unat (usec mod 1000000) < 1000000" by (simp add: unat_mod)
  then have "unat ((usec mod 1000000) * 1000) = unat (usec mod 1000000) * 1000"
    by (simp add: unat_word_ariths unat_mod)
  then have "unat ((usec mod 1000000) * 1000) div 1000 = unat (usec mod 1000000)" by simp
  then have "fst (bios_cancel_timer self (snd (bios_set_timer self usec s))) =
      1000000 * (usec div 1000000) + usec mod 1000000"
    by (simp add: bios_cancel_timer_def bios_set_timer_def Let_def split_beta)
  also have "\<dots> = usec" by (rule mult_div_mod_eq)
  finally show ?thesis .
qed

end
