(* ===== verification/Sched.thy ===== *)
theory Sched
  imports Bios
begin

text \<open>
  The scheduler of \<^verbatim>\<open>kernel_sched.c\<close>: thread control blocks, the five priority queues,
  the timeout list, the per-core control blocks, and the operations \<^verbatim>\<open>spawn_thread\<close>,
  \<^verbatim>\<open>wakeup\<close>, \<^verbatim>\<open>sleep_releasing\<close>, \<^verbatim>\<open>yield\<close>, \<^verbatim>\<open>gain\<close> and \<^verbatim>\<open>aging\<close>.

  A section of code that runs with \<^verbatim>\<open>sched_spinlock\<close> held and preemption off is one
  atomic step.  \<^verbatim>\<open>yield\<close> is such a section up to the context switch; what the resumed
  thread does first, \<^verbatim>\<open>gain\<close>, is another.  In between, other cores may take steps, so the
  multi-core behaviour is the step relation \<open>sched_step\<close> at the end of the model.  The
  part of a saved context that matters here is the local variable \<^verbatim>\<open>preempt\<close> of the
  suspended \<^verbatim>\<open>yield\<close> (or the argument 1 of \<^verbatim>\<open>gain\<close> in \<^verbatim>\<open>thread_start\<close>); it is kept in
  \<open>ctx_preempt\<close>.  An intrusive node \<^verbatim>\<open>sched_node\<close> lies on at most one ring, and the rings
  are lists of threads here.
\<close>

section \<open>State\<close>

text \<open>A thread is the idle thread inside the control block of a core, or an allocated TCB.\<close>

datatype tcb_ref = IdleT nat | Thr nat

datatype Thread_state = INIT | READY | RUNNING | STOPPED | EXITED
datatype Thread_phase = CTX_CLEAN | CTX_DIRTY
datatype Thread_type = IDLE_THREAD | NORMAL_THREAD

datatype SCHED_CAUSE =
  SCHED_QUANTUM | SCHED_IO | SCHED_MUTEX | SCHED_PIPE | SCHED_POLL | SCHED_IDLE | SCHED_USER

text \<open>The functions that the kernel passes to \<^verbatim>\<open>spawn_thread\<close>.\<close>

datatype thread_fun = start_main_thread | thread_Exe

record TCB =
  owner_pcb :: "nat option"
  owner_ptcb :: "nat option"
  ttype :: Thread_type
  state :: Thread_state
  phase :: Thread_phase
  thread_func :: "thread_fun option"
  wakeup_time :: TimerDuration
  its :: TimerDuration
  rts :: TimerDuration
  curr_cause :: SCHED_CAUSE
  last_cause :: SCHED_CAUSE
  priority :: nat

record CCB =
  current_thread :: "tcb_ref option"
  previous_thread :: "tcb_ref option"

record sched = bios +
  tcbs :: "tcb_ref \<rightharpoonup> TCB"
  ctx_preempt :: "tcb_ref \<Rightarrow> bool"
  next_tcb :: nat
  SCHED :: "nat \<Rightarrow> tcb_ref list"
  TIMEOUT_LIST :: "tcb_ref list"
  cctx :: "nat \<Rightarrow> CCB"
  active_threads :: uint32
  yield_counter :: nat
  mutexes :: "mutex_ref \<Rightarrow> bool"

definition MAX_QUANTUMS :: nat where "MAX_QUANTUMS = 500"
definition PRIORITY_QUEUES :: nat where "PRIORITY_QUEUES = 5"
definition QUANTUM :: TimerDuration where "QUANTUM = 10000"
definition NO_TIMEOUT :: TimerDuration where "NO_TIMEOUT = -1"

section \<open>Access to threads\<close>

definition upd_tcb :: "tcb_ref \<Rightarrow> (TCB \<Rightarrow> TCB) \<Rightarrow> 'a sched_scheme \<Rightarrow> 'a sched_scheme option" where
  "upd_tcb t f s = do { tc \<leftarrow> tcbs s t; Some (s\<lparr>tcbs := (tcbs s)(t \<mapsto> f tc)\<rparr>) }"

definition cur_thread :: "nat \<Rightarrow> 'a sched_scheme \<Rightarrow> tcb_ref option" where
  "cur_thread c s = current_thread (cctx s c)"

definition Mutex_Unlock :: "mutex_ref \<Rightarrow> 'a sched_scheme \<Rightarrow> 'a sched_scheme" where
  "Mutex_Unlock m s = s\<lparr>mutexes := (mutexes s)(m := False)\<rparr>"

section \<open>Creating and releasing threads\<close>

definition spawn_thread ::
  "nat option \<Rightarrow> thread_fun \<Rightarrow> 'a sched_scheme \<Rightarrow> tcb_ref \<times> 'a sched_scheme" where
  "spawn_thread pcb func s =
     (let t = Thr (next_tcb s);
          tcb = \<lparr>owner_pcb = pcb, owner_ptcb = None, ttype = NORMAL_THREAD, state = INIT,
                 phase = CTX_CLEAN, thread_func = Some func, wakeup_time = NO_TIMEOUT,
                 its = QUANTUM, rts = QUANTUM, curr_cause = SCHED_IDLE, last_cause = SCHED_IDLE,
                 priority = PRIORITY_QUEUES div 2\<rparr>
      in (t, s\<lparr>tcbs := (tcbs s)(t \<mapsto> tcb), ctx_preempt := (ctx_preempt s)(t := True),
               next_tcb := next_tcb s + 1, active_threads := active_threads s + 1\<rparr>))"

definition release_TCB :: "tcb_ref \<Rightarrow> 'a sched_scheme \<Rightarrow> 'a sched_scheme" where
  "release_TCB t s = s\<lparr>tcbs := (tcbs s)(t := None), active_threads := active_threads s - 1\<rparr>"

section \<open>Queues\<close>

text \<open>Insertion before the first entry with a later wakeup time.\<close>

fun timeout_insert ::
  "TimerDuration \<Rightarrow> tcb_ref \<Rightarrow> (tcb_ref \<rightharpoonup> TCB) \<Rightarrow> tcb_ref list \<Rightarrow> tcb_ref list option" where
  "timeout_insert w t T [] = Some [t]"
| "timeout_insert w t T (n # ns) =
     do { nt \<leftarrow> T n;
          if w < wakeup_time nt then Some (t # n # ns)
          else do { ns' \<leftarrow> timeout_insert w t T ns; Some (n # ns') } }"

definition sched_register_timeout ::
  "tcb_ref \<Rightarrow> TimerDuration \<Rightarrow> 'a sched_scheme \<Rightarrow> 'a sched_scheme option" where
  "sched_register_timeout t timeout s =
     (if timeout \<noteq> NO_TIMEOUT
      then do { let w = bios_clock s + timeout;
                s1 \<leftarrow> upd_tcb t (\<lambda>tc. tc\<lparr>wakeup_time := w\<rparr>) s;
                l \<leftarrow> timeout_insert w t (tcbs s1) (TIMEOUT_LIST s1);
                Some (s1\<lparr>TIMEOUT_LIST := l\<rparr>) }
      else Some s)"

definition sched_queue_add :: "tcb_ref \<Rightarrow> 'a sched_scheme \<Rightarrow> 'a sched_scheme option" where
  "sched_queue_add t s =
     do { tc \<leftarrow> tcbs s t;
          if priority tc < PRIORITY_QUEUES
          then Some (cpu_core_restart_one
            (s\<lparr>SCHED := (SCHED s)(priority tc := SCHED s (priority tc) @ [t])\<rparr>))
          else None }"

text \<open>\<^verbatim>\<open>sched_node.next != &sched_node\<close>, and \<^verbatim>\<open>rlist_remove\<close> of the node.\<close>

definition sched_node_linked :: "tcb_ref \<Rightarrow> 'a sched_scheme \<Rightarrow> bool" where
  "sched_node_linked t s \<longleftrightarrow>
     t \<in> set (TIMEOUT_LIST s) \<or> (\<exists>i \<in> set [0..<PRIORITY_QUEUES]. t \<in> set (SCHED s i))"

definition sched_node_remove :: "tcb_ref \<Rightarrow> 'a sched_scheme \<Rightarrow> 'a sched_scheme" where
  "sched_node_remove t s =
     s\<lparr>TIMEOUT_LIST := remove1 t (TIMEOUT_LIST s), SCHED := (\<lambda>i. remove1 t (SCHED s i))\<rparr>"

definition sched_make_ready :: "tcb_ref \<Rightarrow> 'a sched_scheme \<Rightarrow> 'a sched_scheme option" where
  "sched_make_ready t s =
     do { tc \<leftarrow> tcbs s t;
          c_assert (state tc = STOPPED \<or> state tc = INIT);
          s1 \<leftarrow> (if wakeup_time tc \<noteq> NO_TIMEOUT
                 then if sched_node_linked t s \<and> state tc = STOPPED
                      then upd_tcb t (\<lambda>tc. tc\<lparr>wakeup_time := NO_TIMEOUT\<rparr>) (sched_node_remove t s)
                      else None
                 else Some s);
          s2 \<leftarrow> upd_tcb t (\<lambda>tc. tc\<lparr>state := READY\<rparr>) s1;
          if phase tc = CTX_CLEAN then sched_queue_add t s2 else Some s2 }"

partial_function (option) wakeup_expired_loop ::
  "TimerDuration \<Rightarrow> 'a sched_scheme \<Rightarrow> 'a sched_scheme option" where
  "wakeup_expired_loop curtime s =
     (case TIMEOUT_LIST s of
        [] \<Rightarrow> Some s
      | t # _ \<Rightarrow>
          do { tc \<leftarrow> tcbs s t;
               if wakeup_time tc > curtime then Some s
               else do { s1 \<leftarrow> sched_make_ready t s; wakeup_expired_loop curtime s1 } })"

definition sched_wakeup_expired_timeouts :: "'a sched_scheme \<Rightarrow> 'a sched_scheme option" where
  "sched_wakeup_expired_timeouts s = wakeup_expired_loop (bios_clock s) s"

declare wakeup_expired_loop.simps [code]

text \<open>The search for the highest non-empty queue; \<open>select_loop k\<close> starts at queue \<open>k - 1\<close>.\<close>

fun select_loop :: "nat \<Rightarrow> 'a sched_scheme \<Rightarrow> tcb_ref option \<times> 'a sched_scheme" where
  "select_loop 0 s = (None, s)"
| "select_loop (Suc counter) s =
     (case SCHED s counter of
        [] \<Rightarrow> select_loop counter s
      | t # ts \<Rightarrow> (Some t, s\<lparr>SCHED := (SCHED s)(counter := ts)\<rparr>))"

definition sched_queue_select ::
  "nat \<Rightarrow> tcb_ref \<Rightarrow> 'a sched_scheme \<Rightarrow> (tcb_ref \<times> 'a sched_scheme) option" where
  "sched_queue_select c current s =
     do { let (sel, s1) = select_loop PRIORITY_QUEUES s;
          ct \<leftarrow> tcbs s1 current;
          let next_thread = (case sel of
                Some t \<Rightarrow> t
              | None \<Rightarrow> if state ct = READY then current else IdleT c);
          s2 \<leftarrow> upd_tcb next_thread (\<lambda>tc. tc\<lparr>its := QUANTUM\<rparr>) s1;
          Some (next_thread, s2) }"

text \<open>\<open>aging_loop k\<close> treats the queues \<open>k - 1\<close> down to 0.\<close>

fun aging_loop :: "nat \<Rightarrow> 'a sched_scheme \<Rightarrow> 'a sched_scheme option" where
  "aging_loop 0 s = Some s"
| "aging_loop (Suc count) s =
     (case SCHED s count of
        [] \<Rightarrow> aging_loop count s
      | t # ts \<Rightarrow>
          do { s1 \<leftarrow> upd_tcb t (\<lambda>tc. tc\<lparr>priority := priority tc + 1\<rparr>)
                       (s\<lparr>SCHED := (SCHED s)(count := ts)\<rparr>);
               aging_loop count
                 (s1\<lparr>SCHED := (SCHED s1)(count + 1 := SCHED s1 (count + 1) @ [t])\<rparr>) })"

definition aging :: "'a sched_scheme \<Rightarrow> 'a sched_scheme option" where
  "aging s = aging_loop (PRIORITY_QUEUES - 1) s"

section \<open>Blocking and switching\<close>

definition wakeup :: "nat \<Rightarrow> tcb_ref \<Rightarrow> 'a sched_scheme \<Rightarrow> (bool \<times> 'a sched_scheme) option" where
  "wakeup c t s =
     do { let (oldpre, s1) = cpu_disable_interrupts c s;
          tc \<leftarrow> tcbs s1 t;
          (ret, s2) \<leftarrow> (if state tc = STOPPED \<or> state tc = INIT
                         then do { s2 \<leftarrow> sched_make_ready t s1; Some (True, s2) }
                         else Some (False, s1));
          Some (ret, if oldpre then cpu_enable_interrupts c s2 else s2) }"

text \<open>The section of \<^verbatim>\<open>sleep_releasing\<close> that runs with \<^verbatim>\<open>sched_spinlock\<close> held.\<close>

definition sleep_section ::
  "nat \<Rightarrow> Thread_state \<Rightarrow> mutex_ref option \<Rightarrow> TimerDuration \<Rightarrow> 'a sched_scheme \<Rightarrow>
   'a sched_scheme option" where
  "sleep_section c st mx timeout s =
     do { c_assert (st = STOPPED \<or> st = EXITED);
          let (preempt, s1) = cpu_disable_interrupts c s;
          t \<leftarrow> cur_thread c s1;
          s2 \<leftarrow> upd_tcb t (\<lambda>tc. tc\<lparr>state := st\<rparr>) s1;
          s3 \<leftarrow> (if st \<noteq> EXITED then sched_register_timeout t timeout s2 else Some s2);
          Some (case mx of None \<Rightarrow> s3 | Some m \<Rightarrow> Mutex_Unlock m s3) }"

definition adjust_priority :: "SCHED_CAUSE \<Rightarrow> TCB \<Rightarrow> TCB" where
  "adjust_priority cause tc =
     (case cause of
        SCHED_QUANTUM \<Rightarrow> if priority tc > 0 then tc\<lparr>priority := priority tc - 1\<rparr> else tc
      | SCHED_IO \<Rightarrow>
          if priority tc < PRIORITY_QUEUES - 1 then tc\<lparr>priority := priority tc + 1\<rparr> else tc
      | SCHED_MUTEX \<Rightarrow>
          if priority tc > 0 \<and> curr_cause tc = last_cause tc
          then tc\<lparr>priority := priority tc - 1\<rparr> else tc
      | _ \<Rightarrow> tc)"

text \<open>
  \<^verbatim>\<open>yield\<close> up to the context switch.  If the core goes on with the same thread, the
  following \<open>gain\<close> is the rest of the same call.
\<close>

definition yield_account :: "nat \<Rightarrow> SCHED_CAUSE \<Rightarrow> tcb_ref \<Rightarrow> TimerDuration \<Rightarrow>
  'a sched_scheme \<Rightarrow> 'a sched_scheme option" where
  "yield_account c cause current remaining s =
     do { let s1 = s\<lparr>yield_counter := yield_counter s + 1\<rparr>;
          s2 \<leftarrow> (if yield_counter s1 = MAX_QUANTUMS
                 then do { s2 \<leftarrow> aging s1; Some (s2\<lparr>yield_counter := 0\<rparr>) }
                 else Some s1);
          s3 \<leftarrow> upd_tcb current (\<lambda>tc. if state tc = RUNNING then tc\<lparr>state := READY\<rparr> else tc) s2;
          upd_tcb current
            (\<lambda>tc. tc\<lparr>rts := remaining, last_cause := curr_cause tc, curr_cause := cause\<rparr>) s3 }"

definition yield_select :: "nat \<Rightarrow> SCHED_CAUSE \<Rightarrow> tcb_ref \<Rightarrow> bool \<Rightarrow>
  'a sched_scheme \<Rightarrow> 'a sched_scheme option" where
  "yield_select c cause current preempt s =
     do { (next, s1) \<leftarrow> sched_queue_select c current s;
          s2 \<leftarrow> upd_tcb current (adjust_priority cause) s1;
          let s3 = s2\<lparr>cctx := (cctx s2)(c := (cctx s2 c)\<lparr>previous_thread := Some current\<rparr>),
                      ctx_preempt := (ctx_preempt s2)(current := preempt)\<rparr>;
          Some (if current \<noteq> next
                then s3\<lparr>cctx := (cctx s3)(c := (cctx s3 c)\<lparr>current_thread := Some next\<rparr>)\<rparr>
                else s3) }"

definition yield :: "nat \<Rightarrow> SCHED_CAUSE \<Rightarrow> 'a sched_scheme \<Rightarrow> 'a sched_scheme option" where
  "yield c cause s =
     do { let (remaining, s0) = bios_cancel_timer c s;
          let (preempt, s1) = cpu_disable_interrupts c s0;
          current \<leftarrow> cur_thread c s1;
          s2 \<leftarrow> yield_account c cause current remaining s1;
          s3 \<leftarrow> sched_wakeup_expired_timeouts s2;
          yield_select c cause current preempt s3 }"

definition sleep_releasing ::
  "nat \<Rightarrow> Thread_state \<Rightarrow> mutex_ref option \<Rightarrow> SCHED_CAUSE \<Rightarrow> TimerDuration \<Rightarrow> 'a sched_scheme \<Rightarrow>
   'a sched_scheme option" where
  "sleep_releasing c st mx cause timeout s =
     do { s1 \<leftarrow> sleep_section c st mx timeout s; yield c cause s1 }"

definition gain :: "nat \<Rightarrow> 'a sched_scheme \<Rightarrow> 'a sched_scheme option" where
  "gain c s =
     do { current \<leftarrow> cur_thread c s;
          s1 \<leftarrow> upd_tcb current
                 (\<lambda>tc. tc\<lparr>state := RUNNING, phase := CTX_DIRTY, rts := its tc\<rparr>) s;
          prev \<leftarrow> previous_thread (cctx s1 c);
          s2 \<leftarrow> (if current \<noteq> prev
                 then do { s2 \<leftarrow> upd_tcb prev (\<lambda>tc. tc\<lparr>phase := CTX_CLEAN\<rparr>) s1;
                           pt \<leftarrow> tcbs s2 prev;
                           (case state pt of
                              READY \<Rightarrow> if ttype pt \<noteq> IDLE_THREAD then sched_queue_add prev s2
                                       else Some s2
                            | EXITED \<Rightarrow> Some (release_TCB prev s2)
                            | STOPPED \<Rightarrow> Some s2
                            | _ \<Rightarrow> None) }
                 else Some s1);
          let s3 = (if ctx_preempt s2 current then cpu_enable_interrupts c s2 else s2);
          ct \<leftarrow> tcbs s3 current;
          Some (snd (bios_set_timer c (rts ct) s3)) }"

section \<open>Starting the scheduler\<close>

definition initialize_scheduler :: "'a sched_scheme \<Rightarrow> 'a sched_scheme" where
  "initialize_scheduler s = s\<lparr>SCHED := (\<lambda>_. []), TIMEOUT_LIST := []\<rparr>"

text \<open>
  \<^verbatim>\<open>run_scheduler\<close> up to the call of \<^verbatim>\<open>idle_thread\<close>; \<open>pcb0\<close> is the value of \<^verbatim>\<open>get_pcb(0)\<close>.
  The fields that the code does not assign keep the zeros of static storage.
\<close>

definition run_scheduler :: "nat \<Rightarrow> nat option \<Rightarrow> 'a sched_scheme \<Rightarrow> 'a sched_scheme" where
  "run_scheduler c pcb0 s =
     (let idle = \<lparr>owner_pcb = pcb0, owner_ptcb = None, ttype = IDLE_THREAD, state = RUNNING,
                  phase = CTX_DIRTY, thread_func = None, wakeup_time = NO_TIMEOUT,
                  its = QUANTUM, rts = QUANTUM, curr_cause = SCHED_IDLE, last_cause = SCHED_IDLE,
                  priority = 0\<rparr>;
          s1 = s\<lparr>cctx := (cctx s)(c := (cctx s c)\<lparr>current_thread := Some (IdleT c)\<rparr>),
                 tcbs := (tcbs s)(IdleT c \<mapsto> idle)\<rparr>;
          s2 = cpu_interrupt_handler c ALARM (Some yield_handler) s1;
          s3 = cpu_interrupt_handler c ICI (Some ici_handler) s2
      in cpu_enable_interrupts c s3)"

text \<open>The loop test of the idle thread; when it fails the core leaves the scheduler.\<close>

definition idle_continues :: "'a sched_scheme \<Rightarrow> bool" where
  "idle_continues s \<longleftrightarrow> active_threads s > 0"

definition idle_leave :: "nat \<Rightarrow> 'a sched_scheme \<Rightarrow> 'a sched_scheme" where
  "idle_leave c s = cpu_core_restart_all (snd (bios_cancel_timer c s))"

end
