(* ===== verification/Sched_Inv.thy ===== *)
theory Sched_Inv
  imports Sched
begin

text \<open>
  The multi-core behaviour of the scheduler and its invariant.

  \<open>sched_step\<close> interleaves the atomic sections of all cores; the set \<open>sw\<close> holds the cores
  that are between the section of \<^verbatim>\<open>yield\<close> and the following \<^verbatim>\<open>gain\<close>.  The invariant is the
  one documented in \<^verbatim>\<open>kernel_sched.h\<close> (a thread is queued exactly when it is ready and its
  context is clean), completed by what makes it inductive: which core uses the context of
  which thread, and which thread a switching core has taken from the queue.
\<close>

section \<open>Interleaved steps\<close>

definition same_sched :: "'a sched_scheme \<Rightarrow> 'a sched_scheme \<Rightarrow> bool" where
  "same_sched s s' \<longleftrightarrow> tcbs s' = tcbs s \<and> SCHED s' = SCHED s \<and> TIMEOUT_LIST s' = TIMEOUT_LIST s \<and>
     cctx s' = cctx s \<and> active_threads s' = active_threads s \<and> next_tcb s' = next_tcb s"

text \<open>
  A sleeping thread calls \<^verbatim>\<open>yield\<close> next on its core; until then other cores may already
  wake it up.  Threads sleep while they are running, idle threads never sleep, and a
  timeout does not end exactly at the reserved value \<open>NO_TIMEOUT\<close>.  \<open>Env\<close> is any change
  outside the scheduler's data: the clock, interrupts, the rest of the kernel.
\<close>

inductive sched_step ::
  "nat set \<times> 'a sched_scheme \<Rightarrow> nat set \<times> 'a sched_scheme \<Rightarrow> bool" where
  Spawn: "spawn_thread pcb func s = (t, s') \<Longrightarrow> sched_step (sw, s) (sw, s')"
| Wakeup: "wakeup c t s = Some (r, s') \<Longrightarrow> sched_step (sw, s) (sw, s')"
| Sleep: "\<lbrakk>c \<notin> sw; cur_thread c s = Some (Thr n); tcbs s (Thr n) = Some tc; state tc = RUNNING;
    timeout = NO_TIMEOUT \<or> bios_clock s + timeout \<noteq> NO_TIMEOUT;
    sleep_section c st mx timeout s = Some s'\<rbrakk> \<Longrightarrow> sched_step (sw, s) (sw, s')"
| Yield: "\<lbrakk>c \<notin> sw; yield c cause s = Some s'\<rbrakk> \<Longrightarrow> sched_step (sw, s) (insert c sw, s')"
| Gain: "\<lbrakk>c \<in> sw; gain c s = Some s'\<rbrakk> \<Longrightarrow> sched_step (sw, s) (sw - {c}, s')"
| Start: "\<lbrakk>c \<notin> sw; cur_thread c s = None\<rbrakk> \<Longrightarrow> sched_step (sw, s) (sw, run_scheduler c pcb0 s)"
| Env: "same_sched s s' \<Longrightarrow> sched_step (sw, s) (sw, s')"

text \<open>The state after the zeroed static storage went through \<^verbatim>\<open>initialize_scheduler\<close>.\<close>

definition sched_initial :: "'a sched_scheme \<Rightarrow> bool" where
  "sched_initial s \<longleftrightarrow> tcbs s = Map.empty \<and> SCHED s = (\<lambda>_. []) \<and> TIMEOUT_LIST s = [] \<and>
     cctx s = (\<lambda>_. \<lparr>current_thread = None, previous_thread = None\<rparr>) \<and>
     active_threads s = 0"

inductive sched_reachable :: "nat set \<times> 'a sched_scheme \<Rightarrow> bool" where
  init: "sched_initial s \<Longrightarrow> sched_reachable ({}, s)"
| step: "sched_reachable x \<Longrightarrow> sched_step x y \<Longrightarrow> sched_reachable y"

section \<open>The invariant\<close>

text \<open>The thread whose context a core is using, and the thread it is switching to.\<close>

definition holder :: "nat set \<Rightarrow> 'a sched_scheme \<Rightarrow> nat \<Rightarrow> tcb_ref option" where
  "holder sw s c = (if c \<in> sw then previous_thread (cctx s c) else current_thread (cctx s c))"

definition incoming :: "nat set \<Rightarrow> 'a sched_scheme \<Rightarrow> nat \<Rightarrow> tcb_ref option" where
  "incoming sw s c =
     (if c \<in> sw \<and> current_thread (cctx s c) \<noteq> previous_thread (cctx s c)
      then current_thread (cctx s c) else None)"

definition queueable :: "(tcb_ref \<rightharpoonup> TCB) \<Rightarrow> tcb_ref \<Rightarrow> nat \<Rightarrow> bool" where
  "queueable T t i \<longleftrightarrow> (\<exists>tc. T t = Some tc \<and> ttype tc = NORMAL_THREAD \<and> state tc = READY \<and>
     phase tc = CTX_CLEAN \<and> priority tc = i)"

definition q_ok where
  "q_ok N T Q \<longleftrightarrow> (\<forall>i t. t \<in> set (Q i) \<longleftrightarrow> queueable T t i \<and> (\<forall>c. N c \<noteq> Some t)) \<and>
     (\<forall>i. distinct (Q i))"

definition h_ok where
  "h_ok H T \<longleftrightarrow> (\<forall>c d t. H c = Some t \<longrightarrow> H d = Some t \<longrightarrow> c = d) \<and>
     (\<forall>t tc. T t = Some tc \<longrightarrow> (phase tc = CTX_DIRTY \<longleftrightarrow> (\<exists>c. H c = Some t))) \<and>
     (\<forall>c t. H c = Some t \<longrightarrow> T t \<noteq> None)"

definition n_ok where
  "n_ok N T \<longleftrightarrow> (\<forall>c d t. N c = Some t \<longrightarrow> N d = Some t \<longrightarrow> c = d) \<and>
     (\<forall>c t. N c = Some t \<longrightarrow> (\<exists>tc. T t = Some tc \<and> state tc = READY \<and> phase tc = CTX_CLEAN))"

definition s_ok where
  "s_ok sw H N T \<longleftrightarrow>
     (\<forall>t tc. T t = Some tc \<longrightarrow>
        (state tc = RUNNING \<longrightarrow> (\<exists>c. c \<notin> sw \<and> H c = Some t)) \<and>
        (state tc = INIT \<longrightarrow> phase tc = CTX_CLEAN) \<and>
        (state tc = EXITED \<longrightarrow> phase tc = CTX_DIRTY) \<and>
        priority tc < PRIORITY_QUEUES \<and>
        ttype tc = (case t of IdleT _ \<Rightarrow> IDLE_THREAD | Thr _ \<Rightarrow> NORMAL_THREAD) \<and>
        (ttype tc = IDLE_THREAD \<longrightarrow> state tc = RUNNING \<or> state tc = READY)) \<and>
     (\<forall>c t tc. c \<in> sw \<longrightarrow> N c = None \<longrightarrow> H c = Some t \<longrightarrow> T t = Some tc \<longrightarrow> state tc = READY) \<and>
     (\<forall>c \<in> sw. H c \<noteq> None)"

definition i_ok where
  "i_ok H N T \<longleftrightarrow> (\<forall>c d. H c = Some (IdleT d) \<or> N c = Some (IdleT d) \<longrightarrow> c = d) \<and>
     (\<forall>c. H c \<noteq> None \<longleftrightarrow> T (IdleT c) \<noteq> None)"

definition wk :: "(tcb_ref \<rightharpoonup> TCB) \<Rightarrow> tcb_ref \<Rightarrow> TimerDuration" where
  "wk T t = (case T t of None \<Rightarrow> NO_TIMEOUT | Some tc \<Rightarrow> wakeup_time tc)"

definition t_ok where
  "t_ok T L \<longleftrightarrow> distinct L \<and> sorted_wrt (\<le>) (map (wk T) L) \<and>
     (\<forall>t. t \<in> set L \<longleftrightarrow> wk T t \<noteq> NO_TIMEOUT) \<and>
     (\<forall>t tc. T t = Some tc \<longrightarrow> wakeup_time tc \<noteq> NO_TIMEOUT \<longrightarrow> state tc = STOPPED)"

definition c_ok where
  "c_ok T act nxt_id \<longleftrightarrow> finite {n. T (Thr n) \<noteq> None} \<and>
     act = (of_nat (card {n. T (Thr n) \<noteq> None}) :: uint32) \<and> (\<forall>n. T (Thr n) \<noteq> None \<longrightarrow> n < nxt_id)"

definition k_ok :: "nat set \<Rightarrow> (nat \<Rightarrow> CCB) \<Rightarrow> bool" where
  "k_ok sw C \<longleftrightarrow> (\<forall>c \<in> sw. current_thread (C c) \<noteq> None)"

definition sched_inv :: "nat set \<Rightarrow> 'a sched_scheme \<Rightarrow> bool" where
  "sched_inv sw s \<longleftrightarrow> q_ok (incoming sw s) (tcbs s) (SCHED s) \<and> h_ok (holder sw s) (tcbs s) \<and>
     n_ok (incoming sw s) (tcbs s) \<and> s_ok sw (holder sw s) (incoming sw s) (tcbs s) \<and>
     i_ok (holder sw s) (incoming sw s) (tcbs s) \<and> t_ok (tcbs s) (TIMEOUT_LIST s) \<and>
     c_ok (tcbs s) (active_threads s) (next_tcb s) \<and> k_ok sw (cctx s)"

lemmas ok_defs = k_ok_def q_ok_def h_ok_def n_ok_def s_ok_def i_ok_def t_ok_def c_ok_def

lemma sched_initial_inv: "sched_initial s \<Longrightarrow> sched_inv {} s"
  by (auto simp: sched_initial_def sched_inv_def ok_defs holder_def incoming_def queueable_def
      wk_def)

lemma holder_cong: "cctx s' = cctx s \<Longrightarrow> holder sw s' = holder sw s"
  and incoming_cong: "cctx s' = cctx s \<Longrightarrow> incoming sw s' = incoming sw s"
  by (simp_all add: fun_eq_iff holder_def incoming_def)

lemma holder_incoming_update [simp]:
  "holder sw (s\<lparr>tcbs := T\<rparr>) = holder sw s" "incoming sw (s\<lparr>tcbs := T\<rparr>) = incoming sw s"
  "holder sw (s\<lparr>SCHED := Q\<rparr>) = holder sw s" "incoming sw (s\<lparr>SCHED := Q\<rparr>) = incoming sw s"
  "holder sw (s\<lparr>TIMEOUT_LIST := L\<rparr>) = holder sw s"
  "incoming sw (s\<lparr>TIMEOUT_LIST := L\<rparr>) = incoming sw s"
  "holder sw (s\<lparr>active_threads := a\<rparr>) = holder sw s"
  "incoming sw (s\<lparr>active_threads := a\<rparr>) = incoming sw s"
  by (rule holder_cong incoming_cong; simp)+

lemma sched_inv_same: "same_sched s s' \<Longrightarrow> sched_inv sw s' \<longleftrightarrow> sched_inv sw s"
  by (simp add: same_sched_def sched_inv_def holder_cong [of s' s] incoming_cong [of s' s])

lemma sched_inv_ext:
  fixes s :: "'a sched_scheme" and s' :: "'b sched_scheme"
  shows "\<lbrakk>tcbs s' = tcbs s; SCHED s' = SCHED s; TIMEOUT_LIST s' = TIMEOUT_LIST s; cctx s' = cctx s;
    active_threads s' = active_threads s; next_tcb s' = next_tcb s\<rbrakk> \<Longrightarrow>
   sched_inv sw s' \<longleftrightarrow> sched_inv sw s"
  by (simp add: sched_inv_def holder_cong [of s' s] incoming_cong [of s' s])

lemma sched_inv_cong:
  fixes s s' :: "'a sched_scheme"
  shows "\<lbrakk>tcbs s' = tcbs s; SCHED s' = SCHED s; TIMEOUT_LIST s' = TIMEOUT_LIST s; cctx s' = cctx s;
    active_threads s' = active_threads s; next_tcb s' = next_tcb s\<rbrakk> \<Longrightarrow>
   sched_inv sw s' \<longleftrightarrow> sched_inv sw s"
  by (rule sched_inv_same) (simp add: same_sched_def)

text \<open>Facts about one thread that the proofs use again and again.\<close>

lemma inv_priority: "sched_inv sw s \<Longrightarrow> tcbs s t = Some tc \<Longrightarrow> priority tc < PRIORITY_QUEUES"
  by (auto simp: sched_inv_def s_ok_def)

lemma inv_queued:
  "sched_inv sw s \<Longrightarrow> t \<in> set (SCHED s i) \<longleftrightarrow>
     (\<exists>tc. tcbs s t = Some tc \<and> ttype tc = NORMAL_THREAD \<and> state tc = READY \<and>
        phase tc = CTX_CLEAN \<and> priority tc = i) \<and> (\<forall>c. incoming sw s c \<noteq> Some t)"
  by (auto simp: sched_inv_def q_ok_def queueable_def)

lemma inv_timeout:
  "sched_inv sw s \<Longrightarrow> t \<in> set (TIMEOUT_LIST s) \<longleftrightarrow>
     (\<exists>tc. tcbs s t = Some tc \<and> wakeup_time tc \<noteq> NO_TIMEOUT)"
  by (auto simp: sched_inv_def t_ok_def wk_def split: option.splits)

lemma inv_holder_dirty:
  "sched_inv sw s \<Longrightarrow> holder sw s c = Some t \<Longrightarrow> \<exists>tc. tcbs s t = Some tc \<and> phase tc = CTX_DIRTY"
  unfolding sched_inv_def h_ok_def by (metis not_None_eq)

lemma inv_incoming:
  "sched_inv sw s \<Longrightarrow> incoming sw s c = Some t \<Longrightarrow>
     \<exists>tc. tcbs s t = Some tc \<and> state tc = READY \<and> phase tc = CTX_CLEAN"
  by (simp add: sched_inv_def n_ok_def)

lemma inv_idle_state:
  "sched_inv sw s \<Longrightarrow> tcbs s t = Some tc \<Longrightarrow> ttype tc = IDLE_THREAD \<Longrightarrow>
     state tc = RUNNING \<or> state tc = READY"
  unfolding sched_inv_def s_ok_def by blast

lemma inv_ttype:
  "sched_inv sw s \<Longrightarrow> tcbs s t = Some tc \<Longrightarrow>
     ttype tc = (case t of IdleT _ \<Rightarrow> IDLE_THREAD | Thr _ \<Rightarrow> NORMAL_THREAD)"
  unfolding sched_inv_def s_ok_def by blast

lemma inv_timed_stopped:
  "sched_inv sw s \<Longrightarrow> tcbs s t = Some tc \<Longrightarrow> state tc \<noteq> STOPPED \<Longrightarrow> wakeup_time tc = NO_TIMEOUT"
  unfolding sched_inv_def t_ok_def by blast

lemma inv_idle_home:
  "sched_inv sw s \<Longrightarrow> holder sw s c = Some (IdleT d) \<or> incoming sw s c = Some (IdleT d) \<Longrightarrow> c = d"
  unfolding sched_inv_def i_ok_def by blast

lemma inv_phase:
  "sched_inv sw s \<Longrightarrow> tcbs s t = Some tc \<Longrightarrow>
     phase tc = CTX_DIRTY \<longleftrightarrow> (\<exists>c. holder sw s c = Some t)"
  unfolding sched_inv_def h_ok_def by blast

lemma inv_running:
  "sched_inv sw s \<Longrightarrow> tcbs s t = Some tc \<Longrightarrow> state tc = RUNNING \<Longrightarrow>
     \<exists>c. c \<notin> sw \<and> holder sw s c = Some t"
  unfolding sched_inv_def s_ok_def by blast

section \<open>What the machine operations leave alone\<close>

lemma restart_one_same: "same_sched s (cpu_core_restart_one s)"
  by (simp add: same_sched_def cpu_core_restart_one_def core_restart_def interrupt_core_def Let_def)

lemma disable_same: "same_sched s (snd (cpu_disable_interrupts c s))"
  by (simp add: same_sched_def cpu_disable_interrupts_def)

lemma enable_same: "same_sched s (cpu_enable_interrupts c s)"
  by (simp add: same_sched_def cpu_enable_interrupts_def)

lemma set_timer_same: "same_sched s (snd (bios_set_timer c u s))"
  by (simp add: same_sched_def bios_set_timer_def Let_def split_beta)

lemma cancel_timer_same: "same_sched s (snd (bios_cancel_timer c s))"
  by (simp add: bios_cancel_timer_def set_timer_same)

lemma unlock_same: "same_sched s (Mutex_Unlock m s)"
  by (simp add: same_sched_def Mutex_Unlock_def)

lemma same_sched_trans: "same_sched s s' \<Longrightarrow> same_sched s' s'' \<Longrightarrow> same_sched s s''"
  by (simp add: same_sched_def)

lemmas same_sched_facts [simp] =
  restart_one_same [unfolded same_sched_def] disable_same [unfolded same_sched_def]
  enable_same [unfolded same_sched_def] set_timer_same [unfolded same_sched_def]
  cancel_timer_same [unfolded same_sched_def] unlock_same [unfolded same_sched_def]

section \<open>Waking a thread up\<close>

text \<open>The effect of \<^verbatim>\<open>sched_make_ready\<close> on the scheduler's data.\<close>

lemma sched_make_ready_effect:
  assumes inv: "sched_inv sw s" and t: "tcbs s t = Some tc" and st: "state tc = STOPPED \<or> state tc = INIT"
  obtains s' where "sched_make_ready t s = Some s'"
    and "tcbs s' = (tcbs s)(t \<mapsto> tc\<lparr>wakeup_time := NO_TIMEOUT, state := READY\<rparr>)"
    and "SCHED s' = (if phase tc = CTX_CLEAN
           then (SCHED s)(priority tc := SCHED s (priority tc) @ [t]) else SCHED s)"
    and "TIMEOUT_LIST s' = remove1 t (TIMEOUT_LIST s)"
    and "cctx s' = cctx s" and "active_threads s' = active_threads s"
    and "next_tcb s' = next_tcb s" and "clock s' = clock s"
proof -
  have prio: "priority tc < PRIORITY_QUEUES" using inv t by (rule inv_priority)
  have nq: "t \<notin> set (SCHED s i)" for i using inv t st by (auto simp: inv_queued)
  then have rq: "(\<lambda>i. remove1 t (SCHED s i)) = SCHED s" by (simp add: fun_eq_iff remove1_idem)
  have tl: "t \<in> set (TIMEOUT_LIST s) \<longleftrightarrow> wakeup_time tc \<noteq> NO_TIMEOUT"
    using inv t by (simp add: inv_timeout)
  have stopped: "wakeup_time tc \<noteq> NO_TIMEOUT \<Longrightarrow> state tc = STOPPED"
    using inv t by (auto simp: sched_inv_def t_ok_def)
  have cl: "clock (cpu_core_restart_one x) = clock x" for x :: "'a sched_scheme"
    by (simp add: cpu_core_restart_one_def core_restart_def interrupt_core_def Let_def)
  have nochange: "wakeup_time tc = NO_TIMEOUT \<Longrightarrow> tc\<lparr>wakeup_time := NO_TIMEOUT\<rparr> = tc" by simp
  show ?thesis
  proof (cases "wakeup_time tc = NO_TIMEOUT")
    case True
    then show ?thesis
      using t st prio nq tl that nochange
      by (cases "phase tc = CTX_CLEAN")
        (auto simp: sched_make_ready_def upd_tcb_def sched_queue_add_def cl remove1_idem Let_def)
  next
    case False
    then show ?thesis
      using t stopped prio tl that rq
      by (cases "phase tc = CTX_CLEAN")
        (auto simp: sched_make_ready_def upd_tcb_def sched_queue_add_def cl sched_node_linked_def
          sched_node_remove_def Let_def)
  qed
qed

lemma sorted_wrt_remove1: "sorted_wrt R xs \<Longrightarrow> sorted_wrt R (remove1 x xs)"
  by (induction xs) (auto dest: notin_set_remove1 set_mp [OF set_remove1_subset])

lemma sched_make_ready_inv:
  assumes inv: "sched_inv sw s" and t: "tcbs s t = Some tc"
    and st: "state tc = STOPPED \<or> state tc = INIT"
    and run: "sched_make_ready t s = Some s'"
  shows "sched_inv sw s'"
proof -
  let ?tc = "tc\<lparr>wakeup_time := NO_TIMEOUT, state := READY\<rparr>"
  let ?T = "(tcbs s)(t \<mapsto> ?tc)"
  from sched_make_ready_effect [OF inv t st] run
  have eff: "tcbs s' = ?T" "TIMEOUT_LIST s' = remove1 t (TIMEOUT_LIST s)"
    "SCHED s' = (if phase tc = CTX_CLEAN
       then (SCHED s)(priority tc := SCHED s (priority tc) @ [t]) else SCHED s)"
    "cctx s' = cctx s" "active_threads s' = active_threads s" "next_tcb s' = next_tcb s"
    by (metis option.inject)+
  note cong = holder_cong [OF eff(4)] incoming_cong [OF eff(4)]
  have notin: "incoming sw s c \<noteq> Some t" for c
    using inv_incoming [OF inv, of c t] t st by auto
  have nq: "t \<notin> set (SCHED s i)" for i using inv t st by (auto simp: inv_queued)
  have normal: "ttype tc = NORMAL_THREAD"
    using inv_idle_state [OF inv t] st by (cases "ttype tc") auto
  have "q_ok (incoming sw s) ?T (SCHED s')"
    using inv nq notin normal
    by (auto simp: sched_inv_def q_ok_def queueable_def eff(3) t)
  moreover have "h_ok (holder sw s) ?T"
    using inv t by (auto simp: sched_inv_def h_ok_def)
  moreover have "n_ok (incoming sw s) ?T"
    using inv notin by (auto simp: sched_inv_def n_ok_def)
  moreover have "s_ok sw (holder sw s) (incoming sw s) ?T"
    using inv t by (auto simp: sched_inv_def s_ok_def)
  moreover have "i_ok (holder sw s) (incoming sw s) ?T"
    using inv t by (auto simp: sched_inv_def i_ok_def)
  moreover have "t_ok ?T (remove1 t (TIMEOUT_LIST s))"
  proof -
    have d: "distinct (TIMEOUT_LIST s)" and so: "sorted_wrt (\<le>) (map (wk (tcbs s)) (TIMEOUT_LIST s))"
      using inv by (auto simp: sched_inv_def t_ok_def)
    have "map (wk ?T) (remove1 t (TIMEOUT_LIST s)) = map (wk (tcbs s)) (remove1 t (TIMEOUT_LIST s))"
      using d by (auto simp: wk_def)
    moreover have "sorted_wrt (\<le>) (map (wk (tcbs s)) (remove1 t (TIMEOUT_LIST s)))"
      using so by (simp add: sorted_wrt_map sorted_wrt_remove1)
    ultimately have "sorted_wrt (\<le>) (map (wk ?T) (remove1 t (TIMEOUT_LIST s)))" by argo
    moreover have "u \<in> set (remove1 t (TIMEOUT_LIST s)) \<longleftrightarrow> wk ?T u \<noteq> NO_TIMEOUT" for u
      using inv d by (auto simp: sched_inv_def t_ok_def wk_def)
    moreover have "\<forall>u uc. ?T u = Some uc \<longrightarrow> wakeup_time uc \<noteq> NO_TIMEOUT \<longrightarrow> state uc = STOPPED"
      using inv by (auto simp: sched_inv_def t_ok_def)
    ultimately show ?thesis
      using d unfolding t_ok_def by (simp only: distinct_remove1) blast
  qed
  moreover have "c_ok ?T (active_threads s) (next_tcb s)"
  proof -
    have "{n. ?T (Thr n) \<noteq> None} = {n. tcbs s (Thr n) \<noteq> None}" using t by auto
    with inv show ?thesis by (simp add: sched_inv_def c_ok_def t)
  qed
  ultimately show ?thesis using inv by (simp add: sched_inv_def eff cong)
qed

lemma wakeup_inv:
  assumes inv: "sched_inv sw s" and run: "wakeup c t s = Some (r, s')"
  shows "sched_inv sw s'"
proof -
  let ?s1 = "snd (cpu_disable_interrupts c s)"
  have inv1: "sched_inv sw ?s1" using inv sched_inv_same [OF disable_same] by blast
  from run obtain tc s2 where t: "tcbs ?s1 t = Some tc"
    and s2: "(if state tc = STOPPED \<or> state tc = INIT then sched_make_ready t ?s1 = Some s2
              else s2 = ?s1)"
    and s': "s' = s2 \<or> s' = cpu_enable_interrupts c s2"
    by (auto simp: wakeup_def split_beta Let_def split: if_splits)
  have "sched_inv sw s2"
    using s2 inv1 sched_make_ready_inv [OF inv1 t] by (auto split: if_splits)
  with s' show ?thesis using sched_inv_same [OF enable_same] by blast
qed

text \<open>
  The loop over expired timeouts ends and keeps the invariant; it makes exactly the threads
  ready whose time has come, and leaves every other thread as it was.
\<close>

definition expire :: "TimerDuration \<Rightarrow> TCB \<Rightarrow> TCB" where
  "expire curtime tc =
     (if wakeup_time tc \<noteq> NO_TIMEOUT \<and> wakeup_time tc \<le> curtime
      then tc\<lparr>wakeup_time := NO_TIMEOUT, state := READY\<rparr> else tc)"

lemma wakeup_expired_loop_inv:
  assumes "sched_inv sw s"
  shows "\<exists>s'. wakeup_expired_loop curtime s = Some s' \<and> sched_inv sw s' \<and> cctx s' = cctx s \<and>
    tcbs s' = map_option (expire curtime) \<circ> tcbs s \<and>
    TIMEOUT_LIST s' = dropWhile (\<lambda>t. wk (tcbs s) t \<le> curtime) (TIMEOUT_LIST s)"
  using assms
proof (induction "length (TIMEOUT_LIST s)" arbitrary: s rule: less_induct)
  case less
  have stop: ?case if drop: "wakeup_expired_loop curtime s = Some s"
    and late: "\<forall>u \<in> set (TIMEOUT_LIST s). curtime < wk (tcbs s) u"
  proof -
    have "map_option (expire curtime) (tcbs s u) = tcbs s u" for u
      using late inv_timeout [OF less.prems, of u]
      by (cases "tcbs s u") (auto simp: expire_def wk_def not_le)
    then have "tcbs s = map_option (expire curtime) \<circ> tcbs s" by (simp add: fun_eq_iff)
    moreover have "dropWhile (\<lambda>t. wk (tcbs s) t \<le> curtime) (TIMEOUT_LIST s) = TIMEOUT_LIST s"
      using late by (cases "TIMEOUT_LIST s") auto
    ultimately show ?thesis using drop less.prems by simp
  qed
  show ?case
  proof (cases "TIMEOUT_LIST s")
    case Nil
    then show ?thesis by (intro stop) (subst wakeup_expired_loop.simps, simp_all)
  next
    case (Cons t ts)
    then obtain tc where t: "tcbs s t = Some tc" and w: "wakeup_time tc \<noteq> NO_TIMEOUT"
      using less.prems by (metis inv_timeout list.set_intros(1))
    show ?thesis
    proof (cases "wakeup_time tc > curtime")
      case True
      have "sorted_wrt (\<le>) (map (wk (tcbs s)) (t # ts))"
        using less.prems Cons by (simp add: sched_inv_def t_ok_def)
      then have "\<forall>u \<in> set (TIMEOUT_LIST s). curtime < wk (tcbs s) u"
        using True t Cons by (auto simp: wk_def)
      with True t Cons show ?thesis
        by (intro stop) (subst wakeup_expired_loop.simps, simp_all)
    next
      case False
      have st: "state tc = STOPPED" using inv_timed_stopped [OF less.prems t] w by blast
      obtain s1 where s1: "sched_make_ready t s = Some s1"
        and T: "tcbs s1 = (tcbs s)(t \<mapsto> tc\<lparr>wakeup_time := NO_TIMEOUT, state := READY\<rparr>)"
        and TL: "TIMEOUT_LIST s1 = ts" and C: "cctx s1 = cctx s"
        using sched_make_ready_effect [OF less.prems t] st Cons by (metis remove1.simps(2))
      have inv1: "sched_inv sw s1"
        by (rule sched_make_ready_inv [OF less.prems t _ s1]) (use st in simp)
      from less.hyps [OF _ inv1] TL Cons obtain s' where
        run: "wakeup_expired_loop curtime s1 = Some s'" and rest: "sched_inv sw s'" "cctx s' = cctx s1"
        and T': "tcbs s' = map_option (expire curtime) \<circ> tcbs s1"
        and L': "TIMEOUT_LIST s' = dropWhile (\<lambda>t. wk (tcbs s1) t \<le> curtime) ts"
        by auto
      have "wakeup_expired_loop curtime s = Some s'"
        using False t Cons s1 run by (subst wakeup_expired_loop.simps) simp
      moreover have "tcbs s' = map_option (expire curtime) \<circ> tcbs s"
        using T' T t w False by (auto simp: fun_eq_iff expire_def)
      moreover have "t \<notin> set ts" using less.prems Cons by (simp add: sched_inv_def t_ok_def)
      then have "dropWhile (\<lambda>u. wk (tcbs s1) u \<le> curtime) ts = dropWhile (\<lambda>u. wk (tcbs s) u \<le> curtime) ts"
        by (intro dropWhile_cong) (auto simp: wk_def T)
      then have "TIMEOUT_LIST s' = dropWhile (\<lambda>t. wk (tcbs s) t \<le> curtime) (TIMEOUT_LIST s)"
        using L' Cons t False by (simp add: wk_def)
      ultimately show ?thesis using rest C by simp
    qed
  qed
qed

section \<open>Changes to a single control block\<close>

text \<open>
  Updates of the fields that the invariant does not read, and of the fields of the thread
  that a core is running, keep the invariant.
\<close>

lemma c_ok_upd: "T t = Some tc \<Longrightarrow> c_ok (T(t \<mapsto> tc')) a n = c_ok T a n"
proof -
  assume "T t = Some tc"
  then have "{n. (T(t \<mapsto> tc')) (Thr n) \<noteq> None} = {n. T (Thr n) \<noteq> None}" by auto
  then show ?thesis using \<open>T t = Some tc\<close> by (auto simp: c_ok_def)
qed

lemma t_ok_upd:
  assumes "T t = Some tc" "wakeup_time tc' = wakeup_time tc"
    and "wakeup_time tc \<noteq> NO_TIMEOUT \<Longrightarrow> state tc' = state tc"
  shows "t_ok T L \<Longrightarrow> t_ok (T(t \<mapsto> tc')) L"
proof -
  assume ok: "t_ok T L"
  have "wk (T(t \<mapsto> tc')) = wk T" using assms by (auto simp: wk_def fun_eq_iff)
  with ok assms show ?thesis by (auto simp: t_ok_def)
qed

lemma inv_upd_tcb:
  assumes inv: "sched_inv sw s" and t: "tcbs s t = Some tc"
    and same: "state (f tc) = state tc" "phase (f tc) = phase tc" "ttype (f tc) = ttype tc"
      "wakeup_time (f tc) = wakeup_time tc"
    and prio: "priority (f tc) < PRIORITY_QUEUES"
      "phase tc = CTX_CLEAN \<Longrightarrow> priority (f tc) = priority tc"
  shows "sched_inv sw (s\<lparr>tcbs := (tcbs s)(t \<mapsto> f tc)\<rparr>)"
proof -
  let ?T = "(tcbs s)(t \<mapsto> f tc)"
  have "q_ok (incoming sw s) ?T (SCHED s)"
    using inv t same prio by (auto simp: sched_inv_def q_ok_def queueable_def)
  moreover have "h_ok (holder sw s) ?T" using inv t same by (auto simp: sched_inv_def h_ok_def)
  moreover have "n_ok (incoming sw s) ?T"
    using inv t same inv_incoming [OF inv] by (fastforce simp: sched_inv_def n_ok_def)
  moreover have "s_ok sw (holder sw s) (incoming sw s) ?T"
    using inv t same prio by (auto simp: sched_inv_def s_ok_def)
  moreover have "i_ok (holder sw s) (incoming sw s) ?T" using inv t by (auto simp: sched_inv_def i_ok_def)
  moreover have "t_ok ?T (TIMEOUT_LIST s)"
    by (rule t_ok_upd [of "tcbs s" t tc]) (use inv t same in \<open>auto simp: sched_inv_def\<close>)
  moreover have "c_ok ?T (active_threads s) (next_tcb s)"
    using inv by (simp add: c_ok_upd [of "tcbs s" t tc] t sched_inv_def)
  ultimately show ?thesis using inv by (simp add: sched_inv_def)
qed

lemma inv_yielding:
  assumes inv: "sched_inv sw s" and c: "c \<notin> sw" "cur_thread c s = Some t"
    and t: "tcbs s t = Some tc" and st: "state tc = RUNNING"
  shows "sched_inv sw (s\<lparr>tcbs := (tcbs s)(t \<mapsto> tc\<lparr>state := READY\<rparr>)\<rparr>)"
proof -
  let ?T = "(tcbs s)(t \<mapsto> tc\<lparr>state := READY\<rparr>)"
  have h: "holder sw s c = Some t" using c by (simp add: holder_def cur_thread_def)
  then have d: "phase tc = CTX_DIRTY" using inv_holder_dirty [OF inv h] t by simp
  have "q_ok (incoming sw s) ?T (SCHED s)"
    using inv t st d by (auto simp: sched_inv_def q_ok_def queueable_def)
  moreover have "h_ok (holder sw s) ?T" using inv t by (auto simp: sched_inv_def h_ok_def)
  moreover have "n_ok (incoming sw s) ?T"
    using inv t d inv_incoming [OF inv] by (fastforce simp: sched_inv_def n_ok_def)
  moreover have "s_ok sw (holder sw s) (incoming sw s) ?T"
    using inv t by (auto simp: sched_inv_def s_ok_def)
  moreover have "i_ok (holder sw s) (incoming sw s) ?T" using inv t by (auto simp: sched_inv_def i_ok_def)
  moreover have "t_ok ?T (TIMEOUT_LIST s)"
    by (rule t_ok_upd [of "tcbs s" t tc]) (use inv t st in \<open>auto simp: sched_inv_def t_ok_def\<close>)
  moreover have "c_ok ?T (active_threads s) (next_tcb s)"
    using inv by (simp add: c_ok_upd [of "tcbs s" t tc] t sched_inv_def)
  ultimately show ?thesis using inv by (simp add: sched_inv_def)
qed

section \<open>Aging\<close>

lemma aging_one_inv:
  assumes inv: "sched_inv sw s" and q: "SCHED s i = t # ts" and i: "Suc i < PRIORITY_QUEUES"
    and t: "tcbs s t = Some tc"
  shows "sched_inv sw (s\<lparr>tcbs := (tcbs s)(t \<mapsto> tc\<lparr>priority := Suc (priority tc)\<rparr>),
    SCHED := (SCHED s)(i := ts, Suc i := SCHED s (Suc i) @ [t])\<rparr>)"
proof -
  let ?T = "(tcbs s)(t \<mapsto> tc\<lparr>priority := Suc (priority tc)\<rparr>)"
  let ?Q = "(SCHED s)(i := ts, Suc i := SCHED s (Suc i) @ [t])"
  have tq: "ttype tc = NORMAL_THREAD" "state tc = READY" "phase tc = CTX_CLEAN" "priority tc = i"
    "\<And>d. incoming sw s d \<noteq> Some t"
    using inv_queued [OF inv, of t i] q t by auto
  then have other: "t \<notin> set (SCHED s j)" if "j \<noteq> i" for j
    using inv_queued [OF inv, of t j] t that by auto
  have dist: "distinct (SCHED s j)" for j using inv by (simp add: sched_inv_def q_ok_def)
  have mem: "u \<in> set (SCHED s j) \<longleftrightarrow> queueable (tcbs s) u j \<and> (\<forall>d. incoming sw s d \<noteq> Some u)"
    for u j using inv by (simp add: sched_inv_def q_ok_def)
  have "u \<in> set (?Q j) \<longleftrightarrow> queueable ?T u j \<and> (\<forall>d. incoming sw s d \<noteq> Some u)" for u j
    using mem [of u j] tq dist [of i] q other [of j]
    by (cases "u = t") (auto simp: queueable_def)
  moreover have "distinct (?Q j)" for j using dist [of j] dist [of i] other [of "Suc i"] q by auto
  ultimately have "q_ok (incoming sw s) ?T ?Q" by (simp add: q_ok_def)
  moreover have "h_ok (holder sw s) ?T" using inv t by (auto simp: sched_inv_def h_ok_def)
  moreover have "n_ok (incoming sw s) ?T"
    using inv tq by (auto simp: sched_inv_def n_ok_def)
  moreover have "s_ok sw (holder sw s) (incoming sw s) ?T"
    using inv t tq i by (auto simp: sched_inv_def s_ok_def)
  moreover have "i_ok (holder sw s) (incoming sw s) ?T" using inv t by (auto simp: sched_inv_def i_ok_def)
  moreover have "t_ok ?T (TIMEOUT_LIST s)"
    by (rule t_ok_upd [of "tcbs s" t tc]) (use inv t in \<open>auto simp: sched_inv_def\<close>)
  moreover have "c_ok ?T (active_threads s) (next_tcb s)"
    using inv by (simp add: c_ok_upd [of "tcbs s" t tc] t sched_inv_def)
  ultimately show ?thesis using inv by (simp add: sched_inv_def)
qed

text \<open>\<open>aging\<close> never fails, moves queued threads only, and keeps the invariant.\<close>

lemma aging_loop_inv:
  assumes "sched_inv sw s" "k < PRIORITY_QUEUES"
  shows "\<exists>s'. aging_loop k s = Some s' \<and> sched_inv sw s' \<and> cctx s' = cctx s \<and>
    (\<forall>t tc. tcbs s t = Some tc \<longrightarrow> phase tc = CTX_DIRTY \<longrightarrow> tcbs s' t = Some tc)"
  using assms
proof (induction k arbitrary: s)
  case 0
  then show ?case by simp
next
  case (Suc k)
  show ?case
  proof (cases "SCHED s k")
    case Nil
    with Suc show ?thesis by simp
  next
    case (Cons t ts)
    then obtain tc where t: "tcbs s t = Some tc" and cl: "phase tc = CTX_CLEAN"
      using inv_queued [OF Suc.prems(1), of t k] by auto
    let ?s = "s\<lparr>tcbs := (tcbs s)(t \<mapsto> tc\<lparr>priority := Suc (priority tc)\<rparr>),
      SCHED := (SCHED s)(k := ts, Suc k := SCHED s (Suc k) @ [t])\<rparr>"
    have inv: "sched_inv sw ?s" by (rule aging_one_inv [OF Suc.prems(1) Cons Suc.prems(2) t])
    have "aging_loop (Suc k) s = aging_loop k ?s" using Cons t by (simp add: upd_tcb_def)
    moreover obtain s' where s': "aging_loop k ?s = Some s'" "sched_inv sw s'" "cctx s' = cctx s"
      and keep: "\<And>u uc. tcbs ?s u = Some uc \<Longrightarrow> phase uc = CTX_DIRTY \<Longrightarrow> tcbs s' u = Some uc"
      using Suc.IH [OF inv] Suc.prems(2) by auto
    moreover have "tcbs s' u = Some uc" if "tcbs s u = Some uc" "phase uc = CTX_DIRTY" for u uc
      using keep [of u uc] that t cl by (cases "u = t") auto
    ultimately show ?thesis by metis
  qed
qed

section \<open>Going to sleep\<close>

lemma timeout_insert_ok:
  assumes "sorted_wrt (\<le>) (map (wk T) L)" "\<forall>u \<in> set L. T u \<noteq> None" "t \<notin> set L" "wk T t = w"
    "distinct L"
  shows "\<exists>L'. timeout_insert w t T L = Some L' \<and> set L' = insert t (set L) \<and> distinct L' \<and>
    sorted_wrt (\<le>) (map (wk T) L')"
  using assms
proof (induction L)
  case Nil
  then show ?case by simp
next
  case (Cons n ns)
  then obtain nt where n: "T n = Some nt" by auto
  obtain ns' where ns': "timeout_insert w t T ns = Some ns'" "set ns' = insert t (set ns)"
    "distinct ns'" "sorted_wrt (\<le>) (map (wk T) ns')"
    using Cons by auto
  show ?case
  proof (cases "w < wakeup_time nt")
    case True
    with Cons.prems n show ?thesis by (fastforce simp: wk_def)
  next
    case False
    then have "w \<le> wk T n" if "w = wakeup_time nt" using that n by (simp add: wk_def)
    moreover have "wk T n \<le> w" using False n by (simp add: wk_def)
    ultimately show ?thesis using Cons.prems n ns' False by auto
  qed
qed

lemma sleep_inv:
  assumes inv: "sched_inv sw s" and c: "c \<notin> sw" "cur_thread c s = Some (Thr n)"
    and t: "tcbs s (Thr n) = Some tc" and run: "state tc = RUNNING"
    and st: "st = STOPPED \<or> st = EXITED" and w: "st = EXITED \<Longrightarrow> w = NO_TIMEOUT"
    and L: "set L' = (if w = NO_TIMEOUT then set (TIMEOUT_LIST s) else insert (Thr n) (set (TIMEOUT_LIST s)))"
      "distinct L'"
      "sorted_wrt (\<le>) (map (wk ((tcbs s)(Thr n \<mapsto> tc\<lparr>state := st, wakeup_time := w\<rparr>))) L')"
  shows "sched_inv sw (s\<lparr>tcbs := (tcbs s)(Thr n \<mapsto> tc\<lparr>state := st, wakeup_time := w\<rparr>),
    TIMEOUT_LIST := L'\<rparr>)"
proof -
  let ?T = "(tcbs s)(Thr n \<mapsto> tc\<lparr>state := st, wakeup_time := w\<rparr>)"
  have h: "holder sw s c = Some (Thr n)" using c by (simp add: holder_def cur_thread_def)
  then have d: "phase tc = CTX_DIRTY" using inv_holder_dirty [OF inv h] t by simp
  have ty: "ttype tc = NORMAL_THREAD" using inv_ttype [OF inv t] by simp
  have nt: "wakeup_time tc = NO_TIMEOUT" using inv_timed_stopped [OF inv t] run by simp
  have "q_ok (incoming sw s) ?T (SCHED s)"
    using inv t run d by (auto simp: sched_inv_def q_ok_def queueable_def)
  moreover have "h_ok (holder sw s) ?T" using inv t by (auto simp: sched_inv_def h_ok_def)
  moreover have "n_ok (incoming sw s) ?T"
    using inv t d inv_incoming [OF inv] by (fastforce simp: sched_inv_def n_ok_def)
  moreover have "s_ok sw (holder sw s) (incoming sw s) ?T"
  proof -
    have "holder sw s b \<noteq> Some (Thr n)" if "b \<in> sw" for b
      using inv h c that by (metis (no_types) sched_inv_def h_ok_def)
    then show ?thesis
      using inv t run st d ty by (auto simp: sched_inv_def s_ok_def)
  qed
  moreover have "i_ok (holder sw s) (incoming sw s) ?T" using inv t by (auto simp: sched_inv_def i_ok_def)
  moreover have "t_ok ?T L'"
  proof -
    have "u \<in> set L' \<longleftrightarrow> wk ?T u \<noteq> NO_TIMEOUT" for u
      using inv t nt L(1) by (auto simp: sched_inv_def t_ok_def wk_def)
    moreover have "state uc = STOPPED" if "?T u = Some uc" "wakeup_time uc \<noteq> NO_TIMEOUT" for u uc
      using inv st w that by (auto simp: sched_inv_def t_ok_def split: if_splits)
    ultimately show ?thesis using L(2,3) unfolding t_ok_def by blast
  qed
  moreover have "c_ok ?T (active_threads s) (next_tcb s)"
    using inv by (simp add: c_ok_upd [of "tcbs s" "Thr n" tc] t sched_inv_def)
  ultimately show ?thesis using inv by (simp add: sched_inv_def)
qed

text \<open>The section of \<^verbatim>\<open>sleep_releasing\<close> succeeds for a running thread.\<close>

lemma sleep_section_inv:
  assumes inv: "sched_inv sw s" and c: "c \<notin> sw" "cur_thread c s = Some (Thr n)"
    and t: "tcbs s (Thr n) = Some tc" and run: "state tc = RUNNING"
    and st: "st = STOPPED \<or> st = EXITED"
    and to: "timeout = NO_TIMEOUT \<or> bios_clock s + timeout \<noteq> NO_TIMEOUT"
  shows "\<exists>s'. sleep_section c st mx timeout s = Some s' \<and> sched_inv sw s'"
proof -
  let ?s1 = "snd (cpu_disable_interrupts c s)"
  have inv1: "sched_inv sw ?s1" using inv sched_inv_same [OF disable_same] by blast
  have c1: "cur_thread c ?s1 = Some (Thr n)" and t1: "tcbs ?s1 (Thr n) = Some tc"
    and clk: "bios_clock ?s1 = bios_clock s"
    using c t by (simp_all add: cur_thread_def bios_clock_def cpu_disable_interrupts_def)
  have nt: "wakeup_time tc = NO_TIMEOUT" using inv_timed_stopped [OF inv t] run by simp
  have nl: "Thr n \<notin> set (TIMEOUT_LIST s)" using inv t nt by (simp add: inv_timeout)
  have wk_same: "map (wk ((tcbs s)(Thr n \<mapsto> tc'))) (TIMEOUT_LIST s)
      = map (wk (tcbs s)) (TIMEOUT_LIST s)" for tc'
    using nl by (auto simp: wk_def)
  have dist: "distinct (TIMEOUT_LIST s)" using inv by (simp add: sched_inv_def t_ok_def)
  have sorted: "sorted_wrt (\<le>) (map (wk ((tcbs s)(Thr n \<mapsto> tc'))) (TIMEOUT_LIST s))" for tc'
    using inv unfolding wk_same by (simp add: sched_inv_def t_ok_def)
  have ex: "\<forall>u \<in> set (TIMEOUT_LIST s). ((tcbs s)(Thr n \<mapsto> tc')) u \<noteq> None" for tc'
    using inv by (auto simp: inv_timeout)
  obtain w L where w: "st = EXITED \<Longrightarrow> w = NO_TIMEOUT" and
    L: "set L = (if w = NO_TIMEOUT then set (TIMEOUT_LIST s) else insert (Thr n) (set (TIMEOUT_LIST s)))"
      "distinct L" "sorted_wrt (\<le>) (map (wk ((tcbs s)(Thr n \<mapsto> tc\<lparr>state := st, wakeup_time := w\<rparr>))) L)"
    and run3: "(if st \<noteq> EXITED
        then sched_register_timeout (Thr n) timeout
          (?s1\<lparr>tcbs := (tcbs s)(Thr n \<mapsto> tc\<lparr>state := st\<rparr>)\<rparr>)
        else Some (?s1\<lparr>tcbs := (tcbs s)(Thr n \<mapsto> tc\<lparr>state := st\<rparr>)\<rparr>)) =
      Some (?s1\<lparr>tcbs := (tcbs s)(Thr n \<mapsto> tc\<lparr>state := st, wakeup_time := w\<rparr>), TIMEOUT_LIST := L\<rparr>)"
  proof (cases "timeout = NO_TIMEOUT \<or> st = EXITED")
    case True
    have "tc\<lparr>state := st\<rparr> = tc\<lparr>state := st, wakeup_time := NO_TIMEOUT\<rparr>" using nt by simp
    with True sorted dist that [of NO_TIMEOUT "TIMEOUT_LIST s"] show ?thesis
      by (auto simp: sched_register_timeout_def)
  next
    case False
    let ?w = "bios_clock s + timeout"
    let ?T = "(tcbs s)(Thr n \<mapsto> tc\<lparr>state := st, wakeup_time := ?w\<rparr>)"
    have wT: "wk ?T (Thr n) = ?w" by (simp add: wk_def)
    obtain L where L: "timeout_insert ?w (Thr n) ?T (TIMEOUT_LIST s) = Some L"
      "set L = insert (Thr n) (set (TIMEOUT_LIST s))" "distinct L" "sorted_wrt (\<le>) (map (wk ?T) L)"
      using timeout_insert_ok [where T = ?T and L = "TIMEOUT_LIST s" and t = "Thr n" and w = ?w,
          OF sorted ex nl wT dist]
      by metis
    with False to that [of ?w L] show ?thesis
      by (simp add: sched_register_timeout_def upd_tcb_def bios_clock_def
          clk [unfolded bios_clock_def] Let_def)
  qed
  let ?s3 = "?s1\<lparr>tcbs := (tcbs s)(Thr n \<mapsto> tc\<lparr>state := st, wakeup_time := w\<rparr>), TIMEOUT_LIST := L\<rparr>"
  have inv3: "sched_inv sw ?s3"
    using sleep_inv [OF inv1 c(1) c1 t1 run st w, of L] L by simp
  have "sleep_section c st mx timeout s =
      Some (case mx of None \<Rightarrow> ?s3 | Some m \<Rightarrow> Mutex_Unlock m ?s3)"
  proof -
    have "c_assert (st = STOPPED \<or> st = EXITED) = Some ()" using st by (simp add: c_assert_def)
    moreover have "tcbs ?s1 = tcbs s" by simp
    ultimately show ?thesis
      unfolding sleep_section_def split_beta Let_def upd_tcb_def
      by (simp only: c1 t run3 bind.bind_lunit split del: if_split)
  qed
  moreover have "sched_inv sw (case mx of None \<Rightarrow> ?s3 | Some m \<Rightarrow> Mutex_Unlock m ?s3)"
    using inv3 sched_inv_same [OF unlock_same [of ?s3]]
    by (cases mx) (simp_all only: option.case)
  ultimately show ?thesis by blast
qed

lemma sleep_section_asserts: "sleep_section c st mx timeout s = Some s' \<Longrightarrow> st = STOPPED \<or> st = EXITED"
  by (auto simp: sleep_section_def c_assert_Some_iff)

section \<open>Selecting the next thread\<close>

lemma select_loop_spec:
  "select_loop k s = (None, s) \<and> (\<forall>i < k. SCHED s i = []) \<or>
   (\<exists>i t ts. i < k \<and> SCHED s i = t # ts \<and> (\<forall>j. i < j \<and> j < k \<longrightarrow> SCHED s j = []) \<and>
      select_loop k s = (Some t, s\<lparr>SCHED := (SCHED s)(i := ts)\<rparr>))"
proof (induction k)
  case (Suc k)
  show ?case
  proof (cases "SCHED s k")
    case Nil
    then have "select_loop (Suc k) s = select_loop k s" by simp
    with Suc Nil show ?thesis by (metis less_Suc_eq)
  next
    case (Cons t ts)
    then have "select_loop (Suc k) s = (Some t, s\<lparr>SCHED := (SCHED s)(k := ts)\<rparr>)" by simp
    with Cons show ?thesis by (metis less_Suc_eq not_less_eq)
  qed
qed simp

lemma select_loop_cases [consumes 0, case_names empty found]:
  obtains (empty) "select_loop k s = (None, s)" "\<forall>i < k. SCHED s i = []"
  | (found) i t ts where "i < k" "SCHED s i = t # ts" "\<forall>j. i < j \<and> j < k \<longrightarrow> SCHED s j = []"
      "select_loop k s = (Some t, s\<lparr>SCHED := (SCHED s)(i := ts)\<rparr>)"
  using select_loop_spec [of k s] by blast

text \<open>
  A core \<open>c\<close> that leaves the thread \<open>cur\<close> for \<open>nxt\<close>: the context of \<open>cur\<close> stays in use
  until \<^verbatim>\<open>gain\<close>, and \<open>nxt\<close>, taken from the queue, becomes the incoming thread.
\<close>

lemma inv_switch:
  assumes inv: "sched_inv sw s" and c: "c \<notin> sw" "cur_thread c s = Some cur"
    and ct: "tcbs s cur = Some ct" "state ct \<noteq> RUNNING"
    and nt: "tcbs s nxt = Some nt" "state nt = READY"
    and clean: "nxt \<noteq> cur \<Longrightarrow> phase nt = CTX_CLEAN \<and> (\<forall>d. incoming sw s d \<noteq> Some nxt)"
    and idle: "\<And>d. nxt = IdleT d \<Longrightarrow> d = c"
    and eff: "tcbs s' = tcbs s" "SCHED s' = (\<lambda>i. remove1 nxt (SCHED s i))"
      "cctx s' = (cctx s)(c := \<lparr>current_thread = Some nxt, previous_thread = Some cur\<rparr>)"
      "TIMEOUT_LIST s' = TIMEOUT_LIST s" "active_threads s' = active_threads s"
      "next_tcb s' = next_tcb s"
  shows "sched_inv (insert c sw) s'"
proof -
  let ?N = "(incoming sw s)(c := if nxt = cur then None else Some nxt)"
  have hc: "holder sw s c = Some cur" using c by (simp add: holder_def cur_thread_def)
  have nc: "incoming sw s c = None" using c by (simp add: incoming_def)
  have H: "holder (insert c sw) s' = holder sw s"
    using hc by (auto simp: fun_eq_iff holder_def eff)
  have N: "incoming (insert c sw) s' = ?N"
    by (auto simp: fun_eq_iff incoming_def eff)
  have dirty: "phase ct = CTX_DIRTY" using inv_holder_dirty [OF inv hc] ct by simp
  have "q_ok ?N (tcbs s) (SCHED s')"
  proof -
    have "u \<in> set (remove1 nxt (SCHED s i)) \<longleftrightarrow> queueable (tcbs s) u i \<and> (\<forall>d. ?N d \<noteq> Some u)"
      for u i
    proof (cases "nxt = cur")
      case True
      then have "nxt \<notin> set (SCHED s i)" using inv_queued [OF inv, of nxt i] ct dirty by auto
      then have "remove1 nxt (SCHED s i) = SCHED s i" by (rule remove1_idem)
      moreover have "?N = incoming sw s" using True nc by (auto simp: fun_eq_iff)
      moreover have "u \<in> set (SCHED s i) \<longleftrightarrow>
          queueable (tcbs s) u i \<and> (\<forall>d. incoming sw s d \<noteq> Some u)"
        using inv by (simp add: sched_inv_def q_ok_def)
      ultimately show ?thesis by (simp only:)
    next
      case False
      then show ?thesis using inv nc by (auto simp: sched_inv_def q_ok_def)
    qed
    then show ?thesis using inv by (simp add: q_ok_def eff sched_inv_def)
  qed
  moreover have "h_ok (holder sw s) (tcbs s)" using inv by (simp add: sched_inv_def)
  moreover have "n_ok ?N (tcbs s)"
    using inv nt clean by (auto simp: sched_inv_def n_ok_def)
  moreover have "s_ok (insert c sw) (holder sw s) ?N (tcbs s)"
  proof -
    have "\<exists>d. d \<notin> insert c sw \<and> holder sw s d = Some u"
      if u: "tcbs s u = Some uc" "state uc = RUNNING" for u uc
    proof -
      obtain d where d: "d \<notin> sw" "holder sw s d = Some u" using inv_running [OF inv u] by blast
      moreover have "d \<noteq> c" using d hc u ct by auto
      ultimately show ?thesis by blast
    qed
    then show ?thesis using inv hc nt by (auto simp: sched_inv_def s_ok_def split: if_splits)
  qed
  moreover have "i_ok (holder sw s) ?N (tcbs s)"
    using inv idle by (auto simp: sched_inv_def i_ok_def split: if_splits)
  ultimately show ?thesis using inv by (simp add: sched_inv_def k_ok_def H N eff)
qed

lemma adjust_priority_keeps:
  "state (adjust_priority cause tc) = state tc" "phase (adjust_priority cause tc) = phase tc"
  "ttype (adjust_priority cause tc) = ttype tc"
  "wakeup_time (adjust_priority cause tc) = wakeup_time tc"
  "priority tc < PRIORITY_QUEUES \<Longrightarrow> priority (adjust_priority cause tc) < PRIORITY_QUEUES"
  by (auto simp: adjust_priority_def PRIORITY_QUEUES_def split: SCHED_CAUSE.splits)

lemma CCB_updates:
  "x\<lparr>previous_thread := b, current_thread := a\<rparr> = \<lparr>current_thread = a, previous_thread = b\<rparr>"
  "current_thread x = a \<Longrightarrow> x\<lparr>previous_thread := b\<rparr> = \<lparr>current_thread = a, previous_thread = b\<rparr>"
  by (cases x; simp)+

text \<open>The common end of all the branches of \<open>yield_select\<close>: the chosen thread is \<open>nxt\<close>.\<close>

lemma yield_select_switch:
  assumes inv: "sched_inv sw s" and c: "c \<notin> sw" "cur_thread c s = Some cur"
    and ct: "tcbs s cur = Some ct" "state ct \<noteq> RUNNING"
    and nt: "tcbs s nxt = Some nt" "state nt = READY"
    and clean: "nxt \<noteq> cur \<Longrightarrow> phase nt = CTX_CLEAN \<and> (\<forall>d. incoming sw s d \<noteq> Some nxt)"
    and idle: "\<And>d. nxt = IdleT d \<Longrightarrow> d = c"
    and sel: "sched_queue_select c cur s = Some (nxt, s\<lparr>SCHED := (\<lambda>i. remove1 nxt (SCHED s i)),
        tcbs := (tcbs s)(nxt \<mapsto> nt\<lparr>its := QUANTUM\<rparr>)\<rparr>)"
  shows "\<exists>s'. yield_select c cause cur preempt s = Some s' \<and> sched_inv (insert c sw) s' \<and>
    cur_thread c s' = Some nxt"
proof -
  let ?a = "s\<lparr>tcbs := (tcbs s)(nxt \<mapsto> nt\<lparr>its := QUANTUM\<rparr>)\<rparr>"
  let ?ct = "if nxt = cur then ct\<lparr>its := QUANTUM\<rparr> else ct"
  let ?b = "?a\<lparr>tcbs := (tcbs ?a)(cur \<mapsto> adjust_priority cause ?ct)\<rparr>"
  let ?nt = "if nxt = cur then adjust_priority cause ?ct else nt\<lparr>its := QUANTUM\<rparr>"
  have hc: "holder sw s c = Some cur" using c by (simp add: holder_def cur_thread_def)
  have dirty: "phase ct = CTX_DIRTY" using inv_holder_dirty [OF inv hc] ct by simp
  have ct': "tcbs ?a cur = Some ?ct" using ct nt by auto
  have inv_a: "sched_inv sw ?a"
    by (rule inv_upd_tcb [OF inv nt(1), of "\<lambda>tc. tc\<lparr>its := QUANTUM\<rparr>", simplified])
      (simp add: inv_priority [OF inv nt(1)])
  have p: "phase ?ct = CTX_DIRTY" "priority ?ct < PRIORITY_QUEUES"
    using dirty inv_priority [OF inv ct(1)] by simp_all
  have inv_b: "sched_inv sw ?b"
    by (rule inv_upd_tcb [OF inv_a ct', of "adjust_priority cause"])
      (use p in \<open>simp_all only: adjust_priority_keeps Thread_phase.distinct\<close>)
  let ?s' = "?b\<lparr>SCHED := (\<lambda>i. remove1 nxt (SCHED s i)),
    cctx := (cctx s)(c := \<lparr>current_thread = Some nxt, previous_thread = Some cur\<rparr>),
    ctx_preempt := (ctx_preempt s)(cur := preempt)\<rparr>"
  have "yield_select c cause cur preempt s = Some ?s'"
    using sel ct nt c
    by (cases "nxt = cur") (simp_all add: yield_select_def upd_tcb_def cur_thread_def CCB_updates)
  moreover have "sched_inv (insert c sw) ?s'"
    by (rule inv_switch [OF inv_b c(1), where cur = cur and nxt = nxt and
          ct = "adjust_priority cause ?ct" and nt = ?nt])
      (use c ct nt clean idle in \<open>auto simp: adjust_priority_keeps cur_thread_def\<close>)
  ultimately show ?thesis by (simp add: cur_thread_def)
qed

lemma idle_selectable:
  assumes inv: "sched_inv sw s" and c: "c \<notin> sw" "cur_thread c s = Some cur" and ne: "cur \<noteq> IdleT c"
  shows "\<exists>it. tcbs s (IdleT c) = Some it \<and> state it = READY \<and> phase it = CTX_CLEAN \<and>
    (\<forall>d. incoming sw s d \<noteq> Some (IdleT c))"
proof -
  have hc: "holder sw s c = Some cur" using c by (simp add: holder_def cur_thread_def)
  have "incoming sw s c = None" using c by (simp add: incoming_def)
  then have free: "holder sw s d \<noteq> Some (IdleT c)" "incoming sw s d \<noteq> Some (IdleT c)" for d
    using inv_idle_home [OF inv, of d c] hc ne by auto
  have "tcbs s (IdleT c) \<noteq> None" using inv hc by (auto simp: sched_inv_def i_ok_def)
  then obtain it where it: "tcbs s (IdleT c) = Some it" by blast
  have "phase it = CTX_CLEAN"
    using inv_phase [OF inv it] free(1) by (cases "phase it") auto
  moreover have "state it = READY"
    using inv_running [OF inv it] inv_idle_state [OF inv it] inv_ttype [OF inv it] free(1) by auto
  ultimately show ?thesis using it free(2) by blast
qed

lemma not_queued_remove:
  assumes inv: "sched_inv sw s" and t: "tcbs s t = Some tc"
    and "phase tc = CTX_DIRTY \<or> ttype tc = IDLE_THREAD"
  shows "(\<lambda>j. remove1 t (SCHED s j)) = SCHED s"
proof
  fix j
  have "t \<notin> set (SCHED s j)" using inv_queued [OF inv, of t j] assms(2,3) by auto
  then show "remove1 t (SCHED s j) = SCHED s j" by (rule remove1_idem)
qed

text \<open>
  The thread that \<^verbatim>\<open>sched_queue_select\<close> chooses: the head of the highest non-empty queue; if
  all are empty, the current thread if it is still ready; otherwise the idle thread.
\<close>

definition select_choice :: "nat \<Rightarrow> tcb_ref \<Rightarrow> 'a sched_scheme \<Rightarrow> tcb_ref" where
  "select_choice c cur s =
     (case concat (map (\<lambda>i. SCHED s i) (rev [0..<PRIORITY_QUEUES])) of
        t # _ \<Rightarrow> t
      | [] \<Rightarrow> (case tcbs s cur of
                 Some tc \<Rightarrow> if state tc = READY then cur else IdleT c
               | None \<Rightarrow> IdleT c))"

lemma select_loop_concat:
  "fst (select_loop k s) = (case concat (map (\<lambda>i. SCHED s i) (rev [0..<k])) of
     [] \<Rightarrow> None | t # _ \<Rightarrow> Some t)"
proof (induction k)
  case (Suc k)
  then show ?case by (cases "SCHED s k") (simp_all del: concat_eq_Nil_conv)
qed simp

lemma select_choice_loop:
  assumes "fst (select_loop PRIORITY_QUEUES s) = sel" "tcbs s cur = Some ct"
  shows "select_choice c cur s =
    (case sel of Some t \<Rightarrow> t | None \<Rightarrow> if state ct = READY then cur else IdleT c)"
  using assms select_loop_concat [of PRIORITY_QUEUES s]
  by (cases "concat (map (\<lambda>i. SCHED s i) (rev [0..<PRIORITY_QUEUES]))")
    (auto simp: select_choice_def simp del: concat_eq_Nil_conv)

lemma yield_select_inv:
  assumes inv: "sched_inv sw s" and c: "c \<notin> sw" "cur_thread c s = Some cur"
    and ct: "tcbs s cur = Some ct" "state ct \<noteq> RUNNING"
  shows "\<exists>s'. yield_select c cause cur preempt s = Some s' \<and> sched_inv (insert c sw) s' \<and>
    cur_thread c s' = Some (select_choice c cur s)"
proof (cases rule: select_loop_cases [of PRIORITY_QUEUES s])
  case (found i t ts)
  then obtain nt where nt: "tcbs s t = Some nt" "state nt = READY" "phase nt = CTX_CLEAN"
    "ttype nt = NORMAL_THREAD" "priority nt = i" "\<And>d. incoming sw s d \<noteq> Some t"
    using inv_queued [OF inv, of t i] by auto
  have rem: "(SCHED s)(i := ts) = (\<lambda>j. remove1 t (SCHED s j))"
  proof
    fix j
    have "t \<notin> set (SCHED s j)" if "j \<noteq> i" using inv_queued [OF inv, of t j] nt that by auto
    then show "((SCHED s)(i := ts)) j = remove1 t (SCHED s j)"
      using found(2) by (auto simp: remove1_idem)
  qed
  have "sched_queue_select c cur s = Some (t, s\<lparr>SCHED := (\<lambda>j. remove1 t (SCHED s j)),
      tcbs := (tcbs s)(t \<mapsto> nt\<lparr>its := QUANTUM\<rparr>)\<rparr>)"
    using found ct nt by (simp add: sched_queue_select_def upd_tcb_def rem)
  moreover have "select_choice c cur s = t"
    using select_choice_loop [OF _ ct(1), of "Some t"] found(4) by simp
  ultimately show ?thesis
    using yield_select_switch [OF inv c ct nt(1,2)] nt inv_ttype [OF inv nt(1)]
    by (auto split: tcb_ref.splits)
next
  case empty
  have hc: "holder sw s c = Some cur" using c by (simp add: holder_def cur_thread_def)
  have dirty: "phase ct = CTX_DIRTY" using inv_holder_dirty [OF inv hc] ct by simp
  have ch: "select_choice c cur s = (if state ct = READY then cur else IdleT c)"
    using select_choice_loop [OF _ ct(1), of None] empty(1) by simp
  show ?thesis
  proof (cases "state ct = READY")
    case True
    have "cur = IdleT d \<Longrightarrow> d = c" for d
      using inv_idle_home [OF inv, of c d] hc by auto
    then show ?thesis
      using yield_select_switch [OF inv c ct ct(1) True] not_queued_remove [OF inv ct(1)] dirty
        empty(1) True ct ch
      by (auto simp: sched_queue_select_def upd_tcb_def)
  next
    case False
    then have "cur \<noteq> IdleT c"
      using inv_idle_state [OF inv ct(1)] inv_ttype [OF inv ct(1)] ct(2) by auto
    then obtain it where it: "tcbs s (IdleT c) = Some it" "state it = READY" "phase it = CTX_CLEAN"
      "\<forall>d. incoming sw s d \<noteq> Some (IdleT c)"
      using idle_selectable [OF inv c] by blast
    have "sched_queue_select c cur s = Some (IdleT c,
        s\<lparr>SCHED := (\<lambda>i. remove1 (IdleT c) (SCHED s i)),
          tcbs := (tcbs s)(IdleT c \<mapsto> it\<lparr>its := QUANTUM\<rparr>)\<rparr>)"
      using not_queued_remove [OF inv it(1)] inv_ttype [OF inv it(1)] empty(1) False ct it(1)
      by (simp add: sched_queue_select_def upd_tcb_def Let_def)
    with yield_select_switch [OF inv c ct it(1,2)] it ch False show ?thesis by auto
  qed
qed

end
