(* ===== verification/CC.thy ===== *)
theory CC
  imports Sched_Inv
begin

text \<open>
  Concurrency control, \<^verbatim>\<open>kernel_cc.c\<close>: mutexes, condition variables and the kernel lock.

  A waiter is a local variable of the \<^verbatim>\<open>cv_wait\<close> call of its thread, and a thread is in at
  most one such call, so waiters are indexed by threads.  The ring of waiters of a condition
  variable is a list whose head is \<^verbatim>\<open>cv->waitset\<close>.  \<^verbatim>\<open>cv_wait\<close> is split where the thread
  sleeps: \<open>cv_wait_enter\<close> ends with the call of \<^verbatim>\<open>yield\<close>, and \<open>cv_wait_leave\<close> is what the thread
  does when it runs again.
\<close>

section \<open>State\<close>

record cv_waiter =
  signalled :: bool
  removed :: bool

record cc = sched +
  waitset :: "cv_ref \<Rightarrow> tcb_ref list"
  waiter :: "tcb_ref \<Rightarrow> cv_waiter"
  kernel_sem :: int

section \<open>Mutexes\<close>

text \<open>
  The loop of \<^verbatim>\<open>Mutex_Lock\<close>, one memory access per step: \<open>Mx_test_and_set\<close> is the head of the
  outer loop, \<open>Mx_load n\<close> the head of the inner loop with \<open>n\<close> spins left, \<open>Mx_done\<close> the return.
  \<open>Mx_yield\<close> is the call of \<^verbatim>\<open>yield\<close> by a preemptible thread that has spun long enough.
\<close>

datatype mutex_pc = Mx_test_and_set | Mx_load nat | Mx_yield | Mx_done

definition MUTEX_SPINS :: "'a bios_scheme \<Rightarrow> nat" where
  "MUTEX_SPINS s = (if ncores s > 1 then 1000 else 10000)"

fun mutex_lock_step :: "nat \<Rightarrow> mutex_ref \<Rightarrow> mutex_pc \<times> 'a sched_scheme \<Rightarrow> mutex_pc \<times> 'a sched_scheme" where
  "mutex_lock_step c m (Mx_test_and_set, s) =
     (if mutexes s m then Mx_load (MUTEX_SPINS s) else Mx_done, s\<lparr>mutexes := (mutexes s)(m := True)\<rparr>)"
| "mutex_lock_step c m (Mx_load spin, s) =
     (if mutexes s m
      then if spin > 0 then (Mx_load (spin - 1), s)
           else (if cpu_interrupts_enabled c s then Mx_yield else Mx_load (MUTEX_SPINS s), s)
      else (Mx_test_and_set, s))"
| "mutex_lock_step c m (Mx_yield, s) = (Mx_load (MUTEX_SPINS s), s)"
| "mutex_lock_step c m (Mx_done, s) = (Mx_done, s)"

text \<open>The whole call, in a state in which the mutex is free; otherwise the thread spins.\<close>

definition Mutex_Lock :: "mutex_ref \<Rightarrow> 'a sched_scheme \<Rightarrow> 'a sched_scheme option" where
  "Mutex_Lock m s = (if mutexes s m then None else Some (s\<lparr>mutexes := (mutexes s)(m := True)\<rparr>))"

section \<open>Condition variables\<close>

definition remove_from_ring :: "cv_ref \<Rightarrow> tcb_ref \<Rightarrow> 'a cc_scheme \<Rightarrow> 'a cc_scheme" where
  "remove_from_ring cv w s = s\<lparr>waitset := (waitset s)(cv := remove1 w (waitset s cv))\<rparr>"

text \<open>\<^verbatim>\<open>cv_wait\<close> up to the sleep.\<close>

definition cv_wait_section :: "nat \<Rightarrow> mutex_ref \<Rightarrow> cv_ref \<Rightarrow> TimerDuration \<Rightarrow> 'a cc_scheme \<Rightarrow>
  'a cc_scheme option" where
  "cv_wait_section c mutex cv timeout s =
     do { t \<leftarrow> cur_thread c s;
          let s1 = s\<lparr>waiter := (waiter s)(t := \<lparr>signalled = False, removed = False\<rparr>)\<rparr>;
          s2 \<leftarrow> Mutex_Lock (waitset_lock cv) s1;
          let s3 = s2\<lparr>waitset := (waitset s2)(cv := waitset s2 cv @ [t])\<rparr>;
          let s4 = Mutex_Unlock mutex s3;
          sleep_section c STOPPED (Some (waitset_lock cv)) timeout s4 }"

definition cv_wait_enter :: "nat \<Rightarrow> mutex_ref \<Rightarrow> cv_ref \<Rightarrow> SCHED_CAUSE \<Rightarrow> TimerDuration \<Rightarrow>
  'a cc_scheme \<Rightarrow> 'a cc_scheme option" where
  "cv_wait_enter c mutex cv cause timeout s =
     do { s1 \<leftarrow> cv_wait_section c mutex cv timeout s; yield c cause s1 }"

definition cv_wait_leave :: "nat \<Rightarrow> mutex_ref \<Rightarrow> cv_ref \<Rightarrow> 'a cc_scheme \<Rightarrow>
  (bool \<times> 'a cc_scheme) option" where
  "cv_wait_leave c mutex cv s =
     do { t \<leftarrow> cur_thread c s;
          s1 \<leftarrow> Mutex_Lock (waitset_lock cv) s;
          s2 \<leftarrow> (if \<not> removed (waiter s1 t)
                 then do { c_assert (\<not> signalled (waiter s1 t)); Some (remove_from_ring cv t s1) }
                 else Some s1);
          let s3 = Mutex_Unlock (waitset_lock cv) s2;
          s4 \<leftarrow> Mutex_Lock mutex s3;
          Some (signalled (waiter s4 t), s4) }"

partial_function (option) cv_signal :: "nat \<Rightarrow> cv_ref \<Rightarrow> 'a cc_scheme \<Rightarrow> 'a cc_scheme option" where
  "cv_signal c cv s =
     (case waitset s cv of
        [] \<Rightarrow> Some s
      | w # _ \<Rightarrow>
          do { let s1 = remove_from_ring cv w s;
               let s2 = s1\<lparr>waiter := (waiter s1)(w := (waiter s1 w)\<lparr>removed := True\<rparr>)\<rparr>;
               (woken, s3) \<leftarrow> wakeup c w s2;
               if woken
               then Some (s3\<lparr>waiter := (waiter s3)(w := (waiter s3 w)\<lparr>signalled := True\<rparr>)\<rparr>)
               else cv_signal c cv s3 })"

partial_function (option) broadcast_loop :: "nat \<Rightarrow> cv_ref \<Rightarrow> 'a cc_scheme \<Rightarrow> 'a cc_scheme option" where
  "broadcast_loop c cv s =
     (if waitset s cv = [] then Some s
      else do { s1 \<leftarrow> cv_signal c cv s; broadcast_loop c cv s1 })"

declare cv_signal.simps [code] broadcast_loop.simps [code]

definition Cond_Wait :: "nat \<Rightarrow> mutex_ref \<Rightarrow> cv_ref \<Rightarrow> 'a cc_scheme \<Rightarrow> 'a cc_scheme option" where
  "Cond_Wait c mutex cv s = cv_wait_enter c mutex cv SCHED_USER NO_TIMEOUT s"

definition Cond_TimedWait ::
  "nat \<Rightarrow> mutex_ref \<Rightarrow> cv_ref \<Rightarrow> TimerDuration \<Rightarrow> 'a cc_scheme \<Rightarrow> 'a cc_scheme option" where
  "Cond_TimedWait c mutex cv timeout s = cv_wait_enter c mutex cv SCHED_USER (timeout * 1000) s"

definition Cond_Signal :: "nat \<Rightarrow> cv_ref \<Rightarrow> 'a cc_scheme \<Rightarrow> 'a cc_scheme option" where
  "Cond_Signal c cv s =
     do { s1 \<leftarrow> Mutex_Lock (waitset_lock cv) s;
          s2 \<leftarrow> cv_signal c cv s1;
          Some (Mutex_Unlock (waitset_lock cv) s2) }"

definition Cond_Broadcast :: "nat \<Rightarrow> cv_ref \<Rightarrow> 'a cc_scheme \<Rightarrow> 'a cc_scheme option" where
  "Cond_Broadcast c cv s =
     do { s1 \<leftarrow> Mutex_Lock (waitset_lock cv) s;
          s2 \<leftarrow> broadcast_loop c cv s1;
          Some (Mutex_Unlock (waitset_lock cv) s2) }"

section \<open>The kernel lock\<close>

text \<open>
  The monitor that implements the kernel semaphore.  \<open>kernel_acquire_section\<close> is one turn of the
  loop \<^verbatim>\<open>while(kernel_sem<=0) Cond_Wait(..)\<close> with \<^verbatim>\<open>kernel_mutex\<close> held: either the thread
  enters the kernel (\<open>True\<close>), or it goes to sleep and comes back through \<open>cv_wait_leave\<close>.  The
  functions named \<open>_section\<close> end where the thread calls \<^verbatim>\<open>yield\<close>; \<open>then_yield\<close> adds that call.
\<close>

definition then_yield :: "nat \<Rightarrow> SCHED_CAUSE \<Rightarrow> (bool \<times> 'a sched_scheme) option \<Rightarrow>
  (bool \<times> 'a sched_scheme) option" where
  "then_yield c cause m =
     do { (entered, s) \<leftarrow> m;
          if entered then Some (True, s) else do { s1 \<leftarrow> yield c cause s; Some (False, s1) } }"

definition kernel_acquire_section :: "nat \<Rightarrow> 'a cc_scheme \<Rightarrow> (bool \<times> 'a cc_scheme) option" where
  "kernel_acquire_section c s =
     (if kernel_sem s \<le> 0
      then do { s1 \<leftarrow> cv_wait_section c kernel_mutex kernel_sem_cv NO_TIMEOUT s; Some (False, s1) }
      else Some (True, Mutex_Unlock kernel_mutex (s\<lparr>kernel_sem := kernel_sem s - 1\<rparr>)))"

definition kernel_lock_section :: "nat \<Rightarrow> 'a cc_scheme \<Rightarrow> (bool \<times> 'a cc_scheme) option" where
  "kernel_lock_section c s = do { s1 \<leftarrow> Mutex_Lock kernel_mutex s; kernel_acquire_section c s1 }"

definition kernel_lock :: "nat \<Rightarrow> 'a cc_scheme \<Rightarrow> (bool \<times> 'a cc_scheme) option" where
  "kernel_lock c s = then_yield c SCHED_USER (kernel_lock_section c s)"

text \<open>A thread that waited for the semaphore runs again.\<close>

definition kernel_lock_resume :: "nat \<Rightarrow> 'a cc_scheme \<Rightarrow> (bool \<times> 'a cc_scheme) option" where
  "kernel_lock_resume c s =
     do { (r, s1) \<leftarrow> cv_wait_leave c kernel_mutex kernel_sem_cv s; kernel_acquire_section c s1 }"

text \<open>The common part of \<^verbatim>\<open>kernel_unlock\<close>, \<^verbatim>\<open>kernel_wait_wchan\<close> and \<^verbatim>\<open>kernel_sleep\<close>.\<close>

definition kernel_release :: "nat \<Rightarrow> 'a cc_scheme \<Rightarrow> 'a cc_scheme option" where
  "kernel_release c s =
     do { s1 \<leftarrow> Mutex_Lock kernel_mutex s;
          Cond_Signal c kernel_sem_cv (s1\<lparr>kernel_sem := kernel_sem s1 + 1\<rparr>) }"

definition kernel_unlock :: "nat \<Rightarrow> 'a cc_scheme \<Rightarrow> 'a cc_scheme option" where
  "kernel_unlock c s =
     do { s1 \<leftarrow> kernel_release c s; Some (Mutex_Unlock kernel_mutex s1) }"

definition kernel_wait_section :: "nat \<Rightarrow> cv_ref \<Rightarrow> TimerDuration \<Rightarrow> 'a cc_scheme \<Rightarrow>
  'a cc_scheme option" where
  "kernel_wait_section c cv timeout s =
     do { s1 \<leftarrow> kernel_release c s; cv_wait_section c kernel_mutex cv timeout s1 }"

definition kernel_wait_wchan :: "nat \<Rightarrow> cv_ref \<Rightarrow> SCHED_CAUSE \<Rightarrow> TimerDuration \<Rightarrow> 'a cc_scheme \<Rightarrow>
  'a cc_scheme option" where
  "kernel_wait_wchan c cv cause timeout s =
     do { s1 \<leftarrow> kernel_wait_section c cv timeout s; yield c cause s1 }"

text \<open>The result of \<^verbatim>\<open>kernel_wait_wchan\<close>, and the first attempt to get the semaphore back.\<close>

definition kernel_wait_leave :: "nat \<Rightarrow> cv_ref \<Rightarrow> 'a cc_scheme \<Rightarrow> (bool \<times> bool \<times> 'a cc_scheme) option" where
  "kernel_wait_leave c cv s =
     do { (ret, s1) \<leftarrow> cv_wait_leave c kernel_mutex cv s;
          (entered, s2) \<leftarrow> kernel_acquire_section c s1;
          Some (ret, entered, s2) }"

definition kernel_signal :: "nat \<Rightarrow> cv_ref \<Rightarrow> 'a cc_scheme \<Rightarrow> 'a cc_scheme option" where
  "kernel_signal c cv s = Cond_Signal c cv s"

definition kernel_broadcast :: "nat \<Rightarrow> cv_ref \<Rightarrow> 'a cc_scheme \<Rightarrow> 'a cc_scheme option" where
  "kernel_broadcast c cv s = Cond_Broadcast c cv s"

definition kernel_sleep_section :: "nat \<Rightarrow> Thread_state \<Rightarrow> 'a cc_scheme \<Rightarrow> 'a cc_scheme option" where
  "kernel_sleep_section c newstate s =
     do { s1 \<leftarrow> kernel_release c s; sleep_section c newstate (Some kernel_mutex) NO_TIMEOUT s1 }"

definition kernel_sleep :: "nat \<Rightarrow> Thread_state \<Rightarrow> SCHED_CAUSE \<Rightarrow> 'a cc_scheme \<Rightarrow> 'a cc_scheme option" where
  "kernel_sleep c newstate cause s =
     do { s1 \<leftarrow> kernel_sleep_section c newstate s; yield c cause s1 }"

section \<open>What scheduler operations leave alone\<close>

definition frame :: "'a sched_scheme \<Rightarrow> 'a sched_scheme \<Rightarrow> bool" where
  "frame s s' \<longleftrightarrow> sched.more s' = sched.more s \<and> mutexes s' = mutexes s \<and>
     clock s' = clock s"

lemma frame_refl [simp]: "frame s s" by (simp add: frame_def)

lemma frame_trans: "frame s s' \<Longrightarrow> frame s' s'' \<Longrightarrow> frame s s''" by (simp add: frame_def)

lemma frame_update [simp]:
  "frame s (s\<lparr>tcbs := T\<rparr>)" "frame s (s\<lparr>SCHED := Q\<rparr>)" "frame s (s\<lparr>TIMEOUT_LIST := L\<rparr>)"
  "frame s (s\<lparr>cctx := C\<rparr>)" "frame s (s\<lparr>ctx_preempt := P\<rparr>)" "frame s (s\<lparr>yield_counter := n\<rparr>)"
  by (simp_all add: frame_def)

lemma frame_machine [simp]:
  "frame s (cpu_core_restart_one s)" "frame s (snd (cpu_disable_interrupts c s))"
  "frame s (cpu_enable_interrupts c s)" "frame s (snd (bios_set_timer c u s))"
  "frame s (snd (bios_cancel_timer c s))"
  by (simp_all add: frame_def cpu_core_restart_one_def core_restart_def interrupt_core_def Let_def
      cpu_disable_interrupts_def cpu_enable_interrupts_def bios_set_timer_def bios_cancel_timer_def
      split_beta)

lemma frame_upd_tcb: "upd_tcb t f s = Some s' \<Longrightarrow> frame s s'"
  by (auto simp: upd_tcb_def)

lemma frame_queue_add: "sched_queue_add t s = Some s' \<Longrightarrow> frame s s'"
  by (auto simp: sched_queue_add_def split: if_splits
      intro: frame_trans [OF frame_update(2) frame_machine(1)])

lemma frame_make_ready: "sched_make_ready t s = Some s' \<Longrightarrow> frame s s'"
  by (auto simp: sched_make_ready_def upd_tcb_def sched_queue_add_def sched_node_remove_def frame_def
      frame_machine(1) [unfolded frame_def] split: if_splits)

lemma frame_wakeup:
  assumes "wakeup c t s = Some (r, s')"
  shows "frame s s'"
proof -
  let ?s1 = "snd (cpu_disable_interrupts c s)"
  from assms obtain tc s2 where "tcbs ?s1 t = Some tc"
    "(if state tc = STOPPED \<or> state tc = INIT then sched_make_ready t ?s1 = Some s2 else s2 = ?s1)"
    "s' = s2 \<or> s' = cpu_enable_interrupts c s2"
    by (auto simp: wakeup_def split_beta Let_def split: if_splits)
  then show ?thesis
    by (metis frame_trans frame_make_ready frame_machine(2,3))
qed

lemma more_cc:
  assumes "sched.more s' = sched.more (s :: 'a cc_scheme)"
  shows "waitset s' = waitset s" "waiter s' = waiter s" "kernel_sem s' = kernel_sem s"
    "cc.more s' = cc.more s"
  using assms by (cases s rule: cc.cases_scheme; cases s' rule: cc.cases_scheme; simp)+

section \<open>Signalling\<close>

definition asleep :: "'a sched_scheme \<Rightarrow> tcb_ref \<Rightarrow> bool" where
  "asleep s t \<longleftrightarrow> (case tcbs s t of None \<Rightarrow> False | Some tc \<Rightarrow> state tc = STOPPED \<or> state tc = INIT)"

definition awaken :: "TCB \<Rightarrow> TCB" where
  "awaken tc = (if state tc = STOPPED \<or> state tc = INIT
     then tc\<lparr>wakeup_time := NO_TIMEOUT, state := READY\<rparr> else tc)"

lemma wakeup_effect:
  assumes inv: "sched_inv sw s" and t: "tcbs s t = Some tc"
  shows "\<exists>s'. wakeup c t s = Some (asleep s t, s') \<and> sched_inv sw s' \<and>
    tcbs s' = (tcbs s)(t \<mapsto> awaken tc) \<and> cctx s' = cctx s \<and> frame s s'"
proof -
  let ?s1 = "snd (cpu_disable_interrupts c s)"
  have inv1: "sched_inv sw ?s1" using inv sched_inv_same [OF disable_same] by blast
  have t1: "tcbs ?s1 t = Some tc" using t by simp
  obtain s2 where s2: "wakeup c t s = Some (asleep s t,
      if fst (cpu_disable_interrupts c s) then cpu_enable_interrupts c s2 else s2)"
    "tcbs s2 = (tcbs s)(t \<mapsto> awaken tc)" "cctx s2 = cctx s"
  proof (cases "state tc = STOPPED \<or> state tc = INIT")
    case True
    from sched_make_ready_effect [OF inv1 t1 True] obtain s2 where
      "sched_make_ready t ?s1 = Some s2" "cctx s2 = cctx ?s1"
      "tcbs s2 = (tcbs ?s1)(t \<mapsto> tc\<lparr>wakeup_time := NO_TIMEOUT, state := READY\<rparr>)" by metis
    with True t that show thesis
      by (simp add: wakeup_def split_beta asleep_def awaken_def)
  next
    case False
    with t that [of ?s1] show thesis
      by (simp add: wakeup_def split_beta asleep_def awaken_def fun_upd_idem)
  qed
  with wakeup_inv [OF inv s2(1)] frame_wakeup [OF s2(1)] show ?thesis by auto
qed

text \<open>
  \<open>cv_signal\<close> ends; it drops the waiters that are already awake and wakes the first one that
  is asleep, if there is one.
\<close>

definition mark_removed :: "tcb_ref list \<Rightarrow> (tcb_ref \<Rightarrow> cv_waiter) \<Rightarrow> tcb_ref \<Rightarrow> cv_waiter" where
  "mark_removed ws W = (\<lambda>t. if t \<in> set ws then (W t)\<lparr>removed := True\<rparr> else W t)"

definition mark_signalled :: "tcb_ref option \<Rightarrow> (tcb_ref \<Rightarrow> cv_waiter) \<Rightarrow> tcb_ref \<Rightarrow> cv_waiter" where
  "mark_signalled w W = (\<lambda>t. if w = Some t then (W t)\<lparr>signalled := True\<rparr> else W t)"

definition awaken_one :: "tcb_ref option \<Rightarrow> (tcb_ref \<rightharpoonup> TCB) \<Rightarrow> tcb_ref \<rightharpoonup> TCB" where
  "awaken_one w T = (\<lambda>t. if w = Some t then map_option awaken (T t) else T t)"

lemma cv_signal_effect:
  assumes "sched_inv sw s" "\<forall>t \<in> set ws. tcbs s t \<noteq> None" "waitset s cv = ws" "distinct ws"
  shows "\<exists>s'. cv_signal c cv s = Some s' \<and> sched_inv sw s' \<and> cctx s' = cctx s \<and>
    mutexes s' = mutexes s \<and> kernel_sem s' = kernel_sem s \<and> cc.more s' = cc.more s \<and> clock s' = clock s \<and>
    waitset s' = (waitset s)(cv := drop 1 (dropWhile (\<lambda>t. \<not> asleep s t) ws)) \<and>
    waiter s' = mark_signalled (find (asleep s) ws) (mark_removed
       (takeWhile (\<lambda>t. \<not> asleep s t) ws @ take 1 (dropWhile (\<lambda>t. \<not> asleep s t) ws)) (waiter s)) \<and>
    tcbs s' = awaken_one (find (asleep s) ws) (tcbs s)"
  using assms
proof (induction ws arbitrary: s)
  case Nil
  then show ?case
    by (subst cv_signal.simps)
      (simp add: mark_removed_def mark_signalled_def awaken_one_def fun_upd_idem)
next
  case (Cons w ws)
  let ?s1 = "remove_from_ring cv w s"
  let ?s2 = "?s1\<lparr>waiter := (waiter ?s1)(w := (waiter ?s1 w)\<lparr>removed := True\<rparr>)\<rparr>"
  obtain tc where w: "tcbs s w = Some tc" using Cons.prems(2) by auto
  have f2: "tcbs ?s2 = tcbs s" "cctx ?s2 = cctx s" "mutexes ?s2 = mutexes s"
    "kernel_sem ?s2 = kernel_sem s" "cc.more ?s2 = cc.more s" "clock ?s2 = clock s"
    "waitset ?s2 = (waitset s)(cv := ws)"
    "waiter ?s2 = (waiter s)(w := (waiter s w)\<lparr>removed := True\<rparr>)"
    using Cons.prems(3) by (simp_all add: remove_from_ring_def)
  have inv2: "sched_inv sw ?s2"
    using Cons.prems(1) by (subst sched_inv_cong [of _ s]) (simp_all add: remove_from_ring_def)
  have a2: "asleep ?s2 = asleep s" by (simp add: fun_eq_iff asleep_def f2)
  obtain s3 where s3: "wakeup c w ?s2 = Some (asleep s w, s3)" "sched_inv sw s3"
    "tcbs s3 = (tcbs s)(w \<mapsto> awaken tc)" "cctx s3 = cctx s" and fr: "frame ?s2 s3"
    using wakeup_effect [OF inv2, of w tc c] w unfolding f2 a2 by blast
  note m3 = more_cc [OF fr [unfolded frame_def, THEN conjunct1]] fr [unfolded frame_def, THEN conjunct2, THEN conjunct1]
    fr [unfolded frame_def, THEN conjunct2, THEN conjunct2]
  show ?case
  proof (cases "asleep s w")
    case True
    let ?s' = "s3\<lparr>waiter := (waiter s3)(w := (waiter s3 w)\<lparr>signalled := True\<rparr>)\<rparr>"
    have "cv_signal c cv s = Some ?s'"
      using Cons.prems(3) s3(1) True by (subst cv_signal.simps) (simp add: Let_def)
    moreover have "sched_inv sw ?s'" using s3(2) by (subst sched_inv_cong) auto
    ultimately show ?thesis
      using True s3 m3 f2 w
      by (auto simp: mark_signalled_def mark_removed_def awaken_one_def fun_eq_iff)
  next
    case False
    have same: "awaken tc = tc" using False w by (auto simp: asleep_def awaken_def)
    then have T3: "tcbs s3 = tcbs s" using s3(3) w by (simp add: fun_upd_idem)
    have a3: "asleep s3 = asleep s" by (simp add: fun_eq_iff asleep_def T3)
    have "cv_signal c cv s = cv_signal c cv s3"
      using Cons.prems(3) s3(1) False by (subst cv_signal.simps) (simp add: Let_def)
    moreover have "\<forall>t \<in> set ws. tcbs s3 t \<noteq> None" "waitset s3 cv = ws" "distinct ws"
      using Cons.prems m3 f2 T3 by auto
    moreover obtain s' where "cv_signal c cv s3 = Some s'" "sched_inv sw s'" "cctx s' = cctx s3"
      "mutexes s' = mutexes s3" "kernel_sem s' = kernel_sem s3" "cc.more s' = cc.more s3" "clock s' = clock s3"
      "waitset s' = (waitset s3)(cv := drop 1 (dropWhile (\<lambda>t. \<not> asleep s t) ws))"
      "waiter s' = mark_signalled (find (asleep s) ws) (mark_removed
         (takeWhile (\<lambda>t. \<not> asleep s t) ws @ take 1 (dropWhile (\<lambda>t. \<not> asleep s t) ws)) (waiter s3))"
      "tcbs s' = awaken_one (find (asleep s) ws) (tcbs s3)"
      using Cons.IH [OF s3(2)] calculation unfolding a3 by blast
    moreover have "mark_removed ws' (waiter s3) = mark_removed (w # ws') (waiter s)" for ws'
      by (auto simp: mark_removed_def fun_eq_iff m3 f2)
    ultimately show ?thesis using False T3 s3(4) m3 f2 by (simp; simp add: fun_eq_iff)
  qed
qed

text \<open>\<open>Cond_Broadcast\<close> empties the ring and wakes every waiter that is asleep.\<close>

lemma awaken_asleep: "\<not> asleep s t \<Longrightarrow> map_option awaken (tcbs s t) = tcbs s t"
  by (cases "tcbs s t") (auto simp: asleep_def awaken_def)

lemma find_split:
  "find P ws = (case dropWhile (\<lambda>x. \<not> P x) ws of [] \<Rightarrow> None | x # _ \<Rightarrow> Some x)"
  by (induction ws) auto

lemma broadcast_loop_effect:
  assumes "sched_inv sw s" "\<forall>t \<in> set (waitset s cv). tcbs s t \<noteq> None" "distinct (waitset s cv)"
  shows "\<exists>s'. broadcast_loop c cv s = Some s' \<and> sched_inv sw s' \<and> cctx s' = cctx s \<and>
    mutexes s' = mutexes s \<and> kernel_sem s' = kernel_sem s \<and> cc.more s' = cc.more s \<and>
    waitset s' = (waitset s)(cv := []) \<and>
    waiter s' = (\<lambda>t. if t \<in> set (waitset s cv)
       then (waiter s t)\<lparr>signalled := signalled (waiter s t) \<or> asleep s t, removed := True\<rparr>
       else waiter s t) \<and>
    tcbs s' = (\<lambda>t. if t \<in> set (waitset s cv) then map_option awaken (tcbs s t) else tcbs s t)"
  using assms
proof (induction "length (waitset s cv)" arbitrary: s rule: less_induct)
  case less
  let ?ws = "waitset s cv"
  show ?case
  proof (cases "?ws = []")
    case True
    with less.prems show ?thesis by (subst broadcast_loop.simps) (simp add: fun_upd_idem)
  next
    case False
    let ?pre = "takeWhile (\<lambda>t. \<not> asleep s t) ?ws" and ?rest = "dropWhile (\<lambda>t. \<not> asleep s t) ?ws"
    obtain s1 where s1: "cv_signal c cv s = Some s1" "sched_inv sw s1" "cctx s1 = cctx s"
      "mutexes s1 = mutexes s" "kernel_sem s1 = kernel_sem s" "cc.more s1 = cc.more s"
      "waitset s1 = (waitset s)(cv := drop 1 ?rest)"
      "waiter s1 = mark_signalled (find (asleep s) ?ws) (mark_removed (?pre @ take 1 ?rest) (waiter s))"
      "tcbs s1 = awaken_one (find (asleep s) ?ws) (tcbs s)"
      using cv_signal_effect [OF less.prems(1,2) refl less.prems(3)] by blast
    have ws: "?ws = ?pre @ take 1 ?rest @ drop 1 ?rest" by simp
    have "length (drop 1 ?rest) < length ?ws"
      using False length_dropWhile_le [of "\<lambda>t. \<not> asleep s t" ?ws]
      by (cases ?ws) (auto simp del: length_dropWhile_le)
    moreover have sub: "set (drop 1 ?rest) \<subseteq> set ?ws" using ws by (metis Un_upper2 set_append sup.coboundedI2)
    moreover have "distinct (drop 1 ?rest)" using less.prems(3) ws by (metis distinct_append)
    moreover have "\<forall>t \<in> set (drop 1 ?rest). tcbs s1 t \<noteq> None"
      using less.prems(2) sub by (auto simp: s1(9) awaken_one_def)
    ultimately obtain s' where s': "broadcast_loop c cv s1 = Some s'" "sched_inv sw s'" "cctx s' = cctx s1"
      "mutexes s' = mutexes s1" "kernel_sem s' = kernel_sem s1" "cc.more s' = cc.more s1"
      "waitset s' = (waitset s1)(cv := [])"
      and W': "waiter s' = (\<lambda>t. if t \<in> set (drop 1 ?rest)
         then (waiter s1 t)\<lparr>signalled := signalled (waiter s1 t) \<or> asleep s1 t, removed := True\<rparr>
         else waiter s1 t)"
      and T': "tcbs s' = (\<lambda>t. if t \<in> set (drop 1 ?rest) then map_option awaken (tcbs s1 t) else tcbs s1 t)"
      using less.hyps [of s1] s1(2,7) by auto
    have run: "broadcast_loop c cv s = Some s'"
      using False s1(1) s'(1) by (subst broadcast_loop.simps) simp
    have pre: "\<not> asleep s t" if "t \<in> set ?pre" for t using that by (auto dest: set_takeWhileD)
    have "waiter s' t = (if t \<in> set ?ws
         then (waiter s t)\<lparr>signalled := signalled (waiter s t) \<or> asleep s t, removed := True\<rparr>
         else waiter s t) \<and>
       tcbs s' t = (if t \<in> set ?ws then map_option awaken (tcbs s t) else tcbs s t)" for t
    proof (cases ?rest)
      case Nil
      then have all: "\<forall>t \<in> set ?ws. \<not> asleep s t" by simp
      then have e: "?pre = ?ws" "find (asleep s) ?ws = None"
        by (auto simp: find_None_iff simp del: takeWhile_eq_all_conv intro: takeWhile_eq_all_conv [THEN iffD2])
      show ?thesis
        unfolding W' T' s1(8,9) Nil e using all
        by (auto simp: mark_removed_def mark_signalled_def awaken_one_def awaken_asleep)
    next
      case (Cons x xs)
      then have w: "?ws = ?pre @ x # xs" and x: "asleep s x" "find (asleep s) ?ws = Some x"
        using ws hd_dropWhile [of "\<lambda>t. \<not> asleep s t" ?ws] by (auto simp: find_split)
      from w less.prems(3) have d: "t \<in> set ?pre \<Longrightarrow> t \<noteq> x \<and> t \<notin> set xs" "x \<notin> set xs"
        by (metis (no_types) disjoint_iff distinct.simps(2) distinct_append list.set_intros)+
      have mem: "t \<in> set ?ws \<longleftrightarrow> t \<in> set ?pre \<or> t = x \<or> t \<in> set xs" by (subst w) auto
      have a1: "asleep s1 t = asleep s t" if "t \<noteq> x" using that by (simp add: asleep_def s1(9) awaken_one_def x)
      show ?thesis
        unfolding mem W' T' s1(8,9) Cons x(2)
        using d pre x a1
        by (auto simp: mark_removed_def mark_signalled_def awaken_one_def awaken_asleep)
    qed
    then show ?thesis using run s' s1 by (simp; simp add: fun_eq_iff)
  qed
qed

end
