(* ===== verification/Sched_Safety.thy ===== *)
theory Sched_Safety
  imports Sched_Inv
begin

text \<open>
  The remaining transitions of the scheduler, \<^verbatim>\<open>yield\<close> and \<^verbatim>\<open>gain\<close> as wholes, the proof
  that every reachable state satisfies the invariant, and the properties of the scheduler.
\<close>

section \<open>The end of a context switch\<close>

text \<open>
  \<open>gain\<close> on a core \<open>c\<close> that left the thread \<open>prev\<close> for another thread \<open>cur\<close>; the effect on
  the scheduler's data is collected in one state.
\<close>

text \<open>
  The parts of the invariant after the switch, over the abstract holder and incoming maps:
  core \<open>c\<close> gives up \<open>prev\<close> and takes \<open>cur\<close>.
\<close>

lemma gain_q_ok:
  assumes "q_ok N T Q" "T cur = Some ct" "T prev = Some pt" "state ct' = RUNNING"
    "phase pt = CTX_DIRTY" "cur \<noteq> prev" "\<And>b. N b \<noteq> Some prev" "\<And>b. N b = Some cur \<longleftrightarrow> b = c"
  shows "q_ok (N(c := None))
    (T(cur \<mapsto> ct', prev := (if state pt = EXITED then None else Some (pt\<lparr>phase := CTX_CLEAN\<rparr>))))
    (if state pt = READY \<and> ttype pt = NORMAL_THREAD
     then Q(priority pt := Q (priority pt) @ [prev]) else Q)"
    (is "q_ok ?N ?T ?Q")
proof -
  have mem: "u \<in> set (Q i) \<longleftrightarrow> queueable T u i \<and> (\<forall>d. N d \<noteq> Some u)" for u i
    using assms(1) by (auto simp: q_ok_def)
  have dist: "distinct (Q i)" for i using assms(1) by (auto simp: q_ok_def)
  have np: "prev \<notin> set (Q i)" for i using mem [of prev i] assms by (auto simp: queueable_def)
  have "u \<in> set (?Q i) \<longleftrightarrow> queueable ?T u i \<and> (\<forall>d. ?N d \<noteq> Some u)" for u i
  proof -
    consider "u = cur" | "u = prev" | "u \<noteq> cur" "u \<noteq> prev" by blast
    then show ?thesis
    proof cases
      case 1
      then show ?thesis using assms mem [of u i] by (auto simp: queueable_def)
    next
      case 2
      then show ?thesis using assms np [of i] by (auto simp: queueable_def)
    next
      case 3
      have "(\<forall>d. ?N d \<noteq> Some u) \<longleftrightarrow> (\<forall>d. N d \<noteq> Some u)"
        using assms(8) [of c] 3 by (metis fun_upd_apply option.inject option.distinct(1))
      moreover have "queueable ?T u i \<longleftrightarrow> queueable T u i" using 3 by (simp add: queueable_def)
      moreover have "u \<in> set (?Q i) \<longleftrightarrow> u \<in> set (Q i)" using 3 by auto
      ultimately show ?thesis using mem by simp
    qed
  qed
  moreover have "distinct (?Q i)" for i using dist np by auto
  ultimately show ?thesis unfolding q_ok_def by blast
qed

lemma holder_moves:
  "H c = Some prev \<Longrightarrow> u \<noteq> cur \<Longrightarrow> u \<noteq> prev \<Longrightarrow> (H(c := Some cur)) d = Some u \<longleftrightarrow> H d = Some u"
  by auto

lemma gain_h_ok:
  assumes ok: "h_ok H T" and "T cur = Some ct" "phase ct' = CTX_DIRTY" "cur \<noteq> prev"
    and hcur: "\<And>b. H b \<noteq> Some cur" and uniq: "\<And>b. H b = Some prev \<longleftrightarrow> b = c"
    and pp: "pp = None \<or> (\<exists>p. pp = Some p \<and> phase p = CTX_CLEAN)"
  shows "h_ok (H(c := Some cur)) (T(cur \<mapsto> ct', prev := pp))" (is "h_ok ?H ?T")
proof -
  have hc: "H c = Some prev" using uniq by simp
  have "b = d" if "?H b = Some u" "?H d = Some u" for b d u
    using ok that hcur unfolding h_ok_def by (auto split: if_splits)
  moreover have "phase uc = CTX_DIRTY \<longleftrightarrow> (\<exists>b. ?H b = Some u)" if u: "?T u = Some uc" for u uc
  proof -
    consider "u = cur" | "u = prev" | "u \<noteq> cur" "u \<noteq> prev" by blast
    then show ?thesis
    proof cases
      case 3
      then have "T u = Some uc" using u by simp
      then show ?thesis
        using ok holder_moves [of H c prev u cur, OF hc 3] unfolding h_ok_def by (metis (no_types))
    qed (use u assms in \<open>auto split: if_splits\<close>)
  qed
  moreover have "?T u \<noteq> None" if "?H b = Some u" for b u
    using ok that uniq \<open>cur \<noteq> prev\<close> unfolding h_ok_def by (auto split: if_splits)
  ultimately show ?thesis unfolding h_ok_def by blast
qed

lemma gain_s_ok:
  assumes ok: "s_ok sw H N T" and ct: "T cur = Some ct" and pt: "T prev = Some pt"
    and ct': "state ct' = RUNNING" "phase ct' = CTX_DIRTY" "ttype ct' = ttype ct"
      "priority ct' = priority ct"
    and ne: "cur \<noteq> prev" and hcur: "\<And>b. H b \<noteq> Some cur" and uniq: "\<And>b. H b = Some prev \<longleftrightarrow> b = c"
    and prun: "state pt \<noteq> RUNNING" and c: "c \<in> sw"
  shows "s_ok (sw - {c}) (H(c := Some cur)) (N(c := None))
    (T(cur \<mapsto> ct', prev := (if state pt = EXITED then None else Some (pt\<lparr>phase := CTX_CLEAN\<rparr>))))"
    (is "s_ok _ ?H ?N ?T")
proof -
  let ?P = "\<lambda>sw H t tc. (state tc = RUNNING \<longrightarrow> (\<exists>c. c \<notin> sw \<and> H c = Some t)) \<and>
        (state tc = INIT \<longrightarrow> phase tc = CTX_CLEAN) \<and>
        (state tc = EXITED \<longrightarrow> phase tc = CTX_DIRTY) \<and>
        priority tc < PRIORITY_QUEUES \<and>
        ttype tc = (case t of IdleT _ \<Rightarrow> IDLE_THREAD | Thr _ \<Rightarrow> NORMAL_THREAD) \<and>
        (ttype tc = IDLE_THREAD \<longrightarrow> state tc = RUNNING \<or> state tc = READY)"
  have old: "?P sw H t tc" if "T t = Some tc" for t tc using ok that unfolding s_ok_def by blast
  have hc: "H c = Some prev" using uniq by simp
  have "?P (sw - {c}) ?H u uc" if u: "?T u = Some uc" for u uc
  proof -
    consider "u = cur" | "u = prev" | "u \<noteq> cur" "u \<noteq> prev" by blast
    then show ?thesis
    proof cases
      case 1
      with u ct' ne old [OF ct] show ?thesis by auto
    next
      case 2
      with u ne prun old [OF pt] show ?thesis by (auto split: if_splits)
    next
      case 3
      with u have "?P sw H u uc" by (intro old) simp
      moreover have "(\<exists>b. b \<notin> sw - {c} \<and> ?H b = Some u)" if "\<exists>b. b \<notin> sw \<and> H b = Some u"
        using that c by auto
      ultimately show ?thesis by blast
    qed
  qed
  moreover have "state uc = READY"
    if "b \<in> sw - {c}" "?N b = None" "?H b = Some u" "?T u = Some uc" for b u uc
  proof -
    have "u \<noteq> cur" "u \<noteq> prev" using that hcur uniq by auto
    with that ok show ?thesis unfolding s_ok_def by auto
  qed
  moreover have "\<forall>b \<in> sw - {c}. ?H b \<noteq> None" using ok unfolding s_ok_def by auto
  ultimately show ?thesis unfolding s_ok_def by blast
qed

lemma wk_upd: "wk (T(t := x)) u = (if u = t then case x of None \<Rightarrow> NO_TIMEOUT | Some tc \<Rightarrow> wakeup_time tc else wk T u)"
  by (simp add: wk_def)

lemma t_ok_cong:
  assumes "t_ok T L" "wk T' = wk T"
    "\<And>t tc. T' t = Some tc \<Longrightarrow> wakeup_time tc \<noteq> NO_TIMEOUT \<Longrightarrow> state tc = STOPPED"
  shows "t_ok T' L"
  using assms unfolding t_ok_def by simp

lemma c_ok_release:
  assumes ok: "c_ok T a n" and t: "T (Thr m) \<noteq> None"
  shows "c_ok (T(Thr m := None)) (a - 1) n"
proof -
  let ?S = "{k. T (Thr k) \<noteq> None}"
  have eq: "{k. (T(Thr m := None)) (Thr k) \<noteq> None} = ?S - {m}" by auto
  have "m \<in> ?S" using t by simp
  moreover have fin: "finite ?S" using ok by (simp add: c_ok_def)
  ultimately have "card ?S = Suc (card (?S - {m}))" by (metis card.remove)
  then have "(of_nat (card (?S - {m})) :: uint32) = of_nat (card ?S) - 1" by simp
  with ok fin show ?thesis unfolding c_ok_def eq by auto
qed

lemma gain_switch_inv:
  assumes inv: "sched_inv sw s" and c: "c \<in> sw"
    and hp: "holder sw s c = Some prev" and nc: "incoming sw s c = Some cur"
    and ct: "tcbs s cur = Some ct" and pt: "tcbs s prev = Some pt"
    and ct': "state ct' = RUNNING" "phase ct' = CTX_DIRTY" "ttype ct' = ttype ct"
      "priority ct' = priority ct" "wakeup_time ct' = wakeup_time ct"
    and eff: "tcbs s' = (tcbs s)(cur \<mapsto> ct',
        prev := (if state pt = EXITED then None else Some (pt\<lparr>phase := CTX_CLEAN\<rparr>)))"
      "SCHED s' = (if state pt = READY \<and> ttype pt = NORMAL_THREAD
        then (SCHED s)(priority pt := SCHED s (priority pt) @ [prev]) else SCHED s)"
      "TIMEOUT_LIST s' = TIMEOUT_LIST s" "cctx s' = cctx s" "next_tcb s' = next_tcb s"
      "active_threads s' = (if state pt = EXITED then active_threads s - 1 else active_threads s)"
  shows "sched_inv (sw - {c}) s'"
proof -
  let ?T = "tcbs s'" and ?N = "(incoming sw s)(c := None)" and ?H = "(holder sw s)(c := Some cur)"
  have cl: "state ct = READY" "phase ct = CTX_CLEAN" using inv_incoming [OF inv nc] ct by auto
  have d: "phase pt = CTX_DIRTY" using inv_holder_dirty [OF inv hp] pt by simp
  have ne: "cur \<noteq> prev" using ct pt cl d by auto
  have H: "holder (sw - {c}) s' = ?H"
    using c nc by (auto simp: fun_eq_iff holder_def incoming_def eff split: if_splits)
  have N: "incoming (sw - {c}) s' = ?N"
    by (auto simp: fun_eq_iff incoming_def eff)
  have np: "incoming sw s b \<noteq> Some prev" for b using inv_incoming [OF inv, of b prev] pt d by auto
  have uniqN: "incoming sw s b = Some cur \<longleftrightarrow> b = c" for b
    using inv nc unfolding sched_inv_def n_ok_def by blast
  have uniqH: "holder sw s b = Some prev \<longleftrightarrow> b = c" for b
    using inv hp unfolding sched_inv_def h_ok_def by blast
  have hcur: "holder sw s b \<noteq> Some cur" for b using inv_holder_dirty [OF inv, of b cur] ct cl by auto
  have prun: "state pt \<noteq> RUNNING" using inv_running [OF inv pt] uniqH c by auto
  have "q_ok ?N ?T (SCHED s')"
    unfolding eff
    by (rule gain_q_ok) (use inv ct pt ct' d ne np uniqN in \<open>auto simp: sched_inv_def\<close>)
  moreover have "h_ok ?H ?T"
    unfolding eff
    by (rule gain_h_ok) (use inv ct ct' ne hcur uniqH in \<open>auto simp: sched_inv_def\<close>)
  moreover have "n_ok ?N ?T"
    using inv np uniqN unfolding eff sched_inv_def n_ok_def by auto
  moreover have "s_ok (sw - {c}) ?H ?N ?T"
    unfolding eff
    by (rule gain_s_ok) (use inv ct pt ct' ne hcur uniqH prun c in \<open>auto simp: sched_inv_def\<close>)
  moreover have "i_ok ?H ?N ?T"
  proof -
    have "prev \<noteq> IdleT b" if "state pt = EXITED" for b
      using inv_idle_state [OF inv pt] inv_ttype [OF inv pt] that by auto
    then have "?T (IdleT b) \<noteq> None \<longleftrightarrow> tcbs s (IdleT b) \<noteq> None" for b
      using ct pt by (auto simp: eff)
    moreover have "?H b \<noteq> None \<longleftrightarrow> holder sw s b \<noteq> None" for b using hp by auto
    moreover have "b = e" if "?H b = Some (IdleT e) \<or> ?N b = Some (IdleT e)" for b e
      using inv_idle_home [OF inv, of b e] nc that by (auto split: if_splits)
    ultimately show ?thesis using inv unfolding sched_inv_def i_ok_def by blast
  qed
  moreover have "t_ok ?T (TIMEOUT_LIST s)"
  proof (rule t_ok_cong)
    have w: "wakeup_time ct = NO_TIMEOUT" "state pt = EXITED \<Longrightarrow> wakeup_time pt = NO_TIMEOUT"
      using inv_timed_stopped [OF inv ct] inv_timed_stopped [OF inv pt] cl by auto
    then show "wk ?T = wk (tcbs s)" using ct pt ct'(5) by (auto simp: fun_eq_iff wk_def eff)
    show "state uc = STOPPED" if "?T u = Some uc" "wakeup_time uc \<noteq> NO_TIMEOUT" for u uc
      using that w ct' inv_timed_stopped [OF inv pt] inv_timed_stopped [OF inv, of u uc]
      by (cases "state pt = STOPPED") (auto simp: eff split: if_splits)
  qed (use inv in \<open>simp add: sched_inv_def\<close>)
  moreover have "c_ok ?T (active_threads s') (next_tcb s)"
  proof -
    have 1: "c_ok ((tcbs s)(cur \<mapsto> ct')) (active_threads s) (next_tcb s)"
      using inv by (simp add: c_ok_upd [of "tcbs s" cur ct] ct sched_inv_def)
    show ?thesis
    proof (cases "state pt = EXITED")
      case True
      then obtain m where "prev = Thr m"
        using inv_idle_state [OF inv pt] inv_ttype [OF inv pt] by (cases prev) auto
      with c_ok_release [OF 1, of m] pt ne True show ?thesis by (simp add: eff)
    next
      case False
      then show ?thesis
        using 1 pt ne c_ok_upd [of "(tcbs s)(cur \<mapsto> ct')" prev pt] by (simp add: eff)
    qed
  qed
  ultimately show ?thesis using inv by (simp add: sched_inv_def k_ok_def H N eff(3,4,5))
qed

lemma gain_same_inv:
  assumes inv: "sched_inv sw s" and c: "c \<in> sw"
    and cc: "cctx s c = \<lparr>current_thread = Some cur, previous_thread = Some cur\<rparr>"
    and ct: "tcbs s cur = Some ct"
    and ct': "state ct' = RUNNING" "phase ct' = CTX_DIRTY" "ttype ct' = ttype ct"
      "priority ct' = priority ct" "wakeup_time ct' = wakeup_time ct"
  shows "sched_inv (sw - {c}) (s\<lparr>tcbs := (tcbs s)(cur \<mapsto> ct')\<rparr>)"
proof -
  let ?T = "(tcbs s)(cur \<mapsto> ct')"
  have hc: "holder sw s c = Some cur" using c cc by (simp add: holder_def)
  have nc: "incoming sw s c = None" using cc by (simp add: incoming_def)
  have d: "phase ct = CTX_DIRTY" using inv_holder_dirty [OF inv hc] ct by simp
  have rd: "state ct = READY"
    using inv c nc hc ct unfolding sched_inv_def s_ok_def by blast
  have H: "holder (sw - {c}) s = holder sw s" using cc by (auto simp: fun_eq_iff holder_def)
  have N: "incoming (sw - {c}) s = incoming sw s" using cc by (auto simp: fun_eq_iff incoming_def)
  have uniq: "holder sw s b = Some cur \<longleftrightarrow> b = c" for b
    using inv hc unfolding sched_inv_def h_ok_def by blast
  have "q_ok (incoming sw s) ?T (SCHED s)"
    using inv ct ct' d by (auto simp: sched_inv_def q_ok_def queueable_def)
  moreover have "h_ok (holder sw s) ?T" using inv ct ct' uniq by (auto simp: sched_inv_def h_ok_def)
  moreover have "n_ok (incoming sw s) ?T"
    using inv ct d inv_incoming [OF inv] by (fastforce simp: sched_inv_def n_ok_def)
  moreover have "s_ok (sw - {c}) (holder sw s) (incoming sw s) ?T"
  proof -
    have "\<exists>b. b \<notin> sw - {c} \<and> holder sw s b = Some u"
      if "?T u = Some uc" "state uc = RUNNING" for u uc
      using that uniq inv_running [OF inv, of u uc] by (auto split: if_splits)
    then show ?thesis
      using inv ct ct' uniq inv_ttype [OF inv ct] inv_priority [OF inv ct]
      by (auto simp: sched_inv_def s_ok_def)
  qed
  moreover have "i_ok (holder sw s) (incoming sw s) ?T" using inv ct by (auto simp: sched_inv_def i_ok_def)
  moreover have "t_ok ?T (TIMEOUT_LIST s)"
    by (rule t_ok_upd [of "tcbs s" cur ct])
      (use inv ct ct' rd inv_timed_stopped [OF inv ct] in \<open>auto simp: sched_inv_def\<close>)
  moreover have "c_ok ?T (active_threads s) (next_tcb s)"
    using inv by (simp add: c_ok_upd [of "tcbs s" cur ct] ct sched_inv_def)
  ultimately show ?thesis using inv by (simp add: sched_inv_def k_ok_def H N)
qed

text \<open>\<open>gain\<close> always succeeds after \<open>yield\<close>, and ends the switch of its core.\<close>

lemma gain_inv:
  assumes inv: "sched_inv sw s" and c: "c \<in> sw"
  shows "\<exists>s'. gain c s = Some s' \<and> sched_inv (sw - {c}) s'"
proof -
  have "holder sw s c \<noteq> None" "current_thread (cctx s c) \<noteq> None"
    using inv c unfolding sched_inv_def s_ok_def k_ok_def by blast+
  then obtain prev cur where hp: "holder sw s c = Some prev"
    and cu: "current_thread (cctx s c) = Some cur" by blast
  then have pc: "previous_thread (cctx s c) = Some prev" using c by (simp add: holder_def)
  obtain pt where pt: "tcbs s prev = Some pt" using inv_holder_dirty [OF inv hp] by blast
  have prun: "state pt \<noteq> RUNNING \<and> state pt \<noteq> INIT"
    using inv_running [OF inv pt] inv_holder_dirty [OF inv hp] pt inv hp c
    unfolding sched_inv_def h_ok_def s_ok_def by (metis Thread_phase.distinct(1) option.inject)
  let ?fin = "\<lambda>u s1. snd (bios_set_timer c u
      (if ctx_preempt s1 cur then cpu_enable_interrupts c s1 else s1))"
  have fin: "sched_inv w (?fin u s1) \<longleftrightarrow> sched_inv w s1" for w u s1
    by (rule sched_inv_cong) auto
  show ?thesis
  proof (cases "cur = prev")
    case True
    let ?ct = "pt\<lparr>state := RUNNING, phase := CTX_DIRTY, rts := its pt\<rparr>"
    let ?s1 = "s\<lparr>tcbs := (tcbs s)(cur \<mapsto> ?ct)\<rparr>"
    have "cctx s c = \<lparr>current_thread = Some cur, previous_thread = Some cur\<rparr>"
      using cu pc True by (cases "cctx s c") simp
    then have "sched_inv (sw - {c}) ?s1" using inv c pt True by (intro gain_same_inv [where ct = pt]) auto
    moreover have "gain c s = Some (?fin (rts ?ct) ?s1)"
      using cu pc pt True by (simp add: gain_def cur_thread_def upd_tcb_def Let_def)
    ultimately show ?thesis using fin by blast
  next
    case False
    have nc: "incoming sw s c = Some cur" using c cu pc False by (simp add: incoming_def)
    obtain ct where ct: "tcbs s cur = Some ct" using inv_incoming [OF inv nc] by blast
    let ?ct = "ct\<lparr>state := RUNNING, phase := CTX_DIRTY, rts := its ct\<rparr>"
    let ?s1 = "s\<lparr>tcbs := (tcbs s)(cur \<mapsto> ?ct, prev \<mapsto> pt\<lparr>phase := CTX_CLEAN\<rparr>)\<rparr>"
    let ?s2 = "if state pt = READY \<and> ttype pt = NORMAL_THREAD
      then cpu_core_restart_one
        (?s1\<lparr>SCHED := (SCHED s)(priority pt := SCHED s (priority pt) @ [prev])\<rparr>)
      else if state pt = EXITED then release_TCB prev ?s1 else ?s1"
    have "sched_inv (sw - {c}) ?s2"
      by (rule gain_switch_inv [OF inv c hp nc ct pt, where ct' = ?ct]) (auto simp: release_TCB_def)
    moreover have "gain c s = Some (?fin (rts ?ct) ?s2)"
      using cu pc pt ct False prun inv_priority [OF inv pt]
      by (cases "state pt"; cases "ttype pt")
        (auto simp: gain_def cur_thread_def upd_tcb_def Let_def sched_queue_add_def release_TCB_def)
    ultimately show ?thesis using fin by blast
  qed
qed

section \<open>A whole yield\<close>

lemma yield_account_inv:
  assumes inv: "sched_inv sw s" and c: "c \<notin> sw" "cur_thread c s = Some cur"
  shows "\<exists>s' ct. yield_account c cause cur rem s = Some s' \<and> sched_inv sw s' \<and> cctx s' = cctx s \<and>
    tcbs s' cur = Some ct \<and> state ct \<noteq> RUNNING"
proof -
  let ?s1 = "s\<lparr>yield_counter := yield_counter s + 1\<rparr>"
  have inv1: "sched_inv sw ?s1" using inv by (subst sched_inv_cong) auto
  have hc: "holder sw s c = Some cur" using c by (simp add: holder_def cur_thread_def)
  obtain ct where ct: "tcbs s cur = Some ct" "phase ct = CTX_DIRTY" using inv_holder_dirty [OF inv hc] by blast
  obtain s2 where s2: "(if yield_counter ?s1 = MAX_QUANTUMS
        then do { s2 \<leftarrow> aging ?s1; Some (s2\<lparr>yield_counter := 0\<rparr>) } else Some ?s1) = Some s2"
    and inv2: "sched_inv sw s2" and c2: "cctx s2 = cctx s" and ct2: "tcbs s2 cur = Some ct"
  proof (cases "yield_counter ?s1 = MAX_QUANTUMS")
    case True
    obtain s' where s': "aging ?s1 = Some s'" "sched_inv sw s'" "cctx s' = cctx s" "tcbs s' cur = Some ct"
      using aging_loop_inv [OF inv1, of "PRIORITY_QUEUES - 1"] ct
      by (fastforce simp: aging_def PRIORITY_QUEUES_def)
    have "sched_inv sw (s'\<lparr>yield_counter := 0\<rparr>)" using s'(2) by (subst sched_inv_cong) auto
    with True s' that show thesis by simp
  next
    case False
    with inv1 ct that show thesis by simp
  qed
  let ?ct3 = "if state ct = RUNNING then ct\<lparr>state := READY\<rparr> else ct"
  let ?s3 = "s2\<lparr>tcbs := (tcbs s2)(cur \<mapsto> ?ct3)\<rparr>"
  have inv3: "sched_inv sw ?s3"
  proof (cases "state ct = RUNNING")
    case True
    then show ?thesis using inv_yielding [OF inv2 c(1) _ ct2] c c2 by (simp add: cur_thread_def)
  next
    case False
    then show ?thesis using inv2 ct2 by (simp add: fun_upd_idem)
  qed
  let ?f = "\<lambda>tc. tc\<lparr>rts := rem, last_cause := curr_cause tc, curr_cause := cause\<rparr>"
  have ct3: "tcbs ?s3 cur = Some ?ct3" by simp
  have "sched_inv sw (?s3\<lparr>tcbs := (tcbs ?s3)(cur \<mapsto> ?f ?ct3)\<rparr>)"
    by (rule inv_upd_tcb [OF inv3 ct3, of ?f]) (use inv_priority [OF inv3 ct3] in simp_all)
  moreover have "yield_account c cause cur rem s = Some (?s3\<lparr>tcbs := (tcbs ?s3)(cur \<mapsto> ?f ?ct3)\<rparr>)"
    using s2 ct2 unfolding yield_account_def Let_def by (simp add: upd_tcb_def)
  ultimately show ?thesis using c2 by fastforce
qed

text \<open>\<open>yield\<close> never fails on a core that runs a thread; the core is then switching.\<close>

lemma yield_inv:
  assumes inv: "sched_inv sw s" and c: "c \<notin> sw" "cur_thread c s = Some cur"
  shows "\<exists>s'. yield c cause s = Some s' \<and> sched_inv (insert c sw) s'"
proof -
  let ?s0 = "snd (bios_cancel_timer c s)" and ?rem = "fst (bios_cancel_timer c s)"
  let ?s1 = "snd (cpu_disable_interrupts c ?s0)" and ?pre = "fst (cpu_disable_interrupts c ?s0)"
  have inv1: "sched_inv sw ?s1" using inv by (subst sched_inv_cong) simp_all
  have c1: "cur_thread c ?s1 = Some cur" using c by (simp add: cur_thread_def)
  obtain s2 ct where s2: "yield_account c cause cur ?rem ?s1 = Some s2" "sched_inv sw s2"
    "cctx s2 = cctx ?s1" and ct: "tcbs s2 cur = Some ct" "state ct \<noteq> RUNNING"
    using yield_account_inv [OF inv1 c(1) c1] by blast
  obtain s3 where s3: "sched_wakeup_expired_timeouts s2 = Some s3" "sched_inv sw s3" "cctx s3 = cctx s2"
    and T3: "tcbs s3 = map_option (expire (bios_clock s2)) \<circ> tcbs s2"
    using wakeup_expired_loop_inv [OF s2(2)] unfolding sched_wakeup_expired_timeouts_def by blast
  have c3: "cur_thread c s3 = Some cur" using c s2(3) s3(3) by (simp add: cur_thread_def)
  obtain ct3 where ct3: "tcbs s3 cur = Some ct3" "state ct3 \<noteq> RUNNING"
    using T3 ct by (simp add: expire_def)
  have "yield c cause s = yield_select c cause cur ?pre s3"
    using c1 s2(1) s3(1) by (simp add: yield_def split_beta)
  with yield_select_inv [OF s3(2) c(1) c3 ct3] show ?thesis by metis
qed

section \<open>New threads and cores\<close>

lemma spawn_inv:
  assumes inv: "sched_inv sw s" and run: "spawn_thread pcb func s = (t, s')"
  shows "sched_inv sw s'"
proof -
  define tc where "tc = \<lparr>owner_pcb = pcb, owner_ptcb = None, ttype = NORMAL_THREAD, state = INIT,
    phase = CTX_CLEAN, thread_func = Some func, wakeup_time = NO_TIMEOUT, its = QUANTUM,
    rts = QUANTUM, curr_cause = SCHED_IDLE, last_cause = SCHED_IDLE, priority = PRIORITY_QUEUES div 2\<rparr>"
  let ?n = "next_tcb s" and ?T = "(tcbs s)(Thr (next_tcb s) \<mapsto> tc)"
  have eff: "tcbs s' = ?T" "SCHED s' = SCHED s" "TIMEOUT_LIST s' = TIMEOUT_LIST s" "cctx s' = cctx s"
    "active_threads s' = active_threads s + 1" "next_tcb s' = ?n + 1"
    using run by (auto simp: spawn_thread_def tc_def Let_def)
  note cong = holder_cong [OF eff(4)] incoming_cong [OF eff(4)]
  have fresh: "tcbs s (Thr ?n) = None" using inv by (auto simp: sched_inv_def c_ok_def)
  have nh: "holder sw s b \<noteq> Some (Thr ?n)" for b using inv_holder_dirty [OF inv, of b] fresh by auto
  have nn: "incoming sw s b \<noteq> Some (Thr ?n)" for b using inv_incoming [OF inv, of b] fresh by auto
  have "q_ok (incoming sw s) ?T (SCHED s)"
    using inv fresh by (auto simp: sched_inv_def q_ok_def queueable_def tc_def)
  moreover have "h_ok (holder sw s) ?T" using inv nh by (auto simp: sched_inv_def h_ok_def tc_def)
  moreover have "n_ok (incoming sw s) ?T" using inv nn by (auto simp: sched_inv_def n_ok_def)
  moreover have "s_ok sw (holder sw s) (incoming sw s) ?T"
    using inv nh by (auto simp: sched_inv_def s_ok_def tc_def PRIORITY_QUEUES_def)
  moreover have "i_ok (holder sw s) (incoming sw s) ?T" using inv by (auto simp: sched_inv_def i_ok_def)
  moreover have "t_ok ?T (TIMEOUT_LIST s)"
    by (rule t_ok_cong [of "tcbs s"])
      (use inv fresh inv_timed_stopped [OF inv] in \<open>auto simp: sched_inv_def wk_def fun_eq_iff tc_def split: if_splits\<close>)
  moreover have "c_ok ?T (active_threads s + 1) (?n + 1)"
  proof -
    let ?S = "{k. tcbs s (Thr k) \<noteq> None}"
    have "{k. ?T (Thr k) \<noteq> None} = insert ?n ?S" by auto
    moreover have "finite ?S" "?n \<notin> ?S" "active_threads s = of_nat (card ?S)" "\<forall>k \<in> ?S. k < ?n"
      using inv fresh by (auto simp: sched_inv_def c_ok_def)
    ultimately show ?thesis unfolding c_ok_def by (auto simp: less_Suc_eq)
  qed
  ultimately show ?thesis using inv by (simp add: sched_inv_def cong eff)
qed

lemma start_inv:
  assumes inv: "sched_inv sw s" and c: "c \<notin> sw" "cur_thread c s = None"
  shows "sched_inv sw (run_scheduler c pcb0 s)"
proof -
  define tc where "tc = \<lparr>owner_pcb = pcb0, owner_ptcb = None, ttype = IDLE_THREAD, state = RUNNING,
    phase = CTX_DIRTY, thread_func = None, wakeup_time = NO_TIMEOUT, its = QUANTUM,
    rts = QUANTUM, curr_cause = SCHED_IDLE, last_cause = SCHED_IDLE, priority = 0\<rparr>"
  let ?s' = "run_scheduler c pcb0 s" and ?T = "(tcbs s)(IdleT c \<mapsto> tc)"
  let ?H = "(holder sw s)(c \<mapsto> IdleT c)"
  have eff: "tcbs ?s' = ?T" "SCHED ?s' = SCHED s" "TIMEOUT_LIST ?s' = TIMEOUT_LIST s"
    "cctx ?s' = (cctx s)(c := (cctx s c)\<lparr>current_thread := Some (IdleT c)\<rparr>)"
    "active_threads ?s' = active_threads s" "next_tcb ?s' = next_tcb s"
    by (simp_all add: run_scheduler_def tc_def Let_def cpu_interrupt_handler_def)
  have hc: "holder sw s c = None" using c by (simp add: holder_def cur_thread_def)
  have H: "holder sw ?s' = ?H" using c(1) by (auto simp: fun_eq_iff holder_def eff)
  have N: "incoming sw ?s' = incoming sw s" using c(1) by (auto simp: fun_eq_iff incoming_def eff)
  have fresh: "tcbs s (IdleT c) = None" using inv hc unfolding sched_inv_def i_ok_def by blast
  have nh: "holder sw s b \<noteq> Some (IdleT c)" for b using inv_holder_dirty [OF inv, of b] fresh by auto
  have nn: "incoming sw s b \<noteq> Some (IdleT c)" for b using inv_incoming [OF inv, of b] fresh by auto
  have "q_ok (incoming sw s) ?T (SCHED s)"
    using inv fresh by (auto simp: sched_inv_def q_ok_def queueable_def tc_def)
  moreover have "h_ok ?H ?T"
  proof -
    have "(\<exists>b. ?H b = Some u) \<longleftrightarrow> (\<exists>b. holder sw s b = Some u)" if "u \<noteq> IdleT c" for u
      using that hc by (metis fun_upd_apply option.distinct(1) option.inject)
    then show ?thesis using inv nh hc by (auto simp: sched_inv_def h_ok_def tc_def)
  qed
  moreover have "n_ok (incoming sw s) ?T" using inv nn by (auto simp: sched_inv_def n_ok_def)
  moreover have "s_ok sw ?H (incoming sw s) ?T"
  proof -
    have "\<exists>b. b \<notin> sw \<and> ?H b = Some u" if "\<exists>b. b \<notin> sw \<and> holder sw s b = Some u" for u
      using that hc by (metis fun_upd_other option.distinct(1))
    then show ?thesis using inv c nh by (auto simp: sched_inv_def s_ok_def tc_def PRIORITY_QUEUES_def)
  qed
  moreover have "i_ok ?H (incoming sw s) ?T" using inv by (auto simp: sched_inv_def i_ok_def)
  moreover have "t_ok ?T (TIMEOUT_LIST s)"
    by (rule t_ok_cong [of "tcbs s"])
      (use inv fresh inv_timed_stopped [OF inv] in \<open>auto simp: sched_inv_def wk_def fun_eq_iff tc_def split: if_splits\<close>)
  moreover have "c_ok ?T (active_threads s) (next_tcb s)"
    using inv by (simp add: sched_inv_def c_ok_def)
  ultimately show ?thesis using inv by (simp add: sched_inv_def k_ok_def H N eff)
qed

section \<open>Every reachable state\<close>

inductive_cases sched_stepE: "sched_step (sw, s) (sw', s')"

lemma yield_has_current: "yield c cause s = Some s' \<Longrightarrow> \<exists>cur. cur_thread c s = Some cur"
  by (auto simp: yield_def split_beta cur_thread_def)

lemma sched_step_inv:
  assumes "sched_step x y" "sched_inv (fst x) (snd x)"
  shows "sched_inv (fst y) (snd y)"
  using assms
proof (induction rule: sched_step.induct)
  case (Spawn pcb func s t s' sw)
  then show ?case unfolding fst_conv snd_conv by (metis spawn_inv)
next
  case (Wakeup c t s r s' sw)
  then show ?case unfolding fst_conv snd_conv by (metis wakeup_inv)
next
  case (Sleep c sw s n tc timeout st mx s')
  then show ?case
    using sleep_section_inv [of sw s c n tc st timeout mx] sleep_section_asserts by fastforce
next
  case (Yield c sw cause s s')
  then show ?case using yield_has_current yield_inv [of sw s c _ cause] by fastforce
next
  case (Gain c sw s s')
  then show ?case using gain_inv [of sw s c] by fastforce
next
  case (Start c sw s pcb0)
  then show ?case unfolding fst_conv snd_conv by (metis start_inv)
next
  case (Env s s' sw)
  then show ?case using sched_inv_same [of s s' sw] by simp
qed

lemma reachable_inv: "sched_reachable (sw, s) \<Longrightarrow> sched_inv sw s"
proof -
  have "sched_inv (fst x) (snd x)" if "sched_reachable x" for x :: "nat set \<times> 'a sched_scheme"
    using that
    by (induction rule: sched_reachable.induct) (simp add: sched_initial_inv, rule sched_step_inv)
  then show "sched_reachable (sw, s) \<Longrightarrow> sched_inv sw s" by fastforce
qed

section \<open>A concrete run\<close>

text \<open>
  The zeroed static storage of a machine with two cores, and the states after both cores
  entered \<^verbatim>\<open>run_scheduler\<close>, a thread was spawned and made ready, and core 0 yielded to it.
\<close>

definition sched0 :: sched where
  "sched0 = bios.extend bios0 (sched.fields Map.empty (\<lambda>_. False) 0 (\<lambda>_. []) []
     (\<lambda>_. \<lparr>current_thread = None, previous_thread = None\<rparr>) 0 0 (\<lambda>_. False))"

definition sched1 :: sched where
  "sched1 = run_scheduler 1 None (run_scheduler 0 None sched0)"

definition sched2 :: sched where
  "sched2 = snd (spawn_thread (Some 1) start_main_thread sched1)"

definition sched3 :: sched where
  "sched3 = snd (the (wakeup 0 (Thr 0) sched2))"

definition sched4 :: sched where
  "sched4 = the (yield 0 SCHED_IDLE sched3)"

lemma sched0_sel:
  "tcbs sched0 = Map.empty" "SCHED sched0 = (\<lambda>_. [])" "TIMEOUT_LIST sched0 = []"
  "cctx sched0 = (\<lambda>_. \<lparr>current_thread = None, previous_thread = None\<rparr>)" "active_threads sched0 = 0"
  "next_tcb sched0 = 0" "yield_counter sched0 = 0"
  by (simp_all add: sched0_def bios0_def bios.defs sched.defs)

lemma sched1_sel:
  "cctx sched1 = (\<lambda>_. \<lparr>current_thread = None, previous_thread = None\<rparr>)
     (0 := \<lparr>current_thread = Some (IdleT 0), previous_thread = None\<rparr>,
      1 := \<lparr>current_thread = Some (IdleT 1), previous_thread = None\<rparr>)"
  "next_tcb sched1 = 0" "SCHED sched1 = (\<lambda>_. [])" "TIMEOUT_LIST sched1 = []" "active_threads sched1 = 0"
  by (simp_all add: sched1_def run_scheduler_def sched0_sel Let_def cpu_interrupt_handler_def)

lemma sched1_reachable: "sched_reachable ({}, sched1)"
proof -
  have "sched_reachable ({}, sched0)"
    by (rule sched_reachable.init) (simp add: sched_initial_def sched0_sel)
  then have "sched_reachable ({}, run_scheduler 0 None sched0)"
    by (rule sched_reachable.step) (rule sched_step.Start, simp_all add: cur_thread_def sched0_sel)
  then show ?thesis unfolding sched1_def
    by (rule sched_reachable.step)
      (rule sched_step.Start, simp_all add: cur_thread_def run_scheduler_def sched0_sel Let_def
        cpu_interrupt_handler_def)
qed

lemma sched2_reachable: "sched_reachable ({}, sched2)"
  unfolding sched2_def
  by (rule sched_reachable.step [OF sched1_reachable], rule sched_step.Spawn) (simp add: prod_eq_iff)

lemma sched3_reachable: "sched_reachable ({}, sched3)"
proof -
  have "wakeup 0 (Thr 0) sched2 \<noteq> None"
    by (simp add: wakeup_def split_beta sched2_def spawn_thread_def sched1_sel Let_def
        sched_make_ready_def upd_tcb_def sched_queue_add_def PRIORITY_QUEUES_def)
  then obtain r where "wakeup 0 (Thr 0) sched2 = Some (r, sched3)"
    by (auto simp: sched3_def)
  then show ?thesis by (intro sched_reachable.step [OF sched2_reachable] sched_step.Wakeup)
qed

lemma sched3_cur: "cur_thread 0 sched3 = Some (IdleT 0)" "cur_thread 1 sched3 = Some (IdleT 1)"
  by (simp_all add: cur_thread_def sched3_def wakeup_def split_beta sched2_def spawn_thread_def
      sched1_sel Let_def sched_make_ready_def upd_tcb_def sched_queue_add_def PRIORITY_QUEUES_def)

lemma sched4_yield: "yield 0 SCHED_IDLE sched3 = Some sched4"
  using yield_inv [OF reachable_inv [OF sched3_reachable] _ sched3_cur(1), of SCHED_IDLE]
  by (auto simp: sched4_def)

lemma sched4_reachable: "sched_reachable ({0}, sched4)"
  using sched_step.Yield [of 0 "{}", OF _ sched4_yield] sched_reachable.step [OF sched3_reachable]
  by simp

lemma other_fields [simp]:
  "yield_counter (snd (bios_cancel_timer c s)) = yield_counter (s :: 'a sched_scheme)"
  "yield_counter (snd (cpu_disable_interrupts c s)) = yield_counter s"
  "yield_counter (cpu_enable_interrupts c s) = yield_counter s"
  "yield_counter (cpu_core_restart_one s) = yield_counter s"
  "yield_counter (snd (bios_set_timer c u s)) = yield_counter s"
  by (simp_all add: bios_cancel_timer_def bios_set_timer_def cpu_disable_interrupts_def Let_def split_beta
      cpu_enable_interrupts_def cpu_core_restart_one_def core_restart_def interrupt_core_def)

lemma select_loop_found:
  assumes "i < k" "SCHED s i = t # ts" "\<forall>j. i < j \<and> j < k \<longrightarrow> SCHED s j = []"
  shows "select_loop k s = (Some t, s\<lparr>SCHED := (SCHED s)(i := ts)\<rparr>)"
proof -
  from select_loop_spec [of k s] assms(1,2) obtain j u us where j: "j < k" "SCHED s j = u # us"
    "\<forall>m. j < m \<and> m < k \<longrightarrow> SCHED s m = []"
    "select_loop k s = (Some u, s\<lparr>SCHED := (SCHED s)(j := us)\<rparr>)"
    by (metis list.distinct(1))
  have "j = i" using j(1-3) assms by (metis linorder_neqE_nat list.distinct(1))
  with j(2,4) assms(2) show ?thesis by simp
qed

lemma yield_switches:
  assumes cur: "cur_thread c s = Some cur" "tcbs s cur = Some ct" "state ct = RUNNING"
    and plain: "TIMEOUT_LIST s = []" "yield_counter s + 1 < MAX_QUANTUMS"
    and q: "i < PRIORITY_QUEUES" "SCHED s i = t # ts" "\<forall>j. i < j \<and> j < PRIORITY_QUEUES \<longrightarrow> SCHED s j = []"
    and t: "tcbs s t = Some tt" "t \<noteq> cur"
  shows "\<exists>s'. yield c cause s = Some s' \<and>
    cctx s' = (cctx s)(c := \<lparr>current_thread = Some t, previous_thread = Some cur\<rparr>) \<and>
    SCHED s' = (SCHED s)(i := ts) \<and> TIMEOUT_LIST s' = [] \<and> yield_counter s' = yield_counter s + 1 \<and>
    tcbs s' = (tcbs s)(t \<mapsto> tt\<lparr>its := QUANTUM\<rparr>,
      cur \<mapsto> adjust_priority cause (ct\<lparr>state := READY, rts := fst (bios_cancel_timer c s),
        last_cause := curr_cause ct, curr_cause := cause\<rparr>))"
proof -
  let ?s1 = "snd (cpu_disable_interrupts c (snd (bios_cancel_timer c s)))"
  let ?ct = "ct\<lparr>state := READY, rts := fst (bios_cancel_timer c s),
        last_cause := curr_cause ct, curr_cause := cause\<rparr>"
  let ?s2 = "?s1\<lparr>yield_counter := Suc (yield_counter s), tcbs := (tcbs s)(cur \<mapsto> ?ct)\<rparr>"
  have a: "yield_account c cause cur (fst (bios_cancel_timer c s)) ?s1 = Some ?s2"
    using plain cur by (simp add: yield_account_def upd_tcb_def)
  have w: "sched_wakeup_expired_timeouts ?s2 = Some ?s2"
    unfolding sched_wakeup_expired_timeouts_def
    by (subst wakeup_expired_loop.simps) (simp add: plain)
  have sel: "select_loop PRIORITY_QUEUES ?s2 = (Some t, ?s2\<lparr>SCHED := (SCHED s)(i := ts)\<rparr>)"
    using q by (subst select_loop_found [of i]) auto
  have y: "yield c cause s = yield_select c cause cur
      (fst (cpu_disable_interrupts c (snd (bios_cancel_timer c s)))) ?s2"
    using cur(1) a w by (simp add: yield_def split_beta cur_thread_def)
  have s: "sched_queue_select c cur ?s2 = Some (t, ?s2\<lparr>SCHED := (SCHED s)(i := ts),
      tcbs := (tcbs s)(cur \<mapsto> ?ct, t \<mapsto> tt\<lparr>its := QUANTUM\<rparr>)\<rparr>)"
    using t by (simp add: sched_queue_select_def sel upd_tcb_def)
  show ?thesis
    using t cur(2) unfolding y
    by (simp add: yield_select_def s upd_tcb_def CCB_updates fun_upd_twist plain)
qed


text \<open>A second thread preempts the first one on core 0.\<close>

lemma gain_from_idle:
  assumes "cctx s c = \<lparr>current_thread = Some t, previous_thread = Some p\<rparr>" "t \<noteq> p"
    "tcbs s t = Some tc" "tcbs s p = Some pt" "state pt = READY" "ttype pt = IDLE_THREAD"
  shows "\<exists>s'. gain c s = Some s' \<and> cctx s' = cctx s \<and> SCHED s' = SCHED s \<and>
    TIMEOUT_LIST s' = TIMEOUT_LIST s \<and> yield_counter s' = yield_counter s \<and>
    tcbs s' = (tcbs s)(t \<mapsto> tc\<lparr>state := RUNNING, phase := CTX_DIRTY, rts := its tc\<rparr>,
      p \<mapsto> pt\<lparr>phase := CTX_CLEAN\<rparr>)"
  using assms by (simp add: gain_def cur_thread_def upd_tcb_def Let_def)

definition sched5 :: sched where
 "sched5 = snd (the (wakeup 0 (Thr 1) (snd (spawn_thread (Some 1) start_main_thread sched3))))"

lemma sched5_sel: 
  "cctx sched5 0 = \<lparr>current_thread = Some (IdleT 0), previous_thread = None\<rparr>"
  "SCHED sched5 2 = [Thr 0, Thr 1]" "SCHED sched5 3 = []" "SCHED sched5 4 = []" "TIMEOUT_LIST sched5 = []"
  "yield_counter sched5 = 0" "map_option state (tcbs sched5 (IdleT 0)) = Some RUNNING"
  "map_option ttype (tcbs sched5 (IdleT 0)) = Some IDLE_THREAD"
  "map_option ttype (tcbs sched5 (Thr 0)) = Some NORMAL_THREAD"
  "tcbs sched5 (Thr 1) \<noteq> None"
  by code_simp+
lemma sched5_reachable: "sched_reachable ({}, sched5)"
proof -
  let ?s = "snd (spawn_thread (Some 1) start_main_thread sched3)"
  have "sched_reachable ({}, ?s)"
    by (rule sched_reachable.step [OF sched3_reachable], rule sched_step.Spawn) (simp add: prod_eq_iff)
  moreover have "wakeup 0 (Thr 1) ?s \<noteq> None" by code_simp
  then obtain r where "wakeup 0 (Thr 1) ?s = Some (r, sched5)" by (auto simp: sched5_def)
  ultimately show ?thesis by (meson sched_reachable.step sched_step.Wakeup)
qed

lemma running_run:
  "\<exists>(s :: sched) tc t1. sched_reachable ({}, s) \<and> cur_thread 0 s = Some (Thr 0) \<and> tcbs s (Thr 0) = Some tc \<and>
    state tc = RUNNING \<and> ttype tc = NORMAL_THREAD \<and> TIMEOUT_LIST s = [] \<and> yield_counter s = 1 \<and>
    SCHED s 2 = [Thr 1] \<and> SCHED s 3 = [] \<and> SCHED s 4 = [] \<and> tcbs s (Thr 1) = Some t1"
proof -
  have q: "\<forall>j. 2 < j \<and> j < PRIORITY_QUEUES \<longrightarrow> SCHED sched5 j = []"
    using sched5_sel(3,4) by (auto simp: PRIORITY_QUEUES_def less_Suc_eq numeral_eq_Suc)
  obtain it tt t1 where t: "tcbs sched5 (IdleT 0) = Some it" "state it = RUNNING" "ttype it = IDLE_THREAD"
    "tcbs sched5 (Thr 0) = Some tt" "ttype tt = NORMAL_THREAD" "tcbs sched5 (Thr 1) = Some t1"
    using sched5_sel(7-10) by auto
  obtain s6 where y6: "yield 0 SCHED_IDLE sched5 = Some s6" and
    s6: "cctx s6 0 = \<lparr>current_thread = Some (Thr 0), previous_thread = Some (IdleT 0)\<rparr>"
    "SCHED s6 = (SCHED sched5)(2 := [Thr 1])" "TIMEOUT_LIST s6 = []" "yield_counter s6 = 1"
    and T6: "tcbs s6 (IdleT 0) = Some (adjust_priority SCHED_IDLE (it\<lparr>state := READY,
        rts := fst (bios_cancel_timer 0 sched5), last_cause := curr_cause it, curr_cause := SCHED_IDLE\<rparr>))"
      "tcbs s6 (Thr 0) = Some (tt\<lparr>its := QUANTUM\<rparr>)" "tcbs s6 (Thr 1) = Some t1"
    using yield_switches [of 0 sched5 "IdleT 0" it 2 "Thr 0" "[Thr 1]" tt SCHED_IDLE] t sched5_sel q
    by (auto simp: cur_thread_def MAX_QUANTUMS_def PRIORITY_QUEUES_def)
  have r6: "sched_reachable ({0}, s6)"
    using sched_reachable.step [OF sched5_reachable sched_step.Yield [OF _ y6]] by simp
  obtain s7 tc where g7: "gain 0 s6 = Some s7" and s7: "cctx s7 = cctx s6" "SCHED s7 = SCHED s6"
    "TIMEOUT_LIST s7 = []" "yield_counter s7 = 1" "tcbs s7 (Thr 0) = Some tc" "state tc = RUNNING"
    "ttype tc = NORMAL_THREAD" "tcbs s7 (Thr 1) = Some t1"
    using gain_from_idle [OF s6(1) _ T6(2,1)] s6 T6 t by (auto simp: adjust_priority_keeps)
  have r7: "sched_reachable ({}, s7)"
    using sched_reachable.step [OF r6 sched_step.Gain [OF _ g7]] by simp
  have "cur_thread 0 s7 = Some (Thr 0)" using s6(1) s7(1) by (simp add: cur_thread_def)
  with r7 s7 s6(2) sched5_sel(3,4) show ?thesis by (intro exI [of _ s7] exI [of _ tc] exI [of _ t1]) simp
qed

lemma preempted_run:
  "\<exists>(s :: sched) pt. sched_reachable ({0}, s) \<and>
    cctx s 0 = \<lparr>current_thread = Some (Thr 1), previous_thread = Some (Thr 0)\<rparr> \<and>
    tcbs s (Thr 0) = Some pt \<and> state pt = READY \<and> ttype pt = NORMAL_THREAD"
proof -
  obtain s7 :: sched and tc t1 where r7: "sched_reachable ({}, s7)" and s7: "cur_thread 0 s7 = Some (Thr 0)"
    "tcbs s7 (Thr 0) = Some tc" "state tc = RUNNING" "ttype tc = NORMAL_THREAD" "TIMEOUT_LIST s7 = []"
    "yield_counter s7 = 1" "SCHED s7 2 = [Thr 1]" "SCHED s7 3 = []" "SCHED s7 4 = []"
    "tcbs s7 (Thr 1) = Some t1"
    using running_run by blast
  have q: "\<forall>j. 2 < j \<and> j < PRIORITY_QUEUES \<longrightarrow> SCHED s7 j = []"
    using s7 by (auto simp: PRIORITY_QUEUES_def less_Suc_eq numeral_eq_Suc)
  obtain s8 where y8: "yield 0 SCHED_QUANTUM s7 = Some s8" and
    "cctx s8 0 = \<lparr>current_thread = Some (Thr 1), previous_thread = Some (Thr 0)\<rparr>"
    "tcbs s8 (Thr 0) = Some (adjust_priority SCHED_QUANTUM (tc\<lparr>state := READY,
        rts := fst (bios_cancel_timer 0 s7), last_cause := curr_cause tc, curr_cause := SCHED_QUANTUM\<rparr>))"
    using yield_switches [of 0 s7 "Thr 0" tc 2 "Thr 1" "[]" t1 SCHED_QUANTUM] s7 q
    by (auto simp: cur_thread_def MAX_QUANTUMS_def PRIORITY_QUEUES_def)
  moreover have "state (adjust_priority SCHED_QUANTUM (tc\<lparr>state := READY, rts := r, last_cause := l,
      curr_cause := k\<rparr>)) = READY" "ttype (adjust_priority SCHED_QUANTUM (tc\<lparr>state := READY, rts := r,
      last_cause := l, curr_cause := k\<rparr>)) = NORMAL_THREAD" for r l k
    using s7(4) by (simp_all add: adjust_priority_keeps)
  moreover have "sched_reachable ({0}, s8)"
    using sched_reachable.step [OF r7 sched_step.Yield [OF _ y8]] by simp
  ultimately show ?thesis by blast
qed

section \<open>Properties of the scheduler\<close>

text \<open>
  C12. In every reachable state of the multi-core scheduler no thread is the current thread
  of two cores, whether the cores are running or in the middle of a context switch.
\<close>

theorem cores_exclusive:
  assumes "sched_reachable (sw, s)" "c \<noteq> d" "cur_thread c s = Some t"
  shows "cur_thread d s \<noteq> Some t"
proof
  assume d: "cur_thread d s = Some t"
  have inv: "sched_inv sw s" using assms(1) by (rule reachable_inv)
  have user: "holder sw s b = Some t \<or> incoming sw s b = Some t" if "cur_thread b s = Some t" for b
    using that by (auto simp: holder_def incoming_def cur_thread_def)
  have "\<not> (holder sw s a = Some t \<and> incoming sw s b = Some t)" for a b
    using inv_holder_dirty [OF inv, of a t] inv_incoming [OF inv, of b t] by auto
  then show False
    using user [OF assms(3)] user [OF d] inv \<open>c \<noteq> d\<close>
    unfolding sched_inv_def h_ok_def n_ok_def by metis
qed

theorem cores_exclusive_witness:
  "cur_thread 0 sched3 = Some (IdleT 0) \<and> cur_thread 1 sched3 \<noteq> Some (IdleT 0)"
  using cores_exclusive [OF sched3_reachable _ sched3_cur(1), of 1] sched3_cur by simp

text \<open>
  C13. The queue invariant of \<^verbatim>\<open>kernel_sched.h\<close>: in every reachable state the queue of
  priority \<open>i\<close> holds, once each, exactly the normal threads of priority \<open>i\<close> that are ready
  with a clean context, except one that a core has taken out and is switching to.
\<close>

theorem queues_exact:
  assumes "sched_reachable (sw, s)"
  shows "distinct (SCHED s i) \<and>
    (t \<in> set (SCHED s i) \<longleftrightarrow>
      (\<exists>tc. tcbs s t = Some tc \<and> ttype tc = NORMAL_THREAD \<and> state tc = READY \<and>
         phase tc = CTX_CLEAN \<and> priority tc = i) \<and> (\<forall>c. incoming sw s c \<noteq> Some t))"
  using reachable_inv [OF assms] inv_queued [OF reachable_inv [OF assms], of t i]
  by (simp add: sched_inv_def q_ok_def)

theorem queues_exact_witness: "distinct (SCHED sched3 2) \<and> Thr 0 \<in> set (SCHED sched3 2)"
proof -
  have "tcbs sched3 (Thr 0) \<noteq> None" "state (the (tcbs sched3 (Thr 0))) = READY"
    "ttype (the (tcbs sched3 (Thr 0))) = NORMAL_THREAD" "phase (the (tcbs sched3 (Thr 0))) = CTX_CLEAN"
    "priority (the (tcbs sched3 (Thr 0))) = 2"
    by (simp_all add: sched3_def wakeup_def split_beta sched2_def spawn_thread_def
      sched1_sel Let_def sched_make_ready_def upd_tcb_def sched_queue_add_def PRIORITY_QUEUES_def)
  then show ?thesis
    using queues_exact [OF sched3_reachable, of 2 "Thr 0"] by (auto simp: incoming_def)
qed

lemma gain_running:
  assumes "gain c s = Some s'"
  shows "\<exists>t tc. cur_thread c s' = Some t \<and> tcbs s' t = Some tc \<and> state tc = RUNNING \<and> phase tc = CTX_DIRTY"
  using assms
  by (auto simp: gain_def upd_tcb_def cur_thread_def Let_def sched_queue_add_def release_TCB_def
      split: if_splits Thread_state.splits)

text \<open>
  C14. A context switch never fails: on a core that runs a thread, \<^verbatim>\<open>yield\<close> reaches the
  switch without violating an assertion or following a bad pointer, and the \<^verbatim>\<open>gain\<close> after
  it leaves the core with a current thread that is running with a dirty context.
\<close>

theorem context_switch_total:
  assumes "sched_reachable (sw, s)" "c \<notin> sw" "cur_thread c s = Some t"
  shows "\<exists>s1 s2. yield c cause s = Some s1 \<and> gain c s1 = Some s2 \<and>
    sched_reachable (insert c sw, s1) \<and> sched_reachable (sw, s2) \<and>
    (\<exists>t' tc. cur_thread c s2 = Some t' \<and> tcbs s2 t' = Some tc \<and> state tc = RUNNING \<and>
       phase tc = CTX_DIRTY)"
proof -
  obtain s1 where y: "yield c cause s = Some s1" and inv1: "sched_inv (insert c sw) s1"
    using yield_inv [OF reachable_inv [OF assms(1)] assms(2,3), of cause] by blast
  obtain s2 where g: "gain c s1 = Some s2" using gain_inv [OF inv1, of c] by blast
  have r1: "sched_reachable (insert c sw, s1)"
    using assms(1) sched_step.Yield [OF assms(2) y] by (rule sched_reachable.step)
  have "sched_reachable (insert c sw - {c}, s2)"
    using r1 sched_step.Gain [OF _ g, of "insert c sw"] by (auto intro: sched_reachable.step)
  then have "sched_reachable (sw, s2)" using assms(2) by simp
  with y g r1 gain_running [OF g] show ?thesis by blast
qed

theorem context_switch_total_witness:
  "\<exists>s1 s2. yield 0 SCHED_QUANTUM sched3 = Some s1 \<and> gain 0 s1 = Some s2"
  using context_switch_total [OF sched3_reachable _ sched3_cur(1), of SCHED_QUANTUM] by blast

text \<open>
  A thread that left its core while it was ready (because it was preempted, or was
  woken up after it went to sleep and before the switch) is put back into the queue of its
  priority by \<^verbatim>\<open>gain\<close>: no wakeup is lost in the window of the context switch.
\<close>

theorem gain_requeues:
  assumes "sched_reachable (sw, s)" "c \<in> sw" "gain c s = Some s'"
    "previous_thread (cctx s c) = Some p" "cur_thread c s \<noteq> Some p"
    "tcbs s p = Some pt" "state pt = READY" "ttype pt = NORMAL_THREAD"
  shows "p \<in> set (SCHED s' (priority pt))"
proof -
  have "priority pt < PRIORITY_QUEUES"
    using inv_priority [OF reachable_inv [OF assms(1)] assms(6)] .
  then show ?thesis using assms(3-8)
    by (auto simp: gain_def upd_tcb_def cur_thread_def Let_def sched_queue_add_def split: if_splits)
qed

theorem gain_requeues_witness:
  "\<exists>(s :: sched) s' pt. gain 0 s = Some s' \<and> tcbs s (Thr 0) = Some pt \<and> Thr 0 \<in> set (SCHED s' (priority pt))"
proof -
  obtain s :: sched and pt where s: "sched_reachable ({0}, s)"
    "cctx s 0 = \<lparr>current_thread = Some (Thr 1), previous_thread = Some (Thr 0)\<rparr>"
    "tcbs s (Thr 0) = Some pt" "state pt = READY" "ttype pt = NORMAL_THREAD"
    using preempted_run by blast
  obtain s' where "gain 0 s = Some s'" using gain_inv [OF reachable_inv [OF s(1)], of 0] by blast
  moreover from this have "Thr 0 \<in> set (SCHED s' (priority pt))"
    using gain_requeues [of "{0}" s 0 s' "Thr 0" pt] s by (simp add: cur_thread_def)
  ultimately show ?thesis using s(3) by blast
qed

text \<open>
  What \<^verbatim>\<open>yield\<close> does when it preempts: the core takes the first thread of the highest
  non-empty queue, the thread it leaves becomes ready with its remaining time and the cause
  recorded and its priority adjusted for the cause, and nothing else changes.  (The other
  two things a \<^verbatim>\<open>yield\<close> may do, aging and waking up timeouts, are not due here.)
\<close>

theorem yield_preempts:
  assumes cur: "cur_thread c s = Some cur" "tcbs s cur = Some ct" "state ct = RUNNING"
    and plain: "TIMEOUT_LIST s = []" "yield_counter s + 1 < MAX_QUANTUMS"
    and q: "i < PRIORITY_QUEUES" "SCHED s i = t # ts" "\<forall>j. i < j \<and> j < PRIORITY_QUEUES \<longrightarrow> SCHED s j = []"
    and t: "tcbs s t = Some tt" "t \<noteq> cur"
  shows "\<exists>s'. yield c cause s = Some s' \<and>
    cctx s' = (cctx s)(c := \<lparr>current_thread = Some t, previous_thread = Some cur\<rparr>) \<and>
    SCHED s' = (SCHED s)(i := ts) \<and> TIMEOUT_LIST s' = [] \<and> yield_counter s' = yield_counter s + 1 \<and>
    tcbs s' = (tcbs s)(t \<mapsto> tt\<lparr>its := QUANTUM\<rparr>,
      cur \<mapsto> adjust_priority cause (ct\<lparr>state := READY, rts := fst (bios_cancel_timer c s),
        last_cause := curr_cause ct, curr_cause := cause\<rparr>))"
  using assms by (rule yield_switches)

theorem yield_preempts_witness:
  "\<exists>s'. yield 0 SCHED_IO sched5 = Some s' \<and> SCHED s' 2 = [Thr 1]"
proof -
  have q: "\<forall>j. 2 < j \<and> j < PRIORITY_QUEUES \<longrightarrow> SCHED sched5 j = []"
    using sched5_sel(3,4) by (auto simp: PRIORITY_QUEUES_def less_Suc_eq numeral_eq_Suc)
  obtain it tt where t: "tcbs sched5 (IdleT 0) = Some it" "state it = RUNNING"
    "tcbs sched5 (Thr 0) = Some tt" using sched5_sel(7-10) by auto
  obtain s' where "yield 0 SCHED_IO sched5 = Some s'" "SCHED s' = (SCHED sched5)(2 := [Thr 1])"
    using yield_preempts [of 0 sched5 "IdleT 0" it 2 "Thr 0" "[Thr 1]" tt SCHED_IO] sched5_sel q t
    by (auto simp: cur_thread_def MAX_QUANTUMS_def PRIORITY_QUEUES_def)
  then show ?thesis by simp
qed

text \<open>
  C15. In every reachable state the timeout list is sorted and holds exactly the sleeping
  threads with a timeout, and \<^verbatim>\<open>sched_wakeup_expired_timeouts\<close> ends, makes exactly the threads
  ready whose time has come, leaves the others as they were, and keeps the rest of the list.
\<close>

theorem expired_timeouts_woken:
  assumes "sched_reachable (sw, s)"
  shows "sorted (map (wk (tcbs s)) (TIMEOUT_LIST s)) \<and> distinct (TIMEOUT_LIST s) \<and>
    (\<forall>t. t \<in> set (TIMEOUT_LIST s) \<longleftrightarrow>
       (\<exists>tc. tcbs s t = Some tc \<and> state tc = STOPPED \<and> wakeup_time tc \<noteq> NO_TIMEOUT)) \<and>
    (\<exists>s'. sched_wakeup_expired_timeouts s = Some s' \<and>
       tcbs s' = map_option (expire (bios_clock s)) \<circ> tcbs s \<and>
       TIMEOUT_LIST s' = dropWhile (\<lambda>t. wk (tcbs s) t \<le> bios_clock s) (TIMEOUT_LIST s))"
proof -
  have inv: "sched_inv sw s" using assms by (rule reachable_inv)
  then have "sorted (map (wk (tcbs s)) (TIMEOUT_LIST s))" "distinct (TIMEOUT_LIST s)"
    by (simp_all add: sched_inv_def t_ok_def)
  moreover have "t \<in> set (TIMEOUT_LIST s) \<longleftrightarrow>
       (\<exists>tc. tcbs s t = Some tc \<and> state tc = STOPPED \<and> wakeup_time tc \<noteq> NO_TIMEOUT)" for t
    using inv_timeout [OF inv, of t] inv_timed_stopped [OF inv, of t] by blast
  moreover have "\<exists>s'. sched_wakeup_expired_timeouts s = Some s' \<and>
       tcbs s' = map_option (expire (bios_clock s)) \<circ> tcbs s \<and>
       TIMEOUT_LIST s' = dropWhile (\<lambda>t. wk (tcbs s) t \<le> bios_clock s) (TIMEOUT_LIST s)"
    using wakeup_expired_loop_inv [OF inv] unfolding sched_wakeup_expired_timeouts_def by blast
  ultimately show ?thesis by blast
qed

text \<open>A thread sleeps for 10 microseconds, and the clock then shows a time past its timeout.\<close>

lemma timed_sleep_run:
  "\<exists>(s :: sched) tc. sched_reachable ({}, s) \<and> tcbs s (Thr 0) = Some tc \<and> state tc = STOPPED \<and>
     wakeup_time tc = 10 \<and> TIMEOUT_LIST s = [Thr 0] \<and> bios_clock s = 20"
proof -
  from running_run obtain s :: sched and tc where r: "sched_reachable ({}, s)" "cur_thread 0 s = Some (Thr 0)"
    "tcbs s (Thr 0) = Some tc" "state tc = RUNNING" "TIMEOUT_LIST s = []" by auto
  let ?s = "s\<lparr>clock := 0\<rparr>"
  have r0: "sched_reachable ({}, ?s)"
    by (rule sched_reachable.step [OF r(1)], rule sched_step.Env) (simp add: same_sched_def)
  have cur: "cur_thread 0 ?s = Some (Thr 0)" using r(2) by (simp add: cur_thread_def)
  have clk: "bios_clock (snd (cpu_disable_interrupts 0 ?s)) = 0"
    by (simp add: bios_clock_def cpu_disable_interrupts_def)
  obtain s1 where s1: "sleep_section 0 STOPPED None 10 ?s = Some s1" "TIMEOUT_LIST s1 = [Thr 0]"
    "tcbs s1 (Thr 0) = Some (tc\<lparr>state := STOPPED, wakeup_time := 10\<rparr>)"
    using r(3,5) cur clk
    by (auto simp: sleep_section_def split_beta cur_thread_def c_assert_def upd_tcb_def sched_register_timeout_def
        NO_TIMEOUT_def bios_clock_def)
  have "sched_reachable ({}, s1)"
    using r(3,4) cur by (intro sched_reachable.step [OF r0 sched_step.Sleep [OF _ _ _ _ _ s1(1)]])
      (simp_all add: bios_clock_def NO_TIMEOUT_def)
  then have "sched_reachable ({}, s1\<lparr>clock := 20\<rparr>)"
    by (rule sched_reachable.step) (rule sched_step.Env, simp add: same_sched_def)
  then show ?thesis using s1(2,3)
    by (intro exI [of _ "s1\<lparr>clock := 20\<rparr>"] exI [of _ "tc\<lparr>state := STOPPED, wakeup_time := 10\<rparr>"]) (simp add: bios_clock_def)
qed

theorem expired_timeouts_woken_witness:
  "\<exists>(s :: sched) tc s' tc'. sched_reachable ({}, s) \<and> TIMEOUT_LIST s = [Thr 0] \<and> tcbs s (Thr 0) = Some tc \<and> state tc = STOPPED \<and>
     sched_wakeup_expired_timeouts s = Some s' \<and> TIMEOUT_LIST s' = [] \<and> tcbs s' (Thr 0) = Some tc' \<and> state tc' = READY"
proof -
  obtain s :: sched and tc where s: "sched_reachable ({}, s)" "tcbs s (Thr 0) = Some tc" "state tc = STOPPED"
    "wakeup_time tc = 10" "TIMEOUT_LIST s = [Thr 0]" "bios_clock s = 20" using timed_sleep_run by blast
  obtain s' where s': "sched_wakeup_expired_timeouts s = Some s'" "tcbs s' = map_option (expire (bios_clock s)) \<circ> tcbs s"
    "TIMEOUT_LIST s' = dropWhile (\<lambda>t. wk (tcbs s) t \<le> bios_clock s) (TIMEOUT_LIST s)"
    using expired_timeouts_woken [OF s(1)] by blast
  have "TIMEOUT_LIST s' = []" "tcbs s' (Thr 0) = Some (tc\<lparr>wakeup_time := NO_TIMEOUT, state := READY\<rparr>)"
    using s s'(2,3) by (simp_all add: wk_def expire_def NO_TIMEOUT_def)
  with s s'(1) show ?thesis by (intro exI [of _ s] exI [of _ tc] exI [of _ s']
        exI [of _ "tc\<lparr>wakeup_time := NO_TIMEOUT, state := READY\<rparr>"]) simp
qed

text \<open>
  In every reachable state \<^verbatim>\<open>active_threads\<close> is the number of threads that exist (modulo
  \<open>2 ^ 32\<close>), so that the idle loops end exactly when the last thread has been released.
\<close>

theorem active_threads_counts:
  assumes "sched_reachable (sw, s)" "card {n. tcbs s (Thr n) \<noteq> None} < 2 ^ 32"
  shows "finite {n. tcbs s (Thr n) \<noteq> None} \<and>
    unat (active_threads s) = card {n. tcbs s (Thr n) \<noteq> None} \<and>
    (idle_continues s \<longleftrightarrow> (\<exists>n. tcbs s (Thr n) \<noteq> None))"
proof -
  have inv: "sched_inv sw s" using assms(1) by (rule reachable_inv)
  then have fin: "finite {n. tcbs s (Thr n) \<noteq> None}" by (simp add: sched_inv_def c_ok_def)
  have cnt: "unat (active_threads s) = card {n. tcbs s (Thr n) \<noteq> None}"
    using inv assms(2) by (simp add: sched_inv_def c_ok_def unat_of_nat)
  have "active_threads s > 0 \<longleftrightarrow> unat (active_threads s) \<noteq> 0"
    by (simp add: unat_eq_zero word_greater_zero_iff)
  moreover have "card {n. tcbs s (Thr n) \<noteq> None} = 0 \<longleftrightarrow> (\<forall>n. tcbs s (Thr n) = None)"
    unfolding card_0_eq [OF fin] by auto
  ultimately have "idle_continues s \<longleftrightarrow> (\<exists>n. tcbs s (Thr n) \<noteq> None)"
    unfolding idle_continues_def cnt by metis
  with fin cnt show ?thesis by blast
qed

theorem active_threads_counts_witness: "\<not> idle_continues sched1"
proof -
  have none: "tcbs sched1 (Thr n) = None" for n
    by (simp add: sched1_def run_scheduler_def sched0_sel Let_def cpu_interrupt_handler_def)
  show ?thesis using active_threads_counts [OF sched1_reachable] by (simp add: none)
qed

text \<open>The queues and the threads after the loop of \<^verbatim>\<open>aging\<close> over the queues below \<open>k\<close>.\<close>

definition aged_queue :: "nat \<Rightarrow> (nat \<Rightarrow> 'a list) \<Rightarrow> nat \<Rightarrow> 'a list" where
  "aged_queue k Q i = (if i < k then drop 1 (Q i) else Q i) @
     (if 0 < i \<and> i \<le> k then take 1 (Q (i - 1)) else [])"

definition aged_tcbs :: "nat \<Rightarrow> (nat \<Rightarrow> tcb_ref list) \<Rightarrow> (tcb_ref \<rightharpoonup> TCB) \<Rightarrow> tcb_ref \<rightharpoonup> TCB" where
  "aged_tcbs k Q T t = (if \<exists>i < k. take 1 (Q i) = [t]
     then map_option (\<lambda>tc. tc\<lparr>priority := priority tc + 1\<rparr>) (T t) else T t)"

lemma aging_loop_spec:
  assumes "sched_inv sw s" "k < PRIORITY_QUEUES"
  shows "\<exists>s'. aging_loop k s = Some s' \<and> SCHED s' = aged_queue k (SCHED s) \<and>
    tcbs s' = aged_tcbs k (SCHED s) (tcbs s)"
  using assms
proof (induction k arbitrary: s)
  case 0
  then show ?case by (simp add: fun_eq_iff aged_queue_def aged_tcbs_def)
next
  case (Suc k)
  then have k: "k < PRIORITY_QUEUES" by simp
  show ?case
  proof (cases "SCHED s k")
    case Nil
    then have "aged_queue (Suc k) (SCHED s) = aged_queue k (SCHED s)"
      "aged_tcbs (Suc k) (SCHED s) (tcbs s) = aged_tcbs k (SCHED s) (tcbs s)"
      by (auto simp: fun_eq_iff aged_queue_def aged_tcbs_def less_Suc_eq le_Suc_eq)
    with Suc.IH [OF Suc.prems(1) k] Nil show ?thesis by simp
  next
    case (Cons t ts)
    then obtain tc where t: "tcbs s t = Some tc"
      using inv_queued [OF Suc.prems(1), of t k] by auto
    let ?s = "s\<lparr>tcbs := (tcbs s)(t \<mapsto> tc\<lparr>priority := Suc (priority tc)\<rparr>),
      SCHED := (SCHED s)(k := ts, Suc k := SCHED s (Suc k) @ [t])\<rparr>"
    have inv: "sched_inv sw ?s" by (rule aging_one_inv [OF Suc.prems(1) Cons Suc.prems(2) t])
    have other: "take 1 (SCHED s i) \<noteq> [t]" if "i < k" for i
      using inv_queued [OF Suc.prems(1), of t i] inv_queued [OF Suc.prems(1), of t k] Cons that
      by (cases "SCHED s i") auto
    have "aging_loop (Suc k) s = aging_loop k ?s" using Cons t by (simp add: upd_tcb_def)
    moreover have "aged_queue k (SCHED ?s) = aged_queue (Suc k) (SCHED s)"
      using Cons by (auto simp: fun_eq_iff aged_queue_def less_Suc_eq le_Suc_eq)
    moreover have "aged_tcbs k (SCHED ?s) (tcbs ?s) = aged_tcbs (Suc k) (SCHED s) (tcbs s)"
      using Cons other t by (auto simp: fun_eq_iff aged_tcbs_def less_Suc_eq)
    ultimately show ?thesis using Suc.IH [OF inv k] by (simp only:)
  qed
qed

text \<open>
  Aging moves the first thread of every queue below the top one to the end of the next
  higher queue, with its priority raised by one, and changes no other thread.
\<close>

theorem aging_promotes:
  assumes "sched_reachable (sw, s)"
  shows "\<exists>s'. aging s = Some s' \<and>
    (\<forall>i < PRIORITY_QUEUES. SCHED s' i =
       (if i < PRIORITY_QUEUES - 1 then drop 1 (SCHED s i) else SCHED s i) @
       (if 0 < i then take 1 (SCHED s (i - 1)) else [])) \<and>
    (\<forall>t. tcbs s' t = (if \<exists>i < PRIORITY_QUEUES - 1. take 1 (SCHED s i) = [t]
       then map_option (\<lambda>tc. tc\<lparr>priority := priority tc + 1\<rparr>) (tcbs s t) else tcbs s t))"
proof -
  have "PRIORITY_QUEUES - 1 < PRIORITY_QUEUES" by (simp add: PRIORITY_QUEUES_def)
  from aging_loop_spec [OF reachable_inv [OF assms] this] obtain s' where
    "aging s = Some s'" "SCHED s' = aged_queue (PRIORITY_QUEUES - 1) (SCHED s)"
    "tcbs s' = aged_tcbs (PRIORITY_QUEUES - 1) (SCHED s) (tcbs s)"
    unfolding aging_def by blast
  moreover have "i \<le> PRIORITY_QUEUES - 1" if "i < PRIORITY_QUEUES" for i using that by simp
  ultimately show ?thesis by (simp add: aged_queue_def aged_tcbs_def)
qed

theorem aging_promotes_witness: "\<exists>s'. aging sched5 = Some s' \<and> SCHED s' 3 = [Thr 0]"
proof -
  obtain s' where s': "aging sched5 = Some s'" "\<forall>i < PRIORITY_QUEUES. SCHED s' i =
       (if i < PRIORITY_QUEUES - 1 then drop 1 (SCHED sched5 i) else SCHED sched5 i) @
       (if 0 < i then take 1 (SCHED sched5 (i - 1)) else [])"
    using aging_promotes [OF sched5_reachable] by blast
  from s'(2) [rule_format, of 3] have "SCHED s' 3 = [Thr 0]"
    using sched5_sel(2,3) by (simp add: PRIORITY_QUEUES_def)
  with s'(1) show ?thesis by blast
qed

end
