(* ===== verification/Kernel_Lock.thy ===== *)
theory Kernel_Lock
  imports CC Sched_Safety
begin

text \<open>
  The kernel lock as a multi-threaded protocol.  Every thread is outside the kernel, inside
  it, waiting for the kernel semaphore, or waiting inside a \<^verbatim>\<open>kernel_wait\<close>; the steps are the
  sections of \<^verbatim>\<open>kernel_lock\<close>, \<^verbatim>\<open>kernel_unlock\<close>, \<^verbatim>\<open>kernel_wait_wchan\<close> and \<^verbatim>\<open>kernel_sleep\<close>.
  The invariant gives mutual exclusion and the absence of lost wakeups.
\<close>

section \<open>Sections of a running thread\<close>

definition running_on :: "nat set \<Rightarrow> nat \<Rightarrow> nat \<Rightarrow> 'a sched_scheme \<Rightarrow> bool" where
  "running_on sw c n s \<longleftrightarrow> c \<notin> sw \<and> cur_thread c s = Some (Thr n) \<and>
     (\<exists>tc. tcbs s (Thr n) = Some tc \<and> state tc = RUNNING)"

lemma running_not_asleep: "running_on sw c n s \<Longrightarrow> \<not> asleep s (Thr n)"
  by (auto simp: running_on_def asleep_def)

text \<open>What every section of the protocol does to the rest of the system.\<close>

definition waits_ok :: "nat set \<Rightarrow> 'a cc_scheme \<Rightarrow> bool" where
  "waits_ok sw s \<longleftrightarrow> sched_inv sw s \<and>
     (\<forall>cv. distinct (waitset s cv) \<and> (\<forall>t \<in> set (waitset s cv). tcbs s t \<noteq> None \<and>
        \<not> removed (waiter s t) \<and> \<not> signalled (waiter s t))) \<and>
     (\<forall>cv cv' t. t \<in> set (waitset s cv) \<longrightarrow> t \<in> set (waitset s cv') \<longrightarrow> cv = cv')"

lemma sleep_section_effect:
  assumes "sleep_section c st mx timeout s = Some s'" "cur_thread c s = Some t"
  shows "tcbs s t \<noteq> None \<and> (\<forall>u. u \<noteq> t \<longrightarrow> tcbs s' u = tcbs s u) \<and>
    (\<exists>tc. tcbs s' t = Some tc \<and> state tc = st) \<and> sched.more s' = sched.more s \<and> cctx s' = cctx s"
proof -
  have more [simp]: "sched.more (snd (cpu_disable_interrupts c s)) = sched.more s"
    by (simp add: cpu_disable_interrupts_def)
  have m [simp]: "sched.more (Mutex_Unlock m x) = sched.more x" for m and x :: "'a sched_scheme"
    by (simp add: Mutex_Unlock_def)
  show ?thesis
    using assms
    by (auto simp: sleep_section_def split_beta cur_thread_def upd_tcb_def sched_register_timeout_def
        Let_def split: if_splits option.splits)
qed

lemma Mutex_Lock_SomeD:
  "Mutex_Lock m s = Some s' \<Longrightarrow> s' = s\<lparr>mutexes := (mutexes s)(m := True)\<rparr>"
  by (simp add: Mutex_Lock_def split: if_splits)

lemma waits_ok_cong:
  fixes s s' :: "'a cc_scheme"
  assumes "tcbs s' = tcbs s" "SCHED s' = SCHED s" "TIMEOUT_LIST s' = TIMEOUT_LIST s" "cctx s' = cctx s"
    "active_threads s' = active_threads s" "next_tcb s' = next_tcb s" "waitset s' = waitset s"
    "waiter s' = waiter s"
  shows "waits_ok sw s' \<longleftrightarrow> waits_ok sw s"
  using sched_inv_cong [OF assms(1-6)] assms(1,7,8) by (simp add: waits_ok_def)

lemma cv_wait_section_effect:
  assumes ok: "waits_ok sw s" and run: "running_on sw c n s"
    and not_waiting: "\<And>cv. Thr n \<notin> set (waitset s cv)"
    and to: "timeout = NO_TIMEOUT \<or> bios_clock s + timeout \<noteq> NO_TIMEOUT"
    and eq: "cv_wait_section c mx cv timeout s = Some s'"
  shows "waits_ok sw s' \<and> waitset s' = (waitset s)(cv := waitset s cv @ [Thr n]) \<and>
    kernel_sem s' = kernel_sem s \<and> asleep s' = (asleep s)(Thr n := True) \<and> cctx s' = cctx s"
proof -
  obtain tc where r: "c \<notin> sw" "cur_thread c s = Some (Thr n)" "tcbs s (Thr n) = Some tc"
    "state tc = RUNNING" using run by (auto simp: running_on_def)
  let ?s4 = "Mutex_Unlock mx (s\<lparr>waiter := (waiter s)(Thr n := \<lparr>signalled = False, removed = False\<rparr>),
     mutexes := (mutexes s)(waitset_lock cv := True),
     waitset := (waitset s)(cv := waitset s cv @ [Thr n])\<rparr>)"
  have s': "sleep_section c STOPPED (Some (waitset_lock cv)) timeout ?s4 = Some s'"
    using eq r by (auto simp: cv_wait_section_def Let_def dest!: Mutex_Lock_SomeD)
  have inv: "sched_inv sw s" using ok by (simp add: waits_ok_def)
  have f4: "tcbs ?s4 = tcbs s" "cctx ?s4 = cctx s" "clock ?s4 = clock s"
    "waitset ?s4 = (waitset s)(cv := waitset s cv @ [Thr n])" "kernel_sem ?s4 = kernel_sem s"
    "waiter ?s4 = (waiter s)(Thr n := \<lparr>signalled = False, removed = False\<rparr>)"
    by (simp_all add: Mutex_Unlock_def)
  have inv4: "sched_inv sw ?s4" using inv by (subst sched_inv_cong [of _ s]) (simp_all add: Mutex_Unlock_def)
  have c4: "cur_thread c ?s4 = Some (Thr n)" using r by (simp add: cur_thread_def f4)
  have inv': "sched_inv sw s'"
    using sleep_section_inv [OF inv4 r(1) c4, of tc STOPPED timeout "Some (waitset_lock cv)"] r to s' f4
    by (simp add: bios_clock_def)
  from sleep_section_effect [OF s' c4] obtain tc' where
    T: "\<And>u. u \<noteq> Thr n \<Longrightarrow> tcbs s' u = tcbs s u" "tcbs s' (Thr n) = Some tc'" "state tc' = STOPPED" and m: "sched.more s' = sched.more ?s4"
    and cc: "cctx s' = cctx s" unfolding f4 by blast
  note m' = more_cc [OF m]
  have "tcbs s' u \<noteq> None" if "u \<in> set (waitset s' cv')" for u cv'
    using that ok T by (cases "u = Thr n") (auto simp: waits_ok_def m' f4 split: if_splits)
  then have "waits_ok sw s'"
    using ok inv' not_waiting by (auto simp: waits_ok_def m' f4)
  moreover have "asleep s' = (asleep s)(Thr n := True)"
    using T by (auto simp: fun_eq_iff asleep_def)
  ultimately show ?thesis using m' f4 cc by simp
qed

lemma Cond_Signal_effect:
  assumes ok: "waits_ok sw s" and eq: "Cond_Signal c cv s = Some s'"
  shows "waits_ok sw s' \<and> kernel_sem s' = kernel_sem s \<and> cctx s' = cctx s \<and>
    waitset s' = (waitset s)(cv := drop 1 (dropWhile (\<lambda>t. \<not> asleep s t) (waitset s cv))) \<and>
    asleep s' = (\<lambda>t. asleep s t \<and> find (asleep s) (waitset s cv) \<noteq> Some t) \<and>
    (\<forall>t. \<not> asleep s t \<longrightarrow> tcbs s' t = tcbs s t) \<and> clock s' = clock s"
proof -
  let ?s1 = "s\<lparr>mutexes := (mutexes s)(waitset_lock cv := True)\<rparr>" and ?ws = "waitset s cv"
  have inv1: "sched_inv sw ?s1" using ok by (subst sched_inv_cong [of _ s]) (auto simp: waits_ok_def)
  have a1: "asleep ?s1 = asleep s" by (simp add: fun_eq_iff asleep_def)
  have d: "distinct ?ws" "\<forall>t \<in> set ?ws. tcbs ?s1 t \<noteq> None" "waitset ?s1 cv = ?ws"
    using ok by (auto simp: waits_ok_def)
  obtain s2 where s2: "cv_signal c cv ?s1 = Some s2" "sched_inv sw s2" "cctx s2 = cctx s"
    "kernel_sem s2 = kernel_sem s" "clock s2 = clock s" "waitset s2 = (waitset s)(cv := drop 1 (dropWhile (\<lambda>t. \<not> asleep s t) ?ws))"
    "tcbs s2 = awaken_one (find (asleep s) ?ws) (tcbs s)"
    "waiter s2 = mark_signalled (find (asleep s) ?ws) (mark_removed
       (takeWhile (\<lambda>t. \<not> asleep s t) ?ws @ take 1 (dropWhile (\<lambda>t. \<not> asleep s t) ?ws)) (waiter s))"
    using cv_signal_effect [OF inv1 d(2,3,1)] a1 by auto
  have s': "s' = Mutex_Unlock (waitset_lock cv) s2"
    using eq s2(1) by (auto simp: Cond_Signal_def dest!: Mutex_Lock_SomeD)
  have "sched_inv sw s'" unfolding s' using s2(2) by (subst sched_inv_cong [of _ s2]) (simp_all add: Mutex_Unlock_def)
  moreover have "distinct (waitset s' cv')" for cv'
    using ok s2(6) by (auto simp: waits_ok_def s' Mutex_Unlock_def distinct_drop distinct_dropWhile)
  moreover have sub: "t \<in> set (waitset s cv')" if "t \<in> set (waitset s' cv')" for t cv'
    using that s2(6) by (auto simp: s' Mutex_Unlock_def split: if_splits dest!: in_set_dropD set_dropWhileD)
  moreover have "tcbs s' t \<noteq> None" if "t \<in> set (waitset s' cv')" for t cv'
    using sub [OF that] ok s2(7) by (auto simp: waits_ok_def s' Mutex_Unlock_def awaken_one_def)
  moreover have "waiter s' t = waiter s t" if t: "t \<in> set (waitset s' cv')" for t cv'
  proof -
    have "t \<notin> set (takeWhile (\<lambda>t. \<not> asleep s t) ?ws @ take 1 (dropWhile (\<lambda>t. \<not> asleep s t) ?ws))"
    proof (cases "cv' = cv")
      case True
      have "distinct ((takeWhile (\<lambda>t. \<not> asleep s t) ?ws @ take 1 (dropWhile (\<lambda>t. \<not> asleep s t) ?ws)) @
          drop 1 (dropWhile (\<lambda>t. \<not> asleep s t) ?ws))"
        using d(1) by simp
      moreover have "t \<in> set (drop 1 (dropWhile (\<lambda>t. \<not> asleep s t) ?ws))"
        using t True s2(6) by (simp add: s' Mutex_Unlock_def)
      ultimately show ?thesis unfolding distinct_append by blast
    next
      case False
      then have "t \<notin> set ?ws" using sub [OF t] ok unfolding waits_ok_def by blast
      then show ?thesis by (auto dest: set_takeWhileD set_dropWhileD in_set_takeD)
    qed
    moreover from this have "find (asleep s) ?ws \<noteq> Some t"
      by (auto simp: find_split split: list.splits)
    ultimately show ?thesis by (simp add: s' Mutex_Unlock_def s2(8) mark_removed_def mark_signalled_def)
  qed
  ultimately have "waits_ok sw s'" using ok unfolding waits_ok_def by metis
  moreover have "asleep s' = (\<lambda>t. asleep s t \<and> find (asleep s) ?ws \<noteq> Some t)"
    by (auto simp: fun_eq_iff asleep_def s' Mutex_Unlock_def s2(7) awaken_one_def awaken_def
        split: option.splits)
  moreover have "tcbs s' t = tcbs s t" if "\<not> asleep s t" for t
    using that awaken_asleep [OF that] by (simp add: s' Mutex_Unlock_def s2(7) awaken_one_def)
  ultimately show ?thesis using s2 by (simp add: s' Mutex_Unlock_def)
qed

lemma cv_wait_leave_effect:
  assumes ok: "waits_ok sw s" and t: "cur_thread c s = Some t"
    and eq: "cv_wait_leave c mx cv s = Some (r, s')"
  shows "waits_ok sw s' \<and> kernel_sem s' = kernel_sem s \<and> asleep s' = asleep s \<and> tcbs s' = tcbs s \<and>
    cctx s' = cctx s \<and> waitset s' = (if removed (waiter s t) then waitset s
      else (waitset s)(cv := remove1 t (waitset s cv))) \<and> clock s' = clock s"
proof -
  let ?s1 = "s\<lparr>mutexes := (mutexes s)(waitset_lock cv := True)\<rparr>"
  let ?s2 = "if removed (waiter s t) then ?s1 else remove_from_ring cv t ?s1"
  have s': "s' = (Mutex_Unlock (waitset_lock cv) ?s2)\<lparr>mutexes :=
      (mutexes (Mutex_Unlock (waitset_lock cv) ?s2))(mx := True)\<rparr>"
    using eq t by (auto simp: cv_wait_leave_def dest!: Mutex_Lock_SomeD split: if_splits)
  have f: "tcbs s' = tcbs s" "cctx s' = cctx s" "kernel_sem s' = kernel_sem s" "SCHED s' = SCHED s"
    "TIMEOUT_LIST s' = TIMEOUT_LIST s" "active_threads s' = active_threads s" "next_tcb s' = next_tcb s"
    "waitset s' = (if removed (waiter s t) then waitset s
      else (waitset s)(cv := remove1 t (waitset s cv)))" "clock s' = clock s" "waiter s' = waiter s"
    unfolding s' by (simp_all add: Mutex_Unlock_def remove_from_ring_def)
  have "sched_inv sw s'" using ok f by (subst sched_inv_cong [of _ s]) (simp_all add: waits_ok_def)
  then have "waits_ok sw s'"
    using ok f(1,8,10) unfolding waits_ok_def
    by (auto split: if_splits dest: set_mp [OF set_remove1_subset])
  moreover have "asleep s' = asleep s" by (simp add: fun_eq_iff asleep_def f)
  ultimately show ?thesis using f by metis
qed

section \<open>The protocol\<close>

datatype kpc = Outside | Inside | Sem_waiting | Cv_waiting cv_ref

type_synonym 'a kstate = "(nat \<Rightarrow> kpc) \<times> nat set \<times> 'a cc_scheme"

text \<open>
  The steps of a thread \<open>n\<close> that runs on core \<open>c\<close>.  \<open>Other\<close> is everything else: scheduling,
  signals of other kernel conditions, threads that come and go, as long as the semaphore and
  its waiters are left alone and nobody puts a waiter to sleep but the waiter itself.
  Condition variables of user programs are not part of this system.
\<close>

inductive kstep :: "'a kstate \<Rightarrow> 'a kstate \<Rightarrow> bool" where
  Lock: "\<lbrakk>pc n = Outside; running_on sw c n s; kernel_lock_section c s = Some (e, s')\<rbrakk> \<Longrightarrow>
    kstep (pc, sw, s) (pc(n := if e then Inside else Sem_waiting), sw, s')"
| Lock_resume: "\<lbrakk>pc n = Sem_waiting; running_on sw c n s; kernel_lock_resume c s = Some (e, s')\<rbrakk> \<Longrightarrow>
    kstep (pc, sw, s) (pc(n := if e then Inside else Sem_waiting), sw, s')"
| Unlock: "\<lbrakk>pc n = Inside; running_on sw c n s; kernel_unlock c s = Some s'\<rbrakk> \<Longrightarrow>
    kstep (pc, sw, s) (pc(n := Outside), sw, s')"
| Wait: "\<lbrakk>pc n = Inside; running_on sw c n s; cv \<noteq> kernel_sem_cv;
    timeout = NO_TIMEOUT \<or> bios_clock s + timeout \<noteq> NO_TIMEOUT;
    kernel_wait_section c cv timeout s = Some s'\<rbrakk> \<Longrightarrow>
    kstep (pc, sw, s) (pc(n := Cv_waiting cv), sw, s')"
| Wait_resume: "\<lbrakk>pc n = Cv_waiting cv; cv \<noteq> kernel_sem_cv; running_on sw c n s; kernel_wait_leave c cv s = Some (r, e, s')\<rbrakk> \<Longrightarrow>
    kstep (pc, sw, s) (pc(n := if e then Inside else Sem_waiting), sw, s')"
| Sleep: "\<lbrakk>pc n = Inside; running_on sw c n s; kernel_sleep_section c newstate s = Some s'\<rbrakk> \<Longrightarrow>
    kstep (pc, sw, s) (pc(n := Outside), sw, s')"
| Other: "\<lbrakk>waits_ok sw' s'; kernel_sem s' = kernel_sem s;
    waitset s' kernel_sem_cv = waitset s kernel_sem_cv;
    \<And>cv t. t \<in> set (waitset s' cv) \<Longrightarrow> t \<in> set (waitset s cv);
    \<And>n. pc n = Sem_waiting \<Longrightarrow> asleep s' (Thr n) \<Longrightarrow> asleep s (Thr n)\<rbrakk> \<Longrightarrow>
    kstep (pc, sw, s) (pc, sw', s')"

inductive kreachable :: "'a kstate \<Rightarrow> bool" where
  init: "\<lbrakk>waits_ok sw s; kernel_sem s = 1; \<And>cv. waitset s cv = []\<rbrakk> \<Longrightarrow> kreachable (\<lambda>_. Outside, sw, s)"
| step: "kreachable x \<Longrightarrow> kstep x y \<Longrightarrow> kreachable y"

text \<open>
  Either the semaphore is up and nobody is inside, or it is down and one thread is inside; a
  sleeping waiter can be reached by a signal; and if the semaphore is up while a waiter
  sleeps, another waiter is awake and about to test the semaphore.
\<close>

definition sem_ok :: "(nat \<Rightarrow> kpc) \<Rightarrow> int \<Rightarrow> bool" where
  "sem_ok pc sem \<longleftrightarrow> (sem = 1 \<and> (\<forall>n. pc n \<noteq> Inside)) \<or> (sem = 0 \<and> (\<exists>n. \<forall>m. pc m = Inside \<longleftrightarrow> m = n))"

definition pc_for :: "cv_ref \<Rightarrow> kpc" where
  "pc_for cv = (if cv = kernel_sem_cv then Sem_waiting else Cv_waiting cv)"

definition wait_ok :: "(nat \<Rightarrow> kpc) \<Rightarrow> (tcb_ref \<Rightarrow> bool) \<Rightarrow> (cv_ref \<Rightarrow> tcb_ref list) \<Rightarrow> bool" where
  "wait_ok pc A W \<longleftrightarrow>
     (\<forall>n. pc n = Sem_waiting \<longrightarrow> A (Thr n) \<longrightarrow> Thr n \<in> set (W kernel_sem_cv)) \<and>
     (\<forall>cv t. t \<in> set (W cv) \<longrightarrow> (\<exists>n. t = Thr n \<and> pc n = pc_for cv))"

definition no_lost :: "(nat \<Rightarrow> kpc) \<Rightarrow> (tcb_ref \<Rightarrow> bool) \<Rightarrow> int \<Rightarrow> bool" where
  "no_lost pc A sem \<longleftrightarrow> (sem > 0 \<longrightarrow> (\<exists>n. pc n = Sem_waiting \<and> A (Thr n)) \<longrightarrow>
     (\<exists>n. pc n = Sem_waiting \<and> \<not> A (Thr n)))"

definition kinv :: "'a kstate \<Rightarrow> bool" where
  "kinv x = (case x of (pc, sw, s) \<Rightarrow> waits_ok sw s \<and> sem_ok pc (kernel_sem s) \<and>
     wait_ok pc (asleep s) (waitset s) \<and> no_lost pc (asleep s) (kernel_sem s))"

section \<open>The protocol keeps its invariant\<close>

definition in_no_ring :: "nat \<Rightarrow> (cv_ref \<Rightarrow> tcb_ref list) \<Rightarrow> bool" where
  "in_no_ring n W \<longleftrightarrow> (\<forall>cv. Thr n \<notin> set (W cv))"

lemma wait_ok_in_no_ring:
  "wait_ok pc A W \<Longrightarrow> pc n = Outside \<or> pc n = Inside \<Longrightarrow> in_no_ring n W"
  unfolding wait_ok_def in_no_ring_def pc_for_def by (metis kpc.distinct tcb_ref.inject(2))

lemma wait_added:
  assumes ok: "wait_ok pc A W" and nr: "in_no_ring n W"
  shows "wait_ok (pc(n := pc_for cv)) (A(Thr n := True)) (W(cv := W cv @ [Thr n]))"
proof -
  have ring: "\<exists>m. t = Thr m \<and> (pc(n := x)) m = pc_for cv'" if t: "t \<in> set (W cv')" for t cv' x
  proof -
    obtain m where "t = Thr m" "pc m = pc_for cv'" using ok t unfolding wait_ok_def by blast
    moreover have "m \<noteq> n" using t nr \<open>t = Thr m\<close> unfolding in_no_ring_def by blast
    ultimately show ?thesis by auto
  qed
  have "\<exists>m. t = Thr m \<and> (pc(n := pc_for cv)) m = pc_for cv'"
    if t: "t \<in> set ((W(cv := W cv @ [Thr n])) cv')" for t cv'
  proof (cases "t \<in> set (W cv')")
    case True
    then show ?thesis by (rule ring)
  next
    case False
    then have "cv' = cv" "t = Thr n" using t by (auto split: if_splits)
    then show ?thesis by simp
  qed
  moreover have "Thr m \<in> set ((W(cv := W cv @ [Thr n])) kernel_sem_cv)"
    if "(pc(n := pc_for cv)) m = Sem_waiting" "(A(Thr n := True)) (Thr m)" for m
    using that ok by (auto simp: wait_ok_def pc_for_def split: if_splits)
  ultimately show ?thesis unfolding wait_ok_def by blast
qed

lemma wait_entered:
  assumes "wait_ok pc A W" "in_no_ring n W" "x \<noteq> Sem_waiting"
  shows "wait_ok (pc(n := x)) A W"
  using assms unfolding wait_ok_def in_no_ring_def by (metis fun_upd_apply)

lemma sem_ok_cong: "(\<And>m. pc' m = Inside \<longleftrightarrow> pc m = Inside) \<Longrightarrow> sem_ok pc' x = sem_ok pc x"
  by (simp add: sem_ok_def)

lemma sem_released: "sem_ok pc sem \<Longrightarrow> pc n = Inside \<Longrightarrow> x \<noteq> Inside \<Longrightarrow> sem_ok (pc(n := x)) (sem + 1)"
  unfolding sem_ok_def by auto

lemma wait_released:
  assumes ok: "wait_ok pc A W" and pc: "pc n = Inside" and x: "x \<noteq> Sem_waiting"
    and W': "W' = W(kernel_sem_cv := drop 1 (dropWhile (\<lambda>t. \<not> A t) (W kernel_sem_cv)))"
    and A': "A' = (\<lambda>t. A t \<and> find A (W kernel_sem_cv) \<noteq> Some t)"
  shows "wait_ok (pc(n := x)) A' W' \<and> no_lost (pc(n := x)) A' sem"
proof -
  let ?ws = "W kernel_sem_cv"
  have nr: "in_no_ring n W" using wait_ok_in_no_ring [OF ok] pc by simp
  have sub: "t \<in> set (W cv)" if "t \<in> set (W' cv)" for t cv
    using that by (auto simp: W' split: if_splits dest!: in_set_dropD set_dropWhileD)
  have keep: "t \<in> set (drop 1 (dropWhile (\<lambda>t. \<not> A t) ?ws))" if "t \<in> set ?ws" "A t" "find A ?ws \<noteq> Some t" for t
  proof -
    have "t \<in> set (dropWhile (\<lambda>t. \<not> A t) ?ws)"
      using that(1,2) by (metis Un_iff set_append set_takeWhileD takeWhile_dropWhile_id)
    then show ?thesis using that(3) by (cases "dropWhile (\<lambda>t. \<not> A t) ?ws") (auto simp: find_split)
  qed
  have ring: "Thr m \<in> set ?ws" if "pc m = Sem_waiting" "A (Thr m)" for m
    using ok that unfolding wait_ok_def by blast
  have "Thr m \<in> set (W' kernel_sem_cv)" if "(pc(n := x)) m = Sem_waiting" "A' (Thr m)" for m
    using that x ring [of m] keep [of "Thr m"] by (auto simp: A' W' split: if_splits)
  moreover have "\<exists>m. t = Thr m \<and> (pc(n := x)) m = pc_for cv" if t: "t \<in> set (W' cv)" for t cv
  proof -
    obtain m where m: "t = Thr m" "pc m = pc_for cv"
      using ok sub [OF t] unfolding wait_ok_def by blast
    then have "m \<noteq> n" using pc by (auto simp: pc_for_def split: if_splits)
    with m show ?thesis by auto
  qed
  moreover have "\<exists>k. (pc(n := x)) k = Sem_waiting \<and> \<not> A' (Thr k)"
    if "(pc(n := x)) m = Sem_waiting" "A' (Thr m)" for m
  proof -
    have m: "Thr m \<in> set ?ws" "A (Thr m)" using that x ring [of m] by (auto simp: A' split: if_splits)
    then obtain t where t: "find A ?ws = Some t" by (metis find_None_iff not_Some_eq)
    then have "t \<in> set ?ws" by (auto simp: find_Some_iff)
    then obtain k where "t = Thr k" "pc k = Sem_waiting" using ok unfolding wait_ok_def pc_for_def by metis
    then show ?thesis using t pc by (intro exI [of _ k]) (auto simp: A')
  qed
  ultimately show ?thesis unfolding wait_ok_def no_lost_def by blast
qed

lemma kernel_release_effect:
  assumes ok: "waits_ok sw s" and run: "running_on sw c n s" and eq: "kernel_release c s = Some s'"
  shows "waits_ok sw s' \<and> running_on sw c n s' \<and> kernel_sem s' = kernel_sem s + 1 \<and>
    waitset s' = (waitset s)(kernel_sem_cv :=
      drop 1 (dropWhile (\<lambda>t. \<not> asleep s t) (waitset s kernel_sem_cv))) \<and>
    asleep s' = (\<lambda>t. asleep s t \<and> find (asleep s) (waitset s kernel_sem_cv) \<noteq> Some t) \<and>
    clock s' = clock s"
proof -
  let ?s1 = "s\<lparr>mutexes := (mutexes s)(kernel_mutex := True), kernel_sem := kernel_sem s + 1\<rparr>"
  have s': "Cond_Signal c kernel_sem_cv ?s1 = Some s'"
    using eq by (auto simp: kernel_release_def dest!: Mutex_Lock_SomeD)
  have ok1: "waits_ok sw ?s1" using ok by (subst waits_ok_cong [of _ s]) simp_all
  have a1: "asleep ?s1 = asleep s" by (simp add: fun_eq_iff asleep_def)
  note e = Cond_Signal_effect [OF ok1 s', unfolded a1, simplified]
  have "tcbs s' (Thr n) = tcbs s (Thr n)" using e running_not_asleep [OF run] by blast
  then have "running_on sw c n s'" using e run by (simp add: running_on_def cur_thread_def)
  with e show ?thesis by simp
qed

lemma kernel_acquire_kinv:
  assumes ok: "waits_ok sw s" and sem: "sem_ok pc (kernel_sem s)" and wt: "wait_ok pc (asleep s) (waitset s)"
    and pc: "pc n \<noteq> Inside" and nr: "in_no_ring n (waitset s)" and run: "running_on sw c n s"
    and eq: "kernel_acquire_section c s = Some (e, s')"
  shows "kinv (pc(n := if e then Inside else Sem_waiting), sw, s')"
proof (cases "kernel_sem s \<le> 0")
  case True
  then have e: "\<not> e" and w: "cv_wait_section c kernel_mutex kernel_sem_cv NO_TIMEOUT s = Some s'"
    using eq by (auto simp: kernel_acquire_section_def)
  have f: "waits_ok sw s'" "waitset s' = (waitset s)(kernel_sem_cv := waitset s kernel_sem_cv @ [Thr n])"
    "kernel_sem s' = kernel_sem s" "asleep s' = (asleep s)(Thr n := True)"
    using cv_wait_section_effect [OF ok run _ _ w] nr by (auto simp: in_no_ring_def)
  have "sem_ok (pc(n := Sem_waiting)) (kernel_sem s)" using sem pc True unfolding sem_ok_def by auto
  moreover have "wait_ok (pc(n := Sem_waiting)) (asleep s') (waitset s')"
    using wait_added [OF wt nr, of kernel_sem_cv] by (simp add: f pc_for_def)
  moreover have "no_lost pc' A (kernel_sem s)" for pc' A using True by (simp add: no_lost_def)
  ultimately show ?thesis using e f by (simp add: kinv_def)
next
  case False
  then have e: e and s': "s' = Mutex_Unlock kernel_mutex (s\<lparr>kernel_sem := kernel_sem s - 1\<rparr>)"
    using eq by (auto simp: kernel_acquire_section_def)
  have f: "tcbs s' = tcbs s" "waitset s' = waitset s" "kernel_sem s' = kernel_sem s - 1"
    by (simp_all add: s' Mutex_Unlock_def)
  have a: "asleep s' = asleep s" by (simp add: fun_eq_iff asleep_def f)
  have "waits_ok sw s'" using ok by (subst waits_ok_cong [of _ s]) (simp_all add: s' Mutex_Unlock_def)
  moreover have "sem_ok (pc(n := Inside)) (kernel_sem s - 1)" "kernel_sem s = 1"
    using sem False unfolding sem_ok_def by auto
  moreover have "wait_ok (pc(n := Inside)) (asleep s) (waitset s)"
    using wait_entered [OF wt nr] by simp
  ultimately show ?thesis using e f a by (simp add: kinv_def no_lost_def)
qed

lemma cv_wait_leave_kinv:
  assumes ok: "waits_ok sw s" and wt: "wait_ok pc (asleep s) (waitset s)" and pc: "pc n = pc_for cv"
    and run: "running_on sw c n s" and eq: "cv_wait_leave c mx cv s = Some (r, s')"
  shows "waits_ok sw s' \<and> kernel_sem s' = kernel_sem s \<and> wait_ok pc (asleep s') (waitset s') \<and>
    in_no_ring n (waitset s') \<and> running_on sw c n s'"
proof -
  have t: "cur_thread c s = Some (Thr n)" using run by (simp add: running_on_def)
  note e = cv_wait_leave_effect [OF ok t eq]
  have sub: "u \<in> set (waitset s cv')" if "u \<in> set (waitset s' cv')" for u cv'
    using that e by (auto split: if_splits dest: set_mp [OF set_remove1_subset])
  have only: "cv' = cv" if "Thr n \<in> set (waitset s cv')" for cv'
    using wt that pc unfolding wait_ok_def pc_for_def by (metis kpc.distinct kpc.inject tcb_ref.inject(2))
  have "Thr n \<notin> set (waitset s' cv')" for cv'
  proof
    assume a: "Thr n \<in> set (waitset s' cv')"
    then have cv': "cv' = cv" "Thr n \<in> set (waitset s cv)" using only sub by blast+
    then have "\<not> removed (waiter s (Thr n))" using ok unfolding waits_ok_def by blast
    moreover have "distinct (waitset s cv)" using ok unfolding waits_ok_def by blast
    ultimately show False using a e cv' by simp
  qed
  then have nr: "in_no_ring n (waitset s')" by (simp add: in_no_ring_def)
  have "Thr m \<in> set (waitset s' kernel_sem_cv)" if m: "pc m = Sem_waiting" "asleep s (Thr m)" for m
  proof -
    have "m \<noteq> n" using m(2) running_not_asleep [OF run] by auto
    moreover have "Thr m \<in> set (waitset s kernel_sem_cv)" using wt m unfolding wait_ok_def by blast
    ultimately show ?thesis using e by (auto split: if_splits)
  qed
  then have "wait_ok pc (asleep s') (waitset s')"
    using wt sub e unfolding wait_ok_def by metis
  with e nr run show ?thesis by (simp add: running_on_def cur_thread_def)
qed

lemma sleep_section_waits_ok:
  assumes ok: "waits_ok sw s" and run: "running_on sw c n s"
    and eq: "sleep_section c st mx NO_TIMEOUT s = Some s'"
  shows "waits_ok sw s' \<and> waitset s' = waitset s \<and> kernel_sem s' = kernel_sem s \<and>
    (\<forall>u. u \<noteq> Thr n \<longrightarrow> asleep s' u = asleep s u)"
proof -
  obtain tc where r: "c \<notin> sw" "cur_thread c s = Some (Thr n)" "tcbs s (Thr n) = Some tc"
    "state tc = RUNNING" using run by (auto simp: running_on_def)
  have inv: "sched_inv sw s" using ok by (simp add: waits_ok_def)
  have inv': "sched_inv sw s'"
    using sleep_section_inv [OF inv r sleep_section_asserts [OF eq], of NO_TIMEOUT mx] eq by simp
  note e = sleep_section_effect [OF eq r(2)]
  note m = more_cc [OF e [THEN conjunct2, THEN conjunct2, THEN conjunct2, THEN conjunct1]]
  have "tcbs s' t \<noteq> None" if "tcbs s t \<noteq> None" for t using e that by (cases "t = Thr n") auto
  then have "waits_ok sw s'" using ok inv' unfolding waits_ok_def m by blast
  with e m show ?thesis by (simp add: asleep_def)
qed

text \<open>A thread inside the kernel gives the semaphore up and wakes a waiter.\<close>

lemma release_kinv:
  assumes k: "kinv (pc, sw, s)" and pc: "pc n = Inside" and run: "running_on sw c n s"
    and rel: "kernel_release c s = Some s1"
  shows "kinv (pc(n := Outside), sw, s1)" "running_on sw c n s1" "in_no_ring n (waitset s1)"
    "clock s1 = clock s"
proof -
  have k: "waits_ok sw s" "sem_ok pc (kernel_sem s)" "wait_ok pc (asleep s) (waitset s)"
    using k by (auto simp: kinv_def)
  note e = kernel_release_effect [OF k(1) run rel]
  have r: "wait_ok (pc(n := Outside)) (asleep s1) (waitset s1)"
    "no_lost (pc(n := Outside)) (asleep s1) (kernel_sem s + 1)"
    using e wait_released [OF k(3) pc, of Outside] by auto
  show "kinv (pc(n := Outside), sw, s1)"
    using e r sem_released [OF k(2) pc, of Outside] by (simp add: kinv_def)
  show "running_on sw c n s1" "clock s1 = clock s" using e by auto
  show "in_no_ring n (waitset s1)" using wait_ok_in_no_ring [OF r(1), of n] by simp
qed

lemma kernel_lock_kinv:
  assumes k: "kinv (pc, sw, s)" and pc: "pc n = Outside" and run: "running_on sw c n s"
    and eq: "kernel_lock_section c s = Some (e, s')"
  shows "kinv (pc(n := if e then Inside else Sem_waiting), sw, s')"
proof -
  let ?s1 = "s\<lparr>mutexes := (mutexes s)(kernel_mutex := True)\<rparr>"
  have k: "waits_ok sw s" "sem_ok pc (kernel_sem s)" "wait_ok pc (asleep s) (waitset s)"
    using k by (auto simp: kinv_def)
  have a: "kernel_acquire_section c ?s1 = Some (e, s')"
    using eq by (auto simp: kernel_lock_section_def dest!: Mutex_Lock_SomeD)
  have "asleep ?s1 = asleep s" by (simp add: fun_eq_iff asleep_def)
  moreover have "waits_ok sw ?s1" using k(1) by (subst waits_ok_cong [of _ s]) simp_all
  ultimately show ?thesis
    using kernel_acquire_kinv [OF _ _ _ _ _ _ a, of sw pc n] k wait_ok_in_no_ring [OF k(3), of n] pc run
    by (simp add: running_on_def cur_thread_def)
qed

lemma resume_kinv:
  assumes k: "kinv (pc, sw, s)" and pc: "pc n = pc_for cv" and run: "running_on sw c n s"
    and l: "cv_wait_leave c kernel_mutex cv s = Some (r, s1)"
    and a: "kernel_acquire_section c s1 = Some (e, s')"
  shows "kinv (pc(n := if e then Inside else Sem_waiting), sw, s')"
proof -
  have k: "waits_ok sw s" "sem_ok pc (kernel_sem s)" "wait_ok pc (asleep s) (waitset s)"
    using k by (auto simp: kinv_def)
  show ?thesis
    using cv_wait_leave_kinv [OF k(1,3) pc run l] kernel_acquire_kinv [OF _ _ _ _ _ _ a, of sw pc n] k(2) pc
    by (auto simp: pc_for_def split: if_splits)
qed

lemma kernel_wait_kinv:
  assumes k: "kinv (pc, sw, s)" and pc: "pc n = Inside" and run: "running_on sw c n s"
    and cv: "cv \<noteq> kernel_sem_cv" and to: "timeout = NO_TIMEOUT \<or> bios_clock s + timeout \<noteq> NO_TIMEOUT"
    and eq: "kernel_wait_section c cv timeout s = Some s'"
  shows "kinv (pc(n := Cv_waiting cv), sw, s')"
proof -
  from eq obtain s1 where rel: "kernel_release c s = Some s1"
    and w: "cv_wait_section c kernel_mutex cv timeout s1 = Some s'"
    by (auto simp: kernel_wait_section_def)
  note r = release_kinv [OF k pc run rel]
  have k1: "waits_ok sw s1" "sem_ok (pc(n := Outside)) (kernel_sem s1)"
    "wait_ok (pc(n := Outside)) (asleep s1) (waitset s1)"
    "no_lost (pc(n := Outside)) (asleep s1) (kernel_sem s1)"
    using r(1) by (auto simp: kinv_def)
  have f: "waits_ok sw s'" "waitset s' = (waitset s1)(cv := waitset s1 cv @ [Thr n])"
    "kernel_sem s' = kernel_sem s1" "asleep s' = (asleep s1)(Thr n := True)"
    using cv_wait_section_effect [OF k1(1) r(2) _ _ w] r(3,4) to by (auto simp: in_no_ring_def bios_clock_def)
  have "wait_ok (pc(n := Cv_waiting cv)) (asleep s') (waitset s')"
    using wait_added [OF k1(3) r(3), of cv] cv by (simp add: f pc_for_def)
  moreover have "no_lost (pc(n := Cv_waiting cv)) (asleep s') (kernel_sem s1)"
    using k1(4) unfolding no_lost_def f(4) by (auto split: if_splits)
  moreover have "sem_ok (pc(n := Cv_waiting cv)) (kernel_sem s1)"
    using k1(2) by (subst sem_ok_cong [of _ "pc(n := Outside)"]) auto
  ultimately show ?thesis using f by (simp add: kinv_def)
qed

lemma kernel_sleep_kinv:
  assumes k: "kinv (pc, sw, s)" and pc: "pc n = Inside" and run: "running_on sw c n s"
    and eq: "kernel_sleep_section c newstate s = Some s'"
  shows "kinv (pc(n := Outside), sw, s')"
proof -
  from eq obtain s1 where rel: "kernel_release c s = Some s1"
    and sl: "sleep_section c newstate (Some kernel_mutex) NO_TIMEOUT s1 = Some s'"
    by (auto simp: kernel_sleep_section_def)
  note r = release_kinv [OF k pc run rel]
  have k1: "waits_ok sw s1" "sem_ok (pc(n := Outside)) (kernel_sem s1)"
    "wait_ok (pc(n := Outside)) (asleep s1) (waitset s1)"
    "no_lost (pc(n := Outside)) (asleep s1) (kernel_sem s1)"
    using r(1) by (auto simp: kinv_def)
  note e = sleep_section_waits_ok [OF k1(1) r(2) sl]
  have same: "asleep s' (Thr m) = asleep s1 (Thr m)" if "(pc(n := Outside)) m = Sem_waiting" for m
    using e that by (auto split: if_splits)
  have "wait_ok (pc(n := Outside)) (asleep s') (waitset s')"
    using k1(3) e same unfolding wait_ok_def by metis
  moreover have "no_lost (pc(n := Outside)) (asleep s') (kernel_sem s1)"
    using k1(4) same unfolding no_lost_def by metis
  ultimately show ?thesis using e k1(2) by (simp add: kinv_def)
qed

lemma kernel_unlock_kinv:
  assumes k: "kinv (pc, sw, s)" and pc: "pc n = Inside" and run: "running_on sw c n s"
    and eq: "kernel_unlock c s = Some s'"
  shows "kinv (pc(n := Outside), sw, s')"
proof -
  from eq obtain s1 where rel: "kernel_release c s = Some s1" and s': "s' = Mutex_Unlock kernel_mutex s1"
    by (auto simp: kernel_unlock_def)
  note r = release_kinv(1) [OF k pc run rel]
  have "asleep s' = asleep s1" "waitset s' = waitset s1" "kernel_sem s' = kernel_sem s1"
    by (simp_all add: fun_eq_iff asleep_def s' Mutex_Unlock_def)
  moreover have "waits_ok sw s' \<longleftrightarrow> waits_ok sw s1"
    by (rule waits_ok_cong) (simp_all add: s' Mutex_Unlock_def)
  ultimately show ?thesis using r by (simp add: kinv_def)
qed

lemma kstep_kinv: "kstep x y \<Longrightarrow> kinv x \<Longrightarrow> kinv y"
proof (induction rule: kstep.induct)
  case (Lock pc n sw c s e s')
  then show ?case by (intro kernel_lock_kinv)
next
  case (Lock_resume pc n sw c s e s')
  then obtain r s1 where "cv_wait_leave c kernel_mutex kernel_sem_cv s = Some (r, s1)"
    "kernel_acquire_section c s1 = Some (e, s')"
    by (auto simp: kernel_lock_resume_def)
  with Lock_resume show ?case by (intro resume_kinv [where cv = kernel_sem_cv]) (simp_all add: pc_for_def)
next
  case (Wait_resume pc n cv sw c s r e s')
  then obtain s1 where "cv_wait_leave c kernel_mutex cv s = Some (r, s1)"
    "kernel_acquire_section c s1 = Some (e, s')"
    by (auto simp: kernel_wait_leave_def)
  with Wait_resume show ?case by (intro resume_kinv [where cv = cv]) (simp_all add: pc_for_def)
next
  case (Other sw' s' s pc sw)
  then show ?case unfolding kinv_def by (auto simp: wait_ok_def no_lost_def)
qed (auto intro: kernel_lock_kinv kernel_unlock_kinv kernel_wait_kinv kernel_sleep_kinv)

lemma kreachable_kinv: "kreachable x \<Longrightarrow> kinv x"
proof (induction rule: kreachable.induct)
  case (init sw s)
  then show ?case by (simp add: kinv_def sem_ok_def wait_ok_def no_lost_def)
qed (rule kstep_kinv)

section \<open>Mutexes\<close>

text \<open>
  Threads that compete for one mutex: \<open>None\<close> is a thread that does not use it, \<open>Some Mx_done\<close>
  one that holds it.
\<close>

inductive mx_step :: "mutex_ref \<Rightarrow> (nat \<Rightarrow> mutex_pc option) \<times> 'a sched_scheme \<Rightarrow>
  (nat \<Rightarrow> mutex_pc option) \<times> 'a sched_scheme \<Rightarrow> bool" for m where
  Call: "pcs n = None \<Longrightarrow> mx_step m (pcs, s) (pcs(n \<mapsto> Mx_test_and_set), s)"
| Spin: "\<lbrakk>pcs n = Some pc; mutex_lock_step c m (pc, s) = (pc', s')\<rbrakk> \<Longrightarrow>
    mx_step m (pcs, s) (pcs(n \<mapsto> pc'), s')"
| Release: "pcs n = Some Mx_done \<Longrightarrow> mx_step m (pcs, s) (pcs(n := None), Mutex_Unlock m s)"
| Env: "mutexes s' m = mutexes s m \<Longrightarrow> mx_step m (pcs, s) (pcs, s')"

inductive mx_reachable :: "mutex_ref \<Rightarrow> (nat \<Rightarrow> mutex_pc option) \<times> 'a sched_scheme \<Rightarrow> bool" for m where
  init: "\<not> mutexes s m \<Longrightarrow> mx_reachable m (\<lambda>_. None, s)"
| step: "mx_reachable m x \<Longrightarrow> mx_step m x y \<Longrightarrow> mx_reachable m y"

definition mx_inv :: "mutex_ref \<Rightarrow> (nat \<Rightarrow> mutex_pc option) \<Rightarrow> 'a sched_scheme \<Rightarrow> bool" where
  "mx_inv m pcs s \<longleftrightarrow> (if mutexes s m then \<exists>n. \<forall>k. pcs k = Some Mx_done \<longleftrightarrow> k = n
     else \<forall>k. pcs k \<noteq> Some Mx_done)"

inductive_cases mx_stepE: "mx_step m (pcs, s) y"

lemma mutex_lock_step_cases:
  assumes "mutex_lock_step c m (pc, s) = (pc', s')"
  shows "(pc \<noteq> Mx_done \<and> pc' = Mx_done \<and> \<not> mutexes s m \<and> mutexes s' m) \<or>
    ((pc' = Mx_done \<longleftrightarrow> pc = Mx_done) \<and> mutexes s' m = mutexes s m)"
  using assms by (cases pc) (auto split: if_splits)

lemma mx_reachable_inv: "mx_reachable m x \<Longrightarrow> mx_inv m (fst x) (snd x)"
proof (induction rule: mx_reachable.induct)
  case (step x y)
  from step(2,3) show ?case
  proof (induction rule: mx_step.induct)
    case (Call pcs n s)
    then have "(pcs(n \<mapsto> Mx_test_and_set)) k = Some Mx_done \<longleftrightarrow> pcs k = Some Mx_done" for k by auto
    then show ?case using Call(2) by (simp only: mx_inv_def fst_conv snd_conv)
  next
    case (Spin pcs n pc c s pc' s')
    from mutex_lock_step_cases [OF Spin(2)] show ?case
    proof
      assume "(pc' = Mx_done \<longleftrightarrow> pc = Mx_done) \<and> mutexes s' m = mutexes s m"
      moreover from this have "(pcs(n \<mapsto> pc')) k = Some Mx_done \<longleftrightarrow> pcs k = Some Mx_done" for k
        using Spin(1) by auto
      ultimately show ?case using Spin(3) by (simp only: mx_inv_def fst_conv snd_conv)
    qed (use Spin(1,3) in \<open>auto simp: mx_inv_def split: if_splits\<close>)
  qed (auto simp: mx_inv_def Mutex_Unlock_def split: if_splits)
qed (simp add: mx_inv_def)

text \<open>
  C18. \<^verbatim>\<open>Mutex_Lock\<close> gives mutual exclusion for any number of threads that run its loop one
  memory access at a time: the mutex is set exactly while one thread holds it, a thread that
  finds it free takes it, and a spinning thread calls \<^verbatim>\<open>yield\<close> only with interrupts enabled.
\<close>

theorem Mutex_Lock_exclusive:
  assumes "mx_reachable m (pcs, s)"
  shows "(\<forall>n k. pcs n = Some Mx_done \<longrightarrow> pcs k = Some Mx_done \<longrightarrow> n = k) \<and>
    (mutexes s m \<longleftrightarrow> (\<exists>n. pcs n = Some Mx_done)) \<and>
    (\<not> mutexes s m \<longrightarrow> mutex_lock_step c m (Mx_test_and_set, s) = (Mx_done, the (Mutex_Lock m s))) \<and>
    (\<forall>k. fst (mutex_lock_step c m (Mx_load k, s)) = Mx_yield \<longrightarrow> cpu_interrupts_enabled c s)"
  using mx_reachable_inv [OF assms] by (auto simp: mx_inv_def Mutex_Lock_def split: if_splits)

theorem Mutex_Lock_exclusive_witness:
  "mutex_lock_step 0 kernel_mutex (Mx_test_and_set, sched0) = (Mx_done, the (Mutex_Lock kernel_mutex sched0))"
proof -
  have f: "\<not> mutexes sched0 kernel_mutex" by (simp add: sched0_def bios0_def bios.defs sched.defs)
  have "mx_reachable kernel_mutex (\<lambda>_. None, sched0)" using f by (rule mx_reachable.init)
  from Mutex_Lock_exclusive [OF this, of 0] f show ?thesis by blast
qed

section \<open>Properties of the kernel lock\<close>

text \<open>A thread of the concrete scheduler run enters the kernel.\<close>

definition with_cc :: "sched \<Rightarrow> cc" where
  "with_cc s = (sched.extend s (cc.fields (\<lambda>_. []) (\<lambda>_. \<lparr>signalled = False, removed = False\<rparr>) 1))
     \<lparr>mutexes := \<lambda>_. False\<rparr>"

lemma with_cc_sel:
  "tcbs (with_cc s) = tcbs s" "SCHED (with_cc s) = SCHED s" "TIMEOUT_LIST (with_cc s) = TIMEOUT_LIST s"
  "cctx (with_cc s) = cctx s" "active_threads (with_cc s) = active_threads s"
  "next_tcb (with_cc s) = next_tcb s" "waitset (with_cc s) cv = []" "kernel_sem (with_cc s) = 1"
  "mutexes (with_cc s) m = False"
  by (simp_all add: with_cc_def sched.defs cc.defs)

lemma entered_run: "\<exists>pc (s :: cc). kreachable (pc, {}, s) \<and> pc 0 = Inside"
proof -
  obtain s :: sched and tc where s: "sched_reachable ({}, s)" "cur_thread 0 s = Some (Thr 0)"
    "tcbs s (Thr 0) = Some tc" "state tc = RUNNING" using running_run by blast
  have "sched_inv {} (with_cc s)"
    using reachable_inv [OF s(1)] by (subst sched_inv_ext [of _ s]) (simp_all add: with_cc_sel)
  then have r0: "kreachable (\<lambda>_. Outside, {}, with_cc s)"
    by (intro kreachable.init) (simp_all add: waits_ok_def with_cc_sel)
  have "running_on {} 0 0 (with_cc s)" using s by (simp add: running_on_def cur_thread_def with_cc_sel)
  moreover have "\<exists>s'. kernel_lock_section 0 (with_cc s) = Some (True, s')"
    by (simp add: kernel_lock_section_def Mutex_Lock_def kernel_acquire_section_def with_cc_sel)
  ultimately obtain s' where "kstep (\<lambda>_. Outside, {}, with_cc s) ((\<lambda>_. Outside)(0 := Inside), {}, s')"
    using kstep.Lock [of "\<lambda>_. Outside" 0 "{}" 0 "with_cc s" True] by auto
  from kreachable.step [OF r0 this] show ?thesis by (intro exI) auto
qed

section \<open>Properties of condition variables\<close>

text \<open>The effect of a signal on the waiters, and that it never fails while the ring lock is free.\<close>

lemma cv_ring_ready:
  assumes "waits_ok sw s" "\<not> mutexes s (waitset_lock cv)"
  obtains s1 where "Mutex_Lock (waitset_lock cv) s = Some s1" "sched_inv sw s1" "waitset s1 = waitset s"
    "waiter s1 = waiter s" "tcbs s1 = tcbs s" "asleep s1 = asleep s" "distinct (waitset s1 cv)"
    "\<forall>t \<in> set (waitset s1 cv). tcbs s1 t \<noteq> None" "kernel_sem s1 = kernel_sem s" "cc.more s1 = cc.more s"
proof
  let ?s1 = "s\<lparr>mutexes := (mutexes s)(waitset_lock cv := True)\<rparr>"
  show "Mutex_Lock (waitset_lock cv) s = Some ?s1" using assms(2) by (simp add: Mutex_Lock_def)
  show "sched_inv sw ?s1" using assms(1) by (subst sched_inv_cong [of _ s]) (simp_all add: waits_ok_def)
  show "asleep ?s1 = asleep s" by (simp add: fun_eq_iff asleep_def)
qed (use assms(1) in \<open>simp_all add: waits_ok_def\<close>)

text \<open>A state with a sleeping thread in the ring of a condition variable.\<close>

definition cc2 :: cc where
  "cc2 = (with_cc sched2)\<lparr>waitset := (\<lambda>_. [])(has_data 0 := [Thr 0])\<rparr>"

lemma cc2_facts:
  "waits_ok {} cc2" "\<not> mutexes cc2 (waitset_lock (has_data 0))" "waitset cc2 (has_data 0) = [Thr 0]"
  "asleep cc2 (Thr 0)"
proof -
  have w: "waiter (with_cc x) t = \<lparr>signalled = False, removed = False\<rparr>" for x t
    by (simp add: with_cc_def sched.defs cc.defs)
  have t: "tcbs sched2 (Thr 0) \<noteq> None" "state (the (tcbs sched2 (Thr 0))) = INIT"
    by (simp_all add: sched2_def spawn_thread_def sched1_sel Let_def)
  have "sched_inv {} cc2"
    using reachable_inv [OF sched2_reachable]
    by (subst sched_inv_ext [of _ sched2]) (simp_all add: cc2_def with_cc_sel)
  with t show "waits_ok {} cc2" by (auto simp: waits_ok_def cc2_def with_cc_sel w split: if_splits)
  show "\<not> mutexes cc2 (waitset_lock (has_data 0))" "waitset cc2 (has_data 0) = [Thr 0]"
    by (simp_all add: cc2_def with_cc_sel)
  show "asleep cc2 (Thr 0)" using t by (auto simp: asleep_def cc2_def with_cc_sel)
qed

text \<open>
  \<^verbatim>\<open>Cond_Signal\<close> wakes the first waiter that is asleep and no other thread: that waiter
  becomes ready and is marked as signalled, the waiters in front of it, which are awake
  already, are dropped without a signal, and the waiters behind it stay in the ring in order.
\<close>

theorem Cond_Signal_wakes_first:
  assumes "waits_ok sw s" "\<not> mutexes s (waitset_lock cv)"
    "waitset s cv = pre @ t # post" "\<forall>u \<in> set pre. \<not> asleep s u" "asleep s t"
  shows "\<exists>s'. Cond_Signal c cv s = Some s' \<and> waitset s' = (waitset s)(cv := post) \<and>
    \<not> asleep s' t \<and> (\<forall>u. u \<noteq> t \<longrightarrow> tcbs s' u = tcbs s u) \<and>
    signalled (waiter s' t) \<and> (\<forall>u \<in> set pre. removed (waiter s' u) \<and> \<not> signalled (waiter s' u)) \<and>
    (\<forall>u \<in> set post. waiter s' u = waiter s u) \<and> cc.more s' = cc.more s"
proof -
  obtain s1 where s1: "Mutex_Lock (waitset_lock cv) s = Some s1" "sched_inv sw s1" "waitset s1 = waitset s"
    "waiter s1 = waiter s" "tcbs s1 = tcbs s" "asleep s1 = asleep s" "distinct (waitset s1 cv)"
    "\<forall>t \<in> set (waitset s1 cv). tcbs s1 t \<noteq> None" "kernel_sem s1 = kernel_sem s" "cc.more s1 = cc.more s"
    using cv_ring_ready [OF assms(1,2)] by metis
  have dw: "dropWhile (\<lambda>t. \<not> asleep s t) (waitset s cv) = t # post"
    "takeWhile (\<lambda>t. \<not> asleep s t) (waitset s cv) = pre" "find (asleep s) (waitset s cv) = Some t"
    using assms(3-5) by (auto simp: find_split)
  have d: "distinct (pre @ t # post)" using s1(3,7) assms(3) by simp
  obtain s2 where s2: "cv_signal c cv s1 = Some s2" "cc.more s2 = cc.more s1"
    "waitset s2 = (waitset s)(cv := post)" "tcbs s2 = awaken_one (Some t) (tcbs s)"
    "waiter s2 = mark_signalled (Some t) (mark_removed (pre @ [t]) (waiter s))"
    using cv_signal_effect [OF s1(2,8) refl s1(7), of c] by (auto simp: s1 dw)
  have ns: "\<not> signalled (waiter s u)" if "u \<in> set pre" for u
  proof -
    have "u \<in> set (waitset s cv)" using assms(3) that by simp
    then show ?thesis using assms(1) unfolding waits_ok_def by blast
  qed
  have "Cond_Signal c cv s = Some (Mutex_Unlock (waitset_lock cv) s2)"
    using s1(1) s2(1) by (simp add: Cond_Signal_def)
  moreover have "\<not> asleep s2 t" by (auto simp: asleep_def s2 awaken_one_def awaken_def split: option.splits)
  ultimately show ?thesis
    using s2 s1(10) d ns by (auto simp: Mutex_Unlock_def asleep_def awaken_one_def mark_signalled_def mark_removed_def)
qed

theorem Cond_Signal_wakes_first_witness:
  "\<exists>s'. Cond_Signal 0 (has_data 0) cc2 = Some s' \<and> waitset s' (has_data 0) = [] \<and> signalled (waiter s' (Thr 0))"
  using Cond_Signal_wakes_first [OF cc2_facts(1,2), of "[]" "Thr 0" "[]" 0] cc2_facts(3,4) by auto

lemma Cond_Broadcast_effect:
  assumes ok: "waits_ok sw s" and free: "\<not> mutexes s (waitset_lock cv)"
  shows "\<exists>s'. Cond_Broadcast c cv s = Some s' \<and> waits_ok sw s' \<and> waitset s' = (waitset s)(cv := []) \<and>
    mutexes s' = mutexes s \<and> cctx s' = cctx s \<and> kernel_sem s' = kernel_sem s \<and> cc.more s' = cc.more s \<and>
    waiter s' = (\<lambda>t. if t \<in> set (waitset s cv)
       then (waiter s t)\<lparr>signalled := asleep s t, removed := True\<rparr> else waiter s t) \<and>
    tcbs s' = (\<lambda>t. if t \<in> set (waitset s cv) then map_option awaken (tcbs s t) else tcbs s t)"
proof -
  let ?ws = "waitset s cv"
  let ?s1 = "s\<lparr>mutexes := (mutexes s)(waitset_lock cv := True)\<rparr>"
  have inv1: "sched_inv sw ?s1" using ok by (subst sched_inv_cong [of _ s]) (simp_all add: waits_ok_def)
  have a1: "asleep ?s1 = asleep s" by (simp add: fun_eq_iff asleep_def)
  have f1: "waitset ?s1 = waitset s" "waiter ?s1 = waiter s" "tcbs ?s1 = tcbs s" "cctx ?s1 = cctx s"
    "kernel_sem ?s1 = kernel_sem s" "cc.more ?s1 = cc.more s" by simp_all
  have d: "\<forall>t \<in> set (waitset ?s1 cv). tcbs ?s1 t \<noteq> None" "distinct (waitset ?s1 cv)"
    using ok by (auto simp: waits_ok_def)
  obtain s2 where s2: "broadcast_loop c cv ?s1 = Some s2" "sched_inv sw s2" "cctx s2 = cctx s"
    "mutexes s2 = mutexes ?s1" "kernel_sem s2 = kernel_sem s" "cc.more s2 = cc.more s"
    "waitset s2 = (waitset s)(cv := [])"
    and W: "waiter s2 = (\<lambda>t. if t \<in> set ?ws
       then (waiter s t)\<lparr>signalled := signalled (waiter s t) \<or> asleep s t, removed := True\<rparr> else waiter s t)"
    and T: "tcbs s2 = (\<lambda>t. if t \<in> set ?ws then map_option awaken (tcbs s t) else tcbs s t)"
    using broadcast_loop_effect [OF inv1 d, of c] unfolding a1 f1 by blast
  have "\<not> signalled (waiter s t)" if "t \<in> set ?ws" for t
    using ok that unfolding waits_ok_def by blast
  then have W': "waiter s2 = (\<lambda>t. if t \<in> set ?ws
       then (waiter s t)\<lparr>signalled := asleep s t, removed := True\<rparr> else waiter s t)"
    by (auto simp: W)
  let ?s' = "Mutex_Unlock (waitset_lock cv) s2"
  have run: "Cond_Broadcast c cv s = Some ?s'"
    using s2(1) free by (simp add: Cond_Broadcast_def Mutex_Lock_def)
  have "sched_inv sw ?s'" using s2(2) by (subst sched_inv_cong [of _ s2]) (simp_all add: Mutex_Unlock_def)
  moreover have "t \<notin> set ?ws" if "t \<in> set (waitset s cv')" "cv' \<noteq> cv" for t cv'
    using ok that unfolding waits_ok_def by blast
  ultimately have "waits_ok sw ?s'"
    using ok unfolding waits_ok_def by (simp add: Mutex_Unlock_def s2(7) T W)
  moreover have "mutexes ?s' = mutexes s" using s2(4) free by (auto simp: Mutex_Unlock_def fun_eq_iff)
  ultimately show ?thesis using run s2 W' T by (simp add: Mutex_Unlock_def)
qed

text \<open>
  \<^verbatim>\<open>Cond_Broadcast\<close> empties the ring; every waiter that was asleep is awake and marked as
  signalled, every waiter is marked as removed, and no other thread changes.
\<close>

theorem Cond_Broadcast_wakes_all:
  assumes "waits_ok sw s" "\<not> mutexes s (waitset_lock cv)"
  shows "\<exists>s'. Cond_Broadcast c cv s = Some s' \<and> waitset s' = (waitset s)(cv := []) \<and>
    (\<forall>t \<in> set (waitset s cv). \<not> asleep s' t \<and> removed (waiter s' t) \<and>
       (signalled (waiter s' t) \<longleftrightarrow> asleep s t)) \<and>
    (\<forall>t. t \<notin> set (waitset s cv) \<longrightarrow> tcbs s' t = tcbs s t \<and> waiter s' t = waiter s t) \<and>
    cc.more s' = cc.more s"
proof -
  obtain s' where s': "Cond_Broadcast c cv s = Some s'" "waitset s' = (waitset s)(cv := [])" "cc.more s' = cc.more s"
    "waiter s' = (\<lambda>t. if t \<in> set (waitset s cv)
       then (waiter s t)\<lparr>signalled := asleep s t, removed := True\<rparr> else waiter s t)"
    "tcbs s' = (\<lambda>t. if t \<in> set (waitset s cv) then map_option awaken (tcbs s t) else tcbs s t)"
    using Cond_Broadcast_effect [OF assms, of c] by blast
  moreover have "\<not> asleep s' t" if "t \<in> set (waitset s cv)" for t
    using that by (auto simp: asleep_def s'(5) awaken_def split: option.splits)
  ultimately show ?thesis by auto
qed

theorem Cond_Broadcast_wakes_all_witness:
  "\<exists>s'. Cond_Broadcast 0 (has_data 0) cc2 = Some s' \<and> waitset s' (has_data 0) = [] \<and> signalled (waiter s' (Thr 0))"
  using Cond_Broadcast_wakes_all [OF cc2_facts(1,2), of 0] cc2_facts(3,4) by auto

text \<open>
  C16. The kernel lock gives mutual exclusion: at most one thread is inside the kernel, and
  the semaphore is never negative; it is 1 exactly when nobody is inside.
\<close>

theorem kernel_lock_exclusive:
  assumes "kreachable (pc, sw, s)"
  shows "(\<forall>n m. pc n = Inside \<longrightarrow> pc m = Inside \<longrightarrow> n = m) \<and> kernel_sem s \<ge> 0 \<and>
    (kernel_sem s = 1 \<longleftrightarrow> (\<forall>n. pc n \<noteq> Inside))"
  using kreachable_kinv [OF assms] by (auto simp: kinv_def sem_ok_def)

theorem kernel_lock_exclusive_witness:
  "\<exists>(pc :: nat \<Rightarrow> kpc) (s :: cc). pc 0 = Inside \<and> (\<forall>n. pc n = Inside \<longrightarrow> n = 0) \<and> kernel_sem s \<noteq> 1"
proof -
  obtain pc and s :: cc where s: "kreachable (pc, {}, s)" "pc 0 = Inside" using entered_run by blast
  from kernel_lock_exclusive [OF s(1)] s(2) show ?thesis by (intro exI [of _ pc] exI [of _ s]) auto
qed

text \<open>
  The same holds of wakeups, section by section: whenever the semaphore is free and a thread sleeps in the
  queue for it, some thread that waits for the semaphore is awake and will test it next.  The theory
  \<open>Lock_Steps\<close> proves it with the sections taken apart.
\<close>

lemma kernel_lock_sections_wake:
  assumes "kreachable (pc, sw, s)" "pc n = Sem_waiting" "asleep s (Thr n)"
  shows "Thr n \<in> set (waitset s kernel_sem_cv)" "kernel_sem s > 0 \<Longrightarrow> \<exists>m. pc m = Sem_waiting \<and> \<not> asleep s (Thr m)"
  using kreachable_kinv [OF assms(1)] assms(2,3) unfolding kinv_def wait_ok_def no_lost_def by auto

end
