(* ===== verification/Kernel.thy ===== *)
theory Kernel
  imports Kernel_Lock
begin

text \<open>
  The state of the kernel above concurrency control: the process table, threads of processes,
  the file table, and the heap objects behind streams.

  The state extends the scheduler and concurrency-control records, so that a system call that
  signals a condition variable acts on the real ring of waiters and on the scheduler.  Objects
  that the code allocates with \<^verbatim>\<open>malloc\<close> live in one map per type, keyed by address; an address
  that is not in the map is a dangling pointer, and following it is a fault (\<open>None\<close>).
  Addresses are never reused, so that a use after free is always visible.  Lists that the code
  keeps as rings of intrusive nodes are lists of addresses.

  A system call that may block returns \<open>Block cv cause timeout\<close> where the code calls
  \<^verbatim>\<open>kernel_wait\<close> or \<^verbatim>\<open>kernel_timedwait\<close>; what the thread does when the wait returns is a second
  definition.
\<close>

section \<open>Objects\<close>

datatype pid_state = FREE | ALIVE | ZOMBIE

type_synonym Task = nat
type_synonym fcb_ref = nat
type_synonym pid = nat

record PCB =
  pstate :: pid_state
  parent :: "pid option"
  exitval :: int
  main_thread :: "tcb_ref option"
  main_task :: "Task option"
  argl :: int
  args :: "byte list option"
  children_list :: "pid list"
  exited_list :: "pid list"
  FIDT :: "nat \<Rightarrow> fcb_ref option"
  ptcb_list :: "nat list"
  thread_count :: int

record PTCB =
  ptcb_tcb :: tcb_ref
  ptcb_task :: "Task option"
  ptcb_argl :: int
  ptcb_args :: "byte list option"
  ptcb_exitval :: int
  exited :: bool
  detached :: bool
  ptcb_refcount :: int

text \<open>The operation tables of the stream drivers, and the objects that \<^verbatim>\<open>streamobj\<close> points to.\<close>

datatype file_ops =
  nulldev_fops | serial_fops | reader_file_ops | writer_file_ops | socket_file_ops | procinfo_ops

datatype stream_obj = Serial_obj nat | Pipe_obj nat | Socket_obj nat | Info_obj nat

record FCB =
  refcount :: uint32
  streamobj :: "stream_obj option"
  streamfunc :: "file_ops option"

record Pipe_CB =
  reader :: "fcb_ref option"
  writer :: "fcb_ref option"
  w_position :: nat
  r_position :: nat
  BUFFER :: "nat \<Rightarrow> byte"
  used_space :: nat

datatype socket_type = SOCKET_LISTENER | SOCKET_UNBOUND | SOCKET_PEER

record Socket_CB =
  sock_refcount :: uint32
  sock_fcb :: fcb_ref
  sock_type :: socket_type
  sock_port :: int
  sock_queue :: "nat list"
  peer :: "nat option"
  write_pipe :: "nat option"
  read_pipe :: "nat option"

text \<open>
  A request is queued by a node on the stack of the connecting thread; \<open>node_live\<close> is whether
  that stack frame still exists.
\<close>

record connection_request =
  admitted :: bool
  req_peer :: nat
  node_live :: bool

record procinfo =
  info_pid :: int
  info_ppid :: int
  info_alive :: bool
  info_thread_count :: int
  info_main_task :: "Task option"
  info_argl :: int
  info_args :: "byte list"

record PICB =
  info :: procinfo
  cursor :: nat

datatype Device_type = DEV_NULL | DEV_SERIAL

record kernel = cc +
  PT :: "pid \<Rightarrow> PCB"
  pcb_freelist :: "pid option"
  process_count :: uint32
  ptcbs :: "nat \<rightharpoonup> PTCB"
  FT :: "fcb_ref \<Rightarrow> FCB"
  FCB_freelist :: "fcb_ref list"
  pipes :: "nat \<rightharpoonup> Pipe_CB"
  sockets :: "nat \<rightharpoonup> Socket_CB"
  Port_Map :: "nat \<Rightarrow> nat option"
  requests :: "nat \<rightharpoonup> connection_request"
  picbs :: "nat \<rightharpoonup> PICB"
  devnum :: "Device_type \<Rightarrow> nat"
  next_addr :: nat

definition MAX_PROC :: nat where "MAX_PROC = 65536"
definition MAX_FILES :: nat where "MAX_FILES = MAX_PROC"
definition MAX_FILEID :: nat where "MAX_FILEID = 16"
definition NOFILE :: int where "NOFILE = -1"
definition NOPROC :: int where "NOPROC = -1"
definition MAX_PORT :: int where "MAX_PORT = 1023"
definition NOPORT :: int where "NOPORT = 0"
definition PIPE_BUFFER_SIZE :: nat where "PIPE_BUFFER_SIZE = 8192"
definition PROCINFO_MAX_ARGS_SIZE :: nat where "PROCINFO_MAX_ARGS_SIZE = 128"

section \<open>Results\<close>

text \<open>\<open>Yield\<close> is a call of \<^verbatim>\<open>yield\<close> in the middle of a system call.\<close>

datatype 'r outcome = Done 'r | Block cv_ref SCHED_CAUSE TimerDuration | Yield SCHED_CAUSE

section \<open>Access\<close>

text \<open>\<^verbatim>\<open>CURPROC\<close>.\<close>

definition CURPROC :: "nat \<Rightarrow> 'a kernel_scheme \<Rightarrow> pid option" where
  "CURPROC c s = do { t \<leftarrow> cur_thread c s; tc \<leftarrow> tcbs s t; owner_pcb tc }"

definition upd_pcb :: "pid \<Rightarrow> (PCB \<Rightarrow> PCB) \<Rightarrow> 'a kernel_scheme \<Rightarrow> 'a kernel_scheme" where
  "upd_pcb p f s = s\<lparr>PT := (PT s)(p := f (PT s p))\<rparr>"

definition upd_fcb :: "fcb_ref \<Rightarrow> (FCB \<Rightarrow> FCB) \<Rightarrow> 'a kernel_scheme \<Rightarrow> 'a kernel_scheme" where
  "upd_fcb p f s = s\<lparr>FT := (FT s)(p := f (FT s p))\<rparr>"

definition set_FIDT :: "pid \<Rightarrow> nat \<Rightarrow> fcb_ref option \<Rightarrow> 'a kernel_scheme \<Rightarrow> 'a kernel_scheme" where
  "set_FIDT p fid f = upd_pcb p (\<lambda>pcb. pcb\<lparr>FIDT := (FIDT pcb)(fid := f)\<rparr>)"

definition upd_ptcb :: "nat \<Rightarrow> (PTCB \<Rightarrow> PTCB) \<Rightarrow> 'a kernel_scheme \<Rightarrow> 'a kernel_scheme option" where
  "upd_ptcb p f s = do { x \<leftarrow> ptcbs s p; Some (s\<lparr>ptcbs := (ptcbs s)(p \<mapsto> f x)\<rparr>) }"

definition upd_pipe :: "nat \<Rightarrow> (Pipe_CB \<Rightarrow> Pipe_CB) \<Rightarrow> 'a kernel_scheme \<Rightarrow> 'a kernel_scheme option" where
  "upd_pipe p f s = do { x \<leftarrow> pipes s p; Some (s\<lparr>pipes := (pipes s)(p \<mapsto> f x)\<rparr>) }"

definition upd_socket :: "nat \<Rightarrow> (Socket_CB \<Rightarrow> Socket_CB) \<Rightarrow> 'a kernel_scheme \<Rightarrow> 'a kernel_scheme option" where
  "upd_socket p f s = do { x \<leftarrow> sockets s p; Some (s\<lparr>sockets := (sockets s)(p \<mapsto> f x)\<rparr>) }"

text \<open>The assignment of \<^verbatim>\<open>COND_INIT\<close>, and a fresh address.\<close>

definition cond_init :: "cv_ref \<Rightarrow> 'a cc_scheme \<Rightarrow> 'a cc_scheme" where
  "cond_init cv s = s\<lparr>waitset := (waitset s)(cv := []), mutexes := (mutexes s)(waitset_lock cv := False)\<rparr>"

definition xmalloc :: "'a kernel_scheme \<Rightarrow> nat \<times> 'a kernel_scheme" where
  "xmalloc s = (next_addr s, s\<lparr>next_addr := next_addr s + 1\<rparr>)"

section \<open>What concurrency control leaves alone\<close>

lemma more_kernel:
  assumes "cc.more s' = cc.more (s :: 'a kernel_scheme)"
  shows "PT s' = PT s" "pcb_freelist s' = pcb_freelist s" "process_count s' = process_count s"
    "ptcbs s' = ptcbs s" "FT s' = FT s" "FCB_freelist s' = FCB_freelist s" "pipes s' = pipes s"
    "sockets s' = sockets s" "Port_Map s' = Port_Map s" "requests s' = requests s" "picbs s' = picbs s"
    "devnum s' = devnum s" "next_addr s' = next_addr s" "kernel.more s' = kernel.more s"
  using assms by (cases s rule: kernel.cases_scheme; cases s' rule: kernel.cases_scheme; simp)+

text \<open>
  What a signal or a broadcast may change: the states of threads, the rings of waiters and the
  machine.  Everything that the rest of the kernel reads is kept.
\<close>

definition kframe :: "'a cc_scheme \<Rightarrow> 'a cc_scheme \<Rightarrow> bool" where
  "kframe s s' \<longleftrightarrow> cc.more s' = cc.more s \<and> cctx s' = cctx s \<and> next_tcb s' = next_tcb s \<and>
     (\<forall>t. map_option owner_pcb (tcbs s' t) = map_option owner_pcb (tcbs s t)) \<and>
     (\<forall>t. map_option owner_ptcb (tcbs s' t) = map_option owner_ptcb (tcbs s t))"

lemma kframe_refl [simp]: "kframe s s" by (simp add: kframe_def)
lemma kframe_trans [trans]: "kframe s s' \<Longrightarrow> kframe s' s'' \<Longrightarrow> kframe s s''" by (simp add: kframe_def)

lemma kframe_CURPROC:
  assumes "kframe s s'"
  shows "CURPROC c s' = CURPROC c s"
proof -
  have "cur_thread c s' = cur_thread c s" using assms by (simp add: kframe_def cur_thread_def)
  moreover have "(do { tc \<leftarrow> tcbs s' t; owner_pcb tc }) = (do { tc \<leftarrow> tcbs s t; owner_pcb tc })" for t
  proof -
    have "map_option owner_pcb (tcbs s' t) = map_option owner_pcb (tcbs s t)" using assms by (simp add: kframe_def)
    then show ?thesis by (cases "tcbs s' t"; cases "tcbs s t") auto
  qed
  ultimately show ?thesis unfolding CURPROC_def by simp
qed

text \<open>The kernel is quiet when the rings are in order and no ring is locked.\<close>

definition quiet :: "nat set \<Rightarrow> 'a cc_scheme \<Rightarrow> bool" where
  "quiet sw s \<longleftrightarrow> waits_ok sw s \<and> (\<forall>cv. \<not> mutexes s (waitset_lock cv))"

lemma owner_awaken [simp]: "owner_pcb (awaken tc) = owner_pcb tc" "owner_ptcb (awaken tc) = owner_ptcb tc"
  by (simp_all add: awaken_def)

lemma quiet_cong:
  fixes s s' :: "'a cc_scheme"
  assumes "tcbs s' = tcbs s" "SCHED s' = SCHED s" "TIMEOUT_LIST s' = TIMEOUT_LIST s" "cctx s' = cctx s"
    "active_threads s' = active_threads s" "next_tcb s' = next_tcb s" "waitset s' = waitset s"
    "waiter s' = waiter s" "mutexes s' = mutexes s"
  shows "quiet sw s' = quiet sw s"
  unfolding quiet_def waits_ok_cong [OF assms(1-8)] assms(9) ..

lemma quiet_kernel_fields [simp]:
  fixes s :: "'a kernel_scheme"
  shows "quiet sw (s\<lparr>PT := x1\<rparr>) = quiet sw s" "quiet sw (s\<lparr>pcb_freelist := x2\<rparr>) = quiet sw s"
    "quiet sw (s\<lparr>process_count := x3\<rparr>) = quiet sw s" "quiet sw (s\<lparr>ptcbs := x4\<rparr>) = quiet sw s"
    "quiet sw (s\<lparr>FT := x5\<rparr>) = quiet sw s" "quiet sw (s\<lparr>FCB_freelist := x6\<rparr>) = quiet sw s"
    "quiet sw (s\<lparr>pipes := x7\<rparr>) = quiet sw s" "quiet sw (s\<lparr>sockets := x8\<rparr>) = quiet sw s"
    "quiet sw (s\<lparr>Port_Map := x9\<rparr>) = quiet sw s" "quiet sw (s\<lparr>requests := x10\<rparr>) = quiet sw s"
    "quiet sw (s\<lparr>picbs := x11\<rparr>) = quiet sw s" "quiet sw (s\<lparr>devnum := x12\<rparr>) = quiet sw s"
    "quiet sw (s\<lparr>next_addr := x13\<rparr>) = quiet sw s"
  by (rule quiet_cong; simp)+

lemma CURPROC_fields [simp]:
  fixes s :: "'a kernel_scheme"
  shows "CURPROC c (s\<lparr>PT := x1\<rparr>) = CURPROC c s" "CURPROC c (s\<lparr>pcb_freelist := x2\<rparr>) = CURPROC c s"
    "CURPROC c (s\<lparr>process_count := x3\<rparr>) = CURPROC c s" "CURPROC c (s\<lparr>ptcbs := x4\<rparr>) = CURPROC c s"
    "CURPROC c (s\<lparr>FT := x5\<rparr>) = CURPROC c s" "CURPROC c (s\<lparr>FCB_freelist := x6\<rparr>) = CURPROC c s"
    "CURPROC c (s\<lparr>pipes := x7\<rparr>) = CURPROC c s" "CURPROC c (s\<lparr>sockets := x8\<rparr>) = CURPROC c s"
    "CURPROC c (s\<lparr>Port_Map := x9\<rparr>) = CURPROC c s" "CURPROC c (s\<lparr>requests := x10\<rparr>) = CURPROC c s"
    "CURPROC c (s\<lparr>picbs := x11\<rparr>) = CURPROC c s" "CURPROC c (s\<lparr>devnum := x12\<rparr>) = CURPROC c s"
    "CURPROC c (s\<lparr>next_addr := x13\<rparr>) = CURPROC c s" "CURPROC c (s\<lparr>waitset := x14\<rparr>) = CURPROC c s"
    "CURPROC c (s\<lparr>mutexes := x15\<rparr>) = CURPROC c s"
  by (simp_all add: CURPROC_def cur_thread_def)

text \<open>The threads that wait on a condition variable are woken up, and nobody else.\<close>

definition woken :: "cv_ref \<Rightarrow> 'a cc_scheme \<Rightarrow> 'a cc_scheme \<Rightarrow> bool" where
  "woken cv s s' \<longleftrightarrow> waitset s' = (waitset s)(cv := []) \<and>
     (\<forall>t \<in> set (waitset s cv). \<not> asleep s' t) \<and>
     (\<forall>t. t \<notin> set (waitset s cv) \<longrightarrow> tcbs s' t = tcbs s t)"

text \<open>In any state, a signal or a broadcast that ends keeps to its frame.\<close>

lemma wakeup_owners:
  assumes "wakeup c t s = Some (r, s')"
  shows "cctx s' = cctx s \<and> next_tcb s' = next_tcb s \<and> (\<forall>t. map_option owner_pcb (tcbs s' t) = map_option owner_pcb (tcbs s t)) \<and>
     (\<forall>t. map_option owner_ptcb (tcbs s' t) = map_option owner_ptcb (tcbs s t))"
  using assms
  by (auto simp: wakeup_def split_beta Let_def sched_make_ready_def upd_tcb_def sched_queue_add_def sched_node_remove_def
     split: if_splits option.splits)

lemma wakeup_kframe:
  fixes s s' :: "'a cc_scheme"
  shows "wakeup c t s = Some (r, s') \<Longrightarrow> kframe s s'"
  using wakeup_owners [of c t s r s'] frame_wakeup [of c t s r s'] more_cc(4) [of s' s] by (simp add: kframe_def frame_def)

lemma kframe_ring [simp]:
  "kframe (remove_from_ring cv w s) s' = kframe s s'" "kframe (s\<lparr>waiter := W\<rparr>) s' = kframe s s'"
  "kframe s (s'\<lparr>waiter := W\<rparr>) = kframe s s'" "kframe (s\<lparr>mutexes := M\<rparr>) s' = kframe s s'"
  "kframe s (Mutex_Unlock m s') = kframe s s'" "kframe s (s'\<lparr>mutexes := M\<rparr>) = kframe s s'"
  "kframe s (s'\<lparr>waitset := V\<rparr>) = kframe s s'"
  by (simp_all add: kframe_def remove_from_ring_def Mutex_Unlock_def)

lemma cv_signal_kframe: "cv_signal c cv s = Some s' \<Longrightarrow> kframe s s'"
proof (rule cv_signal.raw_induct [of "\<lambda>c cv s s'. kframe s s'"])
  fix f :: "nat \<Rightarrow> cv_ref \<Rightarrow> 'a cc_scheme \<Rightarrow> 'a cc_scheme option" and c cv s s'
  assume ih: "\<And>c cv s s'. f c cv s = Some s' \<Longrightarrow> kframe s s'"
  assume b: "(case waitset s cv of
        [] \<Rightarrow> Some s
      | w # _ \<Rightarrow>
          do { let s1 = remove_from_ring cv w s;
               let s2 = s1\<lparr>waiter := (waiter s1)(w := (waiter s1 w)\<lparr>removed := True\<rparr>)\<rparr>;
               (woken, s3) \<leftarrow> wakeup c w s2;
               if woken
               then Some (s3\<lparr>waiter := (waiter s3)(w := (waiter s3 w)\<lparr>signalled := True\<rparr>)\<rparr>)
               else f c cv s3 }) = Some s'"
  show "kframe s s'"
  proof (cases "waitset s cv")
    case (Cons w ws)
    let ?s1 = "remove_from_ring cv w s"
    let ?s2 = "?s1\<lparr>waiter := (waiter ?s1)(w := (waiter ?s1 w)\<lparr>removed := True\<rparr>)\<rparr>"
    from b Cons obtain r s3 where s3: "wakeup c w ?s2 = Some (r, s3)"
      "if r then s' = s3\<lparr>waiter := (waiter s3)(w := (waiter s3 w)\<lparr>signalled := True\<rparr>)\<rparr> else f c cv s3 = Some s'"
      by (auto simp: Let_def split: option.splits if_splits bind_splits)
    have "kframe s s3" using wakeup_kframe [OF s3(1)] by simp
    with s3(2) ih [of c cv s3 s'] kframe_trans show ?thesis by (auto split: if_splits)
  qed (use b in simp)
qed

lemma broadcast_loop_kframe: "broadcast_loop c cv s = Some s' \<Longrightarrow> kframe s s'"
proof (rule broadcast_loop.raw_induct [of "\<lambda>c cv s s'. kframe s s'"])
  fix f :: "nat \<Rightarrow> cv_ref \<Rightarrow> 'a cc_scheme \<Rightarrow> 'a cc_scheme option" and c cv s s'
  assume ih: "\<And>c cv s s'. f c cv s = Some s' \<Longrightarrow> kframe s s'"
    and b: "(if waitset s cv = [] then Some s else do { s1 \<leftarrow> cv_signal c cv s; f c cv s1 }) = Some s'"
  then show "kframe s s'"
    by (auto split: if_splits bind_splits dest!: cv_signal_kframe intro: kframe_trans)
qed

lemma kernel_signal_kframe:
  fixes s s' :: "'a cc_scheme"
  shows "kernel_signal c cv s = Some s' \<Longrightarrow> kframe s s'"
  by (auto simp: kernel_signal_def Cond_Signal_def Mutex_Lock_def split: if_splits bind_splits dest!: cv_signal_kframe)

lemma kernel_broadcast_kframe:
  fixes s s' :: "'a cc_scheme"
  shows "kernel_broadcast c cv s = Some s' \<Longrightarrow> kframe s s'"
  by (auto simp: kernel_broadcast_def Cond_Broadcast_def Mutex_Lock_def split: if_splits bind_splits dest!: broadcast_loop_kframe)


lemma kernel_broadcast_quiet:
  assumes "quiet sw s"
  shows "\<exists>s'. kernel_broadcast c cv s = Some s' \<and> quiet sw s' \<and> kframe s s' \<and> woken cv s s'"
proof -
  obtain s' where s': "Cond_Broadcast c cv s = Some s'" "waits_ok sw s'" "mutexes s' = mutexes s" "cctx s' = cctx s"
    "cc.more s' = cc.more s" "waitset s' = (waitset s)(cv := [])"
    "tcbs s' = (\<lambda>t. if t \<in> set (waitset s cv) then map_option awaken (tcbs s t) else tcbs s t)"
    using Cond_Broadcast_effect [of sw s cv c] assms unfolding quiet_def by blast
  moreover have "kframe s s'" using s'(1) kernel_broadcast_kframe [of c cv s s'] by (simp add: kernel_broadcast_def)
  moreover have "\<not> asleep s' t" if "t \<in> set (waitset s cv)" for t
    using that by (auto simp: asleep_def s'(7) awaken_def split: option.splits)
  ultimately show ?thesis using assms by (simp add: kernel_broadcast_def quiet_def woken_def)
qed

lemma kernel_signal_quiet:
  assumes "quiet sw s"
  shows "\<exists>s'. kernel_signal c cv s = Some s' \<and> quiet sw s' \<and> kframe s s' \<and>
     (\<forall>cv'. cv' \<noteq> cv \<longrightarrow> waitset s' cv' = waitset s cv') \<and>
     asleep s' = (\<lambda>t. asleep s t \<and> find (asleep s) (waitset s cv) \<noteq> Some t)"
proof -
  have ok: "waits_ok sw s" "\<not> mutexes s (waitset_lock cv)" using assms by (simp_all add: quiet_def)
  let ?s1 = "s\<lparr>mutexes := (mutexes s)(waitset_lock cv := True)\<rparr>"
  have inv1: "sched_inv sw ?s1" using ok(1) by (subst sched_inv_cong [of _ s]) (auto simp: waits_ok_def)
  have d: "distinct (waitset s cv)" "\<forall>t \<in> set (waitset s cv). tcbs ?s1 t \<noteq> None" "waitset ?s1 cv = waitset s cv"
    using ok(1) by (auto simp: waits_ok_def)
  obtain s2 where s2: "cv_signal c cv ?s1 = Some s2" "mutexes s2 = mutexes ?s1"
    using cv_signal_effect [OF inv1 d(2,3,1), of c] by blast
  let ?s' = "Mutex_Unlock (waitset_lock cv) s2"
  have eq: "Cond_Signal c cv s = Some ?s'" using s2(1) ok(2) by (simp add: Cond_Signal_def Mutex_Lock_def)
  have "mutexes ?s' = mutexes s" using s2(2) ok(2) by (auto simp: Mutex_Unlock_def fun_eq_iff)
  with Cond_Signal_effect [OF ok(1) eq] eq assms kernel_signal_kframe [of c cv s ?s']
  show ?thesis by (auto simp: kernel_signal_def quiet_def)
qed

lemma quiet_cond_init: "quiet sw s \<Longrightarrow> quiet sw (cond_init cv s)"
  unfolding quiet_def waits_ok_def
  by (subst sched_inv_cong [of _ s]) (auto simp: cond_init_def split: if_splits)

section \<open>Concrete states\<close>

text \<open>The static data of the kernel before it is initialised.\<close>

definition zero_PCB :: PCB where
  "zero_PCB = \<lparr>pstate = FREE, parent = None, exitval = 0, main_thread = None, main_task = None,
     argl = 0, args = None, children_list = [], exited_list = [], FIDT = (\<lambda>_. None),
     ptcb_list = [], thread_count = 0\<rparr>"

definition with_kernel :: "cc \<Rightarrow> kernel" where
  "with_kernel s = cc.extend s (kernel.fields (\<lambda>_. zero_PCB) None 0 Map.empty
     (\<lambda>_. \<lparr>refcount = 0, streamobj = None, streamfunc = None\<rparr>) [] Map.empty Map.empty (\<lambda>_. None)
     Map.empty Map.empty (\<lambda>_. 0) 0)"

lemma with_kernel_sel [simp]:
  "tcbs (with_kernel s) = tcbs s" "SCHED (with_kernel s) = SCHED s"
  "TIMEOUT_LIST (with_kernel s) = TIMEOUT_LIST s" "cctx (with_kernel s) = cctx s"
  "active_threads (with_kernel s) = active_threads s" "next_tcb (with_kernel s) = next_tcb s"
  "waitset (with_kernel s) = waitset s" "waiter (with_kernel s) = waiter s"
  "mutexes (with_kernel s) = mutexes s" "pipes (with_kernel s) = Map.empty"
  "PT (with_kernel s) = (\<lambda>_. zero_PCB)" "FCB_freelist (with_kernel s) = []"
  "FT (with_kernel s) = (\<lambda>_. \<lparr>refcount = 0, streamobj = None, streamfunc = None\<rparr>)"
  "next_addr (with_kernel s) = 0" "sockets (with_kernel s) = Map.empty" "ptcbs (with_kernel s) = Map.empty"
  "picbs (with_kernel s) = Map.empty" "requests (with_kernel s) = Map.empty"
  "Port_Map (with_kernel s) = (\<lambda>_. None)" "process_count (with_kernel s) = 0" "pcb_freelist (with_kernel s) = None"
  by (simp_all add: with_kernel_def cc.defs kernel.defs)

lemma waits_ok_with_kernel: "waits_ok sw (with_kernel s) = waits_ok sw s"
  by (simp add: waits_ok_def sched_inv_ext [of "with_kernel s" s])

text \<open>
  A kernel where core 0 runs thread 0 of process 2, and thread 1 of that process waits for
  data of pipe 0.
\<close>

definition thread_of :: "tcb_ref \<Rightarrow> nat \<Rightarrow> Thread_state \<Rightarrow> Thread_phase \<Rightarrow> TCB" where
  "thread_of t pt st ph = \<lparr>owner_pcb = (case t of IdleT _ \<Rightarrow> Some 0 | Thr _ \<Rightarrow> Some 2),
     owner_ptcb = (case t of IdleT _ \<Rightarrow> None | Thr _ \<Rightarrow> Some pt),
     ttype = (case t of IdleT _ \<Rightarrow> IDLE_THREAD | Thr _ \<Rightarrow> NORMAL_THREAD), state = st, phase = ph,
     thread_func = None, wakeup_time = NO_TIMEOUT, its = QUANTUM, rts = QUANTUM, curr_cause = SCHED_IDLE,
     last_cause = SCHED_IDLE, priority = 2\<rparr>"

definition sched7 :: sched where
  "sched7 = sched0\<lparr>tcbs := [IdleT 0 \<mapsto> thread_of (IdleT 0) 0 READY CTX_CLEAN,
       Thr 0 \<mapsto> thread_of (Thr 0) 0 RUNNING CTX_DIRTY, Thr 1 \<mapsto> thread_of (Thr 1) 1 STOPPED CTX_CLEAN],
     cctx := (cctx sched0)(0 := \<lparr>current_thread = Some (Thr 0), previous_thread = Some (Thr 0)\<rparr>),
     active_threads := 2, next_tcb := 2\<rparr>"

definition kernel_waiting :: "cv_ref \<Rightarrow> kernel" where
  "kernel_waiting cv = (with_kernel (with_cc sched7))\<lparr>waitset := (\<lambda>_. [])(cv := [Thr 1])\<rparr>"

definition kernel2 :: kernel where
  "kernel2 = kernel_waiting (has_data 0)"

lemma sched7_inv: "sched_inv {} sched7"
proof -
  have "{n. tcbs sched7 (Thr n) \<noteq> None} = {0, 1}" by (auto simp: sched7_def)
  then have "c_ok (tcbs sched7) (active_threads sched7) (next_tcb sched7)"
    unfolding c_ok_def by (auto simp: sched7_def)
  then show ?thesis
    unfolding sched_inv_def
    by (auto simp: ok_defs holder_def incoming_def queueable_def wk_def sched7_def sched0_sel thread_of_def
        PRIORITY_QUEUES_def split: if_splits)
qed

lemma kernel_waiting_quiet: "quiet {} (kernel_waiting cv)"
proof -
  have "sched_inv {} (kernel_waiting cv)"
    using sched7_inv by (subst sched_inv_ext [of _ sched7]) (simp_all add: kernel_waiting_def with_cc_sel)
  moreover have "waiter (with_cc x) t = \<lparr>signalled = False, removed = False\<rparr>" for x t
    by (simp add: with_cc_def sched.defs cc.defs)
  ultimately show ?thesis
    by (auto simp: quiet_def waits_ok_def kernel_waiting_def with_cc_sel sched7_def split: if_splits)
qed

lemma kernel_waiting_sel:
  "CURPROC c (kernel_waiting cv) = (if c = 0 then Some 2 else None)" "cur_thread 0 (kernel_waiting cv) = Some (Thr 0)"
  "tcbs (kernel_waiting cv) = tcbs sched7" "PT (kernel_waiting cv) = (\<lambda>_. zero_PCB)" "FCB_freelist (kernel_waiting cv) = []"
  "FT (kernel_waiting cv) = (\<lambda>_. \<lparr>refcount = 0, streamobj = None, streamfunc = None\<rparr>)" "pipes (kernel_waiting cv) = Map.empty"
  "waitset (kernel_waiting cv) = (\<lambda>_. [])(cv := [Thr 1])" "picbs (kernel_waiting cv) = Map.empty"
  "ptcbs (kernel_waiting cv) = Map.empty" "next_addr (kernel_waiting cv) = 0" "sockets (kernel_waiting cv) = Map.empty"
  "requests (kernel_waiting cv) = Map.empty" "Port_Map (kernel_waiting cv) = (\<lambda>_. None)"
  by (simp_all add: kernel_waiting_def CURPROC_def cur_thread_def with_cc_sel sched7_def sched0_sel thread_of_def)

lemmas kernel2_quiet = kernel_waiting_quiet [of "has_data 0", folded kernel2_def]
lemmas kernel2_sel = kernel_waiting_sel [where cv = "has_data 0", folded kernel2_def]

end
