(* ===== verification/Files.thy ===== *)
theory Files
  imports Kernel
begin

text \<open>
  The file table, the first half of \<^verbatim>\<open>kernel_streams.c\<close>: the pool of file control blocks, their
  reference counts, and the reservation of file ids and blocks for a new stream.

  The invariant \<open>files_inv\<close> counts references: a block that is not in the free list has as many
  references as file ids that name it, plus the system calls that hold it (\<open>pins\<close>).
\<close>

section \<open>The pool\<close>

definition initialize_files :: "'a kernel_scheme \<Rightarrow> 'a kernel_scheme" where
  "initialize_files s =
     fold (\<lambda>i s. upd_fcb i (\<lambda>f. f\<lparr>refcount := 0\<rparr>) (s\<lparr>FCB_freelist := FCB_freelist s @ [i]\<rparr>))
       [0..<MAX_FILES] (s\<lparr>FCB_freelist := []\<rparr>)"

definition acquire_FCB :: "'a kernel_scheme \<Rightarrow> fcb_ref option \<times> 'a kernel_scheme" where
  "acquire_FCB s =
     (case FCB_freelist s of
        [] \<Rightarrow> (None, s)
      | f # fs \<Rightarrow> (Some f, upd_fcb f (\<lambda>x. x\<lparr>refcount := 0\<rparr>) (s\<lparr>FCB_freelist := fs\<rparr>)))"

definition release_FCB :: "fcb_ref \<Rightarrow> 'a kernel_scheme \<Rightarrow> 'a kernel_scheme" where
  "release_FCB f s = s\<lparr>FCB_freelist := FCB_freelist s @ [f]\<rparr>"

definition FCB_incref :: "fcb_ref \<Rightarrow> 'a kernel_scheme \<Rightarrow> 'a kernel_scheme" where
  "FCB_incref f = upd_fcb f (\<lambda>x. x\<lparr>refcount := refcount x + 1\<rparr>)"

section \<open>Reservation\<close>

text \<open>The inner loop of the search for file ids: the first free one from \<open>f\<close> on.\<close>

function next_fid :: "(nat \<Rightarrow> fcb_ref option) \<Rightarrow> nat \<Rightarrow> nat" where
  "next_fid T f = (if f < MAX_FILEID \<and> T f \<noteq> None then next_fid T (f + 1) else f)"
  by auto
termination by (relation "measure (\<lambda>(T, f). MAX_FILEID - f)") auto

declare next_fid.simps [simp del]

fun find_fids :: "nat \<Rightarrow> (nat \<Rightarrow> fcb_ref option) \<Rightarrow> nat \<Rightarrow> nat list option" where
  "find_fids 0 T f = Some []"
| "find_fids (Suc num) T f =
     (let f' = next_fid T f in
      if f' = MAX_FILEID then None
      else do { fids \<leftarrow> find_fids num T (f' + 1); Some (f' # fids) })"

text \<open>The allocation loop, which stops at the first failure, and the roll back.\<close>

fun acquire_FCBs :: "nat \<Rightarrow> 'a kernel_scheme \<Rightarrow> fcb_ref list \<times> 'a kernel_scheme" where
  "acquire_FCBs 0 s = ([], s)"
| "acquire_FCBs (Suc num) s =
     (case acquire_FCB s of
        (None, s1) \<Rightarrow> ([], s1)
      | (Some f, s1) \<Rightarrow> let (fs, s2) = acquire_FCBs num s1 in (f # fs, s2))"

fun install_FCBs :: "pid \<Rightarrow> (nat \<times> fcb_ref) list \<Rightarrow> 'a kernel_scheme \<Rightarrow> 'a kernel_scheme" where
  "install_FCBs p [] s = s"
| "install_FCBs p ((fid, f) # xs) s = install_FCBs p xs (FCB_incref f (set_FIDT p fid (Some f) s))"

definition FCB_reserve :: "nat \<Rightarrow> nat \<Rightarrow> 'a kernel_scheme \<Rightarrow>
  ((nat list \<times> fcb_ref list) option \<times> 'a kernel_scheme) option" where
  "FCB_reserve c num s =
     do { p \<leftarrow> CURPROC c s;
          case find_fids num (FIDT (PT s p)) 0 of
            None \<Rightarrow> Some (None, s)
          | Some fids \<Rightarrow>
              let (fcbs, s1) = acquire_FCBs num s in
              if length fcbs < num then Some (None, fold release_FCB (rev fcbs) s1)
              else Some (Some (fids, fcbs), install_FCBs p (zip fids fcbs) s1) }"

fun unreserve_loop :: "pid \<Rightarrow> (nat \<times> fcb_ref) list \<Rightarrow> 'a kernel_scheme \<Rightarrow> 'a kernel_scheme option" where
  "unreserve_loop p [] s = Some s"
| "unreserve_loop p ((fid, f) # xs) s =
     (if FIDT (PT s p) fid = Some f
      then unreserve_loop p xs (release_FCB f (set_FIDT p fid None s)) else None)"

definition FCB_unreserve :: "nat \<Rightarrow> nat list \<Rightarrow> fcb_ref list \<Rightarrow> 'a kernel_scheme \<Rightarrow> 'a kernel_scheme option" where
  "FCB_unreserve c fids fcbs s = do { p \<leftarrow> CURPROC c s; unreserve_loop p (zip fids fcbs) s }"

text \<open>\<open>get_fcb\<close>: the outer option is the fault of a core without a process, the inner one \<^verbatim>\<open>NULL\<close>.\<close>

definition get_fcb :: "nat \<Rightarrow> int \<Rightarrow> 'a kernel_scheme \<Rightarrow> fcb_ref option option" where
  "get_fcb c fid s =
     (if fid < 0 \<or> fid \<ge> int MAX_FILEID then Some None
      else do { p \<leftarrow> CURPROC c s; Some (FIDT (PT s p) (nat fid)) })"

section \<open>Counting references\<close>

definition refs :: "fcb_ref \<Rightarrow> 'a kernel_scheme \<Rightarrow> (pid \<times> nat) set" where
  "refs f s = {(p, fid). FIDT (PT s p) fid = Some f}"

definition fidt_ok :: "'a kernel_scheme \<Rightarrow> bool" where
  "fidt_ok s \<longleftrightarrow> (\<forall>p fid f. FIDT (PT s p) fid = Some f \<longrightarrow> p < MAX_PROC \<and> fid < MAX_FILEID \<and> f < MAX_FILES)"

text \<open>
  The references that a block should count.  While a file id is being replaced, a block may be
  counted and not named or named and not counted, and \<open>pins\<close> makes up for the difference; \<open>L\<close>
  holds the blocks that are taken from the free list and not used yet.
\<close>

definition held :: "(fcb_ref \<Rightarrow> int) \<Rightarrow> fcb_ref \<Rightarrow> 'a kernel_scheme \<Rightarrow> int" where
  "held pins f s = int (card (refs f s)) + pins f"

definition files_inv :: "fcb_ref set \<Rightarrow> (fcb_ref \<Rightarrow> int) \<Rightarrow> 'a kernel_scheme \<Rightarrow> bool" where
  "files_inv L pins s \<longleftrightarrow> fidt_ok s \<and> distinct (FCB_freelist s) \<and> set (FCB_freelist s) \<union> L \<subseteq> {..<MAX_FILES} \<and>
     set (FCB_freelist s) \<inter> L = {} \<and>
     (\<forall>f < MAX_FILES. 0 \<le> held pins f s \<and> held pins f s < 2 ^ 32 \<and>
        (f \<notin> set (FCB_freelist s) \<longrightarrow> refcount (FT s f) = of_int (held pins f s)) \<and>
        (f \<in> set (FCB_freelist s) \<union> L \<longleftrightarrow> held pins f s = 0))"

lemma finite_refs:
  assumes "fidt_ok s"
  shows "finite (refs f s)" and "card (refs f s) \<le> MAX_PROC * MAX_FILEID"
proof -
  have sub: "refs f s \<subseteq> {..<MAX_PROC} \<times> {..<MAX_FILEID}" using assms by (auto simp: refs_def fidt_ok_def)
  then show "finite (refs f s)" by (rule finite_subset) simp
  show "card (refs f s) \<le> MAX_PROC * MAX_FILEID" using card_mono [OF _ sub] by (simp add: card_cartesian_product)
qed

lemma refs_set_FIDT:
  "refs f (set_FIDT p fid v s) =
     (if v = Some f then insert (p, fid) (refs f s) else refs f s - {(p, fid)})"
  by (auto simp: refs_def set_FIDT_def upd_pcb_def split: if_splits)

lemma refs_other [simp]:
  "refs f (s\<lparr>FCB_freelist := x\<rparr>) = refs f s" "refs f (upd_fcb g h s) = refs f s"
  "refs f (s\<lparr>FT := y\<rparr>) = refs f s" "refs f (s\<lparr>pipes := z\<rparr>) = refs f s"
  by (simp_all add: refs_def upd_fcb_def)

lemma held_other [simp]:
  "held pins f (s\<lparr>FCB_freelist := x\<rparr>) = held pins f s" "held pins f (upd_fcb g h s) = held pins f s"
  "held pins f (s\<lparr>FT := y\<rparr>) = held pins f s" "held pins f (s\<lparr>pipes := z\<rparr>) = held pins f s"
  by (simp_all add: held_def)

lemma fidt_ok_other [simp]:
  "fidt_ok (s\<lparr>FCB_freelist := x\<rparr>) = fidt_ok s" "fidt_ok (upd_fcb g h s) = fidt_ok s"
  "fidt_ok (s\<lparr>FT := y\<rparr>) = fidt_ok s" "fidt_ok (s\<lparr>pipes := z\<rparr>) = fidt_ok s"
  by (simp_all add: fidt_ok_def upd_fcb_def)

text \<open>The word counter never wraps: it is the number of references.\<close>

lemma refcount_exact:
  assumes "files_inv L pins s" "f < MAX_FILES" "f \<notin> set (FCB_freelist s)"
  shows "int (unat (refcount (FT s f))) = held pins f s"
proof -
  have "uint (of_int (held pins f s) :: uint32) = held pins f s"
    using assms by (simp add: files_inv_def uint_word_of_int take_bit_int_eq_self)
  with assms show ?thesis by (simp add: files_inv_def)
qed

text \<open>Replacing the entry of a file id moves references from the table to \<open>pins\<close> and back.\<close>

definition repin :: "fcb_ref option \<Rightarrow> fcb_ref option \<Rightarrow> (fcb_ref \<Rightarrow> int) \<Rightarrow> fcb_ref \<Rightarrow> int" where
  "repin old new pins f = pins f + (if old = Some f then 1 else 0) - (if new = Some f then 1 else 0)"

lemma held_set_FIDT:
  assumes "fidt_ok s"
  shows "held (repin (FIDT (PT s p) fid) v pins) f (set_FIDT p fid v s) = held pins f s"
proof -
  note fin = finite_refs(1) [OF assms, of f]
  have mem: "(p, fid) \<in> refs f s \<longleftrightarrow> FIDT (PT s p) fid = Some f" by (simp add: refs_def)
  have "card (refs f s - {(p, fid)}) + 1 = card (refs f s)" if "FIDT (PT s p) fid = Some f"
    using that mem fin card_gt_0_iff [of "refs f s"] by auto
  then show ?thesis
    using mem fin by (auto simp: held_def refs_set_FIDT repin_def insert_absorb)
qed

lemma files_inv_set_FIDT:
  assumes "files_inv L pins s" "v \<noteq> None \<longrightarrow> p < MAX_PROC \<and> fid < MAX_FILEID \<and> the v < MAX_FILES"
  shows "files_inv L (repin (FIDT (PT s p) fid) v pins) (set_FIDT p fid v s)"
proof -
  have ok: "fidt_ok s" using assms(1) by (simp add: files_inv_def)
  have "fidt_ok (set_FIDT p fid v s)"
    using ok assms(2) by (auto simp: fidt_ok_def set_FIDT_def upd_pcb_def split: if_splits)
  moreover have "FT (set_FIDT p fid v s) = FT s" "FCB_freelist (set_FIDT p fid v s) = FCB_freelist s"
    by (simp_all add: set_FIDT_def upd_pcb_def)
  ultimately show ?thesis using assms(1) by (simp add: files_inv_def held_set_FIDT [OF ok])
qed

lemma files_inv_incref:
  assumes "files_inv L pins s" "f < MAX_FILES" "f \<notin> set (FCB_freelist s)" "held pins f s + 1 < 2 ^ 32"
  shows "files_inv (L - {f}) (pins(f := pins f + 1)) (FCB_incref f s)"
proof -
  have h: "held (pins(f := pins f + 1)) g s = held pins g s + (if g = f then 1 else 0)" for g
    by (simp add: held_def)
  have "0 \<le> held pins f s" "refcount (FT s f) = of_int (held pins f s)" using assms(1-3) by (simp_all add: files_inv_def)
  then show ?thesis using assms
    unfolding files_inv_def FCB_incref_def held_other h fidt_ok_other
    by (auto simp: upd_fcb_def)
qed

text \<open>Dropping a reference of a block that has others.\<close>

lemma files_inv_decref:
  assumes "files_inv L pins s" "f < MAX_FILES" "held pins f s > 0"
  shows "files_inv (if held pins f s = 1 then insert f L else L) (pins(f := pins f - 1))
     (upd_fcb f (\<lambda>x. x\<lparr>refcount := refcount x - 1\<rparr>) s)"
proof -
  have h: "held (pins(f := pins f - 1)) g s = held pins g s - (if g = f then 1 else 0)" for g
    by (simp add: held_def)
  have nf: "f \<notin> set (FCB_freelist s) \<union> L" "held pins f s < 2 ^ 32"
    using assms by (auto simp: files_inv_def)
  then have "refcount (FT s f) = of_int (held pins f s)" using assms(1,2) by (simp add: files_inv_def)
  then show ?thesis using assms nf
    unfolding files_inv_def held_other h fidt_ok_other
    by (auto simp: upd_fcb_def)
qed

lemma files_inv_release:
  assumes "files_inv L pins s" "f \<in> L"
  shows "files_inv (L - {f}) pins (release_FCB f s)"
  using assms unfolding files_inv_def release_FCB_def held_other fidt_ok_other by auto

definition zeroed :: "fcb_ref list \<Rightarrow> 'a kernel_scheme \<Rightarrow> 'a kernel_scheme" where
  "zeroed fs s = s\<lparr>FT := (\<lambda>f. if f \<in> set fs then (FT s f)\<lparr>refcount := 0\<rparr> else FT s f)\<rparr>"

lemma files_inv_acquire:
  assumes "files_inv L pins s" "FCB_freelist s = f # fs"
  shows "acquire_FCB s = (Some f, zeroed [f] (s\<lparr>FCB_freelist := fs\<rparr>)) \<and>
    files_inv (insert f L) pins (zeroed [f] (s\<lparr>FCB_freelist := fs\<rparr>))"
proof -
  have z: "upd_fcb f (\<lambda>x. x\<lparr>refcount := 0\<rparr>) (s\<lparr>FCB_freelist := fs\<rparr>) = zeroed [f] (s\<lparr>FCB_freelist := fs\<rparr>)"
    by (rule kernel.equality) (auto simp: zeroed_def upd_fcb_def fun_eq_iff)
  then show ?thesis using assms by (auto simp: files_inv_def acquire_FCB_def zeroed_def)
qed

section \<open>The search for file ids\<close>

definition free_fids :: "(nat \<Rightarrow> fcb_ref option) \<Rightarrow> nat \<Rightarrow> nat list" where
  "free_fids T f = filter (\<lambda>i. T i = None) [f..<MAX_FILEID]"

lemma free_fids_next:
  "f \<le> MAX_FILEID \<Longrightarrow> next_fid T f \<le> MAX_FILEID \<and>
     free_fids T f = (if next_fid T f = MAX_FILEID then [] else next_fid T f # free_fids T (next_fid T f + 1))"
proof (induction T f rule: next_fid.induct)
  case (1 T f)
  show ?case
  proof (cases "f < MAX_FILEID")
    case True
    then have u: "[f..<MAX_FILEID] = f # [f + 1..<MAX_FILEID]" by (simp add: upt_conv_Cons)
    show ?thesis
      using 1 True u by (subst (1 2 3 4) next_fid.simps) (auto simp: free_fids_def)
  qed (use 1 in \<open>simp add: next_fid.simps free_fids_def\<close>)
qed

text \<open>The loop finds the lowest free file ids, if there are enough of them.\<close>

lemma find_fids_eq:
  "f \<le> MAX_FILEID \<Longrightarrow>
     find_fids num T f = (if num \<le> length (free_fids T f) then Some (take num (free_fids T f)) else None)"
proof (induction num arbitrary: f)
  case (Suc num)
  let ?n = "next_fid T f"
  note nx = free_fids_next [OF Suc.prems, of T]
  show ?case
  proof (cases "?n = MAX_FILEID")
    case True
    then show ?thesis using nx by simp
  next
    case False
    then have "?n + 1 \<le> MAX_FILEID" using nx by simp
    from Suc.IH [OF this] False nx show ?thesis by (simp add: Let_def)
  qed
qed simp

section \<open>Reservation takes what it finds\<close>

lemma files_inv_refresh:
  assumes "files_inv L pins s" "set fs = set (FCB_freelist s)" "distinct fs"
  shows "files_inv L pins (s\<lparr>FCB_freelist := fs\<rparr>)"
  using assms by (simp add: files_inv_def)

lemma acquire_FCBs_eq:
  "files_inv L pins s \<Longrightarrow>
     acquire_FCBs num s = (take num (FCB_freelist s),
       zeroed (take num (FCB_freelist s)) (s\<lparr>FCB_freelist := drop num (FCB_freelist s)\<rparr>)) \<and>
     files_inv (L \<union> set (take num (FCB_freelist s))) pins
       (zeroed (take num (FCB_freelist s)) (s\<lparr>FCB_freelist := drop num (FCB_freelist s)\<rparr>))"
proof (induction num arbitrary: L s)
  case (Suc num)
  show ?case
  proof (cases "FCB_freelist s")
    case Nil
    then show ?thesis using files_inv_refresh [OF Suc.prems, of "[]"] by (simp add: acquire_FCB_def zeroed_def)
  next
    case (Cons f fs)
    let ?s1 = "zeroed [f] (s\<lparr>FCB_freelist := fs\<rparr>)"
    have a: "acquire_FCB s = (Some f, ?s1)" "files_inv (insert f L) pins ?s1"
      using files_inv_acquire [OF Suc.prems Cons] by auto
    have z: "zeroed xs (?s1\<lparr>FCB_freelist := ys\<rparr>) = zeroed (f # xs) (s\<lparr>FCB_freelist := ys\<rparr>)" for xs ys
      by (rule kernel.equality) (auto simp: zeroed_def fun_eq_iff)
    have "FCB_freelist ?s1 = fs" by (simp add: zeroed_def)
    with Suc.IH [OF a(2)] a(1) Cons z show ?thesis by simp
  qed
qed (simp add: zeroed_def)

lemma release_FCBs: "fold release_FCB fs s = s\<lparr>FCB_freelist := FCB_freelist s @ fs\<rparr>"
  by (induction fs arbitrary: s) (simp_all add: release_FCB_def)

lemma install_FCBs_eq:
  "distinct (map fst xs) \<Longrightarrow> install_FCBs p xs s =
     s\<lparr>PT := (PT s)(p := (PT s p)\<lparr>FIDT := FIDT (PT s p) ++ map_of xs\<rparr>),
       FT := (\<lambda>f. (FT s f)\<lparr>refcount := refcount (FT s f) + of_nat (count_list (map snd xs) f)\<rparr>)\<rparr>"
proof (induction xs arbitrary: s)
  case (Cons x xs)
  obtain fid f where x: "x = (fid, f)" by (cases x)
  have d: "fid \<notin> fst ` set xs" "distinct (map fst xs)" using Cons.prems x by auto
  then have "map_of xs fid = None" by (simp add: map_of_eq_None_iff)
  then have m: "(T(fid \<mapsto> f)) ++ map_of xs = T ++ (map_of xs)(fid \<mapsto> f)" for T :: "nat \<Rightarrow> fcb_ref option"
    by (auto simp: fun_eq_iff map_add_def split: option.splits)
  show ?case unfolding x install_FCBs.simps Cons.IH [OF d(2)]
    by (rule kernel.equality)
      (simp_all add: FCB_incref_def set_FIDT_def upd_fcb_def upd_pcb_def m [unfolded fun_upd_def] fun_upd_def fun_eq_iff)
qed simp

lemma files_inv_install:
  assumes "files_inv L pins s" "distinct (map fst xs)" "distinct (map snd xs)" "snd ` set xs \<subseteq> L"
    "p < MAX_PROC" "\<forall>fid \<in> fst ` set xs. fid < MAX_FILEID \<and> FIDT (PT s p) fid = None"
  shows "files_inv (L - snd ` set xs) pins (install_FCBs p xs s)"
  using assms
proof (induction xs arbitrary: L s)
  case (Cons x xs)
  obtain fid f where x: "x = (fid, f)" by (cases x)
  let ?s1 = "set_FIDT p fid (Some f) s" and ?s2 = "FCB_incref f (set_FIDT p fid (Some f) s)"
  have f: "f \<in> L" "f < MAX_FILES" "f \<notin> set (FCB_freelist s)" "held pins f s = 0"
    using Cons.prems(1,4) x by (auto simp: files_inv_def)
  have old: "FIDT (PT s p) fid = None" using Cons.prems(6) x by simp
  have 1: "files_inv L (repin None (Some f) pins) ?s1"
    using files_inv_set_FIDT [OF Cons.prems(1), of "Some f" p fid] Cons.prems(5,6) f(2) x old by simp
  have "held (repin None (Some f) pins) f ?s1 = 0"
    using held_set_FIDT [of s p fid "Some f" pins f] Cons.prems(1) old f(4) by (simp add: files_inv_def)
  then have "files_inv (L - {f}) ((repin None (Some f) pins)(f := repin None (Some f) pins f + 1)) ?s2"
    using files_inv_incref [OF 1 f(2)] f(3) by (simp add: set_FIDT_def upd_pcb_def)
  moreover have "(repin None (Some f) pins)(f := repin None (Some f) pins f + 1) = pins"
    by (auto simp: repin_def fun_eq_iff)
  ultimately have 2: "files_inv (L - {f}) pins ?s2" by simp
  have "FIDT (PT ?s2 p) g = FIDT (PT s p) g" if "g \<noteq> fid" for g
    using that by (simp add: FCB_incref_def upd_fcb_def set_FIDT_def upd_pcb_def)
  then have "files_inv (L - {f} - snd ` set xs) pins (install_FCBs p xs ?s2)"
    using Cons.prems x by (intro Cons.IH 2) (auto, metis imageI fst_conv)
  moreover have "L - {f} - snd ` set xs = L - snd ` set (x # xs)" by (auto simp: x)
  ultimately show ?case using x by simp
qed simp

text \<open>A reservation that is possible succeeds; one that is not leaves the file ids and the pool alone.\<close>

definition reserved :: "pid \<Rightarrow> nat list \<Rightarrow> fcb_ref list \<Rightarrow> 'a kernel_scheme \<Rightarrow> 'a kernel_scheme" where
  "reserved p fids fcbs s =
     s\<lparr>PT := (PT s)(p := (PT s p)\<lparr>FIDT := FIDT (PT s p) ++ map_of (zip fids fcbs)\<rparr>),
       FT := (\<lambda>f. if f \<in> set fcbs then (FT s f)\<lparr>refcount := 1\<rparr> else FT s f),
       FCB_freelist := drop (length fcbs) (FCB_freelist s)\<rparr>"

lemma count_list_distinct: "distinct xs \<Longrightarrow> count_list xs x = (if x \<in> set xs then 1 else 0)"
  by (induction xs) auto

lemma FCB_reserve_ok:
  assumes "files_inv {} pins s" "CURPROC c s = Some p" "p < MAX_PROC"
    "num \<le> length (free_fids (FIDT (PT s p)) 0)" "num \<le> length (FCB_freelist s)"
  shows "let fids = take num (free_fids (FIDT (PT s p)) 0); fcbs = take num (FCB_freelist s) in
    FCB_reserve c num s = Some (Some (fids, fcbs), reserved p fids fcbs s) \<and>
    files_inv {} pins (reserved p fids fcbs s)"
proof -
  let ?fids = "take num (free_fids (FIDT (PT s p)) 0)" and ?fcbs = "take num (FCB_freelist s)"
  let ?s1 = "zeroed ?fcbs (s\<lparr>FCB_freelist := drop num (FCB_freelist s)\<rparr>)"
  note acq = acquire_FCBs_eq [OF assms(1), of num]
  have d: "distinct ?fids" "distinct ?fcbs" "length ?fids = num" "length ?fcbs = num"
    using assms by (auto simp: free_fids_def files_inv_def)
  have m: "map fst (zip ?fids ?fcbs) = ?fids" "map snd (zip ?fids ?fcbs) = ?fcbs" using d by simp_all
  then have m': "snd ` set (zip ?fids ?fcbs) = set ?fcbs" "fst ` set (zip ?fids ?fcbs) = set ?fids"
    by (metis list.set_map)+
  have "install_FCBs p (zip ?fids ?fcbs) ?s1 = reserved p ?fids ?fcbs s"
    unfolding install_FCBs_eq [of "zip ?fids ?fcbs", unfolded m, OF d(1)]
    by (rule kernel.equality) (use d in \<open>simp_all add: reserved_def zeroed_def count_list_distinct fun_eq_iff\<close>)
  note st = this
  have "FCB_reserve c num s = Some (Some (?fids, ?fcbs), reserved p ?fids ?fcbs s)"
    using assms(2,4) acq d st by (simp add: FCB_reserve_def find_fids_eq)
  moreover have "\<forall>fid \<in> set ?fids. fid < MAX_FILEID \<and> FIDT (PT ?s1 p) fid = None"
    by (auto simp: free_fids_def zeroed_def dest: in_set_takeD)
  then have "files_inv (set ?fcbs - set ?fcbs) pins (reserved p ?fids ?fcbs s)"
    using files_inv_install [of "set ?fcbs" pins ?s1 "zip ?fids ?fcbs" p] acq assms(3) d m
    unfolding st m' by simp
  ultimately show ?thesis by simp
qed

lemma FCB_reserve_fail:
  assumes "files_inv {} pins s" "CURPROC c s = Some p"
    "length (free_fids (FIDT (PT s p)) 0) < num \<or> length (FCB_freelist s) < num"
  shows "\<exists>s'. FCB_reserve c num s = Some (None, s') \<and> set (FCB_freelist s') = set (FCB_freelist s) \<and>
    s' = s\<lparr>FT := FT s', FCB_freelist := FCB_freelist s'\<rparr> \<and>
    (\<forall>f. f \<notin> set (FCB_freelist s) \<longrightarrow> FT s' f = FT s f) \<and> files_inv {} pins s'"
proof (cases "num \<le> length (free_fids (FIDT (PT s p)) 0)")
  case True
  let ?s1 = "zeroed (FCB_freelist s) (s\<lparr>FCB_freelist := []\<rparr>)"
  let ?s2 = "?s1\<lparr>FCB_freelist := rev (FCB_freelist s)\<rparr>"
  have "length (FCB_freelist s) < num" using True assms(3) by auto
  then have "FCB_reserve c num s = Some (None, ?s2)"
    using True assms(2) acquire_FCBs_eq [OF assms(1), of num]
    by (simp add: FCB_reserve_def find_fids_eq release_FCBs zeroed_def)
  moreover have "files_inv {} pins ?s2"
    using assms(1) by (simp add: files_inv_def zeroed_def)
  ultimately show ?thesis by (auto simp: zeroed_def)
next
  case False
  then have "FCB_reserve c num s = Some (None, s)"
    using assms(2) by (simp add: FCB_reserve_def find_fids_eq)
  with assms(1) show ?thesis by simp
qed

lemma initialize_files_eq:
  "initialize_files s = s\<lparr>FT := (\<lambda>f. if f < MAX_FILES then (FT s f)\<lparr>refcount := 0\<rparr> else FT s f),
     FCB_freelist := [0..<MAX_FILES]\<rparr>"
proof -
  have "fold (\<lambda>i s. upd_fcb i (\<lambda>f. f\<lparr>refcount := 0\<rparr>) (s\<lparr>FCB_freelist := FCB_freelist s @ [i]\<rparr>))
       [0..<n] (s\<lparr>FCB_freelist := []\<rparr>) =
     s\<lparr>FT := (\<lambda>f. if f < n then (FT s f)\<lparr>refcount := 0\<rparr> else FT s f), FCB_freelist := [0..<n]\<rparr>" for n
  proof (induction n)
    case (Suc n)
    show ?case unfolding upt_Suc_append [OF le0] fold_append comp_apply Suc fold_simps
      by (simp add: upd_fcb_def) (auto simp: fun_eq_iff less_Suc_eq intro!: arg_cong [of _ _ "\<lambda>x. s\<lparr>FT := x, FCB_freelist := y\<rparr>" for y])
  qed simp
  then show ?thesis by (simp add: initialize_files_def)
qed

lemma unreserve_loop_eq:
  "distinct (map fst xs) \<Longrightarrow> \<forall>(fid, f) \<in> set xs. FIDT (PT s p) fid = Some f \<Longrightarrow>
   unreserve_loop p xs s = Some (s\<lparr>
     PT := (PT s)(p := (PT s p)\<lparr>FIDT := FIDT (PT s p) |` (- fst ` set xs)\<rparr>),
     FCB_freelist := FCB_freelist s @ map snd xs\<rparr>)"
proof (induction xs arbitrary: s)
  case (Cons x xs)
  obtain fid f where x: "x = (fid, f)" by (cases x)
  let ?s1 = "release_FCB f (set_FIDT p fid None s)"
  have "\<forall>(g, h) \<in> set xs. FIDT (PT ?s1 p) g = Some h"
    using Cons.prems x by (force simp: release_FCB_def set_FIDT_def upd_pcb_def)
  note ih = Cons.IH [OF _ this]
  have "unreserve_loop p (x # xs) s = unreserve_loop p xs ?s1" using Cons.prems x by simp
  also have "\<dots> = Some (?s1\<lparr>
     PT := (PT ?s1)(p := (PT ?s1 p)\<lparr>FIDT := FIDT (PT ?s1 p) |` (- fst ` set xs)\<rparr>),
     FCB_freelist := FCB_freelist ?s1 @ map snd xs\<rparr>)" using Cons.prems by (intro ih) simp
  finally have u: "unreserve_loop p (x # xs) s = \<dots>" .
  have r: "T(fid := None) |` (- fst ` set xs) = T |` (- fst ` set (x # xs))"
    for T :: "nat \<Rightarrow> fcb_ref option" by (auto simp: fun_eq_iff restrict_map_def x)
  show ?case
    unfolding u option.inject
    using Cons.prems x
    by (intro kernel.equality) (simp_all add: release_FCB_def set_FIDT_def upd_pcb_def r Compl_insert)
next
  case Nil
  have "T |` (- fst ` set []) = T" for T :: "nat \<Rightarrow> fcb_ref option" by (simp add: restrict_map_def)
  then show ?case by (simp only: unreserve_loop.simps option.inject) (intro kernel.equality; simp)
qed

lemma FCB_unreserve_reserved:
  assumes "CURPROC c s = Some p" "distinct fids" "length fcbs = length fids"
    "\<forall>fid \<in> set fids. FIDT (PT s p) fid = None"
  shows "FCB_unreserve c fids fcbs (reserved p fids fcbs s) =
     Some (s\<lparr>FT := (\<lambda>f. if f \<in> set fcbs then (FT s f)\<lparr>refcount := 1\<rparr> else FT s f),
             FCB_freelist := drop (length fcbs) (FCB_freelist s) @ fcbs\<rparr>)"
proof -
  let ?s = "reserved p fids fcbs s"
  have m: "map fst (zip fids fcbs) = fids" "map snd (zip fids fcbs) = fcbs" using assms(3) by simp_all
  then have f: "fst ` set (zip fids fcbs) = set fids" by (metis list.set_map)
  have none: "map_of (zip fids fcbs) i = None" if "i \<notin> set fids" for i
    using that unfolding map_of_eq_None_iff f .
  have T: "(FIDT (PT s p) ++ map_of (zip fids fcbs)) |` (- set fids) = FIDT (PT s p)"
    using assms(4) none by (auto simp: fun_eq_iff restrict_map_def map_add_def)
  have "\<forall>(fid, g) \<in> set (zip fids fcbs). FIDT (PT ?s p) fid = Some g"
    using assms(2,3) by (auto simp: reserved_def map_of_is_SomeI)
  from unreserve_loop_eq [of "zip fids fcbs" ?s p, unfolded m f, OF assms(2) this]
  show ?thesis using assms(1) T by (simp add: FCB_unreserve_def reserved_def)
qed

lemma FCB_unreserve_ok:
  assumes "files_inv {} pins s" "CURPROC c s = Some p" "p < MAX_PROC"
    "FCB_reserve c num s = Some (Some (fids, fcbs), s1)"
  shows "\<exists>s2. FCB_unreserve c fids fcbs s1 = Some s2 \<and> PT s2 = PT s \<and> files_inv {} pins s2 \<and>
    set (FCB_freelist s2) = set (FCB_freelist s) \<and> s2 = s\<lparr>FT := FT s2, FCB_freelist := FCB_freelist s2\<rparr>"
proof -
  let ?fids = "take num (free_fids (FIDT (PT s p)) 0)" and ?fcbs = "take num (FCB_freelist s)"
  have ok: "num \<le> length (free_fids (FIDT (PT s p)) 0)" "num \<le> length (FCB_freelist s)"
    using FCB_reserve_fail [OF assms(1,2), of num] assms(4) by fastforce+
  have e: "fids = ?fids" "fcbs = ?fcbs" "s1 = reserved p ?fids ?fcbs s"
    using FCB_reserve_ok [OF assms(1-3) ok] assms(4) by (simp_all add: Let_def)
  have "distinct fids" "length fcbs = length fids" "\<forall>fid \<in> set fids. FIDT (PT s p) fid = None"
    using ok by (auto simp: e free_fids_def dest: in_set_takeD)
  from FCB_unreserve_reserved [OF assms(2) this] e
  have u: "FCB_unreserve c fids fcbs s1 = Some (s\<lparr>FT := (\<lambda>f. if f \<in> set fcbs then (FT s f)\<lparr>refcount := 1\<rparr> else FT s f),
     FCB_freelist := drop num (FCB_freelist s) @ take num (FCB_freelist s)\<rparr>)" (is "_ = Some ?s2")
    using ok by simp
  have "set (drop num (FCB_freelist s) @ take num (FCB_freelist s)) = set (FCB_freelist s)"
    by (metis append_take_drop_id set_append sup_commute)
  moreover have "distinct (drop num (FCB_freelist s) @ take num (FCB_freelist s))"
    using assms(1) by (metis append_take_drop_id distinct_append files_inv_def inf_commute)
  moreover have "set fcbs \<subseteq> set (FCB_freelist s)" using e(2) by (auto dest: in_set_takeD)
  ultimately have "files_inv {} pins ?s2"
    using assms(1) by (auto simp: files_inv_def)
  with u \<open>set (drop num (FCB_freelist s) @ take num (FCB_freelist s)) = set (FCB_freelist s)\<close>
  show ?thesis by auto
qed

section \<open>The contract between the stream layer and a driver\<close>

text \<open>
  A method of a driver may do what it likes with its stream object, but it leaves the file
  table, the table of processes and their threads alone, and it does not move its caller to
  another process.
\<close>

definition same_files :: "'a kernel_scheme \<Rightarrow> 'a kernel_scheme \<Rightarrow> bool" where
  "same_files s s' \<longleftrightarrow> PT s' = PT s \<and> FT s' = FT s \<and> FCB_freelist s' = FCB_freelist s \<and>
     (\<forall>c. CURPROC c s' = CURPROC c s) \<and> pcb_freelist s' = pcb_freelist s \<and> process_count s' = process_count s \<and>
     ptcbs s' = ptcbs s \<and> next_addr s' = next_addr s \<and> next_tcb s' = next_tcb s \<and> cctx s' = cctx s \<and>
     (\<forall>t. map_option owner_pcb (tcbs s' t) = map_option owner_pcb (tcbs s t)) \<and>
     (\<forall>t. map_option owner_ptcb (tcbs s' t) = map_option owner_ptcb (tcbs s t))"

lemma same_files_refl [simp]: "same_files s s" by (simp add: same_files_def)
lemma same_files_trans: "same_files s s' \<Longrightarrow> same_files s' s'' \<Longrightarrow> same_files s s''" by (simp add: same_files_def)

lemma same_files_kframe: "kframe s s' \<Longrightarrow> same_files s s'"
  unfolding same_files_def using kframe_CURPROC [of s s'] more_kernel [of s' s] by (auto simp: kframe_def)

lemma same_files_updates [simp]:
  "same_files (s\<lparr>pipes := x\<rparr>) s' = same_files s s'" "same_files s (s'\<lparr>pipes := x\<rparr>) = same_files s s'"
  "same_files s (s'\<lparr>sockets := y\<rparr>) = same_files s s'" "same_files s (s'\<lparr>picbs := z\<rparr>) = same_files s s'"
  "same_files s (s'\<lparr>Port_Map := w\<rparr>) = same_files s s'" "same_files (s\<lparr>Port_Map := w\<rparr>) s' = same_files s s'"
  by (simp_all add: same_files_def)

lemma same_files_inv: "same_files s s' \<Longrightarrow> files_inv L pins s' = files_inv L pins s"
  by (simp add: same_files_def files_inv_def held_def refs_def fidt_ok_def)

locale driver_method =
  fixes meth :: "'a kernel_scheme \<Rightarrow> ('r \<times> 'a kernel_scheme) option"
  assumes neutral: "meth s = Some (r, s') \<Longrightarrow> same_files s s'"
begin

lemma keeps_files_inv: "meth s = Some (r, s') \<Longrightarrow> files_inv L pins s \<Longrightarrow> files_inv L pins s'"
  using neutral same_files_inv by blast

lemma keeps_fields:
  "meth s = Some (r, s') \<Longrightarrow> PT s' = PT s \<and> FT s' = FT s \<and> FCB_freelist s' = FCB_freelist s \<and> CURPROC c s' = CURPROC c s"
  using neutral by (simp add: same_files_def)

end

section \<open>Properties\<close>

text \<open>The tables after \<open>initialize_files\<close>, with process 2 running on core 0.\<close>

definition kernel_files :: "cv_ref \<Rightarrow> kernel" where
  "kernel_files cv = initialize_files (kernel_waiting cv)"

definition kernel4 :: kernel where
  "kernel4 = kernel_files (has_data 0)"

lemma kernel_files_sel:
  "CURPROC 0 (kernel_files cv) = Some 2" "FCB_freelist (kernel_files cv) = [0..<MAX_FILES]"
  "PT (kernel_files cv) = (\<lambda>_. zero_PCB)" "waitset (kernel_files cv) = (\<lambda>_. [])(cv := [Thr 1])" "pipes (kernel_files cv) = Map.empty"
  "tcbs (kernel_files cv) = tcbs sched7" "picbs (kernel_files cv) = Map.empty" "ptcbs (kernel_files cv) = Map.empty"
  "next_addr (kernel_files cv) = 0" "sockets (kernel_files cv) = Map.empty" "requests (kernel_files cv) = Map.empty"
  by (simp_all add: kernel_files_def initialize_files_eq kernel_waiting_sel)

lemma kernel_files_quiet: "quiet {} (kernel_files cv)"
  by (simp add: kernel_files_def initialize_files_eq kernel_waiting_quiet)

lemma kernel_files_inv: "files_inv {} (\<lambda>_. 0) (kernel_files cv)"
  by (auto simp: files_inv_def fidt_ok_def held_def refs_def kernel_files_sel zero_PCB_def)

lemmas kernel4_sel = kernel_files_sel [where cv = "has_data 0", folded kernel4_def]
lemmas kernel4_inv = kernel_files_inv [where cv = "has_data 0", folded kernel4_def]

lemma kernel4_free:
  "take 2 (free_fids (FIDT (PT kernel4 2)) 0) = [0, 1]" "take 2 (FCB_freelist kernel4) = [0, 1]"
  "2 \<le> length (free_fids (FIDT (PT kernel4 2)) 0)" "2 \<le> length (FCB_freelist kernel4)" "(2 :: pid) < MAX_PROC"
proof -
  have "take 2 [0..<n] = [0, 1]" if "2 \<le> n" for n using that by (simp add: take_upt numeral_eq_Suc)
  then show "take 2 (free_fids (FIDT (PT kernel4 2)) 0) = [0, 1]" "take 2 (FCB_freelist kernel4) = [0, 1]"
    by (simp_all add: kernel4_sel free_fids_def zero_PCB_def MAX_FILEID_def MAX_FILES_def MAX_PROC_def)
qed (simp_all add: kernel4_sel free_fids_def zero_PCB_def MAX_FILEID_def MAX_FILES_def MAX_PROC_def)

text \<open>
  C22. Reservation of streams.  If the calling process has enough free file ids and the pool
  enough blocks, \<^verbatim>\<open>FCB_reserve\<close> gives the lowest free file ids and the first blocks of the pool,
  installs the blocks under these ids with one reference each, and takes them out of the pool;
  otherwise it fails and leaves the file ids of every process, the set of free blocks and all
  blocks in use unchanged.  The reference counts stay exact in both cases.
\<close>

theorem FCB_reserve_spec:
  assumes "files_inv {} pins s" "CURPROC c s = Some p" "p < MAX_PROC"
  shows "let fids = take num (free_fids (FIDT (PT s p)) 0); fcbs = take num (FCB_freelist s) in
    if num \<le> length (free_fids (FIDT (PT s p)) 0) \<and> num \<le> length (FCB_freelist s)
    then FCB_reserve c num s = Some (Some (fids, fcbs), reserved p fids fcbs s) \<and>
         files_inv {} pins (reserved p fids fcbs s)
    else \<exists>s'. FCB_reserve c num s = Some (None, s') \<and> set (FCB_freelist s') = set (FCB_freelist s) \<and>
         s' = s\<lparr>FT := FT s', FCB_freelist := FCB_freelist s'\<rparr> \<and>
         (\<forall>f. f \<notin> set (FCB_freelist s) \<longrightarrow> FT s' f = FT s f) \<and> files_inv {} pins s'"
proof (cases "num \<le> length (free_fids (FIDT (PT s p)) 0) \<and> num \<le> length (FCB_freelist s)")
  case True
  with FCB_reserve_ok [OF assms, of num] show ?thesis by (simp add: Let_def)
next
  case False
  then have "length (free_fids (FIDT (PT s p)) 0) < num \<or> length (FCB_freelist s) < num" by auto
  from FCB_reserve_fail [OF assms(1,2) this] False show ?thesis by (auto simp: Let_def)
qed

theorem FCB_reserve_spec_witness:
  "FCB_reserve 0 2 kernel4 = Some (Some ([0, 1], [0, 1]), reserved 2 [0, 1] [0, 1] kernel4)"
  using FCB_reserve_spec [OF kernel4_inv kernel4_sel(1) kernel4_free(5), of 2] kernel4_free
  by (simp add: Let_def)

text \<open>
  \<^verbatim>\<open>FCB_unreserve\<close> undoes \<^verbatim>\<open>FCB_reserve\<close>: the file ids of all processes are what they were,
  the same blocks are free, and the invariant of the table holds again.
\<close>

theorem FCB_reserve_unreserve:
  assumes "files_inv {} pins s" "CURPROC c s = Some p" "p < MAX_PROC"
    "FCB_reserve c num s = Some (Some (fids, fcbs), s1)"
  shows "\<exists>s2. FCB_unreserve c fids fcbs s1 = Some s2 \<and> PT s2 = PT s \<and> files_inv {} pins s2 \<and>
    set (FCB_freelist s2) = set (FCB_freelist s) \<and> s2 = s\<lparr>FT := FT s2, FCB_freelist := FCB_freelist s2\<rparr>"
  by (rule FCB_unreserve_ok [OF assms])

theorem FCB_reserve_unreserve_witness:
  "\<exists>s1 s2. FCB_reserve 0 2 kernel4 = Some (Some ([0, 1], [0, 1]), s1) \<and> FCB_unreserve 0 [0, 1] [0, 1] s1 = Some s2 \<and>
     PT s2 = PT kernel4"
proof -
  have "FCB_reserve 0 2 kernel4 = Some (Some ([0, 1], [0, 1]), reserved 2 [0, 1] [0, 1] kernel4)"
    using FCB_reserve_ok [OF kernel4_inv kernel4_sel(1) kernel4_free(5,3,4)] kernel4_free
    by (simp add: Let_def)
  from FCB_reserve_unreserve [OF kernel4_inv kernel4_sel(1) kernel4_free(5) this] this show ?thesis by blast
qed

end
