(* ===== verification/Dev.thy ===== *)
theory Dev
  imports Files
begin

text \<open>
  Devices, \<^verbatim>\<open>kernel_dev.c\<close>: the null device, the interrupt-driven reads and polled writes of the
  serial ports, and the device table.

  The bytes come from and go to the host; \<open>rcs i\<close> is the result of the host's call in turn \<open>i\<close>
  of a loop.  After \<open>initialize_devices\<close> the entry \<^verbatim>\<open>serial_dcb[i]\<close> is for port \<open>i\<close>, and a pointer to
  it is \<open>Serial_obj i\<close>.  The field \<^verbatim>\<open>spinlock\<close> is not used by the code.
\<close>

section \<open>The null device\<close>

text \<open>Conversion of \<^verbatim>\<open>unsigned int\<close> to \<^verbatim>\<open>int\<close> in a \<^verbatim>\<open>return\<close> statement.\<close>

definition to_int :: "nat \<Rightarrow> int" where
  "to_int n = sint (of_nat n :: 32 word)"

lemma to_int_small: "n < 2 ^ 31 \<Longrightarrow> to_int n = int n"
  by (simp add: to_int_def signed_of_nat signed_take_bit_int_eq_self)

definition nulldev_read :: "nat \<Rightarrow> int \<times> byte list" where
  "nulldev_read sz = (to_int sz, replicate sz 0)"

definition nulldev_write :: "nat \<Rightarrow> int" where
  "nulldev_write sz = to_int sz"

definition nulldev_close :: int where
  "nulldev_close = 0"

definition nulldev_open :: "nat \<Rightarrow> stream_obj option" where
  "nulldev_open minor = None"

section \<open>The serial driver\<close>

fun rx_loop :: "nat \<Rightarrow> nat list \<Rightarrow> 'a kernel_scheme \<Rightarrow> 'a kernel_scheme option" where
  "rx_loop c [] s = Some s"
| "rx_loop c (i # is) s = do { s1 \<leftarrow> Cond_Broadcast c (rx_ready i) s; rx_loop c is s1 }"

definition serial_rx_handler :: "nat \<Rightarrow> 'a kernel_scheme \<Rightarrow> 'a kernel_scheme option" where
  "serial_rx_handler c s =
     do { let (pre, s1) = cpu_disable_interrupts c s;
          s2 \<leftarrow> rx_loop c [0..<bios_serial_ports s1] s1;
          Some (if pre then cpu_enable_interrupts c s2 else s2) }"

text \<open>
  The loop of \<^verbatim>\<open>serial_read\<close> with \<open>n\<close> bytes left to read; \<open>buf\<close> holds the bytes read so far.
  A thread whose wait returns continues with the loop.
\<close>

fun serial_read_loop :: "nat \<Rightarrow> nat \<Rightarrow> (nat \<Rightarrow> read_result) \<Rightarrow> nat \<Rightarrow> byte list \<Rightarrow> 'a kernel_scheme \<Rightarrow>
  ((int \<times> byte list) outcome \<times> 'a kernel_scheme) option" where
  "serial_read_loop c d rcs 0 buf s =
     Some (Done (to_int (length buf), buf), cpu_enable_interrupts c s)"
| "serial_read_loop c d rcs (Suc n) buf s =
     do { (valid, s1) \<leftarrow> bios_read_serial d (rcs (length buf)) s;
          case valid of
            Some b \<Rightarrow> serial_read_loop c d rcs n (buf @ [b]) s1
          | None \<Rightarrow>
              if buf = [] then Some (Block (rx_ready d) SCHED_IO NO_TIMEOUT, s1)
              else Some (Done (to_int (length buf), buf), cpu_enable_interrupts c s1) }"

definition serial_read :: "nat \<Rightarrow> nat \<Rightarrow> (nat \<Rightarrow> read_result) \<Rightarrow> nat \<Rightarrow> 'a kernel_scheme \<Rightarrow>
  ((int \<times> byte list) outcome \<times> 'a kernel_scheme) option" where
  "serial_read c d rcs sz s = serial_read_loop c d rcs sz [] (snd (cpu_disable_interrupts c s))"

definition serial_tx_handler :: "'a kernel_scheme \<Rightarrow> 'a kernel_scheme" where
  "serial_tx_handler s = s"

text \<open>\<open>serial_write_loop\<close> has the bytes that are left and the number of bytes written.\<close>

fun serial_write_loop :: "nat \<Rightarrow> (nat \<Rightarrow> write_result) \<Rightarrow> byte list \<Rightarrow> nat \<Rightarrow> 'a kernel_scheme \<Rightarrow>
  (int outcome \<times> 'a kernel_scheme) option" where
  "serial_write_loop d rcs [] count s = Some (Done (to_int count), s)"
| "serial_write_loop d rcs (b # bs) count s =
     do { (success, s1) \<leftarrow> bios_write_serial d (rcs count) s;
          if success then serial_write_loop d rcs bs (count + 1) s1
          else if count = 0 then Some (Yield SCHED_IO, s1)
          else Some (Done (to_int count), s1) }"

definition serial_write :: "nat \<Rightarrow> (nat \<Rightarrow> write_result) \<Rightarrow> byte list \<Rightarrow> 'a kernel_scheme \<Rightarrow>
  (int outcome \<times> 'a kernel_scheme) option" where
  "serial_write d rcs buf s = serial_write_loop d rcs buf 0 s"

definition serial_close :: int where
  "serial_close = 0"

definition serial_open :: "nat \<Rightarrow> 'a kernel_scheme \<Rightarrow> stream_obj option option" where
  "serial_open term s = do { c_assert (term < bios_serial_ports s); Some (Some (Serial_obj term)) }"

section \<open>The device table\<close>

definition initialize_devices :: "nat \<Rightarrow> 'a kernel_scheme \<Rightarrow> 'a kernel_scheme" where
  "initialize_devices c s =
     (let s1 = s\<lparr>devnum := (\<lambda>d. case d of DEV_NULL \<Rightarrow> 1 | DEV_SERIAL \<Rightarrow> bios_serial_ports s)\<rparr>;
          s2 = fold (\<lambda>i. cond_init (rx_ready i)) [0..<bios_serial_ports s1] s1
      in cpu_interrupt_handler c SERIAL_TX_READY (Some serial_tx_ptr)
           (cpu_interrupt_handler c SERIAL_RX_READY (Some serial_rx_ptr) s2))"

text \<open>\<open>device_open\<close>: the inner \<open>None\<close> is the result \<open>-1\<close>, otherwise the stream object and its methods.\<close>

definition device_open :: "Device_type \<Rightarrow> nat \<Rightarrow> 'a kernel_scheme \<Rightarrow> (stream_obj option \<times> file_ops) option option" where
  "device_open major minor s =
     (if minor \<ge> devnum s major then Some None
      else case major of
        DEV_NULL \<Rightarrow> Some (Some (nulldev_open minor, nulldev_fops))
      | DEV_SERIAL \<Rightarrow> do { obj \<leftarrow> serial_open minor s; Some (Some (obj, serial_fops)) })"

definition device_no :: "Device_type \<Rightarrow> 'a kernel_scheme \<Rightarrow> nat" where
  "device_no major s = devnum s major"

section \<open>The methods keep to the contract of drivers\<close>

lemma same_files_machine:
  fixes s s' :: "'a kernel_scheme"
  assumes "sched.more s' = sched.more s" "cctx s' = cctx s" "tcbs s' = tcbs s" "next_tcb s' = next_tcb s"
  shows "same_files s s'"
proof -
  have "cc.more s' = cc.more s" using more_cc(4) [OF assms(1)] .
  from more_kernel [OF this] show ?thesis using assms(2-4) by (simp add: same_files_def CURPROC_def cur_thread_def)
qed

lemma bios_serial_files:
  fixes s s1 :: "'a kernel_scheme"
  shows "bios_read_serial d rc s = Some (v, s1) \<Longrightarrow> same_files s s1"
    and "bios_write_serial d wc s = Some (ok, s1) \<Longrightarrow> same_files s s1"
  by (auto simp: bios_read_serial_def io_device_read_def bios_write_serial_def io_device_write_def
      split: if_splits read_result.splits intro!: same_files_machine)

lemma cpu_files [simp]:
  "same_files s (cpu_enable_interrupts c s') = same_files s s'"
  "same_files (snd (cpu_disable_interrupts c s)) s' = same_files s s'"
  by (simp_all add: same_files_def cpu_enable_interrupts_def cpu_disable_interrupts_def CURPROC_def cur_thread_def)

lemma serial_read_loop_files:
  "serial_read_loop c d rcs n buf s = Some (r, s') \<Longrightarrow> same_files s s'"
  by (induction n arbitrary: buf s)
    (auto split: option.splits if_splits dest!: bios_serial_files(1), blast intro: same_files_trans)

lemma serial_write_loop_files:
  "serial_write_loop d rcs bs k s = Some (r, s') \<Longrightarrow> same_files s s'"
  by (induction bs arbitrary: k s)
    (auto split: if_splits dest!: bios_serial_files(2), blast intro: same_files_trans)

interpretation serial_read_method: driver_method "serial_read c d rcs n" for c d rcs n
  by unfold_locales (auto simp: serial_read_def dest!: serial_read_loop_files intro: same_files_trans)

interpretation serial_write_method: driver_method "serial_write d rcs buf" for d rcs buf
  by unfold_locales (auto simp: serial_write_def dest!: serial_write_loop_files)

section \<open>Reading from a port\<close>

text \<open>The bytes that the host gives before the first failure.\<close>

fun available :: "(nat \<Rightarrow> read_result) \<Rightarrow> nat \<Rightarrow> nat \<Rightarrow> byte list" where
  "available rcs k 0 = []"
| "available rcs k (Suc n) = (case rcs k of RByte b \<Rightarrow> b # available rcs (k + 1) n | _ \<Rightarrow> [])"

lemma available_length: "length (available rcs k n) \<le> n"
  by (induction rcs k n rule: available.induct) (auto split: read_result.splits)

lemma serial_read_loop_available:
  assumes "iodir (kbd (TERMS s d)) = IODIR_RX" "\<forall>i. rcs i \<noteq> RError"
  shows "\<exists>s'. serial_read_loop c d rcs n buf s =
     (if n > 0 \<and> buf @ available rcs (length buf) n = [] then Some (Block (rx_ready d) SCHED_IO NO_TIMEOUT, s')
      else Some (Done (to_int (length (buf @ available rcs (length buf) n)), buf @ available rcs (length buf) n), s'))"
  using assms
proof (induction n arbitrary: buf s)
  case (Suc n)
  have io: "iodir (kbd (TERMS s d)) = IODIR_RX" "rcs (length buf) \<noteq> RError" using Suc.prems by auto
  show ?case
  proof (cases "rcs (length buf)")
    case (RByte b)
    then have rd: "bios_read_serial d (rcs (length buf)) s = Some (Some b, s)"
      using io by (simp add: bios_read_serial_def io_device_read_def)
    from Suc.IH [OF Suc.prems, of "buf @ [b]"] RByte rd show ?thesis by simp
  qed (use io in \<open>auto simp: bios_read_serial_def io_device_read_def\<close>)
qed simp

section \<open>The receive interrupt\<close>

lemma Cond_Broadcast_kquiet:
  "quiet sw s \<Longrightarrow> \<exists>s'. Cond_Broadcast c cv s = Some s' \<and> quiet sw s' \<and> kframe s s' \<and> woken cv s s'"
  using kernel_broadcast_quiet [of sw s c cv] by (simp add: kernel_broadcast_def)

lemma woken_asleep: "woken cv s s' \<Longrightarrow> asleep s' t \<Longrightarrow> asleep s t \<and> t \<notin> set (waitset s cv)"
  unfolding woken_def asleep_def by (metis)

lemma rx_loop_wakes:
  "quiet sw s \<Longrightarrow> \<exists>s'. rx_loop c is s = Some s' \<and> quiet sw s' \<and> kframe s s' \<and>
     waitset s' = (\<lambda>cv. if cv \<in> rx_ready ` set is then [] else waitset s cv) \<and>
     (\<forall>t. asleep s' t \<longrightarrow> asleep s t) \<and> (\<forall>i \<in> set is. \<forall>t \<in> set (waitset s (rx_ready i)). \<not> asleep s' t)"
proof (induction "is" arbitrary: s)
  case (Cons i "is")
  obtain s1 where 1: "Cond_Broadcast c (rx_ready i) s = Some s1" "quiet sw s1" "kframe s s1" "woken (rx_ready i) s s1"
    using Cond_Broadcast_kquiet [OF Cons.prems] by blast
  obtain s2 where 2: "rx_loop c is s1 = Some s2" "quiet sw s2" "kframe s1 s2"
    "waitset s2 = (\<lambda>cv. if cv \<in> rx_ready ` set is then [] else waitset s1 cv)"
    "\<forall>t. asleep s2 t \<longrightarrow> asleep s1 t" "\<forall>i \<in> set is. \<forall>t \<in> set (waitset s1 (rx_ready i)). \<not> asleep s2 t"
    using Cons.IH [OF 1(2)] by blast
  have ws: "waitset s1 = (waitset s)(rx_ready i := [])" using 1(4) by (simp add: woken_def)
  have "waitset s2 = (\<lambda>cv. if cv \<in> rx_ready ` set (i # is) then [] else waitset s cv)"
    unfolding 2(4) ws by auto
  moreover have "\<not> asleep s2 t" if "j \<in> set (i # is)" "t \<in> set (waitset s (rx_ready j))" for j t
    using that 2(5,6) woken_asleep [OF 1(4), of t] ws by (cases "j = i") auto
  moreover have "\<forall>t. asleep s2 t \<longrightarrow> asleep s t" using 2(5) woken_asleep [OF 1(4)] by blast
  ultimately show ?case using 1 2 kframe_trans by fastforce
qed simp

section \<open>Properties\<close>

lemma quiet_interrupts:
  fixes s :: "'a kernel_scheme"
  shows "quiet sw (snd (cpu_disable_interrupts c s)) = quiet sw s" "quiet sw (cpu_enable_interrupts c s) = quiet sw s"
  by (rule quiet_cong; simp add: cpu_disable_interrupts_def cpu_enable_interrupts_def)+

text \<open>
  A read from a serial port returns the bytes that have arrived, as many as asked for at
  most; it waits for the receive interrupt exactly when it has to return something and
  nothing has arrived.
\<close>

theorem serial_read_spec:
  assumes "iodir (kbd (TERMS s d)) = IODIR_RX" "\<forall>i. rcs i \<noteq> RError" "n < 2 ^ 31"
  shows "\<exists>s'. serial_read c d rcs n s =
     (if n > 0 \<and> available rcs 0 n = [] then Some (Block (rx_ready d) SCHED_IO NO_TIMEOUT, s')
      else Some (Done (int (length (available rcs 0 n)), available rcs 0 n), s'))"
proof -
  have "length (available rcs 0 n) < 2 ^ 31" using available_length [of rcs 0 n] assms(3) by linarith
  note ti = to_int_small [OF this]
  have "iodir (kbd (TERMS (snd (cpu_disable_interrupts c s)) d)) = IODIR_RX"
    using assms(1) by (simp add: cpu_disable_interrupts_def)
  from serial_read_loop_available [OF this assms(2), of c n "[]", unfolded append_Nil list.size(3) ti]
  show ?thesis unfolding serial_read_def .
qed

theorem serial_read_spec_witness:
  "\<exists>s'. serial_read 0 0 (\<lambda>i. if i < 2 then RByte 65 else RAgain) 8 kernel2 = Some (Done (2, [65, 65]), s')"
proof -
  let ?rcs = "\<lambda>i :: nat. if i < 2 then RByte 65 else RAgain"
  have "available ?rcs 0 8 = [65, 65]" by (simp add: numeral_eq_Suc)
  moreover have "iodir (kbd (TERMS kernel2 0)) = IODIR_RX"
    by (simp add: kernel2_def kernel_waiting_def with_kernel_def with_cc_def sched7_def sched0_def bios0_def cc.defs kernel.defs sched.defs bios.defs)
  ultimately show ?thesis using serial_read_spec [of kernel2 0 ?rcs 8 0] by simp
qed

text \<open>
  C23. The handler of the receive interrupt wakes up every thread that waits for input of any
  port, whichever port raised the interrupt, and leaves every other ring of waiters alone.
\<close>

theorem serial_rx_handler_wakes:
  assumes "quiet sw s"
  shows "\<exists>s'. serial_rx_handler c s = Some s' \<and> quiet sw s' \<and>
     (\<forall>i < bios_serial_ports s. waitset s' (rx_ready i) = [] \<and>
        (\<forall>t \<in> set (waitset s (rx_ready i)). \<not> asleep s' t)) \<and>
     (\<forall>cv. (\<forall>i < bios_serial_ports s. cv \<noteq> rx_ready i) \<longrightarrow> waitset s' cv = waitset s cv)"
proof -
  let ?s1 = "snd (cpu_disable_interrupts c s)"
  have q: "quiet sw ?s1" using assms by (simp add: quiet_interrupts)
  have f1: "bios_serial_ports ?s1 = bios_serial_ports s" "waitset ?s1 = waitset s"
    by (simp_all add: bios_serial_ports_def cpu_disable_interrupts_def)
  obtain s2 where s2: "rx_loop c [0..<bios_serial_ports s] ?s1 = Some s2" "quiet sw s2"
    "waitset s2 = (\<lambda>cv. if cv \<in> rx_ready ` set [0..<bios_serial_ports s] then [] else waitset s cv)"
    "\<forall>i \<in> set [0..<bios_serial_ports s]. \<forall>t \<in> set (waitset s (rx_ready i)). \<not> asleep s2 t"
    using rx_loop_wakes [OF q, of c "[0..<bios_serial_ports s]"] unfolding f1 by blast
  let ?s' = "if fst (cpu_disable_interrupts c s) then cpu_enable_interrupts c s2 else s2"
  have w: "waitset ?s' = waitset s2" "asleep ?s' = asleep s2"
    by (simp_all add: cpu_enable_interrupts_def fun_eq_iff asleep_def)
  have "serial_rx_handler c s = Some ?s'"
    using s2(1) by (simp add: serial_rx_handler_def split_beta f1)
  moreover have "quiet sw ?s'" using s2(2) by (simp add: quiet_interrupts)
  moreover have "\<forall>i < bios_serial_ports s. waitset ?s' (rx_ready i) = [] \<and>
      (\<forall>t \<in> set (waitset s (rx_ready i)). \<not> asleep ?s' t)" using s2(3,4) unfolding w by auto
  moreover have "\<forall>cv. (\<forall>i < bios_serial_ports s. cv \<noteq> rx_ready i) \<longrightarrow> waitset ?s' cv = waitset s cv"
    using s2(3) unfolding w by auto
  ultimately show ?thesis by blast
qed

theorem serial_rx_handler_wakes_witness:
  "let s = (kernel_waiting (rx_ready 0))\<lparr>nterm := 1\<rparr> in
     waitset s (rx_ready 0) = [Thr 1] \<and> asleep s (Thr 1) \<and>
     (\<exists>s'. serial_rx_handler 0 s = Some s' \<and> waitset s' (rx_ready 0) = [] \<and> \<not> asleep s' (Thr 1))"
proof -
  let ?s = "(kernel_waiting (rx_ready 0))\<lparr>nterm := 1\<rparr>"
  have "quiet {} ?s" using kernel_waiting_quiet by (subst quiet_cong [of _ "kernel_waiting (rx_ready 0)"]) simp_all
  moreover have "bios_serial_ports ?s = 1" by (simp add: bios_serial_ports_def)
  ultimately obtain s' where "serial_rx_handler 0 ?s = Some s'" "waitset s' (rx_ready 0) = []"
    "\<forall>t \<in> set (waitset ?s (rx_ready 0)). \<not> asleep s' t" using serial_rx_handler_wakes [of "{}" ?s 0] by auto
  moreover have "asleep ?s (Thr 1)" by (simp add: asleep_def kernel_waiting_sel sched7_def thread_of_def)
  ultimately show ?thesis by (simp add: kernel_waiting_sel)
qed

end
