(* ===== verification/Pipe.thy ===== *)
theory Pipe
  imports Files
begin

text \<open>
  Pipes, \<^verbatim>\<open>kernel_pipe.c\<close>.  The byte buffer is a ring with a read position, a write position
  and a fill count; the contract of such a buffer is the locale \<open>bounded_fifo\<close>, whose client
  lemmas (bulk writing and reading, any interleaving of both) are proved once and used for the
  pipe through an interpretation.
\<close>

section \<open>The ring buffer\<close>

text \<open>One turn of the copying loops of \<^verbatim>\<open>pipe_write\<close> and \<^verbatim>\<open>pipe_read\<close>.\<close>

definition pipe_put :: "byte \<Rightarrow> Pipe_CB \<Rightarrow> Pipe_CB" where
  "pipe_put b p =
     p\<lparr>BUFFER := (BUFFER p)(w_position p := b),
       w_position := (if w_position p = PIPE_BUFFER_SIZE - 1 then 0 else w_position p + 1),
       used_space := used_space p + 1\<rparr>"

definition pipe_get :: "Pipe_CB \<Rightarrow> byte \<times> Pipe_CB" where
  "pipe_get p =
     (BUFFER p (r_position p),
      p\<lparr>r_position := (if r_position p = PIPE_BUFFER_SIZE - 1 then 0 else r_position p + 1),
        used_space := used_space p - 1\<rparr>)"

text \<open>The loops: \<open>copy_in\<close> runs over the bytes of \<^verbatim>\<open>buf\<close>, \<open>copy_out n\<close> reads up to \<open>n\<close> bytes.\<close>

fun copy_in :: "byte list \<Rightarrow> Pipe_CB \<Rightarrow> nat \<times> Pipe_CB" where
  "copy_in [] p = (0, p)"
| "copy_in (b # bs) p =
     (if used_space p < PIPE_BUFFER_SIZE
      then let (k, p') = copy_in bs (pipe_put b p) in (k + 1, p') else (0, p))"

fun copy_out :: "nat \<Rightarrow> Pipe_CB \<Rightarrow> byte list \<times> Pipe_CB" where
  "copy_out 0 p = ([], p)"
| "copy_out (Suc n) p =
     (if used_space p > 0
      then let (b, p') = pipe_get p; (bs, p'') = copy_out n p' in (b # bs, p'') else ([], p))"

section \<open>Operations\<close>

definition do_nothing :: int where
  "do_nothing = -1"

definition acquire_PipeCB :: "'a kernel_scheme \<Rightarrow> nat \<times> 'a kernel_scheme" where
  "acquire_PipeCB s =
     (let (a, s1) = xmalloc s;
          s2 = cond_init (has_space a) (cond_init (has_data a) s1)
      in (a, s2\<lparr>pipes := (pipes s2)(a \<mapsto> \<lparr>reader = None, writer = None, w_position = 0,
                r_position = 0, BUFFER = (\<lambda>_. 0), used_space = 0\<rparr>)\<rparr>))"

text \<open>
  \<^verbatim>\<open>pipe_write\<close> and \<^verbatim>\<open>pipe_read\<close> from the loop that waits on; a thread whose \<^verbatim>\<open>kernel_wait\<close>
  returns continues there.  A result of \<open>pipe_read\<close> carries the bytes stored in \<^verbatim>\<open>buf\<close>.
\<close>

definition pipe_write_loop :: "nat \<Rightarrow> nat \<Rightarrow> byte list \<Rightarrow> 'a kernel_scheme \<Rightarrow>
  (int outcome \<times> 'a kernel_scheme) option" where
  "pipe_write_loop c a buf s =
     do { p \<leftarrow> pipes s a;
          if used_space p = PIPE_BUFFER_SIZE \<and> reader p \<noteq> None
          then Some (Block (has_space a) SCHED_PIPE NO_TIMEOUT, s)
          else if reader p = None then Some (Done (-1), s)
          else do { let (counter, p') = copy_in buf p;
                    s1 \<leftarrow> kernel_broadcast c (has_data a) (s\<lparr>pipes := (pipes s)(a \<mapsto> p')\<rparr>);
                    Some (Done (int counter), s1) } }"

definition pipe_write :: "nat \<Rightarrow> nat option \<Rightarrow> byte list \<Rightarrow> 'a kernel_scheme \<Rightarrow>
  (int outcome \<times> 'a kernel_scheme) option" where
  "pipe_write c pipecb buf s =
     (case pipecb of
        None \<Rightarrow> Some (Done (-1), s)
      | Some a \<Rightarrow> do { p \<leftarrow> pipes s a;
                       if reader p = None \<or> writer p = None then Some (Done (-1), s)
                       else pipe_write_loop c a buf s })"

definition pipe_read_loop :: "nat \<Rightarrow> nat \<Rightarrow> nat \<Rightarrow> 'a kernel_scheme \<Rightarrow>
  ((int \<times> byte list) outcome \<times> 'a kernel_scheme) option" where
  "pipe_read_loop c a n s =
     do { p \<leftarrow> pipes s a;
          if used_space p = 0 \<and> writer p \<noteq> None
          then Some (Block (has_data a) SCHED_PIPE NO_TIMEOUT, s)
          else do { let (bs, p') = copy_out n p;
                    s1 \<leftarrow> kernel_broadcast c (has_space a) (s\<lparr>pipes := (pipes s)(a \<mapsto> p')\<rparr>);
                    Some (Done (int (length bs), bs), s1) } }"

definition pipe_read :: "nat \<Rightarrow> nat option \<Rightarrow> nat \<Rightarrow> 'a kernel_scheme \<Rightarrow>
  ((int \<times> byte list) outcome \<times> 'a kernel_scheme) option" where
  "pipe_read c pipecb n s =
     (case pipecb of
        None \<Rightarrow> Some (Done (-1, []), s)
      | Some a \<Rightarrow> do { p \<leftarrow> pipes s a;
                       if reader p = None then Some (Done (-1, []), s) else pipe_read_loop c a n s })"

definition pipe_writer_close :: "nat \<Rightarrow> nat option \<Rightarrow> 'a kernel_scheme \<Rightarrow> (int \<times> 'a kernel_scheme) option" where
  "pipe_writer_close c pipecb s =
     (case pipecb of
        None \<Rightarrow> Some (-1, s)
      | Some a \<Rightarrow>
          do { s1 \<leftarrow> upd_pipe a (\<lambda>p. p\<lparr>writer := None\<rparr>) s;
               p \<leftarrow> pipes s1 a;
               if reader p = None then Some (0, s1\<lparr>pipes := (pipes s1)(a := None)\<rparr>)
               else do { s2 \<leftarrow> kernel_broadcast c (has_data a) s1; Some (0, s2) } })"

definition pipe_reader_close :: "nat \<Rightarrow> nat option \<Rightarrow> 'a kernel_scheme \<Rightarrow> (int \<times> 'a kernel_scheme) option" where
  "pipe_reader_close c pipecb s =
     (case pipecb of
        None \<Rightarrow> Some (-1, s)
      | Some a \<Rightarrow>
          do { s1 \<leftarrow> upd_pipe a (\<lambda>p. p\<lparr>reader := None\<rparr>) s;
               p \<leftarrow> pipes s1 a;
               if writer p = None then Some (0, s1\<lparr>pipes := (pipes s1)(a := None)\<rparr>)
               else do { s2 \<leftarrow> kernel_broadcast c (has_space a) s1; Some (0, s2) } })"

text \<open>\<^verbatim>\<open>sys_Pipe\<close>; the second component of the result is what is stored in \<^verbatim>\<open>pipe->read\<close> and \<^verbatim>\<open>pipe->write\<close>.\<close>

definition sys_Pipe :: "nat \<Rightarrow> 'a kernel_scheme \<Rightarrow> ((int \<times> (nat \<times> nat) option) \<times> 'a kernel_scheme) option" where
  "sys_Pipe c s =
     do { (ret_val, s1) \<leftarrow> FCB_reserve c 2 s;
          case ret_val of
            Some (fids, fcbs) \<Rightarrow>
              do { let (a, s2) = acquire_PipeCB s1;
                   s3 \<leftarrow> upd_pipe a (\<lambda>p. p\<lparr>reader := Some (fcbs ! 0), writer := Some (fcbs ! 1)\<rparr>) s2;
                   let s4 = upd_fcb (fcbs ! 0) (\<lambda>f. f\<lparr>streamobj := Some (Pipe_obj a),
                              streamfunc := Some reader_file_ops\<rparr>) s3;
                   let s5 = upd_fcb (fcbs ! 1) (\<lambda>f. f\<lparr>streamobj := Some (Pipe_obj a),
                              streamfunc := Some writer_file_ops\<rparr>) s4;
                   Some ((0, Some (fids ! 0, fids ! 1)), s5) }
          | None \<Rightarrow> Some ((-1, None), s1) }"

section \<open>The methods keep to the contract of drivers\<close>

lemmas broadcast_files = kernel_broadcast_kframe [THEN same_files_kframe]

lemma pipe_write_loop_files: "pipe_write_loop c a buf s = Some (r, s') \<Longrightarrow> same_files s s'"
  by (auto simp: pipe_write_loop_def split: if_splits bind_splits prod.splits dest!: broadcast_files)

lemma pipe_read_loop_files: "pipe_read_loop c a n s = Some (r, s') \<Longrightarrow> same_files s s'"
  by (auto simp: pipe_read_loop_def split: if_splits bind_splits prod.splits dest!: broadcast_files)

interpretation pipe_write_method: driver_method "pipe_write c pipecb buf" for c pipecb buf
  by unfold_locales
    (auto simp: pipe_write_def split: option.splits if_splits bind_splits dest!: pipe_write_loop_files)

interpretation pipe_read_method: driver_method "pipe_read c pipecb n" for c pipecb n
  by unfold_locales
    (auto simp: pipe_read_def split: option.splits if_splits bind_splits dest!: pipe_read_loop_files)

interpretation pipe_writer_close_method: driver_method "pipe_writer_close c pipecb" for c pipecb
  by unfold_locales
    (auto simp: pipe_writer_close_def upd_pipe_def split: option.splits if_splits bind_splits dest!: broadcast_files)

interpretation pipe_reader_close_method: driver_method "pipe_reader_close c pipecb" for c pipecb
  by unfold_locales
    (auto simp: pipe_reader_close_def upd_pipe_def split: option.splits if_splits bind_splits dest!: broadcast_files)

section \<open>The contract of a bounded FIFO buffer\<close>

locale bounded_fifo =
  fixes put :: "'b \<Rightarrow> 'q \<Rightarrow> 'q" and get :: "'q \<Rightarrow> 'b \<times> 'q" and abs :: "'q \<Rightarrow> 'b list"
    and fifo_inv :: "'q \<Rightarrow> bool" and cap :: nat
  assumes abs_cap: "fifo_inv q \<Longrightarrow> length (abs q) \<le> cap"
    and put_inv: "fifo_inv q \<Longrightarrow> length (abs q) < cap \<Longrightarrow> fifo_inv (put b q)"
    and put_abs: "fifo_inv q \<Longrightarrow> length (abs q) < cap \<Longrightarrow> abs (put b q) = abs q @ [b]"
    and get_inv: "fifo_inv q \<Longrightarrow> abs q \<noteq> [] \<Longrightarrow> fifo_inv (snd (get q))"
    and get_abs: "fifo_inv q \<Longrightarrow> abs q \<noteq> [] \<Longrightarrow> fst (get q) # abs (snd (get q)) = abs q"
begin

fun put_many :: "'b list \<Rightarrow> 'q \<Rightarrow> nat \<times> 'q" where
  "put_many [] q = (0, q)"
| "put_many (b # bs) q =
     (if length (abs q) < cap then let (k, q') = put_many bs (put b q) in (k + 1, q') else (0, q))"

fun get_many :: "nat \<Rightarrow> 'q \<Rightarrow> 'b list \<times> 'q" where
  "get_many 0 q = ([], q)"
| "get_many (Suc n) q =
     (if abs q \<noteq> [] then let (b, q') = get q; (bs, q'') = get_many n q' in (b # bs, q'') else ([], q))"

lemma put_many_spec:
  "fifo_inv q \<Longrightarrow> put_many bs q = (k, q') \<Longrightarrow>
     fifo_inv q' \<and> k = min (length bs) (cap - length (abs q)) \<and> abs q' = abs q @ take k bs"
proof (induction bs arbitrary: q k q')
  case (Cons b bs)
  show ?case
  proof (cases "length (abs q) < cap")
    case True
    then obtain j where j: "put_many bs (put b q) = (j, q')" "k = j + 1"
      using Cons.prems(2) by (auto split: prod.splits)
    from Cons.IH [OF put_inv [OF Cons.prems(1) True] j(1)] put_abs [OF Cons.prems(1) True, of b] j(2) True
    show ?thesis by auto
  next
    case False
    then show ?thesis using Cons.prems abs_cap [OF Cons.prems(1)] by auto
  qed
qed simp

lemma get_many_spec:
  "fifo_inv q \<Longrightarrow> get_many n q = (bs, q') \<Longrightarrow>
     fifo_inv q' \<and> bs = take n (abs q) \<and> abs q' = drop n (abs q)"
proof (induction n arbitrary: q bs q')
  case (Suc n)
  show ?case
  proof (cases "abs q = []")
    case False
    obtain b q1 where g: "get q = (b, q1)" by (cases "get q")
    with get_abs [OF Suc.prems(1) False] have a: "abs q = b # abs q1" by simp
    from False Suc.prems(2) g obtain bs1 where r: "get_many n q1 = (bs1, q')" "bs = b # bs1"
      by (auto split: prod.splits)
    from Suc.IH [OF _ r(1)] get_inv [OF Suc.prems(1) False] g r(2) a show ?thesis by simp
  qed (use Suc.prems in auto)
qed simp

text \<open>Any sequence of bulk operations: what was read is what was written first, in order.\<close>

fun fifo_run :: "('b list + nat) list \<Rightarrow> 'q \<Rightarrow> 'b list \<times> 'b list \<times> 'q" where
  "fifo_run [] q = ([], [], q)"
| "fifo_run (Inl bs # ops) q =
     (let (k, q1) = put_many bs q; (w, r, q2) = fifo_run ops q1 in (take k bs @ w, r, q2))"
| "fifo_run (Inr n # ops) q =
     (let (bs, q1) = get_many n q; (w, r, q2) = fifo_run ops q1 in (w, bs @ r, q2))"

lemma fifo_run_order:
  "fifo_inv q \<Longrightarrow> fifo_run ops q = (w, r, q') \<Longrightarrow> fifo_inv q' \<and> abs q @ w = r @ abs q'"
proof (induction ops arbitrary: q w r q')
  case (Cons op ops)
  show ?case
  proof (cases op)
    case (Inl bs)
    obtain k q1 where p: "put_many bs q = (k, q1)" by (cases "put_many bs q")
    from Cons.prems(2) Inl p obtain w1 where run: "fifo_run ops q1 = (w1, r, q')" "w = take k bs @ w1"
      by (auto split: prod.splits)
    from put_many_spec [OF Cons.prems(1) p] Cons.IH [OF _ run(1)] run(2) show ?thesis by auto
  next
    case (Inr n)
    obtain bs q1 where g: "get_many n q = (bs, q1)" by (cases "get_many n q")
    from Cons.prems(2) Inr g obtain r1 where run: "fifo_run ops q1 = (w, r1, q')" "r = bs @ r1"
      by (auto split: prod.splits)
    have "fifo_inv q1" "bs @ abs q1 = abs q"
      using get_many_spec [OF Cons.prems(1) g] by auto
    with Cons.IH [OF _ run(1)] run(2) show ?thesis by (metis append.assoc)
  qed
qed simp

end

section \<open>The pipe is such a buffer\<close>

definition pipe_inv :: "Pipe_CB \<Rightarrow> bool" where
  "pipe_inv p \<longleftrightarrow> r_position p < PIPE_BUFFER_SIZE \<and> w_position p < PIPE_BUFFER_SIZE \<and>
     used_space p \<le> PIPE_BUFFER_SIZE \<and>
     w_position p = (r_position p + used_space p) mod PIPE_BUFFER_SIZE"

definition pipe_contents :: "Pipe_CB \<Rightarrow> byte list" where
  "pipe_contents p = map (\<lambda>i. BUFFER p ((r_position p + i) mod PIPE_BUFFER_SIZE)) [0..<used_space p]"

lemma length_pipe_contents [simp]: "length (pipe_contents p) = used_space p"
  by (simp add: pipe_contents_def)

text \<open>Positions in a ring of \<open>n\<close> slots.\<close>

lemma wrap_next: "i < n \<Longrightarrow> (if i = n - 1 then 0 else i + 1) = (i + 1) mod (n :: nat)"
  by auto

lemma ring_slots_differ:
  assumes "i < u" "u < (n :: nat)"
  shows "(r + i) mod n \<noteq> (r + u) mod n"
proof
  assume "(r + i) mod n = (r + u) mod n"
  then have "n dvd (r + u) - (r + i)" using assms mod_eq_dvd_iff_nat [of "r + i" "r + u" n] by simp
  then have "n dvd u - i" by simp
  with assms show False by (auto dest: dvd_imp_le)
qed

lemma pipe_put_inv:
  assumes "pipe_inv p" "used_space p < PIPE_BUFFER_SIZE"
  shows "pipe_inv (pipe_put b p)"
proof -
  have w: "w_position p < PIPE_BUFFER_SIZE" using assms(1) by (simp add: pipe_inv_def)
  have pos: "w_position (pipe_put b p) = (w_position p + 1) mod PIPE_BUFFER_SIZE"
    using wrap_next [OF w] by (simp add: pipe_put_def)
  have "w_position (pipe_put b p) = (r_position p + (used_space p + 1)) mod PIPE_BUFFER_SIZE"
    using assms(1) unfolding pos pipe_inv_def by (simp add: mod_simps)
  then show ?thesis using assms w unfolding pipe_inv_def by (simp add: pipe_put_def)
qed

lemma pipe_put_contents:
  assumes "pipe_inv p" "used_space p < PIPE_BUFFER_SIZE"
  shows "pipe_contents (pipe_put b p) = pipe_contents p @ [b]"
proof -
  have "(r_position p + i) mod PIPE_BUFFER_SIZE \<noteq> w_position p" if "i < used_space p" for i
    using ring_slots_differ [OF that assms(2), of "r_position p"] assms(1) by (simp add: pipe_inv_def)
  then show ?thesis
    using assms(1) by (simp add: pipe_contents_def pipe_put_def pipe_inv_def)
qed

lemma pipe_get_inv:
  assumes "pipe_inv p" "used_space p > 0"
  shows "pipe_inv (snd (pipe_get p))"
proof -
  obtain u where u: "used_space p = Suc u" using assms(2) by (cases "used_space p") auto
  have r: "r_position p < PIPE_BUFFER_SIZE" using assms(1) by (simp add: pipe_inv_def)
  have pos: "r_position (snd (pipe_get p)) = (r_position p + 1) mod PIPE_BUFFER_SIZE"
    using wrap_next [OF r] by (simp add: pipe_get_def)
  have "w_position p = (r_position (snd (pipe_get p)) + u) mod PIPE_BUFFER_SIZE"
    using assms(1) unfolding pos pipe_inv_def by (simp add: u mod_simps)
  moreover have "r_position (snd (pipe_get p)) < PIPE_BUFFER_SIZE" using r unfolding pos by simp
  ultimately show ?thesis using assms(1) unfolding pipe_inv_def by (simp add: pipe_get_def u)
qed

lemma pipe_get_contents:
  assumes "pipe_inv p" "used_space p > 0"
  shows "fst (pipe_get p) # pipe_contents (snd (pipe_get p)) = pipe_contents p"
proof -
  obtain u where u: "used_space p = Suc u" using assms(2) by (cases "used_space p") auto
  have r: "r_position p < PIPE_BUFFER_SIZE" using assms(1) by (simp add: pipe_inv_def)
  have "r_position (snd (pipe_get p)) = (r_position p + 1) mod PIPE_BUFFER_SIZE"
    using wrap_next [OF r] by (simp add: pipe_get_def)
  then have "pipe_contents (snd (pipe_get p)) =
      map (\<lambda>i. BUFFER p ((r_position p + Suc i) mod PIPE_BUFFER_SIZE)) [0..<u]"
    by (simp add: pipe_contents_def pipe_get_def u mod_simps)
  moreover have "pipe_contents p = BUFFER p (r_position p) #
      map (\<lambda>i. BUFFER p ((r_position p + Suc i) mod PIPE_BUFFER_SIZE)) [0..<u]"
    unfolding pipe_contents_def u upt_conv_Cons [OF zero_less_Suc] map_Suc_upt [symmetric]
    using r by simp
  ultimately show ?thesis by (simp add: pipe_get_def)
qed

lemma pipe_contents_empty [simp]: "pipe_contents p = [] \<longleftrightarrow> used_space p = 0"
  by (simp add: pipe_contents_def)

interpretation pipe_fifo: bounded_fifo pipe_put pipe_get pipe_contents pipe_inv PIPE_BUFFER_SIZE
proof unfold_locales
  show "length (pipe_contents q) \<le> PIPE_BUFFER_SIZE" if "pipe_inv q" for q
    using that by (simp add: pipe_inv_def)
qed (simp_all add: pipe_put_inv pipe_put_contents pipe_get_inv pipe_get_contents)

text \<open>The loops of the code are the bulk operations of the contract.\<close>

lemma copy_in_put_many: "copy_in bs p = pipe_fifo.put_many bs p"
  by (induction bs arbitrary: p) simp_all

lemma copy_out_get_many: "copy_out n p = pipe_fifo.get_many n p"
  by (induction n arbitrary: p) (simp_all add: split_beta flip: length_greater_0_conv)

lemmas copy_in_spec = pipe_fifo.put_many_spec [folded copy_in_put_many, unfolded length_pipe_contents]
lemmas copy_out_spec = pipe_fifo.get_many_spec [folded copy_out_get_many]

lemma copy_in_ends: "copy_in bs p = (k, p') \<Longrightarrow> reader p' = reader p \<and> writer p' = writer p"
  by (induction bs arbitrary: p k p') (fastforce simp: pipe_put_def split: if_splits prod.splits)+

lemma copy_out_ends: "copy_out n p = (bs, p') \<Longrightarrow> reader p' = reader p \<and> writer p' = writer p"
  by (induction n arbitrary: p bs p') (fastforce simp: pipe_get_def split: if_splits prod.splits)+

section \<open>The contract of a pipe\<close>

text \<open>
  What a pipe promises, without its ring: the bytes in transit and which ends are open.  A call
  returns, or waits with nothing changed.
\<close>

datatype 'r reply = Returns 'r | Waits

fun reply_of :: "'r outcome \<Rightarrow> 'r reply" where
  "reply_of (Done r) = Returns r"
| "reply_of (Block _ _ _) = Waits"
| "reply_of (Yield _) = Waits"

record pipe_spec =
  in_transit :: "byte list"
  reader_open :: bool
  writer_open :: bool

definition abs_pipe :: "Pipe_CB \<Rightarrow> pipe_spec" where
  "abs_pipe p = \<lparr>in_transit = pipe_contents p, reader_open = (reader p \<noteq> None), writer_open = (writer p \<noteq> None)\<rparr>"

definition spec_write :: "byte list \<Rightarrow> pipe_spec \<Rightarrow> int reply \<times> pipe_spec" where
  "spec_write buf q =
     (if \<not> reader_open q \<or> \<not> writer_open q then (Returns (-1), q)
      else if length (in_transit q) = PIPE_BUFFER_SIZE then (Waits, q)
      else let k = min (length buf) (PIPE_BUFFER_SIZE - length (in_transit q))
           in (Returns (int k), q\<lparr>in_transit := in_transit q @ take k buf\<rparr>))"

definition spec_read :: "nat \<Rightarrow> pipe_spec \<Rightarrow> (int \<times> byte list) reply \<times> pipe_spec" where
  "spec_read n q =
     (if \<not> reader_open q then (Returns (-1, []), q)
      else if in_transit q = [] \<and> writer_open q then (Waits, q)
      else (Returns (int (min n (length (in_transit q))), take n (in_transit q)),
            q\<lparr>in_transit := drop n (in_transit q)\<rparr>))"

text \<open>A call of an operation on pipe \<open>a\<close> changes that pipe and the threads it wakes up.\<close>

definition pipe_only :: "nat \<Rightarrow> Pipe_CB \<Rightarrow> 'a kernel_scheme \<Rightarrow> 'a kernel_scheme \<Rightarrow> bool" where
  "pipe_only a p' s s' \<longleftrightarrow> kframe (s\<lparr>pipes := (pipes s)(a \<mapsto> p')\<rparr>) s'"

lemma pipe_only_same [simp]: "pipes s a = Some p \<Longrightarrow> pipe_only a p s s"
  by (simp add: pipe_only_def map_upd_triv)

lemma pipe_only_pipes: "pipe_only a p' s s' \<Longrightarrow> pipes s' = (pipes s)(a \<mapsto> p')"
  unfolding pipe_only_def kframe_def by (auto dest: more_kernel(7))

lemma pipe_write_copies:
  assumes "quiet sw s" "pipes s a = Some p" "pipe_inv p" "reader p \<noteq> None" "used_space p < PIPE_BUFFER_SIZE"
  shows "\<exists>p' s'. pipe_write_loop c a buf s =
        Some (Done (int (min (length buf) (PIPE_BUFFER_SIZE - used_space p))), s') \<and> pipe_inv p' \<and>
      pipe_contents p' = pipe_contents p @ take (min (length buf) (PIPE_BUFFER_SIZE - used_space p)) buf \<and>
      reader p' = reader p \<and> writer p' = writer p \<and> pipe_only a p' s s' \<and> woken (has_data a) s s' \<and> quiet sw s'"
proof -
  obtain k p' where cp: "copy_in buf p = (k, p')" by (cases "copy_in buf p")
  let ?s1 = "s\<lparr>pipes := (pipes s)(a \<mapsto> p')\<rparr>"
  obtain s' where s': "kernel_broadcast c (has_data a) ?s1 = Some s'" "quiet sw s'" "kframe ?s1 s'"
    "woken (has_data a) ?s1 s'"
    using kernel_broadcast_quiet [of sw ?s1 c "has_data a"] assms(1) by auto
  have "woken (has_data a) s s'" using s'(4) by (simp add: woken_def)
  then show ?thesis
    using s' assms copy_in_spec [OF assms(3) cp] copy_in_ends [OF cp]
    by (intro exI [of _ p'] exI [of _ s']) (simp add: pipe_write_loop_def cp pipe_only_def)
qed

lemma pipe_read_copies:
  assumes "quiet sw s" "pipes s a = Some p" "pipe_inv p" "used_space p > 0 \<or> writer p = None"
  shows "\<exists>p' s'. pipe_read_loop c a n s =
        Some (Done (int (min n (used_space p)), take n (pipe_contents p)), s') \<and> pipe_inv p' \<and>
      pipe_contents p' = drop n (pipe_contents p) \<and>
      reader p' = reader p \<and> writer p' = writer p \<and> pipe_only a p' s s' \<and> woken (has_space a) s s' \<and> quiet sw s'"
proof -
  obtain bs p' where cp: "copy_out n p = (bs, p')" by (cases "copy_out n p")
  let ?s1 = "s\<lparr>pipes := (pipes s)(a \<mapsto> p')\<rparr>"
  obtain s' where s': "kernel_broadcast c (has_space a) ?s1 = Some s'" "quiet sw s'" "kframe ?s1 s'"
    "woken (has_space a) ?s1 s'"
    using kernel_broadcast_quiet [of sw ?s1 c "has_space a"] assms(1) by auto
  have "woken (has_space a) s s'" using s'(4) by (simp add: woken_def)
  then show ?thesis
    using s' assms copy_out_spec [OF assms(3) cp] copy_out_ends [OF cp]
    by (intro exI [of _ p'] exI [of _ s']) (auto simp: pipe_read_loop_def cp pipe_only_def min.commute)
qed

lemma pipe_write_spec:
  assumes "quiet sw s" "pipes s a = Some p" "pipe_inv p"
  shows "\<exists>r p' s'. pipe_write c (Some a) buf s = Some (r, s') \<and> pipe_inv p' \<and> pipe_only a p' s s' \<and> quiet sw s' \<and>
      (reply_of r, abs_pipe p') = spec_write buf (abs_pipe p) \<and>
      (r = Block (has_space a) SCHED_PIPE NO_TIMEOUT \<and> s' = s \<or>
       r = Done (-1) \<and> s' = s \<or> (\<exists>k. r = Done (int k)) \<and> woken (has_data a) s s')"
proof (cases "reader p = None \<or> writer p = None \<or> used_space p = PIPE_BUFFER_SIZE")
  case True
  then show ?thesis using assms
    by (auto simp: pipe_write_def pipe_write_loop_def spec_write_def abs_pipe_def intro!: exI [of _ p])
next
  case False
  then have "used_space p < PIPE_BUFFER_SIZE" using assms(3) by (simp add: pipe_inv_def)
  with False pipe_write_copies [OF assms, of c buf] assms(2) show ?thesis
    by (fastforce simp: pipe_write_def spec_write_def abs_pipe_def Let_def)
qed

lemma pipe_read_spec:
  assumes "quiet sw s" "pipes s a = Some p" "pipe_inv p"
  shows "\<exists>r p' s'. pipe_read c (Some a) n s = Some (r, s') \<and> pipe_inv p' \<and> pipe_only a p' s s' \<and> quiet sw s' \<and>
      (reply_of r, abs_pipe p') = spec_read n (abs_pipe p) \<and>
      (r = Block (has_data a) SCHED_PIPE NO_TIMEOUT \<and> s' = s \<or>
       r = Done (-1, []) \<and> s' = s \<or> (\<exists>bs. r = Done (int (length bs), bs)) \<and> woken (has_space a) s s')"
proof (cases "reader p = None \<or> used_space p = 0 \<and> writer p \<noteq> None")
  case True
  then show ?thesis using assms
    by (auto simp: pipe_read_def pipe_read_loop_def spec_read_def abs_pipe_def intro!: exI [of _ p])
next
  case False
  then have "used_space p > 0 \<or> writer p = None" by auto
  from pipe_read_copies [OF assms this, of c n] obtain p' s' where s':
    "pipe_read_loop c a n s = Some (Done (int (min n (used_space p)), take n (pipe_contents p)), s')" "pipe_inv p'"
    "pipe_contents p' = drop n (pipe_contents p)" "reader p' = reader p" "writer p' = writer p"
    "pipe_only a p' s s'" "woken (has_space a) s s'" "quiet sw s'" by blast
  with False assms(2) show ?thesis
    by (intro exI [of _ "Done (int (min n (used_space p)), take n (pipe_contents p))"] exI [of _ p'] exI [of _ s'])
      (auto simp: pipe_read_def spec_read_def abs_pipe_def min.commute intro!: exI [of _ "take n (pipe_contents p)"])
qed

section \<open>Sequences of calls\<close>

text \<open>
  Calls on one pipe, in any order and by any threads: new calls, and calls that continue after
  their wait.  \<open>pipe_call\<close> gives the bytes that the call wrote and read.
\<close>

datatype pipe_op = Write_op "byte list" | Write_again "byte list" | Read_op nat | Read_again nat

fun pipe_call :: "nat \<Rightarrow> nat \<Rightarrow> pipe_op \<Rightarrow> 'a kernel_scheme \<Rightarrow> (byte list \<times> byte list \<times> 'a kernel_scheme) option" where
  "pipe_call c a (Write_op buf) s =
     do { (r, s') \<leftarrow> pipe_write c (Some a) buf s;
          Some (case r of Done k \<Rightarrow> take (nat k) buf | _ \<Rightarrow> [], [], s') }"
| "pipe_call c a (Write_again buf) s =
     do { (r, s') \<leftarrow> pipe_write_loop c a buf s;
          Some (case r of Done k \<Rightarrow> take (nat k) buf | _ \<Rightarrow> [], [], s') }"
| "pipe_call c a (Read_op n) s =
     do { (r, s') \<leftarrow> pipe_read c (Some a) n s;
          Some ([], case r of Done kb \<Rightarrow> snd kb | _ \<Rightarrow> [], s') }"
| "pipe_call c a (Read_again n) s =
     do { (r, s') \<leftarrow> pipe_read_loop c a n s;
          Some ([], case r of Done kb \<Rightarrow> snd kb | _ \<Rightarrow> [], s') }"

fun pipe_calls :: "nat \<Rightarrow> (nat \<times> pipe_op) list \<Rightarrow> 'a kernel_scheme \<Rightarrow> (byte list \<times> byte list \<times> 'a kernel_scheme) option" where
  "pipe_calls a [] s = Some ([], [], s)"
| "pipe_calls a ((c, op) # ops) s =
     do { (w, r, s1) \<leftarrow> pipe_call c a op s; (ws, rs, s2) \<leftarrow> pipe_calls a ops s1; Some (w @ ws, r @ rs, s2) }"

lemma pipe_write_loop_order:
  assumes "quiet sw s" "pipes s a = Some p" "pipe_inv p"
  shows "\<exists>w s' p'. pipe_call c a (Write_again buf) s = Some (w, [], s') \<and> quiet sw s' \<and> pipes s' a = Some p' \<and>
    pipe_inv p' \<and> pipe_contents p' = pipe_contents p @ w"
proof (cases "reader p = None \<or> used_space p = PIPE_BUFFER_SIZE")
  case True
  then show ?thesis using assms by (auto simp: pipe_write_loop_def)
next
  case False
  then have "reader p \<noteq> None" "used_space p < PIPE_BUFFER_SIZE" using assms(3) by (auto simp: pipe_inv_def)
  from pipe_write_copies [OF assms this, of c buf] show ?thesis
    by (fastforce dest: pipe_only_pipes)
qed

lemma pipe_read_loop_order:
  assumes "quiet sw s" "pipes s a = Some p" "pipe_inv p"
  shows "\<exists>r s' p'. pipe_call c a (Read_again n) s = Some ([], r, s') \<and> quiet sw s' \<and> pipes s' a = Some p' \<and>
    pipe_inv p' \<and> pipe_contents p = r @ pipe_contents p'"
proof (cases "used_space p = 0 \<and> writer p \<noteq> None")
  case True
  then show ?thesis using assms by (auto simp: pipe_read_loop_def)
next
  case False
  then have "used_space p > 0 \<or> writer p = None" by auto
  from pipe_read_copies [OF assms this, of c n] show ?thesis
    by (fastforce dest: pipe_only_pipes)
qed

lemma pipe_call_order:
  assumes "quiet sw s" "pipes s a = Some p" "pipe_inv p"
  shows "\<exists>w r s' p'. pipe_call c a op s = Some (w, r, s') \<and> quiet sw s' \<and> pipes s' a = Some p' \<and>
    pipe_inv p' \<and> pipe_contents p @ w = r @ pipe_contents p'"
proof -
  have same: "\<exists>w r s' p'. Some ([], [], s) = Some (w, r, s') \<and> quiet sw s' \<and> pipes s' a = Some p' \<and>
      pipe_inv p' \<and> pipe_contents p @ w = r @ pipe_contents p'" using assms by simp
  show ?thesis
  proof (cases op)
    case (Write_op buf)
    have "pipe_call c a op s = (if reader p = None \<or> writer p = None then Some ([], [], s)
        else pipe_call c a (Write_again buf) s)"
      using assms(2) by (simp add: Write_op pipe_write_def)
    with same pipe_write_loop_order [OF assms, of c buf] show ?thesis by fastforce
  next
    case (Write_again buf)
    with pipe_write_loop_order [OF assms, of c buf] show ?thesis by fastforce
  next
    case (Read_op n)
    have "pipe_call c a op s = (if reader p = None then Some ([], [], s) else pipe_call c a (Read_again n) s)"
      using assms(2) by (simp add: Read_op pipe_read_def)
    with same pipe_read_loop_order [OF assms, of c n] show ?thesis by fastforce
  next
    case (Read_again n)
    with pipe_read_loop_order [OF assms, of c n] show ?thesis by fastforce
  qed
qed

lemma pipe_calls_order:
  assumes "quiet sw s" "pipes s a = Some p" "pipe_inv p"
  shows "\<exists>w r s' p'. pipe_calls a ops s = Some (w, r, s') \<and> quiet sw s' \<and> pipes s' a = Some p' \<and>
    pipe_inv p' \<and> pipe_contents p @ w = r @ pipe_contents p'"
  using assms
proof (induction ops arbitrary: s p)
  case (Cons cop ops)
  obtain c op where cop: "cop = (c, op)" by (cases cop)
  obtain w r s1 p1 where 1: "pipe_call c a op s = Some (w, r, s1)" "quiet sw s1" "pipes s1 a = Some p1" "pipe_inv p1"
    "pipe_contents p @ w = r @ pipe_contents p1" using pipe_call_order [OF Cons.prems, of c op] by blast
  obtain ws rs s2 p2 where 2: "pipe_calls a ops s1 = Some (ws, rs, s2)" "quiet sw s2" "pipes s2 a = Some p2"
    "pipe_inv p2" "pipe_contents p1 @ ws = rs @ pipe_contents p2" using Cons.IH [OF 1(2-4)] by blast
  have "pipe_contents p @ w @ ws = (r @ rs) @ pipe_contents p2"
    using 1(5) 2(5) by (metis append.assoc)
  with cop 1 2 show ?case by simp
qed simp

section \<open>Closing\<close>

lemma pipe_writer_close_effect:
  assumes "quiet sw s" "pipes s a = Some p"
  shows "\<exists>s'. pipe_writer_close c (Some a) s = Some (0, s') \<and> quiet sw s' \<and>
     (if reader p = None then s' = s\<lparr>pipes := (pipes s)(a := None)\<rparr>
      else pipe_only a (p\<lparr>writer := None\<rparr>) s s' \<and> woken (has_data a) s s')"
proof -
  let ?s1 = "s\<lparr>pipes := (pipes s)(a \<mapsto> p\<lparr>writer := None\<rparr>)\<rparr>"
  obtain s' where "kernel_broadcast c (has_data a) ?s1 = Some s'" "quiet sw s'" "kframe ?s1 s'"
    "woken (has_data a) ?s1 s'" using kernel_broadcast_quiet [of sw ?s1 c "has_data a"] assms(1) by auto
  then show ?thesis using assms by (auto simp: pipe_writer_close_def upd_pipe_def pipe_only_def woken_def)
qed

lemma pipe_reader_close_effect:
  assumes "quiet sw s" "pipes s a = Some p"
  shows "\<exists>s'. pipe_reader_close c (Some a) s = Some (0, s') \<and> quiet sw s' \<and>
     (if writer p = None then s' = s\<lparr>pipes := (pipes s)(a := None)\<rparr>
      else pipe_only a (p\<lparr>reader := None\<rparr>) s s' \<and> woken (has_space a) s s')"
proof -
  let ?s1 = "s\<lparr>pipes := (pipes s)(a \<mapsto> p\<lparr>reader := None\<rparr>)\<rparr>"
  obtain s' where "kernel_broadcast c (has_space a) ?s1 = Some s'" "quiet sw s'" "kframe ?s1 s'"
    "woken (has_space a) ?s1 s'" using kernel_broadcast_quiet [of sw ?s1 c "has_space a"] assms(1) by auto
  then show ?thesis using assms by (auto simp: pipe_reader_close_def upd_pipe_def pipe_only_def woken_def)
qed

lemma writer_then_reader_close:
  assumes "quiet sw s" "pipes s a = Some p" "reader p \<noteq> None"
  shows "\<exists>s1 s2. pipe_writer_close c (Some a) s = Some (0, s1) \<and> woken (has_data a) s s1 \<and>
      pipe_only a (p\<lparr>writer := None\<rparr>) s s1 \<and>
      pipe_reader_close c' (Some a) s1 = Some (0, s2) \<and> pipes s2 = (pipes s)(a := None) \<and> quiet sw s2"
proof -
  obtain s1 where 1: "pipe_writer_close c (Some a) s = Some (0, s1)" "quiet sw s1" "pipe_only a (p\<lparr>writer := None\<rparr>) s s1"
    "woken (has_data a) s s1" using pipe_writer_close_effect [OF assms(1,2), of c] assms(3) by auto
  note p1 = pipe_only_pipes [OF 1(3)]
  have "pipes s1 a = Some (p\<lparr>writer := None\<rparr>)" by (simp add: p1)
  from pipe_reader_close_effect [OF 1(2) this, of c'] 1 p1 show ?thesis by auto
qed

lemma reader_then_writer_close:
  assumes "quiet sw s" "pipes s a = Some p" "writer p \<noteq> None"
  shows "\<exists>s1 s2. pipe_reader_close c (Some a) s = Some (0, s1) \<and> woken (has_space a) s s1 \<and>
      pipe_only a (p\<lparr>reader := None\<rparr>) s s1 \<and>
      pipe_writer_close c' (Some a) s1 = Some (0, s2) \<and> pipes s2 = (pipes s)(a := None) \<and> quiet sw s2"
proof -
  obtain s1 where 1: "pipe_reader_close c (Some a) s = Some (0, s1)" "quiet sw s1" "pipe_only a (p\<lparr>reader := None\<rparr>) s s1"
    "woken (has_space a) s s1" using pipe_reader_close_effect [OF assms(1,2), of c] assms(3) by auto
  note p1 = pipe_only_pipes [OF 1(3)]
  have "pipes s1 a = Some (p\<lparr>reader := None\<rparr>)" by (simp add: p1)
  from pipe_writer_close_effect [OF 1(2) this, of c'] 1 p1 show ?thesis by auto
qed

section \<open>Properties\<close>

text \<open>An open pipe at address 0 with three bytes, the last of which went around the end of the buffer.\<close>

definition pipe1 :: Pipe_CB where
  "pipe1 = \<lparr>reader = Some 0, writer = Some 1, w_position = 1, r_position = 8190,
     BUFFER = (\<lambda>_. 0)(8190 := 10, 8191 := 11, 0 := 12), used_space = 3\<rparr>"

definition kernel3 :: kernel where
  "kernel3 = kernel2\<lparr>pipes := [0 \<mapsto> pipe1]\<rparr>"

lemma kernel3_facts: "quiet {} kernel3" "pipes kernel3 0 = Some pipe1" "pipe_inv pipe1"
  "abs_pipe pipe1 = \<lparr>in_transit = [10, 11, 12], reader_open = True, writer_open = True\<rparr>"
  "pipe_contents pipe1 = [10, 11, 12]"
  by (simp_all add: kernel3_def kernel2_quiet pipe_inv_def pipe1_def PIPE_BUFFER_SIZE_def abs_pipe_def
      pipe_contents_def upt_rec)

text \<open>
  C19. \<^verbatim>\<open>pipe_write\<close> refines the contract of a pipe: it fails if an end is closed, waits for space
  if the buffer is full, and otherwise appends as many bytes as fit, returns their number and
  wakes up the threads that wait for data; nothing else changes.
\<close>

theorem pipe_write_refines:
  assumes "quiet sw s" "pipes s a = Some p" "pipe_inv p"
  shows "\<exists>r p' s'. pipe_write c (Some a) buf s = Some (r, s') \<and> pipe_inv p' \<and> pipe_only a p' s s' \<and> quiet sw s' \<and>
      (reply_of r, abs_pipe p') = spec_write buf (abs_pipe p) \<and>
      (r = Block (has_space a) SCHED_PIPE NO_TIMEOUT \<and> s' = s \<or>
       r = Done (-1) \<and> s' = s \<or> (\<exists>k. r = Done (int k)) \<and> woken (has_data a) s s')"
  by (rule pipe_write_spec [OF assms])

theorem pipe_write_refines_witness:
  "\<exists>r p' s'. pipe_write 0 (Some 0) [1, 2] kernel3 = Some (r, s') \<and> reply_of r = Returns 2 \<and>
     in_transit (abs_pipe p') = [10, 11, 12, 1, 2] \<and> pipe_only 0 p' kernel3 s'"
proof -
  obtain r p' s' where e: "pipe_write 0 (Some 0) [1, 2] kernel3 = Some (r, s')" "pipe_only 0 p' kernel3 s'"
    "(reply_of r, abs_pipe p') = spec_write [1, 2] (abs_pipe pipe1)"
    using pipe_write_refines [OF kernel3_facts(1-3), of 0 "[1, 2]"] by metis
  then have "reply_of r = Returns 2" "in_transit (abs_pipe p') = [10, 11, 12, 1, 2]"
    by (simp_all add: kernel3_facts(4) spec_write_def PIPE_BUFFER_SIZE_def)
  with e(1,2) show ?thesis by metis
qed

text \<open>
  C20. \<^verbatim>\<open>pipe_read\<close> refines the contract of a pipe: it fails if the reading end is closed, waits
  for data if the pipe is empty and can still be written, and otherwise takes the first bytes
  in transit, at most \<^verbatim>\<open>n\<close>, and wakes up the threads that wait for space; at the end of the
  stream it returns 0 at once.
\<close>

theorem pipe_read_refines:
  assumes "quiet sw s" "pipes s a = Some p" "pipe_inv p"
  shows "\<exists>r p' s'. pipe_read c (Some a) n s = Some (r, s') \<and> pipe_inv p' \<and> pipe_only a p' s s' \<and> quiet sw s' \<and>
      (reply_of r, abs_pipe p') = spec_read n (abs_pipe p) \<and>
      (r = Block (has_data a) SCHED_PIPE NO_TIMEOUT \<and> s' = s \<or>
       r = Done (-1, []) \<and> s' = s \<or> (\<exists>bs. r = Done (int (length bs), bs)) \<and> woken (has_space a) s s')"
  by (rule pipe_read_spec [OF assms])

theorem pipe_read_refines_witness:
  "\<exists>r p' s'. pipe_read 0 (Some 0) 2 kernel3 = Some (r, s') \<and> reply_of r = Returns (2, [10, 11]) \<and>
     in_transit (abs_pipe p') = [12] \<and> pipe_only 0 p' kernel3 s'"
proof -
  obtain r p' s' where e: "pipe_read 0 (Some 0) 2 kernel3 = Some (r, s')" "pipe_only 0 p' kernel3 s'"
    "(reply_of r, abs_pipe p') = spec_read 2 (abs_pipe pipe1)"
    using pipe_read_refines [OF kernel3_facts(1-3), of 0 2] by metis
  then have "reply_of r = Returns (2, [10, 11])" "in_transit (abs_pipe p') = [12]"
    by (simp_all add: kernel3_facts(4) spec_read_def)
  with e(1,2) show ?thesis by metis
qed

text \<open>
  C21. A pipe is a reliable stream: whatever calls are made on it, by whatever cores and
  with whatever waiting in between, no call faults, and the bytes read are exactly the first
  of the bytes in transit and those written later, in order; the ring stays within its bounds.
\<close>

theorem pipe_stream_order:
  assumes "quiet sw s" "pipes s a = Some p" "pipe_inv p"
  shows "\<exists>w r s' p'. pipe_calls a ops s = Some (w, r, s') \<and> quiet sw s' \<and> pipes s' a = Some p' \<and>
    pipe_inv p' \<and> pipe_contents p @ w = r @ pipe_contents p'"
  by (rule pipe_calls_order [OF assms])

theorem pipe_stream_order_witness:
  "\<exists>w r s' p'. pipe_calls 0 [(0, Read_op 2), (1, Write_op [7, 8])] kernel3 = Some (w, r, s') \<and>
     pipes s' 0 = Some p' \<and> [10, 11, 12] @ w = r @ pipe_contents p'"
  using pipe_stream_order [OF kernel3_facts(1-3), of "[(0, Read_op 2), (1, Write_op [7, 8])]"]
  unfolding kernel3_facts(5) by blast

text \<open>
  Closing both ends of a pipe, in either order, frees it, the second closing call and not
  the first; closing one end wakes up the threads that wait at the other one.
\<close>

theorem pipe_close_frees:
  assumes "quiet sw s" "pipes s a = Some p" "reader p \<noteq> None" "writer p \<noteq> None"
  shows "(\<exists>s1 s2. pipe_writer_close c (Some a) s = Some (0, s1) \<and> woken (has_data a) s s1 \<and>
      pipe_only a (p\<lparr>writer := None\<rparr>) s s1 \<and>
      pipe_reader_close c' (Some a) s1 = Some (0, s2) \<and> pipes s2 = (pipes s)(a := None) \<and> quiet sw s2) \<and>
    (\<exists>s1 s2. pipe_reader_close c (Some a) s = Some (0, s1) \<and> woken (has_space a) s s1 \<and>
      pipe_only a (p\<lparr>reader := None\<rparr>) s s1 \<and>
      pipe_writer_close c' (Some a) s1 = Some (0, s2) \<and> pipes s2 = (pipes s)(a := None) \<and> quiet sw s2)"
  using writer_then_reader_close [OF assms(1-3)] reader_then_writer_close [OF assms(1,2,4)] by blast

theorem pipe_close_frees_witness:
  "\<exists>s1 s2. pipe_writer_close 0 (Some 0) kernel3 = Some (0, s1) \<and> pipe_reader_close 1 (Some 0) s1 = Some (0, s2) \<and>
     pipes s2 = Map.empty"
  using pipe_close_frees [OF kernel3_facts(1,2), of 0 1] by (auto simp: pipe1_def kernel3_def)

end
