(* ===== verification/Socket.thy ===== *)
theory Socket
  imports Pipe
begin

text \<open>
  Local stream sockets, \<^verbatim>\<open>kernel_socket.c\<close>.

  A pointer to a \<^verbatim>\<open>Socket_CB\<close> obtained from \<^verbatim>\<open>streamobj\<close> by a cast is valid only if the stream
  is a socket, and the members \<^verbatim>\<open>peer_s\<close> of its union only if the socket is a peer; otherwise
  following it is a fault.  \<^verbatim>\<open>Port_Map\<close> has \<^verbatim>\<open>MAX_PORT\<close> entries, from 0 to 1022.  The request
  queue of a listener consists of nodes on the stacks of connecting threads.
\<close>

section \<open>Access\<close>

definition socket_ptr :: "stream_obj option \<Rightarrow> nat option option" where
  "socket_ptr obj =
     (case obj of None \<Rightarrow> Some None | Some (Socket_obj a) \<Rightarrow> Some (Some a) | Some _ \<Rightarrow> None)"

definition port_get :: "int \<Rightarrow> 'a kernel_scheme \<Rightarrow> nat option option" where
  "port_get port s = (if 0 \<le> port \<and> port < MAX_PORT then Some (Port_Map s (nat port)) else None)"

definition port_set :: "int \<Rightarrow> nat option \<Rightarrow> 'a kernel_scheme \<Rightarrow> 'a kernel_scheme option" where
  "port_set port v s =
     (if 0 \<le> port \<and> port < MAX_PORT then Some (s\<lparr>Port_Map := (Port_Map s)(nat port := v)\<rparr>) else None)"

definition peer_s :: "Socket_CB \<Rightarrow> (nat option \<times> nat option) option" where
  "peer_s so = (if sock_type so = SOCKET_PEER then Some (read_pipe so, write_pipe so) else None)"

text \<open>The nodes that pushing to and popping from the front of a ring touch must exist.\<close>

definition nodes_live :: "nat list \<Rightarrow> 'a kernel_scheme \<Rightarrow> bool" where
  "nodes_live rs s \<longleftrightarrow> (\<forall>r \<in> set rs. case requests s r of None \<Rightarrow> False | Some x \<Rightarrow> node_live x)"

definition upd_request :: "nat \<Rightarrow> (connection_request \<Rightarrow> connection_request) \<Rightarrow> 'a kernel_scheme \<Rightarrow> 'a kernel_scheme option" where
  "upd_request r f s = do { x \<leftarrow> requests s r; Some (s\<lparr>requests := (requests s)(r \<mapsto> f x)\<rparr>) }"

section \<open>Creating and listening\<close>

definition sys_Socket :: "nat \<Rightarrow> int \<Rightarrow> 'a kernel_scheme \<Rightarrow> (int \<times> 'a kernel_scheme) option" where
  "sys_Socket c port s =
     (if port < 0 \<or> port > MAX_PORT then Some (NOFILE, s)
      else do { (r, s1) \<leftarrow> FCB_reserve c 1 s;
                case r of
                  None \<Rightarrow> Some (-1, s1)
                | Some (fids, fcbs) \<Rightarrow>
                    do { let (a, s2) = xmalloc s1;
                         let s3 = s2\<lparr>sockets := (sockets s2)(a \<mapsto> \<lparr>sock_refcount = 0, sock_fcb = fcbs ! 0,
                                    sock_type = SOCKET_UNBOUND, sock_port = port, sock_queue = [],
                                    peer = None, write_pipe = None, read_pipe = None\<rparr>)\<rparr>;
                         Some (int (fids ! 0), upd_fcb (fcbs ! 0) (\<lambda>f. f\<lparr>streamobj := Some (Socket_obj a),
                                    streamfunc := Some socket_file_ops\<rparr>) s3) } })"

definition sys_Listen :: "nat \<Rightarrow> int \<Rightarrow> 'a kernel_scheme \<Rightarrow> (int \<times> 'a kernel_scheme) option" where
  "sys_Listen c sock s =
     (if sock < 0 \<or> sock > int MAX_FILEID then Some (-1, s)
      else do { curfile \<leftarrow> get_fcb c sock s;
                f \<leftarrow> curfile;
                a' \<leftarrow> socket_ptr (streamobj (FT s f));
                case a' of
                  None \<Rightarrow> Some (-1, s)
                | Some a \<Rightarrow>
                    do { so \<leftarrow> sockets s a;
                         if sock_type so \<noteq> SOCKET_UNBOUND \<or> sock_port so = NOPORT then Some (-1, s)
                         else do { other \<leftarrow> port_get (sock_port so) s;
                                   taken \<leftarrow> (case other of
                                      None \<Rightarrow> Some False
                                    | Some b \<Rightarrow> do { ob \<leftarrow> sockets s b; Some (sock_type ob \<noteq> SOCKET_UNBOUND) });
                                   if taken then Some (-1, s)
                                   else do { s1 \<leftarrow> upd_socket a (\<lambda>x. x\<lparr>sock_type := SOCKET_LISTENER, sock_queue := []\<rparr>) s;
                                             s2 \<leftarrow> port_set (sock_port so) (Some a) (cond_init (req_available a) s1);
                                             Some (0, s2) } } } })"

section \<open>Accepting\<close>

definition unref_socket :: "nat \<Rightarrow> 'a kernel_scheme \<Rightarrow> 'a kernel_scheme option" where
  "unref_socket a = upd_socket a (\<lambda>so. so\<lparr>sock_refcount := sock_refcount so - 1\<rparr>)"

text \<open>The two pipes of a connection and the two sockets at its ends.\<close>

definition connect_peers :: "nat \<Rightarrow> nat \<Rightarrow> fcb_ref \<Rightarrow> fcb_ref \<Rightarrow> 'a kernel_scheme \<Rightarrow> 'a kernel_scheme option" where
  "connect_peers rp lp rf lf s =
     do { let (p1, s1) = xmalloc s;
          let (p2, s2) = xmalloc s1;
          let new = \<lparr>reader = None, writer = None, w_position = 0, r_position = 0, BUFFER = (\<lambda>_. 0), used_space = 0\<rparr>;
          let s3 = cond_init (has_data p1) (cond_init (has_space p1)
                     (s2\<lparr>pipes := (pipes s2)(p1 \<mapsto> new\<lparr>reader := Some rf, writer := Some lf\<rparr>)\<rparr>));
          let s4 = cond_init (has_data p2) (cond_init (has_space p2)
                     (s3\<lparr>pipes := (pipes s3)(p2 \<mapsto> new\<lparr>reader := Some lf, writer := Some rf\<rparr>)\<rparr>));
          s5 \<leftarrow> upd_socket rp (\<lambda>so. so\<lparr>sock_type := SOCKET_PEER, peer := Some lp, read_pipe := Some p1, write_pipe := Some p2\<rparr>) s4;
          upd_socket lp (\<lambda>so. so\<lparr>sock_type := SOCKET_PEER, peer := Some rp, read_pipe := Some p2, write_pipe := Some p1\<rparr>) s5 }"

text \<open>What \<^verbatim>\<open>sys_Accept\<close> does with the first request \<open>r\<close> of listener \<open>a\<close>.\<close>

definition accept_request :: "nat \<Rightarrow> nat \<Rightarrow> int \<Rightarrow> nat \<Rightarrow> 'a kernel_scheme \<Rightarrow> (int \<times> 'a kernel_scheme) option" where
  "accept_request c a port r s =
     do { s1 \<leftarrow> upd_request r (\<lambda>x. x\<lparr>admitted := True\<rparr>) s;
          (fid, s2) \<leftarrow> sys_Socket c port s1;
          if fid = NOFILE then do { s3 \<leftarrow> unref_socket a s2; Some (NOFILE, s3) }
          else do { lfo \<leftarrow> get_fcb c fid s2;
                    lf \<leftarrow> lfo;
                    lpo \<leftarrow> socket_ptr (streamobj (FT s2 lf));
                    lp \<leftarrow> lpo;
                    req \<leftarrow> requests s2 r;
                    rso \<leftarrow> sockets s2 (req_peer req);
                    s3 \<leftarrow> connect_peers (req_peer req) lp (sock_fcb rso) lf s2;
                    s4 \<leftarrow> kernel_signal c (connected_cv r) s3;
                    s5 \<leftarrow> unref_socket a s4;
                    Some (fid, s5) } }"

text \<open>\<^verbatim>\<open>sys_Accept\<close> from its waiting loop on; a thread whose wait returns continues there.\<close>

definition accept_loop :: "nat \<Rightarrow> nat \<Rightarrow> 'a kernel_scheme \<Rightarrow> (int outcome \<times> 'a kernel_scheme) option" where
  "accept_loop c a s =
     do { so \<leftarrow> sockets s a;
          lst \<leftarrow> port_get (sock_port so) s;
          if sock_queue so = [] \<and> lst \<noteq> None then Some (Block (req_available a) SCHED_PIPE NO_TIMEOUT, s)
          else if lst = None then do { s1 \<leftarrow> unref_socket a s; Some (Done NOFILE, s1) }
          else case sock_queue so of
            [] \<Rightarrow> None
          | r # rs \<Rightarrow>
              if nodes_live (take 2 (r # rs)) s
              then do { s1 \<leftarrow> upd_socket a (\<lambda>x. x\<lparr>sock_queue := rs\<rparr>) s;
                        (fid, s2) \<leftarrow> accept_request c a (sock_port so) r s1;
                        Some (Done fid, s2) }
              else None }"

definition sys_Accept :: "nat \<Rightarrow> int \<Rightarrow> 'a kernel_scheme \<Rightarrow> (int outcome \<times> 'a kernel_scheme) option" where
  "sys_Accept c lsock s =
     do { p \<leftarrow> CURPROC c s;
          c_assert (0 \<le> lsock \<and> lsock < int MAX_FILEID);
          f \<leftarrow> FIDT (PT s p) (nat lsock);
          a' \<leftarrow> socket_ptr (streamobj (FT s f));
          case a' of
            None \<Rightarrow> Some (Done NOFILE, s)
          | Some a \<Rightarrow>
              do { so \<leftarrow> sockets s a;
                   if sock_port so < 0 \<or> sock_port so > MAX_PORT \<or> sock_port so = NOPORT then Some (Done NOFILE, s)
                   else if sock_type so \<noteq> SOCKET_LISTENER then Some (Done NOFILE, s)
                   else do { s1 \<leftarrow> upd_socket a (\<lambda>x. x\<lparr>sock_refcount := sock_refcount x + 1\<rparr>) s;
                             accept_loop c a s1 } } }"

section \<open>Connecting\<close>

text \<open>
  \<^verbatim>\<open>sys_Connect\<close> up to its \<^verbatim>\<open>kernel_timedwait\<close>; when it waits, the second component holds the
  local variables \<^verbatim>\<open>socket_cb\<close> and \<^verbatim>\<open>req\<close>.  \<open>connect_resume\<close> is what follows the wait, with the
  value that the wait returned.  Its \<^verbatim>\<open>return\<close> ends the life of the queue node.
\<close>

definition sys_Connect :: "nat \<Rightarrow> int \<Rightarrow> int \<Rightarrow> TimerDuration \<Rightarrow> 'a kernel_scheme \<Rightarrow>
  (int outcome \<times> (nat \<times> nat) option \<times> 'a kernel_scheme) option" where
  "sys_Connect c sock port timeout s =
     (if sock < 0 \<or> sock > int MAX_FILEID then Some (Done (-1), None, s)
      else if port < 0 \<or> port > MAX_PORT then Some (Done (-1), None, s)
      else do { lst \<leftarrow> port_get port s;
        case lst of
          None \<Rightarrow> Some (Done (-1), None, s)
        | Some l \<Rightarrow> do { lso \<leftarrow> sockets s l;
            if sock_type lso \<noteq> SOCKET_LISTENER then Some (Done (-1), None, s)
            else do { fo \<leftarrow> get_fcb c sock s;
              case fo of
                None \<Rightarrow> Some (Done (-1), None, s)
              | Some f \<Rightarrow> do { ao \<leftarrow> socket_ptr (streamobj (FT s f));
                  case ao of
                    None \<Rightarrow> Some (Done (-1), None, s)
                  | Some a \<Rightarrow> do { so \<leftarrow> sockets s a;
                      if sock_type so \<noteq> SOCKET_UNBOUND then Some (Done (-1), None, s)
                      else do { s1 \<leftarrow> upd_socket a (\<lambda>x. x\<lparr>sock_refcount := sock_refcount x + 1\<rparr>) s;
                                let (r, s2) = xmalloc s1;
                                let s3 = cond_init (connected_cv r) (s2\<lparr>requests := (requests s2)(r \<mapsto>
                                           \<lparr>admitted = False, req_peer = a, node_live = True\<rparr>)\<rparr>);
                                c_assert (nodes_live (take 1 (sock_queue lso)) s3);
                                s4 \<leftarrow> upd_socket l (\<lambda>x. x\<lparr>sock_queue := r # sock_queue x\<rparr>) s3;
                                s5 \<leftarrow> kernel_signal c (req_available l) s4;
                                Some (Block (req_available l) SCHED_IO timeout, Some (a, r), s5) } } } } } })"

definition connect_resume :: "nat \<Rightarrow> nat \<Rightarrow> bool \<Rightarrow> 'a kernel_scheme \<Rightarrow> (int \<times> 'a kernel_scheme) option" where
  "connect_resume a r signalled_ret s =
     do { req \<leftarrow> requests s r;
          s1 \<leftarrow> unref_socket a s;
          s2 \<leftarrow> upd_request r (\<lambda>x. x\<lparr>node_live := False\<rparr>) s1;
          Some (if signalled_ret \<and> admitted req then 0 else -1, s2) }"

section \<open>Shutting down\<close>

datatype shutdown_mode = SHUTDOWN_READ | SHUTDOWN_WRITE | SHUTDOWN_BOTH

definition sys_ShutDown :: "nat \<Rightarrow> int \<Rightarrow> shutdown_mode \<Rightarrow> 'a kernel_scheme \<Rightarrow> (int \<times> 'a kernel_scheme) option" where
  "sys_ShutDown c sock how s =
     (if sock < 0 \<or> sock > int MAX_FILEID then Some (-1, s)
      else do { fo \<leftarrow> get_fcb c sock s;
                case fo of
                  None \<Rightarrow> Some (-1, s)
                | Some f \<Rightarrow>
                    do { ao \<leftarrow> socket_ptr (streamobj (FT s f));
                         case ao of
                           None \<Rightarrow> Some (-1, s)
                         | Some a \<Rightarrow>
                             do { so \<leftarrow> sockets s a;
                                  (rp, wp) \<leftarrow> peer_s so;
                                  case how of
                                    SHUTDOWN_READ \<Rightarrow> pipe_reader_close c rp s
                                  | SHUTDOWN_WRITE \<Rightarrow> pipe_writer_close c wp s
                                  | SHUTDOWN_BOTH \<Rightarrow>
                                      do { (r1, s1) \<leftarrow> pipe_reader_close c rp s;
                                           (r2, s2) \<leftarrow> pipe_writer_close c wp s1;
                                           Some (if r1 + r2 = 0 then 0 else -1, s2) } } } })"

section \<open>The stream methods\<close>

definition socket_read :: "nat \<Rightarrow> nat \<Rightarrow> nat \<Rightarrow> 'a kernel_scheme \<Rightarrow>
  ((int \<times> byte list) outcome \<times> 'a kernel_scheme) option" where
  "socket_read c a n s =
     do { so \<leftarrow> sockets s a;
          if sock_type so = SOCKET_LISTENER \<or> sock_type so = SOCKET_UNBOUND then Some (Done (-1, []), s)
          else pipe_read c (read_pipe so) n s }"

definition socket_write :: "nat \<Rightarrow> nat \<Rightarrow> byte list \<Rightarrow> 'a kernel_scheme \<Rightarrow> (int outcome \<times> 'a kernel_scheme) option" where
  "socket_write c a buf s =
     do { so \<leftarrow> sockets s a;
          if sock_type so = SOCKET_LISTENER \<or> sock_type so = SOCKET_UNBOUND then Some (Done (-1), s)
          else pipe_write c (write_pipe so) buf s }"

text \<open>\<^verbatim>\<open>if(socket_cb->refcount==0) free(socket_cb)\<close>.\<close>

definition free_if_unused :: "nat \<Rightarrow> 'a kernel_scheme \<Rightarrow> 'a kernel_scheme option" where
  "free_if_unused a s =
     do { so \<leftarrow> sockets s a;
          Some (if sock_refcount so = 0 then s\<lparr>sockets := (sockets s)(a := None)\<rparr> else s) }"

definition socket_close :: "nat \<Rightarrow> nat option \<Rightarrow> 'a kernel_scheme \<Rightarrow> (int \<times> 'a kernel_scheme) option" where
  "socket_close c obj s =
     (case obj of
        None \<Rightarrow> Some (-1, s)
      | Some a \<Rightarrow>
          do { so \<leftarrow> sockets s a;
               case sock_type so of
                 SOCKET_UNBOUND \<Rightarrow> do { s1 \<leftarrow> free_if_unused a s; Some (0, s1) }
               | SOCKET_LISTENER \<Rightarrow>
                   do { s1 \<leftarrow> port_set (sock_port so) None s;
                        s2 \<leftarrow> kernel_broadcast c (req_available a) s1;
                        if sock_refcount so = 0 then Some (0, s2\<lparr>sockets := (sockets s2)(a := None)\<rparr>)
                        else Some (-1, s2) }
               | SOCKET_PEER \<Rightarrow>
                   do { (r1, s1) \<leftarrow> pipe_writer_close c (write_pipe so) s;
                        if r1 \<noteq> 0 then Some (-1, s1)
                        else do { (r2, s2) \<leftarrow> pipe_reader_close c (read_pipe so) s1;
                                  if r2 \<noteq> 0 then Some (-1, s2)
                                  else do { s3 \<leftarrow> free_if_unused a s2; Some (0, s3) } } } })"

definition socket_open :: int where
  "socket_open = -1"

section \<open>The methods keep to the contract of drivers\<close>

interpretation socket_read_method: driver_method "socket_read c a n" for c a n
  by unfold_locales
    (auto simp: socket_read_def split: if_splits dest!: pipe_read_method.neutral)

interpretation socket_write_method: driver_method "socket_write c a buf" for c a buf
  by unfold_locales
    (auto simp: socket_write_def split: if_splits dest!: pipe_write_method.neutral)

interpretation socket_close_method: driver_method "socket_close c obj" for c obj
  by unfold_locales
    (auto simp: socket_close_def free_if_unused_def port_set_def split: option.splits socket_type.splits if_splits
      dest!: pipe_writer_close_method.neutral pipe_reader_close_method.neutral broadcast_files,
      simp_all add: same_files_def)

section \<open>Sending over a connection\<close>

lemma fresh_pipe_inv: "w_position p = 0 \<Longrightarrow> r_position p = 0 \<Longrightarrow> used_space p = 0 \<Longrightarrow> pipe_inv p \<and> pipe_contents p = []"
  by (simp add: pipe_inv_def PIPE_BUFFER_SIZE_def)

lemma pipe_transfer:
  assumes "quiet sw s" "pipes s p = Some q" "pipe_inv q" "reader q \<noteq> None" "writer q \<noteq> None"
    "pipe_contents q = []" "buf \<noteq> []" "length buf \<le> PIPE_BUFFER_SIZE"
  shows "\<exists>s1 s2 q1. pipe_write c (Some p) buf s = Some (Done (int (length buf)), s1) \<and> quiet sw s1 \<and> pipe_only p q1 s s1 \<and>
    pipe_read c' (Some p) n s1 = Some (Done (int (min n (length buf)), take n buf), s2) \<and> quiet sw s2"
proof -
  have u: "used_space q = 0" using assms(6) by simp
  then have "used_space q < PIPE_BUFFER_SIZE" by (simp add: PIPE_BUFFER_SIZE_def)
  from pipe_write_copies [OF assms(1-4) this, of c buf] assms(8) u obtain q1 s1 where
    1: "pipe_write_loop c p buf s = Some (Done (int (length buf)), s1)" "pipe_inv q1" "pipe_contents q1 = buf"
    "reader q1 = reader q" "writer q1 = writer q" "pipe_only p q1 s s1" "quiet sw s1"
    by (auto simp: assms(6))
  have q1: "pipes s1 p = Some q1" using pipe_only_pipes [OF 1(6)] by simp
  have u1: "used_space q1 = length buf" using 1(3) by (metis length_pipe_contents)
  with assms(7) have "used_space q1 > 0 \<or> writer q1 = None" by simp
  from pipe_read_copies [OF 1(7) q1 1(2) this, of c' n] u1 1(3) obtain s2 where
    2: "pipe_read_loop c' p n s1 = Some (Done (int (min n (length buf)), take n buf), s2)" "quiet sw s2" by auto
  have "pipe_write c (Some p) buf s = Some (Done (int (length buf)), s1)"
    using 1(1) assms(2,4,5) by (simp add: pipe_write_def)
  moreover have "pipe_read c' (Some p) n s1 = Some (Done (int (min n (length buf)), take n buf), s2)"
    using 2(1) q1 1(4) assms(4) by (simp add: pipe_read_def)
  ultimately show ?thesis using 1 2 by blast
qed

section \<open>Opening a socket\<close>

text \<open>Addresses from \<open>next_addr\<close> on are not in use.\<close>

definition heap_fresh :: "'a kernel_scheme \<Rightarrow> bool" where
  "heap_fresh s \<longleftrightarrow> (\<forall>a \<ge> next_addr s. pipes s a = None \<and> sockets s a = None \<and> requests s a = None \<and>
     ptcbs s a = None \<and> picbs s a = None)"

definition new_socket :: "fcb_ref \<Rightarrow> int \<Rightarrow> Socket_CB" where
  "new_socket f port = \<lparr>sock_refcount = 0, sock_fcb = f, sock_type = SOCKET_UNBOUND, sock_port = port,
     sock_queue = [], peer = None, write_pipe = None, read_pipe = None\<rparr>"

definition opened_socket :: "pid \<Rightarrow> nat \<Rightarrow> fcb_ref \<Rightarrow> int \<Rightarrow> 'a kernel_scheme \<Rightarrow> 'a kernel_scheme" where
  "opened_socket p fid f port s =
     (let s1 = reserved p [fid] [f] s in
      upd_fcb f (\<lambda>x. x\<lparr>streamobj := Some (Socket_obj (next_addr s)), streamfunc := Some socket_file_ops\<rparr>)
        (s1\<lparr>next_addr := next_addr s + 1, sockets := (sockets s)(next_addr s \<mapsto> new_socket f port)\<rparr>))"

lemma sys_Socket_ok:
  assumes "files_inv {} pins s" "CURPROC c s = Some p" "p < MAX_PROC" "0 \<le> port" "port \<le> MAX_PORT"
    "free_fids (FIDT (PT s p)) 0 = fid # fids" "FCB_freelist s = f # fs"
  shows "sys_Socket c port s = Some (int fid, opened_socket p fid f port s) \<and>
    files_inv {} pins (opened_socket p fid f port s)"
proof -
  have r: "FCB_reserve c 1 s = Some (Some ([fid], [f]), reserved p [fid] [f] s)" "files_inv {} pins (reserved p [fid] [f] s)"
    using FCB_reserve_ok [OF assms(1-3), of 1] assms(6,7) by (simp_all add: Let_def)
  have "sys_Socket c port s = Some (int fid, opened_socket p fid f port s)"
    using r(1) assms(4,5) by (simp add: sys_Socket_def opened_socket_def Let_def xmalloc_def new_socket_def reserved_def)
  moreover have "files_inv {} pins (opened_socket p fid f port s)"
    using r(2) unfolding files_inv_def opened_socket_def Let_def
    by (simp add: upd_fcb_def fidt_ok_def held_def refs_def)
  ultimately show ?thesis by simp
qed

lemma opened_socket_sel:
  "sockets (opened_socket p fid f port s) = (sockets s)(next_addr s \<mapsto> new_socket f port)"
  "pipes (opened_socket p fid f port s) = pipes s" "requests (opened_socket p fid f port s) = requests s"
  "next_addr (opened_socket p fid f port s) = next_addr s + 1" "CURPROC c (opened_socket p fid f port s) = CURPROC c s"
  "Port_Map (opened_socket p fid f port s) = Port_Map s" "waitset (opened_socket p fid f port s) = waitset s"
  "tcbs (opened_socket p fid f port s) = tcbs s" "quiet sw (opened_socket p fid f port s) = quiet sw s"
  "FIDT (PT (opened_socket p fid f port s) p) fid = Some f"
  "streamobj (FT (opened_socket p fid f port s) f) = Some (Socket_obj (next_addr s))"
  by (simp_all add: opened_socket_def Let_def upd_fcb_def reserved_def)

section \<open>Accepting a request\<close>

text \<open>What \<open>connect_peers\<close> leaves behind: two empty pipes in opposite directions.\<close>

definition connected :: "nat \<Rightarrow> nat \<Rightarrow> 'a kernel_scheme \<Rightarrow> bool" where
  "connected a b s \<longleftrightarrow> (\<exists>sa sb p1 p2 q1 q2. sockets s a = Some sa \<and> sockets s b = Some sb \<and>
     sock_type sa = SOCKET_PEER \<and> sock_type sb = SOCKET_PEER \<and> peer sa = Some b \<and> peer sb = Some a \<and>
     read_pipe sa = Some p1 \<and> write_pipe sb = Some p1 \<and> write_pipe sa = Some p2 \<and> read_pipe sb = Some p2 \<and> p1 \<noteq> p2 \<and>
     pipes s p1 = Some q1 \<and> pipes s p2 = Some q2 \<and>
     reader q1 = Some (sock_fcb sa) \<and> writer q1 = Some (sock_fcb sb) \<and>
     reader q2 = Some (sock_fcb sb) \<and> writer q2 = Some (sock_fcb sa) \<and>
     pipe_inv q1 \<and> pipe_inv q2 \<and> pipe_contents q1 = [] \<and> pipe_contents q2 = [])"

lemma connect_peers_connects:
  assumes "sockets s rp = Some rso" "sockets s lp = Some lso" "rp \<noteq> lp" "sock_fcb rso = rf" "sock_fcb lso = lf" "quiet sw s"
  shows "\<exists>s'. connect_peers rp lp rf lf s = Some s' \<and> connected rp lp s' \<and> quiet sw s' \<and>
    (\<forall>x. x \<noteq> rp \<longrightarrow> x \<noteq> lp \<longrightarrow> sockets s' x = sockets s x) \<and> requests s' = requests s \<and> Port_Map s' = Port_Map s \<and>
    FT s' = FT s \<and> PT s' = PT s \<and> FCB_freelist s' = FCB_freelist s \<and> CURPROC c s' = CURPROC c s \<and> tcbs s' = tcbs s \<and>
    (\<forall>cv. waitset s' cv = waitset s cv \<or> (\<exists>p. cv = has_data p \<or> cv = has_space p))"
proof -
  let ?a = "next_addr s"
  let ?n = "\<lparr>reader = None, writer = None, w_position = 0, r_position = 0, BUFFER = (\<lambda>_. 0), used_space = 0\<rparr> :: Pipe_CB"
  let ?s2 = "s\<lparr>next_addr := ?a + 2\<rparr>"
  let ?s3 = "cond_init (has_data ?a) (cond_init (has_space ?a) (?s2\<lparr>pipes := (pipes s)(?a \<mapsto> ?n\<lparr>reader := Some rf, writer := Some lf\<rparr>)\<rparr>))"
  let ?s4 = "cond_init (has_data (?a + 1)) (cond_init (has_space (?a + 1))
     (?s3\<lparr>pipes := (pipes ?s3)(?a + 1 \<mapsto> ?n\<lparr>reader := Some lf, writer := Some rf\<rparr>)\<rparr>))"
  let ?r = "rso\<lparr>sock_type := SOCKET_PEER, peer := Some lp, read_pipe := Some ?a, write_pipe := Some (?a + 1)\<rparr>"
  let ?l = "lso\<lparr>sock_type := SOCKET_PEER, peer := Some rp, read_pipe := Some (?a + 1), write_pipe := Some ?a\<rparr>"
  let ?s6 = "?s4\<lparr>sockets := (sockets s)(rp \<mapsto> ?r, lp \<mapsto> ?l)\<rparr>"
  have "connect_peers rp lp rf lf s = Some ?s6"
    using assms(1-3) by (simp add: connect_peers_def xmalloc_def upd_socket_def cond_init_def)
  moreover have "quiet sw ?s6" using assms(6) by (simp add: quiet_cond_init)
  moreover have "connected rp lp ?s6"
    using assms(3-5) by (simp add: connected_def cond_init_def fresh_pipe_inv)
  ultimately show ?thesis by (auto simp: cond_init_def)
qed

text \<open>A listener \<open>a\<close> whose first request \<open>r\<close> comes from a live socket.\<close>

definition can_accept :: "nat \<Rightarrow> pid \<Rightarrow> nat \<Rightarrow> Socket_CB \<Rightarrow> nat \<Rightarrow> connection_request \<Rightarrow> nat list \<Rightarrow> 'a kernel_scheme \<Rightarrow> bool" where
  "can_accept c p a so r req rs s \<longleftrightarrow>
     CURPROC c s = Some p \<and> p < MAX_PROC \<and> heap_fresh s \<and> sockets s a = Some so \<and>
     0 \<le> sock_port so \<and> sock_port so < MAX_PORT \<and> Port_Map s (nat (sock_port so)) \<noteq> None \<and>
     sock_queue so = r # rs \<and> nodes_live (take 2 (r # rs)) s \<and> requests s r = Some req \<and>
     req_peer req \<noteq> a \<and> sockets s (req_peer req) \<noteq> None"

lemma accept_request_effect:
  assumes q: "quiet sw s" and fi: "files_inv {} pins s" and p: "CURPROC c s = Some p" "p < MAX_PROC"
    and h: "heap_fresh s" and a: "sockets s a = Some so" and r: "requests s r = Some req" "req_peer req \<noteq> a"
    and rp: "sockets s (req_peer req) = Some rso" and port: "0 \<le> port" "port \<le> MAX_PORT"
    and free: "free_fids (FIDT (PT s p)) 0 = fid # fids" "FCB_freelist s = f # fs"
  shows "\<exists>s'. accept_request c a port r s = Some (int fid, s') \<and> connected (req_peer req) (next_addr s) s' \<and>
    quiet sw s' \<and> requests s' = (requests s)(r \<mapsto> req\<lparr>admitted := True\<rparr>) \<and>
    sockets s' a = Some (so\<lparr>sock_refcount := sock_refcount so - 1\<rparr>) \<and> files_inv {} pins s' \<and>
    streamobj (FT s' f) = Some (Socket_obj (next_addr s)) \<and> FIDT (PT s' p) fid = Some f \<and>
    waitset s' (req_available a) = waitset s (req_available a) \<and>
    (\<forall>t. t \<notin> set (waitset s (connected_cv r)) \<longrightarrow> asleep s' t = asleep s t)"
proof -
  let ?b = "next_addr s" and ?rp = "req_peer req"
  let ?s1 = "s\<lparr>requests := (requests s)(r \<mapsto> req\<lparr>admitted := True\<rparr>)\<rparr>"
  let ?s2 = "opened_socket p fid f port ?s1"
  have fi1: "files_inv {} pins ?s1" using fi by (simp add: files_inv_def fidt_ok_def held_def refs_def)
  have 1: "upd_request r (\<lambda>x. x\<lparr>admitted := True\<rparr>) s = Some ?s1" using r by (simp add: upd_request_def)
  have 2: "sys_Socket c port ?s1 = Some (int fid, ?s2)" "files_inv {} pins ?s2"
    using sys_Socket_ok [OF fi1, of c p port fid fids f fs] p port free by simp_all
  have nb: "sockets s ?b = None" using h by (simp add: heap_fresh_def)
  then have ne: "?rp \<noteq> ?b" "a \<noteq> ?b" using rp a by auto
  note sel2 = opened_socket_sel [where s = ?s1]
  have fid: "fid < MAX_FILEID"
  proof -
    have "fid \<in> set (free_fids (FIDT (PT s p)) 0)" using free(1) by simp
    then show ?thesis by (simp add: free_fids_def)
  qed
  have g: "get_fcb c (int fid) ?s2 = Some (Some f)" using fid p by (simp add: get_fcb_def sel2)
  have so2: "sockets ?s2 ?rp = Some rso" "sockets ?s2 ?b = Some (new_socket f port)" "quiet sw ?s2"
    using rp ne q by (simp_all add: sel2)
  have nf: "sock_fcb (new_socket f port) = f" by (simp add: new_socket_def)
  obtain s3 where s3: "connect_peers ?rp ?b (sock_fcb rso) f ?s2 = Some s3" "connected ?rp ?b s3" "quiet sw s3"
    "\<forall>x. x \<noteq> ?rp \<longrightarrow> x \<noteq> ?b \<longrightarrow> sockets s3 x = sockets ?s2 x" "requests s3 = requests ?s2" "FT s3 = FT ?s2"
    "PT s3 = PT ?s2" "FCB_freelist s3 = FCB_freelist ?s2" "tcbs s3 = tcbs ?s2"
    "\<forall>cv. waitset s3 cv = waitset ?s2 cv \<or> (\<exists>p. cv = has_data p \<or> cv = has_space p)"
    using connect_peers_connects [OF so2(1,2) ne(1) refl nf so2(3)] by blast
  obtain s4 where s4: "kernel_signal c (connected_cv r) s3 = Some s4" "quiet sw s4" "kframe s3 s4"
    "\<forall>cv'. cv' \<noteq> connected_cv r \<longrightarrow> waitset s4 cv' = waitset s3 cv'"
    "asleep s4 = (\<lambda>t. asleep s3 t \<and> find (asleep s3) (waitset s3 (connected_cv r)) \<noteq> Some t)"
    using kernel_signal_quiet [OF s3(3), of c "connected_cv r"] by blast
  note m4 = more_kernel [OF s4(3) [unfolded kframe_def, THEN conjunct1]]
  have sa: "sockets s4 a = Some so" using m4(8) s3(4) r(2) ne a sel2(1) by simp
  let ?s5 = "s4\<lparr>sockets := (sockets s4)(a \<mapsto> so\<lparr>sock_refcount := sock_refcount so - 1\<rparr>)\<rparr>"
  have run: "accept_request c a port r s = Some (int fid, ?s5)"
    using 1 2(1) g s3(1) s4(1) sa rp ne
    by (simp add: accept_request_def NOFILE_def sel2 socket_ptr_def unref_socket_def upd_socket_def)
  have con: "connected ?rp ?b ?s5" using s3(2) r(2) ne by (simp add: connected_def m4(7,8))
  have fi5: "files_inv {} pins ?s5" using 2(2)
    by (simp add: files_inv_def fidt_ok_def held_def refs_def m4 s3)
  have a3: "asleep s3 = asleep s" by (simp add: fun_eq_iff asleep_def s3(9) sel2)
  have w3: "waitset s3 (connected_cv r) = waitset s (connected_cv r)" "waitset s3 (req_available a) = waitset s (req_available a)"
    using s3(10) [rule_format, of "connected_cv r"] s3(10) [rule_format, of "req_available a"] by (simp_all add: sel2)
  have fm: "find P xs = Some t \<Longrightarrow> t \<in> set xs" for P t and xs :: "tcb_ref list" by (metis find_Some_iff nth_mem)
  have "asleep ?s5 = asleep s4" by (simp add: fun_eq_iff asleep_def)
  then have "asleep ?s5 t = asleep s t" if "t \<notin> set (waitset s (connected_cv r))" for t
    using that s4(5) fm by (auto simp: a3 w3)
  then show ?thesis
    using run con s4(2,4) fi5 w3 by (auto simp: m4 s3 sel2)
qed

lemma accept_loop_effect:
  assumes q: "quiet sw s" and fi: "files_inv {} pins s" and can: "can_accept c p a so r req rs s"
    and free: "free_fids (FIDT (PT s p)) 0 = fid # fids" "FCB_freelist s = f # fs"
  shows "\<exists>s'. accept_loop c a s = Some (Done (int fid), s') \<and> connected (req_peer req) (next_addr s) s' \<and>
    quiet sw s' \<and> requests s' = (requests s)(r \<mapsto> req\<lparr>admitted := True\<rparr>) \<and>
    sockets s' a = Some (so\<lparr>sock_queue := rs, sock_refcount := sock_refcount so - 1\<rparr>) \<and> files_inv {} pins s' \<and>
    streamobj (FT s' f) = Some (Socket_obj (next_addr s)) \<and> FIDT (PT s' p) fid = Some f \<and>
    waitset s' (req_available a) = waitset s (req_available a) \<and>
    (\<forall>t. t \<notin> set (waitset s (connected_cv r)) \<longrightarrow> asleep s' t = asleep s t)"
proof -
  let ?s1 = "s\<lparr>sockets := (sockets s)(a \<mapsto> so\<lparr>sock_queue := rs\<rparr>)\<rparr>"
  have fi1: "files_inv {} pins ?s1" using fi by (simp add: files_inv_def fidt_ok_def held_def refs_def)
  have na: "a < next_addr s" using can unfolding can_accept_def heap_fresh_def by (metis not_less option.distinct(1))
  then have h1: "heap_fresh ?s1" using can by (simp add: can_accept_def heap_fresh_def)
  obtain rso where rso: "sockets s (req_peer req) = Some rso" using can by (auto simp: can_accept_def)
  have as: "asleep ?s1 = asleep s" by (simp add: fun_eq_iff asleep_def)
  obtain s' where "accept_request c a (sock_port so) r ?s1 = Some (int fid, s')" "connected (req_peer req) (next_addr s) s'"
    "quiet sw s'" "requests s' = (requests s)(r \<mapsto> req\<lparr>admitted := True\<rparr>)"
    "sockets s' a = Some (so\<lparr>sock_queue := rs, sock_refcount := sock_refcount so - 1\<rparr>)" "files_inv {} pins s'"
    "streamobj (FT s' f) = Some (Socket_obj (next_addr s))" "FIDT (PT s' p) fid = Some f"
    "waitset s' (req_available a) = waitset s (req_available a)"
    "\<forall>t. t \<notin> set (waitset s (connected_cv r)) \<longrightarrow> asleep s' t = asleep s t"
    using accept_request_effect [of sw ?s1 pins c p a "so\<lparr>sock_queue := rs\<rparr>" r req rso "sock_port so" fid fids f fs]
      q fi1 h1 can free rso by (auto simp: can_accept_def as)
  moreover from this(1) can have "accept_loop c a s = Some (Done (int fid), s')"
    by (auto simp: can_accept_def accept_loop_def port_get_def upd_socket_def)
  ultimately show ?thesis by blast
qed

section \<open>Properties\<close>

text \<open>
  A listener at address 0 on port 5, where thread 1 connects socket 1 by request 2 and waits
  for an answer.
\<close>

definition kernel5 :: kernel where
  "kernel5 = (kernel_files (req_available 0))\<lparr>
     sockets := [0 \<mapsto> \<lparr>sock_refcount = 1, sock_fcb = 8, sock_type = SOCKET_LISTENER, sock_port = 5, sock_queue = [2],
                        peer = None, write_pipe = None, read_pipe = None\<rparr>, 1 \<mapsto> new_socket 9 0],
     requests := [2 \<mapsto> \<lparr>admitted = False, req_peer = 1, node_live = True\<rparr>],
     Port_Map := (\<lambda>_. None)(5 := Some 0), next_addr := 3\<rparr>"

lemma kernel5_facts:
  "quiet {} kernel5" "files_inv {} (\<lambda>_. 0) kernel5"
  "can_accept 0 2 0 \<lparr>sock_refcount = 1, sock_fcb = 8, sock_type = SOCKET_LISTENER, sock_port = 5, sock_queue = [2],
     peer = None, write_pipe = None, read_pipe = None\<rparr> 2 \<lparr>admitted = False, req_peer = 1, node_live = True\<rparr> [] kernel5"
  "free_fids (FIDT (PT kernel5 2)) 0 = 0 # tl (free_fids (FIDT (PT kernel5 2)) 0)"
  "FCB_freelist kernel5 = 0 # tl (FCB_freelist kernel5)" "asleep kernel5 (Thr 1)" "Thr 1 \<in> set (waitset kernel5 (req_available 0))"
  "next_addr kernel5 = 3" "waitset kernel5 (connected_cv 2) = []"
proof -
  show "files_inv {} (\<lambda>_. 0) kernel5"
    using kernel_files_inv [of "req_available 0"] by (simp add: kernel5_def files_inv_def fidt_ok_def held_def refs_def)
  show "free_fids (FIDT (PT kernel5 2)) 0 = 0 # tl (free_fids (FIDT (PT kernel5 2)) 0)"
    by (simp add: kernel5_def kernel_files_sel free_fids_def zero_PCB_def MAX_FILEID_def upt_rec)
  show "FCB_freelist kernel5 = 0 # tl (FCB_freelist kernel5)"
    by (simp add: kernel5_def kernel_files_sel MAX_FILES_def MAX_PROC_def upt_conv_Cons [of 0])
qed (auto simp: kernel5_def kernel_files_quiet can_accept_def kernel_files_sel heap_fresh_def MAX_PROC_def MAX_PORT_def
      nodes_live_def asleep_def sched7_def thread_of_def)

text \<open>
  C24. A request that is first in the queue of a listener is accepted: \<^verbatim>\<open>sys_Accept\<close> returns a new
  file id of the calling process for a new socket, this socket and the requesting one are
  peers over two fresh empty pipes in opposite directions, and the request is marked as
  admitted; the counts of references to streams stay exact.
\<close>

theorem accept_connects:
  assumes "quiet sw s" "files_inv {} pins s" "can_accept c p a so r req rs s"
    "free_fids (FIDT (PT s p)) 0 = fid # fids" "FCB_freelist s = f # fs"
  shows "\<exists>s'. accept_loop c a s = Some (Done (int fid), s') \<and> connected (req_peer req) (next_addr s) s' \<and>
    requests s' = (requests s)(r \<mapsto> req\<lparr>admitted := True\<rparr>) \<and>
    sockets s' a = Some (so\<lparr>sock_queue := rs, sock_refcount := sock_refcount so - 1\<rparr>) \<and>
    streamobj (FT s' f) = Some (Socket_obj (next_addr s)) \<and> FIDT (PT s' p) fid = Some f \<and>
    quiet sw s' \<and> files_inv {} pins s'"
  using accept_loop_effect [OF assms] by blast

theorem accept_connects_witness:
  "\<exists>s'. accept_loop 0 0 kernel5 = Some (Done 0, s') \<and> connected 1 3 s'"
  using accept_connects [OF kernel5_facts(1-5)] kernel5_facts(8) by auto

text \<open>
  C25. Accepting a request does not wake up the thread that asks for the connection: it waits
  for \<^verbatim>\<open>req_available\<close> of the listener, and \<^verbatim>\<open>sys_Accept\<close> signals \<^verbatim>\<open>connected_cv\<close> of the request.
  The thread stays asleep in its ring, and if its timeout wakes it up, \<^verbatim>\<open>sys_Connect\<close> returns
  \<open>-1\<close> although the connection exists.
\<close>

theorem accept_does_not_wake_connect:
  assumes "quiet sw s" "files_inv {} pins s" "can_accept c p a so r req rs s"
    "free_fids (FIDT (PT s p)) 0 = fid # fids" "FCB_freelist s = f # fs"
    "t \<in> set (waitset s (req_available a))" "asleep s t"
  shows "\<exists>s'. accept_loop c a s = Some (Done (int fid), s') \<and> connected (req_peer req) (next_addr s) s' \<and>
    t \<in> set (waitset s' (req_available a)) \<and> asleep s' t \<and>
    (\<exists>s''. connect_resume (req_peer req) r False s' = Some (-1, s''))"
proof -
  obtain s' where s': "accept_loop c a s = Some (Done (int fid), s')" "connected (req_peer req) (next_addr s) s'"
    "requests s' = (requests s)(r \<mapsto> req\<lparr>admitted := True\<rparr>)" "waitset s' (req_available a) = waitset s (req_available a)"
    "\<forall>t. t \<notin> set (waitset s (connected_cv r)) \<longrightarrow> asleep s' t = asleep s t"
    using accept_loop_effect [OF assms(1-5)] by blast
  have "t \<notin> set (waitset s (connected_cv r))" using assms(1,6) unfolding quiet_def waits_ok_def by blast
  moreover have "sockets s' (req_peer req) \<noteq> None" using s'(2) by (auto simp: connected_def)
  ultimately show ?thesis
    using s' assms(6,7) by (auto simp: connect_resume_def unref_socket_def upd_socket_def upd_request_def)
qed

theorem accept_does_not_wake_connect_witness:
  "\<exists>s'. accept_loop 0 0 kernel5 = Some (Done 0, s') \<and> asleep s' (Thr 1) \<and>
     (\<exists>s''. connect_resume 1 2 False s' = Some (-1, s''))"
  using accept_does_not_wake_connect [OF kernel5_facts(1-5,7,6)] by auto

text \<open>
  Connected sockets carry data: what is written to one end of a fresh connection is what
  is read at the other end.
\<close>

theorem socket_transfer:
  assumes "quiet sw s" "connected a b s" "buf \<noteq> []" "length buf \<le> PIPE_BUFFER_SIZE"
  shows "\<exists>s1 s2. socket_write c a buf s = Some (Done (int (length buf)), s1) \<and>
    socket_read c' b n s1 = Some (Done (int (min n (length buf)), take n buf), s2) \<and> quiet sw s2"
proof -
  obtain sa sb p q where p: "sockets s a = Some sa" "sockets s b = Some sb" "sock_type sa = SOCKET_PEER"
    "sock_type sb = SOCKET_PEER" "write_pipe sa = Some p" "read_pipe sb = Some p" "pipes s p = Some q"
    "pipe_inv q" "reader q \<noteq> None" "writer q \<noteq> None" "pipe_contents q = []"
    using assms(2) unfolding connected_def by auto
  obtain s1 s2 q1 where 1: "pipe_write c (Some p) buf s = Some (Done (int (length buf)), s1)" "pipe_only p q1 s s1"
    "pipe_read c' (Some p) n s1 = Some (Done (int (min n (length buf)), take n buf), s2)" "quiet sw s2"
    using pipe_transfer [OF assms(1) p(7-11) assms(3,4)] by blast
  have "sockets s1 b = Some sb"
    using 1(2) p(2) more_kernel(8) [of s1 "s\<lparr>pipes := (pipes s)(p \<mapsto> q1)\<rparr>"] by (simp add: pipe_only_def kframe_def)
  then show ?thesis using p 1 by (simp add: socket_write_def socket_read_def)
qed

theorem socket_transfer_witness:
  "\<exists>(s :: kernel) s1 s2. connected 1 3 s \<and> socket_write 0 1 [7, 8] s = Some (Done 2, s1) \<and> socket_read 0 3 5 s1 = Some (Done (2, [7, 8]), s2)"
proof -
  obtain s' :: kernel where s': "connected 1 3 s'" "quiet {} s'"
    using accept_loop_effect [OF kernel5_facts(1-5)] kernel5_facts(8) by (auto simp del: One_nat_def)
  from socket_transfer [OF s'(2,1), of "[7, 8]" 0 0 5] s'(1) show ?thesis
    by (auto simp: PIPE_BUFFER_SIZE_def simp del: One_nat_def)
qed

text \<open>
  C26. Shutting down a direction whose other end is closed already frees its pipe, and closing
  the socket afterwards follows the pointer to the freed pipe.
\<close>

theorem shutdown_then_close_faults:
  assumes "quiet sw s" "get_fcb c sock s = Some (Some f)" "streamobj (FT s f) = Some (Socket_obj a)"
    "0 \<le> sock" "sock \<le> int MAX_FILEID" "sockets s a = Some so" "sock_type so = SOCKET_PEER"
    "read_pipe so = Some p" "write_pipe so = Some w" "pipes s p = Some q" "writer q = None"
  shows "\<exists>s1. sys_ShutDown c sock SHUTDOWN_READ s = Some (0, s1) \<and> pipes s1 p = None \<and> socket_close c (Some a) s1 = None"
proof -
  let ?s1 = "s\<lparr>pipes := (pipes s)(p := None)\<rparr>"
  have shut: "sys_ShutDown c sock SHUTDOWN_READ s = Some (0, ?s1)"
    using assms by (simp add: sys_ShutDown_def socket_ptr_def peer_s_def pipe_reader_close_def upd_pipe_def)
  have "pipe_reader_close c (Some p) s2 = None" if "pipe_writer_close c (Some w) ?s1 = Some (0, s2)" for s2
  proof -
    have "pipes s2 p = None" if "kframe (?s1\<lparr>pipes := (pipes ?s1)(w \<mapsto> x)\<rparr>) s2" "pipes ?s1 w \<noteq> None" for x
      using that more_kernel(7) [of s2 "?s1\<lparr>pipes := (pipes ?s1)(w \<mapsto> x)\<rparr>"] by (auto simp: kframe_def split: if_splits)
    with that have "pipes s2 p = None"
      by (auto simp: pipe_writer_close_def upd_pipe_def split: if_splits dest!: kernel_broadcast_kframe)
    then show ?thesis by (simp add: pipe_reader_close_def upd_pipe_def)
  qed
  moreover have "r = 0" if "pipe_writer_close c (Some w) ?s1 = Some (r, s2)" for r s2
    using that by (auto simp: pipe_writer_close_def split: if_splits)
  ultimately have "socket_close c (Some a) ?s1 = None"
    using assms(6-9) by (cases "pipe_writer_close c (Some w) ?s1") (auto simp: socket_close_def)
  with shut show ?thesis by (intro exI [of _ ?s1]) simp
qed

definition kernel6 :: kernel where
  "kernel6 = (kernel_files (has_data 0))\<lparr>
     PT := (\<lambda>_. zero_PCB)(2 := zero_PCB\<lparr>FIDT := [0 \<mapsto> 0]\<rparr>),
     FT := (\<lambda>_. \<lparr>refcount = 1, streamobj = Some (Socket_obj 5), streamfunc = Some socket_file_ops\<rparr>),
     sockets := [5 \<mapsto> (new_socket 0 5)\<lparr>sock_type := SOCKET_PEER, read_pipe := Some 6, write_pipe := Some 7\<rparr>],
     pipes := [6 \<mapsto> pipe1\<lparr>writer := None\<rparr>, 7 \<mapsto> pipe1], next_addr := 8\<rparr>"

theorem shutdown_then_close_faults_witness:
  "\<exists>s1. sys_ShutDown 0 0 SHUTDOWN_READ kernel6 = Some (0, s1) \<and> socket_close 0 (Some 5) s1 = None"
proof -
  let ?so = "(new_socket 0 5)\<lparr>sock_type := SOCKET_PEER, read_pipe := Some 6, write_pipe := Some 7\<rparr>"
  have "get_fcb 0 0 kernel6 = Some (Some 0)"
    by (simp add: get_fcb_def kernel6_def kernel_files_sel MAX_FILEID_def)
  moreover have "quiet {} kernel6" "streamobj (FT kernel6 0) = Some (Socket_obj 5)" "sockets kernel6 5 = Some ?so"
    "pipes kernel6 6 = Some (pipe1\<lparr>writer := None\<rparr>)" by (simp_all add: kernel6_def kernel_files_quiet)
  ultimately show ?thesis
    using shutdown_then_close_faults [of "{}" kernel6 0 0 0 5 ?so 6 7 "pipe1\<lparr>writer := None\<rparr>"] by auto
qed

text \<open>
  C11. The table of ports is one entry too short for the ports that are accepted.  A process with
  a free file id can create a socket on port \<^verbatim>\<open>MAX_PORT\<close>, which the test of \<^verbatim>\<open>sys_Socket\<close> lets pass;
  listening on it reads the table beyond its end, and so does connecting to that port.
\<close>

theorem last_port_out_of_bounds:
  assumes "files_inv {} pins s" "CURPROC c s = Some p" "p < MAX_PROC" "free_fids (FIDT (PT s p)) 0 \<noteq> []" "FCB_freelist s \<noteq> []"
  shows "\<exists>i s1. i < MAX_FILEID \<and> sys_Socket c MAX_PORT s = Some (int i, s1) \<and> sys_Listen c (int i) s1 = None \<and>
    sys_Connect c (int i) MAX_PORT to s1 = None"
proof -
  obtain i fids where i: "free_fids (FIDT (PT s p)) 0 = i # fids" using assms(4) by (cases "free_fids (FIDT (PT s p)) 0") auto
  obtain f fs where f: "FCB_freelist s = f # fs" using assms(5) by (cases "FCB_freelist s") auto
  have "i \<in> set (free_fids (FIDT (PT s p)) 0)" by (simp add: i)
  then have lt: "i < MAX_FILEID" by (simp add: free_fids_def)
  let ?s1 = "reserved p [i] [f] s"
  have r: "FCB_reserve c 1 s = Some (Some ([i], [f]), ?s1)" using FCB_reserve_ok [OF assms(1-3), of 1] i f by (simp add: Let_def)
  let ?s2 = "upd_fcb f (\<lambda>x. x\<lparr>streamobj := Some (Socket_obj (next_addr ?s1)), streamfunc := Some socket_file_ops\<rparr>)
    (?s1\<lparr>next_addr := next_addr ?s1 + 1, sockets := (sockets ?s1)(next_addr ?s1 \<mapsto> new_socket f MAX_PORT)\<rparr>)"
  have so: "sys_Socket c MAX_PORT s = Some (int i, ?s2)"
    using r by (simp add: sys_Socket_def xmalloc_def MAX_PORT_def new_socket_def)
  have "get_fcb c (int i) ?s2 = Some (Some f)"
    using lt assms(2) by (simp add: get_fcb_def upd_fcb_def reserved_def)
  then have "sys_Listen c (int i) ?s2 = None"
    using lt by (simp add: sys_Listen_def socket_ptr_def upd_fcb_def new_socket_def port_get_def MAX_PORT_def NOPORT_def)
  moreover have "sys_Connect c (int i) MAX_PORT to ?s2 = None" using lt by (simp add: sys_Connect_def port_get_def MAX_PORT_def)
  ultimately show ?thesis using so lt by blast
qed

theorem last_port_out_of_bounds_witness:
  "\<exists>i s1. i < MAX_FILEID \<and> sys_Socket 0 MAX_PORT kernel4 = Some (int i, s1) \<and> sys_Listen 0 (int i) s1 = None"
proof -
  have "free_fids (FIDT (PT kernel4 2)) 0 \<noteq> []" "FCB_freelist kernel4 \<noteq> []" using kernel4_free(3,4) by auto
  with last_port_out_of_bounds [OF kernel4_inv kernel4_sel(1) kernel4_free(5)] show ?thesis by blast
qed

end
