(* ===== verification/Info.thy ===== *)
theory Info
  imports Files
begin

text \<open>
  Information streams, the second half of \<^verbatim>\<open>kernel_proc.c\<close>: \<^verbatim>\<open>sys_OpenInfo\<close> and the methods of its
  streams, with the memory layout of \<^verbatim>\<open>procinfo\<close> on a 64-bit little-endian machine.

  The search loop of \<^verbatim>\<open>procinfo_read\<close> reads \<^verbatim>\<open>PT[MAX_PROC].pstate\<close>, one entry past the table,
  before it tests the bound.  That entry has an arbitrary value in the model, and the results
  do not depend on it.  Copying from a null pointer and copying past the end of the caller's
  buffer are faults.
\<close>

definition get_pcb :: "nat \<Rightarrow> 'a kernel_scheme \<Rightarrow> pid option" where
  "get_pcb p s = (if pstate (PT s p) = FREE then None else Some p)"

definition get_pid :: "pid option \<Rightarrow> int" where
  "get_pid pcb = (case pcb of None \<Rightarrow> NOPROC | Some p \<Rightarrow> int p)"

section \<open>The memory image of a procinfo structure\<close>

text \<open>The \<open>n\<close> bytes of an integer, lowest first, modulo \<open>2 ^ (8 * n)\<close>.\<close>

fun le_bytes :: "nat \<Rightarrow> int \<Rightarrow> byte list" where
  "le_bytes 0 x = []"
| "le_bytes (Suc n) x = of_int x # le_bytes n (x div 256)"

fun le_val :: "byte list \<Rightarrow> int" where
  "le_val [] = 0"
| "le_val (b # bs) = uint b + 256 * le_val bs"

definition signed_le :: "byte list \<Rightarrow> int" where
  "signed_le bs = (let v = le_val bs; m = 2 ^ (8 * length bs) in if v \<ge> m div 2 then v - m else v)"

definition sizeof_procinfo :: nat where
  "sizeof_procinfo = 168"

text \<open>A function pointer is 0 for \<^verbatim>\<open>NULL\<close>, and the task with number \<open>n\<close> is at address \<open>n + 1\<close>.\<close>

definition task_addr :: "Task option \<Rightarrow> int" where
  "task_addr t = (case t of None \<Rightarrow> 0 | Some n \<Rightarrow> int n + 1)"

definition procinfo_bytes :: "procinfo \<Rightarrow> byte list" where
  "procinfo_bytes i =
     le_bytes 4 (info_pid i) @ le_bytes 4 (info_ppid i) @ le_bytes 4 (if info_alive i then 1 else 0) @
     replicate 4 0 @ le_bytes 8 (info_thread_count i) @ le_bytes 8 (task_addr (info_main_task i)) @
     le_bytes 4 (info_argl i) @ info_args i @ replicate 4 0"

section \<open>Operations\<close>

definition sys_OpenInfo :: "nat \<Rightarrow> 'a kernel_scheme \<Rightarrow> (int \<times> 'a kernel_scheme) option" where
  "sys_OpenInfo c s =
     do { (result, s1) \<leftarrow> FCB_reserve c 1 s;
          case result of
            None \<Rightarrow> Some (NOFILE, s1)
          | Some (fids, fcbs) \<Rightarrow>
              do { let (a, s2) = xmalloc s1;
                   let s3 = s2\<lparr>picbs := (picbs s2)(a \<mapsto> \<lparr>info = \<lparr>info_pid = 0, info_ppid = 0, info_alive = False,
                              info_thread_count = 0, info_main_task = None, info_argl = 0,
                              info_args = replicate PROCINFO_MAX_ARGS_SIZE 0\<rparr>, cursor = 0\<rparr>)\<rparr>;
                   Some (int (fids ! 0), upd_fcb (fcbs ! 0) (\<lambda>f. f\<lparr>streamobj := Some (Info_obj a),
                              streamfunc := Some procinfo_ops\<rparr>) s3) } }"

definition procinfo_open :: int where
  "procinfo_open = NOFILE"

function skip_free :: "(pid \<Rightarrow> PCB) \<Rightarrow> nat \<Rightarrow> nat" where
  "skip_free T cur = (if pstate (T cur) = FREE \<and> cur < MAX_PROC then skip_free T (cur + 1) else cur)"
  by auto
termination by (relation "measure (\<lambda>(T, cur). MAX_PROC - cur)") auto

declare skip_free.simps [simp del]

text \<open>\<^verbatim>\<open>memcpy(picb->info.args, PT[cursor].args, dataLen)\<close>.\<close>

definition copy_args :: "int \<Rightarrow> byte list option \<Rightarrow> byte list \<Rightarrow> byte list option" where
  "copy_args n src dst =
     (if n = 0 then Some dst
      else do { bs \<leftarrow> src;
                if 0 < n \<and> nat n \<le> length bs \<and> nat n \<le> length dst then Some (take (nat n) bs @ drop (nat n) dst)
                else None })"

definition procinfo_of :: "pid \<Rightarrow> PCB \<Rightarrow> byte list \<Rightarrow> procinfo" where
  "procinfo_of p pcb bs =
     \<lparr>info_pid = get_pid (Some p), info_ppid = get_pid (parent pcb), info_alive = (pstate pcb \<noteq> ZOMBIE),
       info_thread_count = thread_count pcb, info_main_task = main_task pcb, info_argl = argl pcb, info_args = bs\<rparr>"

definition procinfo_read :: "nat \<Rightarrow> nat \<Rightarrow> 'a kernel_scheme \<Rightarrow> ((int \<times> byte list) \<times> 'a kernel_scheme) option" where
  "procinfo_read a sz s =
     do { picb \<leftarrow> picbs s a;
          let cur = skip_free (PT s) (cursor picb);
          if cur = MAX_PROC then Some ((0, []), s\<lparr>picbs := (picbs s)(a \<mapsto> picb\<lparr>cursor := cur\<rparr>)\<rparr>)
          else do { let pcb = PT s cur;
                    let dataLen = (if argl pcb > int PROCINFO_MAX_ARGS_SIZE then int PROCINFO_MAX_ARGS_SIZE else argl pcb);
                    bs \<leftarrow> copy_args dataLen (args pcb) (info_args (info picb));
                    let i = procinfo_of cur pcb bs;
                    c_assert (sizeof_procinfo \<le> sz);
                    Some ((int sizeof_procinfo, procinfo_bytes i),
                          s\<lparr>picbs := (picbs s)(a \<mapsto> \<lparr>info = i, cursor = cur + 1\<rparr>)\<rparr>) } }"

definition procinfo_write :: int where
  "procinfo_write = NOFILE"

definition procinfo_close :: "nat \<Rightarrow> 'a kernel_scheme \<Rightarrow> (int \<times> 'a kernel_scheme) option" where
  "procinfo_close a s = do { picb \<leftarrow> picbs s a; Some (0, s\<lparr>picbs := (picbs s)(a := None)\<rparr>) }"

section \<open>The methods keep to the contract of drivers\<close>

interpretation procinfo_read_method: driver_method "procinfo_read a n" for a n
  by unfold_locales
    (auto simp: procinfo_read_def Let_def split: if_splits)

interpretation procinfo_close_method: driver_method "procinfo_close a" for a
  by unfold_locales (auto simp: procinfo_close_def)

section \<open>The memory image can be read back\<close>

lemma length_le_bytes [simp]: "length (le_bytes n x) = n"
  by (induction n arbitrary: x) simp_all

lemma le_val_bytes: "le_val (le_bytes n x) = x mod 2 ^ (8 * n)"
proof (induction n arbitrary: x)
  case (Suc n)
  have "uint (of_int x :: byte) = x mod 256" by (simp add: uint_word_of_int take_bit_eq_mod)
  moreover have "x mod 256 + 256 * (x div 256 mod 2 ^ (8 * n)) = x mod (256 * 2 ^ (8 * n))"
    by (simp add: zmod_zmult2_eq)
  ultimately show ?case by (simp add: Suc power_add)
qed simp

lemma signed_le_bytes:
  assumes "0 < n" "- (2 ^ (8 * n - 1)) \<le> x" "x < 2 ^ (8 * n - 1)"
  shows "signed_le (le_bytes n x) = x"
proof -
  define h :: int where "h = 2 ^ (8 * n - 1)"
  have m: "2 ^ (8 * n) = 2 * h" using assms(1) by (simp add: h_def power_eq_if)
  have x: "- h \<le> x" "x < h" using assms(2,3) by (simp_all add: h_def)
  show ?thesis
  proof (cases "x < 0")
    case True
    have "x mod (2 * h) = (x + 2 * h) mod (2 * h)" by simp
    also have "\<dots> = x + 2 * h" using True x by (intro mod_pos_pos_trivial) simp_all
    finally show ?thesis using x by (simp add: signed_le_def le_val_bytes m Let_def)
  next
    case False
    then have "x mod (2 * h) = x" using x by simp
    then show ?thesis using x False by (simp add: signed_le_def le_val_bytes m Let_def)
  qed
qed

text \<open>How a program reads the structure back from its buffer.\<close>

definition procinfo_at :: "byte list \<Rightarrow> procinfo" where
  "procinfo_at bs =
     \<lparr>info_pid = signed_le (take 4 bs), info_ppid = signed_le (take 4 (drop 4 bs)),
       info_alive = (le_val (take 4 (drop 8 bs)) \<noteq> 0), info_thread_count = le_val (take 8 (drop 16 bs)),
       info_main_task = (let t = le_val (take 8 (drop 24 bs)) in if t = 0 then None else Some (nat (t - 1))),
       info_argl = signed_le (take 4 (drop 32 bs)), info_args = take 128 (drop 36 bs)\<rparr>"

definition procinfo_ok :: "procinfo \<Rightarrow> bool" where
  "procinfo_ok i \<longleftrightarrow> - (2 ^ 31) \<le> info_pid i \<and> info_pid i < 2 ^ 31 \<and> - (2 ^ 31) \<le> info_ppid i \<and> info_ppid i < 2 ^ 31 \<and>
     0 \<le> info_thread_count i \<and> info_thread_count i < 2 ^ 64 \<and> task_addr (info_main_task i) < 2 ^ 64 \<and>
     - (2 ^ 31) \<le> info_argl i \<and> info_argl i < 2 ^ 31 \<and> length (info_args i) = PROCINFO_MAX_ARGS_SIZE"

lemma procinfo_bytes_length: "procinfo_ok i \<Longrightarrow> length (procinfo_bytes i) = sizeof_procinfo"
  by (simp add: procinfo_ok_def procinfo_bytes_def sizeof_procinfo_def PROCINFO_MAX_ARGS_SIZE_def)

lemma procinfo_at_bytes:
  assumes "procinfo_ok i"
  shows "procinfo_at (procinfo_bytes i) = i"
proof -
  have s: "signed_le (le_bytes 4 x) = x" if "- (2 ^ 31) \<le> x" "x < 2 ^ 31" for x
    using signed_le_bytes [of 4 x] that by simp
  have t: "info_main_task i = (if task_addr (info_main_task i) = 0 then None else Some (nat (task_addr (info_main_task i) - 1)))"
    "0 \<le> task_addr (info_main_task i)" by (auto simp: task_addr_def split: option.splits)
  then have "task_addr (info_main_task i) mod 2 ^ 64 = task_addr (info_main_task i)"
    using assms by (simp add: procinfo_ok_def)
  then have l: "le_val (le_bytes 8 (task_addr (info_main_task i))) = task_addr (info_main_task i)"
    using le_val_bytes [of 8 "task_addr (info_main_task i)"] by simp
  have "info_thread_count i mod 2 ^ 64 = info_thread_count i" using assms by (simp add: procinfo_ok_def)
  then have c: "le_val (le_bytes 8 (info_thread_count i)) = info_thread_count i"
    using le_val_bytes [of 8 "info_thread_count i"] by simp
  have a: "le_val (le_bytes 4 (if info_alive i then 1 else 0)) = (if info_alive i then 1 else 0)"
    using le_val_bytes [of 4 "if info_alive i then 1 else 0"] by simp
  show ?thesis
    using assms s c l t a
    by (intro procinfo.equality) (simp_all add: procinfo_at_def procinfo_bytes_def procinfo_ok_def PROCINFO_MAX_ARGS_SIZE_def Let_def)
qed

section \<open>A stream lists the processes\<close>

definition used_pids :: "(pid \<Rightarrow> PCB) \<Rightarrow> nat \<Rightarrow> pid list" where
  "used_pids T cur = filter (\<lambda>p. pstate (T p) \<noteq> FREE) [cur..<MAX_PROC]"

lemma used_pids_skip:
  "cur \<le> MAX_PROC \<Longrightarrow> skip_free T cur \<le> MAX_PROC \<and>
     used_pids T cur = (if skip_free T cur = MAX_PROC then [] else skip_free T cur # used_pids T (skip_free T cur + 1))"
proof (induction T cur rule: skip_free.induct)
  case (1 T cur)
  show ?case
  proof (cases "cur < MAX_PROC")
    case True
    then have u: "[cur..<MAX_PROC] = cur # [cur + 1..<MAX_PROC]" by (simp add: upt_conv_Cons)
    show ?thesis
      using 1 True u by (subst (1 2 3 4) skip_free.simps) (auto simp: used_pids_def)
  qed (use 1 in \<open>simp add: skip_free.simps used_pids_def\<close>)
qed

text \<open>
  What the kernel keeps of the arguments of a process: a block of \<^verbatim>\<open>argl\<close> bytes, or a null pointer.  The end
  of a process clears the pointer and leaves \<^verbatim>\<open>argl\<close> as it was.
\<close>

definition pcb_ok :: "PCB \<Rightarrow> bool" where
  "pcb_ok pcb \<longleftrightarrow> - (2 ^ 31) \<le> argl pcb \<and> argl pcb < 2 ^ 31 \<and>
     (case args pcb of None \<Rightarrow> True | Some bs \<Rightarrow> int (length bs) = argl pcb) \<and>
     0 \<le> thread_count pcb \<and> thread_count pcb < 2 ^ 31 \<and> task_addr (main_task pcb) < 2 ^ 64 \<and>
     (case parent pcb of None \<Rightarrow> True | Some q \<Rightarrow> q < MAX_PROC)"

definition args_lost :: "PCB \<Rightarrow> bool" where
  "args_lost pcb \<longleftrightarrow> args pcb = None \<and> argl pcb \<noteq> 0"

definition args_prefix :: "PCB \<Rightarrow> byte list" where
  "args_prefix pcb = (case args pcb of None \<Rightarrow> [] | Some bs \<Rightarrow> take (min (nat (argl pcb)) PROCINFO_MAX_ARGS_SIZE) bs)"

text \<open>What a program that reads to the end of the stream sees; the flag is whether the end was reached.\<close>

fun read_all :: "nat \<Rightarrow> nat \<Rightarrow> 'a kernel_scheme \<Rightarrow> (procinfo list \<times> bool) option" where
  "read_all 0 a s = Some ([], False)"
| "read_all (Suc n) a s =
     do { ((r, bs), s1) \<leftarrow> procinfo_read a sizeof_procinfo s;
          if r = 0 then Some ([], True)
          else do { (is, e) \<leftarrow> read_all n a s1; Some (procinfo_at bs # is, e) } }"

definition describes :: "(pid \<Rightarrow> PCB) \<Rightarrow> pid \<Rightarrow> procinfo \<Rightarrow> bool" where
  "describes T p i \<longleftrightarrow> info_pid i = int p \<and> info_ppid i = get_pid (parent (T p)) \<and> info_alive i = (pstate (T p) = ALIVE) \<and>
     info_thread_count i = thread_count (T p) \<and> info_main_task i = main_task (T p) \<and> info_argl i = argl (T p) \<and>
     take (min (nat (argl (T p))) PROCINFO_MAX_ARGS_SIZE) (info_args i) = (if argl (T p) = 0 then [] else args_prefix (T p))"

lemma copy_args_ok:
  assumes "pcb_ok pcb" "\<not> args_lost pcb" "length dst = PROCINFO_MAX_ARGS_SIZE"
  shows "\<exists>bs. copy_args (if argl pcb > int PROCINFO_MAX_ARGS_SIZE then int PROCINFO_MAX_ARGS_SIZE else argl pcb) (args pcb) dst = Some bs \<and>
    length bs = PROCINFO_MAX_ARGS_SIZE \<and>
    take (min (nat (argl pcb)) PROCINFO_MAX_ARGS_SIZE) bs = (if argl pcb = 0 then [] else args_prefix pcb)"
  using assms by (auto simp: pcb_ok_def args_lost_def copy_args_def args_prefix_def PROCINFO_MAX_ARGS_SIZE_def min_def split: option.splits)

lemma procinfo_read_step:
  assumes "picbs s a = Some x" "cursor x \<le> MAX_PROC" "length (info_args (info x)) = PROCINFO_MAX_ARGS_SIZE"
    "\<forall>p < MAX_PROC. pstate (PT s p) \<noteq> FREE \<longrightarrow> pcb_ok (PT s p)"
  shows "case used_pids (PT s) (cursor x) of
      [] \<Rightarrow> \<exists>s'. procinfo_read a sizeof_procinfo s = Some ((0, []), s')
    | p # ps \<Rightarrow> if args_lost (PT s p) then procinfo_read a sizeof_procinfo s = None
       else \<exists>i s' x'. procinfo_read a sizeof_procinfo s = Some ((int sizeof_procinfo, procinfo_bytes i), s') \<and>
        procinfo_ok i \<and> describes (PT s) p i \<and> PT s' = PT s \<and> picbs s' a = Some x' \<and> cursor x' \<le> MAX_PROC \<and>
        used_pids (PT s) (cursor x') = ps \<and> length (info_args (info x')) = PROCINFO_MAX_ARGS_SIZE"
proof -
  let ?cur = "skip_free (PT s) (cursor x)"
  note sk = used_pids_skip [OF assms(2), of "PT s"]
  show ?thesis
  proof (cases "?cur = MAX_PROC")
    case True
    then show ?thesis using sk assms(1) by (simp add: procinfo_read_def)
  next
    case False
    then have u: "used_pids (PT s) (cursor x) = ?cur # used_pids (PT s) (?cur + 1)" and lt: "?cur < MAX_PROC" using sk by auto
    have "?cur \<in> set (used_pids (PT s) (cursor x))" unfolding u by simp
    then have used: "pstate (PT s ?cur) \<noteq> FREE" by (simp add: used_pids_def)
    with lt assms(4) have ok: "pcb_ok (PT s ?cur)" by simp
    show ?thesis
    proof (cases "args_lost (PT s ?cur)")
      case True
      then have "procinfo_read a sizeof_procinfo s = None"
        using False assms(1) by (auto simp: procinfo_read_def Let_def args_lost_def copy_args_def PROCINFO_MAX_ARGS_SIZE_def)
      then show ?thesis unfolding u using True by simp
    next
      case have_args: False
      obtain bs where bs: "copy_args (if argl (PT s ?cur) > int PROCINFO_MAX_ARGS_SIZE then int PROCINFO_MAX_ARGS_SIZE else argl (PT s ?cur))
          (args (PT s ?cur)) (info_args (info x)) = Some bs" "length bs = PROCINFO_MAX_ARGS_SIZE"
        "take (min (nat (argl (PT s ?cur))) PROCINFO_MAX_ARGS_SIZE) bs = (if argl (PT s ?cur) = 0 then [] else args_prefix (PT s ?cur))"
        using copy_args_ok [OF ok have_args assms(3)] by blast
      let ?i = "procinfo_of ?cur (PT s ?cur) bs"
      have "describes (PT s) ?cur ?i" using bs(3) used
        by (cases "pstate (PT s ?cur)") (auto simp: describes_def procinfo_of_def get_pid_def)
      moreover have "procinfo_ok ?i" using ok bs(2) lt
        by (auto simp: procinfo_ok_def procinfo_of_def pcb_ok_def get_pid_def NOPROC_def MAX_PROC_def split: option.splits)
      ultimately show ?thesis
        unfolding u list.case if_not_P [OF have_args] using False assms(1) bs(1,2) lt
        by (auto simp: procinfo_read_def Let_def procinfo_of_def intro!: exI [of _ ?i])
    qed
  qed
qed

lemma read_all_describes:
  assumes "picbs s a = Some x" "cursor x \<le> MAX_PROC" "length (info_args (info x)) = PROCINFO_MAX_ARGS_SIZE"
    "\<forall>p < MAX_PROC. pstate (PT s p) \<noteq> FREE \<longrightarrow> pcb_ok (PT s p)" "length (used_pids (PT s) (cursor x)) < n"
  shows "if \<exists>p \<in> set (used_pids (PT s) (cursor x)). args_lost (PT s p) then read_all n a s = None
    else \<exists>is. read_all n a s = Some (is, True) \<and> list_all2 (describes (PT s)) (used_pids (PT s) (cursor x)) is"
  using assms
proof (induction n arbitrary: s x)
  case (Suc n)
  note st = procinfo_read_step [OF Suc.prems(1-4)]
  show ?case
  proof (cases "used_pids (PT s) (cursor x)")
    case Nil
    then show ?thesis using st by auto
  next
    case (Cons p ps)
    show ?thesis
    proof (cases "args_lost (PT s p)")
      case True
      then show ?thesis using st Cons by simp
    next
      case False
      with st Cons obtain i s' x' where i: "procinfo_read a sizeof_procinfo s = Some ((int sizeof_procinfo, procinfo_bytes i), s')"
        "procinfo_ok i" "describes (PT s) p i" "PT s' = PT s" "picbs s' a = Some x'" "cursor x' \<le> MAX_PROC"
        "used_pids (PT s) (cursor x') = ps" "length (info_args (info x')) = PROCINFO_MAX_ARGS_SIZE" by auto
      have "if \<exists>p \<in> set (used_pids (PT s') (cursor x')). args_lost (PT s' p) then read_all n a s' = None
          else \<exists>is. read_all n a s' = Some (is, True) \<and> list_all2 (describes (PT s')) (used_pids (PT s') (cursor x')) is"
        using Suc.prems(4,5) i Cons by (intro Suc.IH) simp_all
      then have IH: "if \<exists>p \<in> set ps. args_lost (PT s p) then read_all n a s' = None
          else \<exists>is. read_all n a s' = Some (is, True) \<and> list_all2 (describes (PT s)) ps is" unfolding i(4) i(7) .
      have run: "read_all (Suc n) a s = do { (is, e) \<leftarrow> read_all n a s'; Some (i # is, e) }"
        using i(1,2) by (simp add: procinfo_at_bytes sizeof_procinfo_def)
      show ?thesis using IH i(3) False unfolding run Cons by (auto split: if_splits)
    qed
  qed
qed simp

section \<open>Properties\<close>

text \<open>
  The block of bytes that an information stream returns can be read back: the structure at
  the start of the buffer is the one that the kernel wrote, and its size is \<^verbatim>\<open>sizeof(procinfo)\<close>.
\<close>

theorem procinfo_roundtrip:
  assumes "procinfo_ok i"
  shows "procinfo_at (procinfo_bytes i) = i \<and> length (procinfo_bytes i) = sizeof_procinfo"
  using procinfo_at_bytes [OF assms] procinfo_bytes_length [OF assms] by simp

theorem procinfo_roundtrip_witness:
  "procinfo_at (procinfo_bytes \<lparr>info_pid = 3, info_ppid = -1, info_alive = True, info_thread_count = 2,
     info_main_task = Some 7, info_argl = 1000, info_args = replicate 128 65\<rparr>) =
   \<lparr>info_pid = 3, info_ppid = -1, info_alive = True, info_thread_count = 2,
     info_main_task = Some 7, info_argl = 1000, info_args = replicate 128 65\<rparr>"
  using procinfo_roundtrip [of "\<lparr>info_pid = 3, info_ppid = -1, info_alive = True, info_thread_count = 2,
     info_main_task = Some 7, info_argl = 1000, info_args = replicate 128 65\<rparr>"]
  by (simp add: procinfo_ok_def task_addr_def PROCINFO_MAX_ARGS_SIZE_def)

text \<open>
  C27. Reading an information stream from its beginning gives, in the order of the pids, one
  structure for each process that is alive or a zombie and none for free pids, and then the
  end of the stream; at most \<^verbatim>\<open>MAX_PROC\<close> reads and one more are needed.  Each structure tells the
  pid, the parent, whether the process is alive, its threads, its task, the length of its
  arguments and the first 128 bytes of them.  This holds if no process in use has lost its
  arguments; if one has, as every zombie has that was started with arguments, the reads end in
  an access through a null pointer.
\<close>

theorem procinfo_lists_processes:
  assumes "picbs s a = Some x" "cursor x = 0" "length (info_args (info x)) = PROCINFO_MAX_ARGS_SIZE"
    "\<forall>p < MAX_PROC. pstate (PT s p) \<noteq> FREE \<longrightarrow> pcb_ok (PT s p)"
  shows "if \<exists>p < MAX_PROC. pstate (PT s p) \<noteq> FREE \<and> args_lost (PT s p) then read_all (MAX_PROC + 1) a s = None
    else \<exists>is. read_all (MAX_PROC + 1) a s = Some (is, True) \<and>
      list_all2 (describes (PT s)) (filter (\<lambda>p. pstate (PT s p) \<noteq> FREE) [0..<MAX_PROC]) is"
proof -
  have "length (used_pids (PT s) 0) \<le> MAX_PROC"
    using length_filter_le [of "\<lambda>p. pstate (PT s p) \<noteq> FREE" "[0..<MAX_PROC]"] by (simp add: used_pids_def)
  then have "length (used_pids (PT s) (cursor x)) < MAX_PROC + 1" using assms(2) by simp
  from read_all_describes [OF assms(1) _ assms(3,4) this] assms(2)
  have all: "if \<exists>p \<in> set (used_pids (PT s) 0). args_lost (PT s p) then read_all (MAX_PROC + 1) a s = None
    else \<exists>is. read_all (MAX_PROC + 1) a s = Some (is, True) \<and> list_all2 (describes (PT s)) (used_pids (PT s) 0) is"
    unfolding assms(2) by (rule meta_mp) simp
  have lost: "(\<exists>p \<in> set (used_pids (PT s) 0). args_lost (PT s p)) \<longleftrightarrow> (\<exists>p < MAX_PROC. pstate (PT s p) \<noteq> FREE \<and> args_lost (PT s p))"
    by (auto simp: used_pids_def)
  show ?thesis using all unfolding lost unfolding used_pids_def .
qed

definition kernel8 :: "pid_state \<Rightarrow> byte list option \<Rightarrow> kernel" where
  "kernel8 st ag = kernel2\<lparr>PT := (\<lambda>_. zero_PCB)(2 := zero_PCB\<lparr>pstate := st, parent := Some 1, argl := 2, args := ag\<rparr>),
     picbs := [4 \<mapsto> \<lparr>info = \<lparr>info_pid = 0, info_ppid = 0, info_alive = False, info_thread_count = 0, info_main_task = None,
       info_argl = 0, info_args = replicate PROCINFO_MAX_ARGS_SIZE 0\<rparr>, cursor = 0\<rparr>]\<rparr>"

lemma kernel8_facts:
  assumes "st \<noteq> FREE" "case ag of None \<Rightarrow> True | Some bs \<Rightarrow> length bs = 2"
  shows "picbs (kernel8 st ag) 4 = Some (the (picbs (kernel8 st ag) 4))" "cursor (the (picbs (kernel8 st ag) 4)) = 0"
    "length (info_args (info (the (picbs (kernel8 st ag) 4)))) = PROCINFO_MAX_ARGS_SIZE"
    "\<forall>p < MAX_PROC. pstate (PT (kernel8 st ag) p) \<noteq> FREE \<longrightarrow> pcb_ok (PT (kernel8 st ag) p)"
    "pstate (PT (kernel8 st ag) p) \<noteq> FREE \<longleftrightarrow> p = 2" "args_lost (PT (kernel8 st ag) 2) \<longleftrightarrow> ag = None"
  using assms by (simp_all add: kernel8_def zero_PCB_def pcb_ok_def args_lost_def task_addr_def MAX_PROC_def split: option.splits)

theorem procinfo_lists_processes_witness:
  "(\<exists>i. read_all (MAX_PROC + 1) 4 (kernel8 ALIVE (Some [65, 0])) = Some ([i], True) \<and> info_pid i = 2 \<and> info_ppid i = 1 \<and> info_alive i) \<and>
   read_all (MAX_PROC + 1) 4 (kernel8 ZOMBIE None) = None"
proof
  let ?s = "kernel8 ALIVE (Some [65, 0])"
  note k = kernel8_facts [of ALIVE "Some [65, 0]", simplified]
  have "[0..<2 + n] = [0..<2] @ [2..<2 + n]" for n by (rule upt_add_eq_append) simp
  then have "filter (\<lambda>p. p = 2) [0..<2 + Suc n] = [2]" for n by (simp add: upt_conv_Cons)
  moreover have "MAX_PROC = 2 + Suc 65533" by (simp add: MAX_PROC_def)
  ultimately have "filter (\<lambda>p. p = 2) [0..<MAX_PROC] = [2]" by metis
  then have u: "filter (\<lambda>p. pstate (PT ?s p) \<noteq> FREE) [0..<MAX_PROC] = [2]" by (simp add: k(5))
  have none: "\<not> (\<exists>p < MAX_PROC. pstate (PT ?s p) \<noteq> FREE \<and> args_lost (PT ?s p))" using k(5,6) by auto
  from procinfo_lists_processes [OF kernel8_facts(1-4) [of ALIVE "Some [65, 0]"]]
  have "\<exists>is. read_all (MAX_PROC + 1) 4 ?s = Some (is, True) \<and> list_all2 (describes (PT ?s)) [2] is"
    unfolding if_not_P [OF none] u by simp
  then obtain i where "read_all (MAX_PROC + 1) 4 ?s = Some ([i], True)" "describes (PT ?s) 2 i"
    by (auto simp: list_all2_Cons1)
  then show "\<exists>i. read_all (MAX_PROC + 1) 4 ?s = Some ([i], True) \<and> info_pid i = 2 \<and> info_ppid i = 1 \<and> info_alive i"
    by (auto simp: describes_def kernel8_def get_pid_def)
next
  let ?s = "kernel8 ZOMBIE None"
  have lost: "\<exists>p < MAX_PROC. pstate (PT ?s p) \<noteq> FREE \<and> args_lost (PT ?s p)"
    using kernel8_facts(5,6) [of ZOMBIE None] by (intro exI [of _ 2]) (simp add: MAX_PROC_def)
  from procinfo_lists_processes [OF kernel8_facts(1-4) [of ZOMBIE None]]
  show "read_all (MAX_PROC + 1) 4 ?s = None" unfolding if_P [OF lost] by simp
qed

end
