(* ===== verification/Streams.thy ===== *)
theory Streams
  imports Dev Socket Info
begin

text \<open>
  Streams, the second half of \<^verbatim>\<open>kernel_streams.c\<close>: the calls through the method tables, reference
  counting with closing, and the system calls on file ids.

  A method that waits gives \<open>Block cv\<close>; its local variables are determined by the condition
  variable that it waits for, and \<open>read_resume\<close> and \<open>write_resume\<close> continue it.  \<^verbatim>\<open>sys_Read\<close> and
  \<^verbatim>\<open>sys_Write\<close> hold a reference while they wait, which the invariant of the file table counts
  in \<open>pins\<close>.
\<close>

section \<open>Method tables\<close>

definition pipe_ptr :: "stream_obj option \<Rightarrow> nat option option" where
  "pipe_ptr obj = (case obj of None \<Rightarrow> Some None | Some (Pipe_obj a) \<Rightarrow> Some (Some a) | Some _ \<Rightarrow> None)"

definition serial_ptr :: "stream_obj option \<Rightarrow> nat option" where
  "serial_ptr obj = (case obj of Some (Serial_obj d) \<Rightarrow> Some d | _ \<Rightarrow> None)"

definition info_ptr :: "stream_obj option \<Rightarrow> nat option" where
  "info_ptr obj = (case obj of Some (Info_obj a) \<Rightarrow> Some a | _ \<Rightarrow> None)"

definition fops_Read :: "nat \<Rightarrow> file_ops \<Rightarrow> stream_obj option \<Rightarrow> (nat \<Rightarrow> read_result) \<Rightarrow> nat \<Rightarrow> 'a kernel_scheme \<Rightarrow>
  ((int \<times> byte list) outcome \<times> 'a kernel_scheme) option" where
  "fops_Read c ops obj rcs n s =
     (case ops of
        nulldev_fops \<Rightarrow> Some (Done (nulldev_read n), s)
      | serial_fops \<Rightarrow> do { d \<leftarrow> serial_ptr obj; serial_read c d rcs n s }
      | reader_file_ops \<Rightarrow> do { a \<leftarrow> pipe_ptr obj; pipe_read c a n s }
      | writer_file_ops \<Rightarrow> Some (Done (do_nothing, []), s)
      | socket_file_ops \<Rightarrow> do { ao \<leftarrow> socket_ptr obj; a \<leftarrow> ao; socket_read c a n s }
      | procinfo_ops \<Rightarrow> do { a \<leftarrow> info_ptr obj; (r, s1) \<leftarrow> procinfo_read a n s; Some (Done r, s1) })"

definition fops_Write :: "nat \<Rightarrow> file_ops \<Rightarrow> stream_obj option \<Rightarrow> (nat \<Rightarrow> write_result) \<Rightarrow> byte list \<Rightarrow> 'a kernel_scheme \<Rightarrow>
  (int outcome \<times> 'a kernel_scheme) option" where
  "fops_Write c ops obj wcs buf s =
     (case ops of
        nulldev_fops \<Rightarrow> Some (Done (nulldev_write (length buf)), s)
      | serial_fops \<Rightarrow> do { d \<leftarrow> serial_ptr obj; serial_write d wcs buf s }
      | reader_file_ops \<Rightarrow> Some (Done do_nothing, s)
      | writer_file_ops \<Rightarrow> do { a \<leftarrow> pipe_ptr obj; pipe_write c a buf s }
      | socket_file_ops \<Rightarrow> do { ao \<leftarrow> socket_ptr obj; a \<leftarrow> ao; socket_write c a buf s }
      | procinfo_ops \<Rightarrow> Some (Done procinfo_write, s))"

definition fops_Close :: "nat \<Rightarrow> file_ops \<Rightarrow> stream_obj option \<Rightarrow> 'a kernel_scheme \<Rightarrow> (int \<times> 'a kernel_scheme) option" where
  "fops_Close c ops obj s =
     (case ops of
        nulldev_fops \<Rightarrow> Some (nulldev_close, s)
      | serial_fops \<Rightarrow> Some (serial_close, s)
      | reader_file_ops \<Rightarrow> do { a \<leftarrow> pipe_ptr obj; pipe_reader_close c a s }
      | writer_file_ops \<Rightarrow> do { a \<leftarrow> pipe_ptr obj; pipe_writer_close c a s }
      | socket_file_ops \<Rightarrow> do { a \<leftarrow> socket_ptr obj; socket_close c a s }
      | procinfo_ops \<Rightarrow> do { a \<leftarrow> info_ptr obj; procinfo_close a s })"

definition read_resume :: "nat \<Rightarrow> cv_ref \<Rightarrow> (nat \<Rightarrow> read_result) \<Rightarrow> nat \<Rightarrow> 'a kernel_scheme \<Rightarrow>
  ((int \<times> byte list) outcome \<times> 'a kernel_scheme) option" where
  "read_resume c cv rcs n s =
     (case cv of
        has_data a \<Rightarrow> pipe_read_loop c a n s
      | rx_ready d \<Rightarrow> serial_read_loop c d rcs n [] s
      | _ \<Rightarrow> None)"

definition write_resume :: "nat \<Rightarrow> cv_ref \<Rightarrow> byte list \<Rightarrow> 'a kernel_scheme \<Rightarrow> (int outcome \<times> 'a kernel_scheme) option" where
  "write_resume c cv buf s = (case cv of has_space a \<Rightarrow> pipe_write_loop c a buf s | _ \<Rightarrow> None)"

section \<open>Dropping references\<close>

definition FCB_decref :: "nat \<Rightarrow> fcb_ref \<Rightarrow> 'a kernel_scheme \<Rightarrow> (int \<times> 'a kernel_scheme) option" where
  "FCB_decref c f s =
     do { let s1 = upd_fcb f (\<lambda>x. x\<lparr>refcount := refcount x - 1\<rparr>) s;
          if refcount (FT s1 f) = 0
          then do { ops \<leftarrow> streamfunc (FT s1 f);
                    (retval, s2) \<leftarrow> fops_Close c ops (streamobj (FT s1 f)) s1;
                    Some (retval, release_FCB f s2) }
          else Some (0, s1) }"

section \<open>System calls\<close>

text \<open>The end of \<^verbatim>\<open>sys_Read\<close> and \<^verbatim>\<open>sys_Write\<close>, when the method has returned.\<close>

definition finish :: "nat \<Rightarrow> fcb_ref \<Rightarrow> 'r outcome \<times> 'a kernel_scheme \<Rightarrow> ('r outcome \<times> 'a kernel_scheme) option" where
  "finish c f rs =
     (case rs of
        (Done r, s) \<Rightarrow> do { (_, s1) \<leftarrow> FCB_decref c f s; Some (Done r, s1) }
      | (b, s) \<Rightarrow> Some (b, s))"

definition sys_Read :: "nat \<Rightarrow> int \<Rightarrow> (nat \<Rightarrow> read_result) \<Rightarrow> nat \<Rightarrow> 'a kernel_scheme \<Rightarrow>
  ((int \<times> byte list) outcome \<times> 'a kernel_scheme) option" where
  "sys_Read c fid rcs n s =
     do { fcb \<leftarrow> get_fcb c fid s;
          case fcb of
            None \<Rightarrow> Some (Done (-1, []), s)
          | Some f \<Rightarrow>
              do { devread \<leftarrow> streamfunc (FT s f);
                   rs \<leftarrow> fops_Read c devread (streamobj (FT s f)) rcs n (FCB_incref f s);
                   finish c f rs } }"

definition sys_Read_resume :: "nat \<Rightarrow> fcb_ref \<Rightarrow> cv_ref \<Rightarrow> (nat \<Rightarrow> read_result) \<Rightarrow> nat \<Rightarrow> 'a kernel_scheme \<Rightarrow>
  ((int \<times> byte list) outcome \<times> 'a kernel_scheme) option" where
  "sys_Read_resume c f cv rcs n s = do { rs \<leftarrow> read_resume c cv rcs n s; finish c f rs }"

definition sys_Write :: "nat \<Rightarrow> int \<Rightarrow> (nat \<Rightarrow> write_result) \<Rightarrow> byte list \<Rightarrow> 'a kernel_scheme \<Rightarrow>
  (int outcome \<times> 'a kernel_scheme) option" where
  "sys_Write c fid wcs buf s =
     do { fcb \<leftarrow> get_fcb c fid s;
          case fcb of
            None \<Rightarrow> Some (Done (-1), s)
          | Some f \<Rightarrow>
              do { devwrite \<leftarrow> streamfunc (FT s f);
                   rs \<leftarrow> fops_Write c devwrite (streamobj (FT s f)) wcs buf (FCB_incref f s);
                   finish c f rs } }"

definition sys_Write_resume :: "nat \<Rightarrow> fcb_ref \<Rightarrow> cv_ref \<Rightarrow> byte list \<Rightarrow> 'a kernel_scheme \<Rightarrow>
  (int outcome \<times> 'a kernel_scheme) option" where
  "sys_Write_resume c f cv buf s = do { rs \<leftarrow> write_resume c cv buf s; finish c f rs }"

text \<open>The polling loop of \<^verbatim>\<open>serial_write\<close> after its \<^verbatim>\<open>yield\<close>; nothing has been written yet.\<close>

definition sys_Write_again :: "nat \<Rightarrow> fcb_ref \<Rightarrow> (nat \<Rightarrow> write_result) \<Rightarrow> byte list \<Rightarrow> 'a kernel_scheme \<Rightarrow>
  (int outcome \<times> 'a kernel_scheme) option" where
  "sys_Write_again c f wcs buf s =
     do { d \<leftarrow> serial_ptr (streamobj (FT s f)); rs \<leftarrow> serial_write d wcs buf s; finish c f rs }"

definition sys_Close :: "nat \<Rightarrow> int \<Rightarrow> 'a kernel_scheme \<Rightarrow> (int \<times> 'a kernel_scheme) option" where
  "sys_Close c fid s =
     do { let retcode = (if fid \<ge> 0 \<and> fid < int MAX_FILEID then 0 else -1);
          fcb \<leftarrow> get_fcb c fid s;
          case fcb of
            None \<Rightarrow> Some (retcode, s)
          | Some f \<Rightarrow> do { p \<leftarrow> CURPROC c s; FCB_decref c f (set_FIDT p (nat fid) None s) } }"

definition sys_Dup2 :: "nat \<Rightarrow> int \<Rightarrow> int \<Rightarrow> 'a kernel_scheme \<Rightarrow> (int \<times> 'a kernel_scheme) option" where
  "sys_Dup2 c oldfd newfd s =
     (if oldfd < 0 \<or> newfd < 0 \<or> oldfd \<ge> int MAX_FILEID \<or> newfd \<ge> int MAX_FILEID then Some (-1, s)
      else do { old \<leftarrow> get_fcb c oldfd s;
                new \<leftarrow> get_fcb c newfd s;
                case old of
                  None \<Rightarrow> Some (-1, s)
                | Some f \<Rightarrow>
                    if old = new then Some (0, s)
                    else do { s1 \<leftarrow> (case new of None \<Rightarrow> Some s | Some g \<Rightarrow> map_option snd (FCB_decref c g s));
                              p \<leftarrow> CURPROC c s1;
                              Some (0, set_FIDT p (nat newfd) (Some f) (FCB_incref f s1)) } })"

definition sys_GetTerminalDevices :: "'a kernel_scheme \<Rightarrow> nat" where
  "sys_GetTerminalDevices s = device_no DEV_SERIAL s"

definition open_stream :: "nat \<Rightarrow> Device_type \<Rightarrow> nat \<Rightarrow> 'a kernel_scheme \<Rightarrow> (int \<times> 'a kernel_scheme) option" where
  "open_stream c major minor s =
     do { (r, s1) \<leftarrow> FCB_reserve c 1 s;
          case r of
            None \<Rightarrow> Some (NOFILE, s1)
          | Some (fids, fcbs) \<Rightarrow>
              do { dev \<leftarrow> device_open major minor s1;
                   case dev of
                     None \<Rightarrow> do { s2 \<leftarrow> FCB_unreserve c fids fcbs s1; Some (NOFILE, s2) }
                   | Some (obj, ops) \<Rightarrow>
                       Some (int (fids ! 0), upd_fcb (fcbs ! 0) (\<lambda>f. f\<lparr>streamobj := obj, streamfunc := Some ops\<rparr>) s1) } }"

definition sys_OpenNull :: "nat \<Rightarrow> 'a kernel_scheme \<Rightarrow> (int \<times> 'a kernel_scheme) option" where
  "sys_OpenNull c s = open_stream c DEV_NULL 0 s"

definition sys_OpenTerminal :: "nat \<Rightarrow> nat \<Rightarrow> 'a kernel_scheme \<Rightarrow> (int \<times> 'a kernel_scheme) option" where
  "sys_OpenTerminal c termno s = open_stream c DEV_SERIAL termno s"

section \<open>The method tables keep to the contract of drivers\<close>

interpretation fops_Read_method: driver_method "fops_Read c ops obj rcs n" for c ops obj rcs n
  by unfold_locales
    (auto simp: fops_Read_def split: file_ops.splits dest!: serial_read_method.neutral pipe_read_method.neutral
      socket_read_method.neutral procinfo_read_method.neutral)

interpretation fops_Write_method: driver_method "fops_Write c ops obj wcs buf" for c ops obj wcs buf
  by unfold_locales
    (auto simp: fops_Write_def split: file_ops.splits dest!: serial_write_method.neutral pipe_write_method.neutral
      socket_write_method.neutral)

interpretation fops_Close_method: driver_method "fops_Close c ops obj" for c ops obj
  by unfold_locales
    (auto simp: fops_Close_def split: file_ops.splits dest!: pipe_reader_close_method.neutral
      pipe_writer_close_method.neutral socket_close_method.neutral procinfo_close_method.neutral)

interpretation read_resume_method: driver_method "read_resume c cv rcs n" for c cv rcs n
  by unfold_locales
    (auto simp: read_resume_def split: cv_ref.splits dest!: pipe_read_loop_files serial_read_loop_files)

interpretation write_resume_method: driver_method "write_resume c cv buf" for c cv buf
  by unfold_locales (auto simp: write_resume_def split: cv_ref.splits dest!: pipe_write_loop_files)

section \<open>Reference counts stay exact\<close>

text \<open>Between system calls; a call that waits pins the block it uses.\<close>

definition files_ok :: "(fcb_ref \<Rightarrow> int) \<Rightarrow> 'a kernel_scheme \<Rightarrow> bool" where
  "files_ok pins s \<longleftrightarrow> files_inv {} pins s \<and> (\<forall>f. 0 \<le> pins f \<and> pins f < 2 ^ 31) \<and>
     (\<forall>c p. CURPROC c s = Some p \<longrightarrow> p < MAX_PROC)"

definition pin :: "fcb_ref \<Rightarrow> (fcb_ref \<Rightarrow> int) \<Rightarrow> fcb_ref \<Rightarrow> int" where
  "pin f pins = pins(f := pins f + 1)"

definition unpin :: "fcb_ref \<Rightarrow> (fcb_ref \<Rightarrow> int) \<Rightarrow> fcb_ref \<Rightarrow> int" where
  "unpin f pins = pins(f := pins f - 1)"

lemma unpin_pin [simp]: "unpin f (pin f pins) = pins"
  by (simp add: pin_def unpin_def)

lemma get_fcb_SomeD:
  assumes "get_fcb c fid s = Some (Some f)"
  obtains p where "CURPROC c s = Some p" "FIDT (PT s p) (nat fid) = Some f" "0 \<le> fid" "fid < int MAX_FILEID"
  using assms by (auto simp: get_fcb_def split: if_splits)

lemma held_named:
  assumes "files_ok pins s" "FIDT (PT s p) i = Some f"
  shows "f < MAX_FILES" "p < MAX_PROC" "i < MAX_FILEID" "held pins f s > 0" "held pins f s + 1 < 2 ^ 32"
    "f \<notin> set (FCB_freelist s)"
proof -
  have ok: "fidt_ok s" "0 \<le> pins f" "pins f < 2 ^ 31" using assms(1) by (simp_all add: files_ok_def files_inv_def)
  show r: "f < MAX_FILES" "p < MAX_PROC" "i < MAX_FILEID" using ok(1) assms(2) unfolding fidt_ok_def by blast+
  have "(p, i) \<in> refs f s" using assms(2) by (simp add: refs_def)
  then have c: "card (refs f s) > 0" using finite_refs(1) [OF ok(1)] card_gt_0_iff by blast
  then show h: "held pins f s > 0" using ok(2) by (simp add: held_def)
  have "card (refs f s) \<le> 2 ^ 20" using finite_refs(2) [OF ok(1), of f] by (simp add: MAX_PROC_def MAX_FILEID_def)
  then show "held pins f s + 1 < 2 ^ 32" using ok(3) by (simp add: held_def)
  show "f \<notin> set (FCB_freelist s)" using assms(1) r(1) h by (auto simp: files_ok_def files_inv_def)
qed

text \<open>Dropping a reference closes the stream exactly when it was the last one.\<close>

lemma FCB_decref_last:
  assumes "files_inv {} pins s" "f < MAX_FILES" "held pins f s > 0"
  shows "refcount (FT (upd_fcb f (\<lambda>x. x\<lparr>refcount := refcount x - 1\<rparr>) s) f) = 0 \<longleftrightarrow> held pins f s = 1"
proof -
  have h: "refcount (FT s f) = of_int (held pins f s)" "held pins f s < 2 ^ 32"
    using assms by (auto simp: files_inv_def)
  have "(of_int (held pins f s) - 1 :: uint32) = of_int (held pins f s - 1)" by simp
  moreover have "uint (of_int (held pins f s - 1) :: uint32) = held pins f s - 1"
    using assms(3) h(2) by (subst uint_word_of_int) (simp add: take_bit_int_eq_self)
  then have "(of_int (held pins f s - 1) :: uint32) = 0 \<longleftrightarrow> held pins f s - 1 = 0"
    by (metis of_int_0 uint_0_iff)
  ultimately show ?thesis by (simp add: upd_fcb_def h(1))
qed

lemma FCB_decref_inv:
  assumes "files_inv {} pins s" "f < MAX_FILES" "held pins f s > 0" "FCB_decref c f s = Some (r, s')"
  shows "files_inv {} (unpin f pins) s' \<and> PT s' = PT s \<and> (\<forall>c. CURPROC c s' = CURPROC c s) \<and>
    (held pins f s \<noteq> 1 \<longrightarrow> r = 0)"
proof -
  let ?s1 = "upd_fcb f (\<lambda>x. x\<lparr>refcount := refcount x - 1\<rparr>) s"
  have inv1: "files_inv (if held pins f s = 1 then {f} else {}) (unpin f pins) ?s1"
    using files_inv_decref [OF assms(1-3)] by (simp add: unpin_def)
  have s1: "PT ?s1 = PT s" "CURPROC c' ?s1 = CURPROC c' s" for c' by (simp_all add: upd_fcb_def)
  note last = FCB_decref_last [OF assms(1-3)]
  show ?thesis
  proof (cases "held pins f s = 1")
    case True
    then obtain ops s2 where s2: "fops_Close c ops (streamobj (FT ?s1 f)) ?s1 = Some (r, s2)" "s' = release_FCB f s2"
      using assms(4) last by (auto simp: FCB_decref_def Let_def)
    have "files_inv {f} (unpin f pins) s2"
      using fops_Close_method.keeps_files_inv [OF s2(1)] inv1 True by simp
    then have "files_inv {} (unpin f pins) s'" using files_inv_release [of "{f}" "unpin f pins" s2 f] s2(2) by simp
    then show ?thesis
      using fops_Close_method.keeps_fields [OF s2(1)] s1 s2(2) True by (simp add: release_FCB_def)
  next
    case False
    then show ?thesis using assms(4) last inv1 s1 by (simp add: FCB_decref_def Let_def)
  qed
qed

lemma decref_unpins:
  assumes "files_inv {} pins s" "\<forall>g. 0 \<le> pins g" "0 < pins f" "f < MAX_FILES" "FCB_decref c f s = Some (r, s')"
  shows "files_inv {} (unpin f pins) s' \<and> PT s' = PT s \<and> (\<forall>c. CURPROC c s' = CURPROC c s)"
proof -
  have "held pins f s > 0" using assms(3) by (simp add: held_def)
  from FCB_decref_inv [OF assms(1,4) this assms(5)] show ?thesis by simp
qed

lemma incref_named:
  assumes "files_ok pins s" "FIDT (PT s p) i = Some f"
  shows "files_inv {} (pin f pins) (FCB_incref f s)"
  using files_inv_incref [of "{}" pins s f] held_named [OF assms] assms(1) by (simp add: files_ok_def pin_def)

lemma incref_fields [simp]: "PT (FCB_incref f s) = PT s" "CURPROC c (FCB_incref f s) = CURPROC c s"
  by (simp_all add: FCB_incref_def upd_fcb_def)

lemma pin_nonneg: "files_ok pins s \<Longrightarrow> (\<forall>g. 0 \<le> pin f pins g) \<and> 0 < pin f pins f"
  by (simp add: files_ok_def pin_def add_nonneg_pos)

section \<open>Reading and writing\<close>

text \<open>
  A call of a method on a block that is counted once more, and the end of the call.  This is
  the common part of the four calls that read and write.
\<close>

definition pins_after :: "'r outcome \<Rightarrow> fcb_ref \<Rightarrow> (fcb_ref \<Rightarrow> int) \<Rightarrow> fcb_ref \<Rightarrow> int" where
  "pins_after r f pins = (case r of Done _ \<Rightarrow> unpin f pins | _ \<Rightarrow> pins)"

lemma method_finish:
  assumes inv: "files_inv {} pins s" "\<forall>g. 0 \<le> pins g" "0 < pins f" "f < MAX_FILES"
    and same: "same_files s s1" and fin: "finish c f (r1, s1) = Some (r, s')"
  shows "files_inv {} (pins_after r f pins) s' \<and> PT s' = PT s \<and> (\<forall>c. CURPROC c s' = CURPROC c s)"
proof -
  have i1: "files_inv {} pins s1" using inv(1) same_files_inv [OF same] by simp
  have k: "PT s1 = PT s" "\<forall>c. CURPROC c s1 = CURPROC c s" using same by (simp_all add: same_files_def)
  show ?thesis
  proof (cases r1)
    case (Done x)
    then obtain q where "FCB_decref c f s1 = Some (q, s')" "r = Done x" using fin by (auto simp: finish_def)
    with decref_unpins [OF i1 inv(2-4)] k show ?thesis by (simp add: pins_after_def)
  qed (use fin i1 k in \<open>auto simp: finish_def pins_after_def\<close>)
qed

lemma files_okI:
  assumes "files_ok pins s" "files_inv {} pins' s'" "PT s' = PT s" "\<forall>c. CURPROC c s' = CURPROC c s"
    "\<forall>f. 0 \<le> pins' f \<and> pins' f < 2 ^ 31"
  shows "files_ok pins' s'"
  using assms by (simp add: files_ok_def)

lemma pin_call:
  assumes "files_ok pins s" "FIDT (PT s p) i = Some f" "pins f + 1 < 2 ^ 31"
    "same_files (FCB_incref f s) s1" "finish c f (r1, s1) = Some (r, s')"
  shows "files_ok (pins_after r f (pin f pins)) s'"
proof -
  note inc = incref_named [OF assms(1,2)]
  have "files_inv {} (pins_after r f (pin f pins)) s' \<and> PT s' = PT s \<and> (\<forall>c. CURPROC c s' = CURPROC c s)"
    using method_finish [OF inc _ _ held_named(1) [OF assms(1,2)] assms(4,5)] pin_nonneg [OF assms(1), of f] by simp
  moreover have "\<forall>g. 0 \<le> pins_after r f (pin f pins) g \<and> pins_after r f (pin f pins) g < 2 ^ 31"
    using assms(1,3) by (auto simp: pins_after_def files_ok_def pin_def unpin_def split: outcome.splits)
  ultimately show ?thesis using files_okI [OF assms(1)] by blast
qed

lemma sys_Read_files:
  assumes "files_ok pins s" "sys_Read c fid rcs n s = Some (r, s')" "\<forall>f. pins f + 1 < 2 ^ 31"
  shows "get_fcb c fid s = Some None \<and> s' = s \<and> (\<exists>v. r = Done v) \<or>
    (\<exists>f. get_fcb c fid s = Some (Some f) \<and> f < MAX_FILES \<and> files_ok (pins_after r f (pin f pins)) s')"
proof -
  from assms(2) obtain fo where fo: "get_fcb c fid s = Some fo" by (auto simp: sys_Read_def)
  show ?thesis
  proof (cases fo)
    case None
    then show ?thesis using assms(2) fo by (auto simp: sys_Read_def)
  next
    case (Some f)
    obtain p where p: "FIDT (PT s p) (nat fid) = Some f" using get_fcb_SomeD fo Some by blast
    from assms(2) fo Some obtain ops r1 s1 where rs: "fops_Read c ops (streamobj (FT s f)) rcs n (FCB_incref f s) = Some (r1, s1)"
      "finish c f (r1, s1) = Some (r, s')" by (auto simp: sys_Read_def)
    show ?thesis
      using pin_call [OF assms(1) p _ fops_Read_method.neutral [OF rs(1)] rs(2)] held_named(1) [OF assms(1) p] assms(3) fo Some by blast
  qed
qed

lemma sys_Write_files:
  assumes "files_ok pins s" "sys_Write c fid wcs buf s = Some (r, s')" "\<forall>f. pins f + 1 < 2 ^ 31"
  shows "get_fcb c fid s = Some None \<and> s' = s \<and> (\<exists>v. r = Done v) \<or>
    (\<exists>f. get_fcb c fid s = Some (Some f) \<and> f < MAX_FILES \<and> files_ok (pins_after r f (pin f pins)) s')"
proof -
  from assms(2) obtain fo where fo: "get_fcb c fid s = Some fo" by (auto simp: sys_Write_def)
  show ?thesis
  proof (cases fo)
    case None
    then show ?thesis using assms(2) fo by (auto simp: sys_Write_def)
  next
    case (Some f)
    obtain p where p: "FIDT (PT s p) (nat fid) = Some f" using get_fcb_SomeD fo Some by blast
    from assms(2) fo Some obtain ops r1 s1 where rs: "fops_Write c ops (streamobj (FT s f)) wcs buf (FCB_incref f s) = Some (r1, s1)"
      "finish c f (r1, s1) = Some (r, s')" by (auto simp: sys_Write_def)
    show ?thesis
      using pin_call [OF assms(1) p _ fops_Write_method.neutral [OF rs(1)] rs(2)] held_named(1) [OF assms(1) p] assms(3) fo Some by blast
  qed
qed

lemma resume_files:
  assumes "files_ok pins s" "0 < pins f" "f < MAX_FILES" "same_files s s1" "finish c f (r1, s1) = Some (r, s')"
  shows "files_ok (pins_after r f pins) s'"
proof -
  have inv: "files_inv {} pins s" "\<forall>g. 0 \<le> pins g" using assms(1) by (simp_all add: files_ok_def)
  have "\<forall>g. 0 \<le> pins_after r f pins g \<and> pins_after r f pins g < 2 ^ 31"
  proof
    fix g
    have "0 \<le> pins g" "pins g < 2 ^ 31" using assms(1) by (simp_all add: files_ok_def)
    then show "0 \<le> pins_after r f pins g \<and> pins_after r f pins g < 2 ^ 31"
      using assms(2) by (auto simp: pins_after_def unpin_def split: outcome.splits)
  qed
  with method_finish [OF inv assms(2-5)] files_okI [OF assms(1)] show ?thesis by blast
qed

lemma sys_Read_resume_files:
  "files_ok pins s \<Longrightarrow> 0 < pins f \<Longrightarrow> f < MAX_FILES \<Longrightarrow> sys_Read_resume c f cv rcs n s = Some (r, s') \<Longrightarrow>
     files_ok (pins_after r f pins) s'"
  by (auto simp: sys_Read_resume_def intro: resume_files dest!: read_resume_method.neutral)

lemma sys_Write_resume_files:
  "files_ok pins s \<Longrightarrow> 0 < pins f \<Longrightarrow> f < MAX_FILES \<Longrightarrow> sys_Write_resume c f cv buf s = Some (r, s') \<Longrightarrow>
     files_ok (pins_after r f pins) s'"
  by (auto simp: sys_Write_resume_def intro: resume_files dest!: write_resume_method.neutral)

lemma sys_Write_again_files:
  "files_ok pins s \<Longrightarrow> 0 < pins f \<Longrightarrow> f < MAX_FILES \<Longrightarrow> sys_Write_again c f wcs buf s = Some (r, s') \<Longrightarrow>
     files_ok (pins_after r f pins) s'"
  by (auto simp: sys_Write_again_def intro: resume_files dest!: serial_write_method.neutral)

section \<open>Closing and duplicating\<close>

lemma CURPROC_set_FIDT [simp]: "CURPROC c (set_FIDT p i v s) = CURPROC c s"
  by (simp add: set_FIDT_def upd_pcb_def)

lemma repin_out: "repin (Some f) None pins = pin f pins"
  by (auto simp: repin_def pin_def fun_eq_iff)

lemma set_FIDT_keeps [simp]:
  "FT (set_FIDT p i v s) = FT s" "FCB_freelist (set_FIDT p i v s) = FCB_freelist s"
  by (simp_all add: set_FIDT_def upd_pcb_def)

text \<open>The state after \<^verbatim>\<open>FIDT[fd] = NULL\<close> counts one reference that no file id names.\<close>

lemma cleared_inv:
  assumes "files_ok pins s" "FIDT (PT s p) i = Some f"
  shows "files_inv {} (pin f pins) (set_FIDT p i None s)"
  using files_inv_set_FIDT [of "{}" pins s None p i] assms by (simp add: files_ok_def repin_out)

lemma sys_Close_files:
  assumes "files_ok pins s" "sys_Close c fid s = Some (r, s')"
  shows "files_ok pins s'"
proof -
  from assms(2) obtain fo where fo: "get_fcb c fid s = Some fo" by (auto simp: sys_Close_def)
  show ?thesis
  proof (cases fo)
    case None
    then show ?thesis using assms fo by (auto simp: sys_Close_def)
  next
    case (Some f)
    obtain p where p: "CURPROC c s = Some p" "FIDT (PT s p) (nat fid) = Some f" using get_fcb_SomeD fo Some by blast
    let ?s1 = "set_FIDT p (nat fid) None s"
    have d: "FCB_decref c f ?s1 = Some (r, s')" using assms(2) fo Some p by (simp add: sys_Close_def Let_def)
    have "files_inv {} (unpin f (pin f pins)) s' \<and> PT s' = PT ?s1 \<and> (\<forall>c. CURPROC c s' = CURPROC c ?s1)"
      using decref_unpins [OF cleared_inv [OF assms(1) p(2)] _ _ held_named(1) [OF assms(1) p(2)] d]
        pin_nonneg [OF assms(1), of f] by blast
    then show ?thesis using assms(1) by (simp add: files_ok_def)
  qed
qed

lemma held_cong: "PT s' = PT s \<Longrightarrow> held pins f s' = held pins f s"
  by (simp add: held_def refs_def)

text \<open>\<^verbatim>\<open>sys_Dup2\<close> once the old stream under \<open>newfd\<close> is gone: \<open>new\<close> is what \<open>newfd\<close> still names.\<close>

lemma dup_inv:
  assumes "files_inv {} (case new of None \<Rightarrow> pins | Some g \<Rightarrow> unpin g pins) s" "FIDT (PT s p) i = new"
    "p < MAX_PROC" "i < MAX_FILEID" "f < MAX_FILES" "new \<noteq> Some f" "held pins f s > 0" "held pins f s + 1 < 2 ^ 32"
  shows "files_inv {} pins (set_FIDT p i (Some f) (FCB_incref f s))"
proof -
  let ?q = "case new of None \<Rightarrow> pins | Some g \<Rightarrow> unpin g pins"
  have h: "held ?q f s = held pins f s" using assms(6) by (auto simp: held_def unpin_def split: option.splits)
  then have "f \<notin> set (FCB_freelist s)" using assms(1,5,7) by (auto simp: files_inv_def)
  then have "files_inv {} (?q(f := ?q f + 1)) (FCB_incref f s)"
    using files_inv_incref [OF assms(1,5)] h assms(8) by simp
  from files_inv_set_FIDT [OF this, of "Some f" p i] assms(2-5)
  have "files_inv {} (repin new (Some f) (?q(f := ?q f + 1))) (set_FIDT p i (Some f) (FCB_incref f s))" by simp
  moreover have "repin new (Some f) (?q(f := ?q f + 1)) = pins"
    using assms(6) by (auto simp: repin_def unpin_def fun_eq_iff split: option.splits)
  ultimately show ?thesis by simp
qed

lemma sys_Dup2_files:
  assumes "files_ok pins s" "sys_Dup2 c oldfd newfd s = Some (r, s')"
  shows "files_ok pins s'"
proof (cases "s' = s")
  case False
  with assms(2) obtain f new s1 p where e: "get_fcb c oldfd s = Some (Some f)" "get_fcb c newfd s = Some new" "new \<noteq> Some f"
    "(case new of None \<Rightarrow> Some s | Some g \<Rightarrow> map_option snd (FCB_decref c g s)) = Some s1" "CURPROC c s1 = Some p"
    "s' = set_FIDT p (nat newfd) (Some f) (FCB_incref f s1)" "0 \<le> newfd" "newfd < int MAX_FILEID"
    unfolding sys_Dup2_def by (auto split: if_splits option.splits)
  obtain p' where f: "FIDT (PT s p') (nat oldfd) = Some f" using get_fcb_SomeD [OF e(1)] by blast
  note hf = held_named [OF assms(1) f]
  have s1: "files_inv {} (case new of None \<Rightarrow> pins | Some g \<Rightarrow> unpin g pins) s1 \<and> PT s1 = PT s \<and> (\<forall>c. CURPROC c s1 = CURPROC c s)"
  proof (cases new)
    case (Some g)
    then obtain q where g: "FIDT (PT s q) (nat newfd) = Some g" using get_fcb_SomeD e(2) by blast
    from Some e(4) obtain rv where "FCB_decref c g s = Some (rv, s1)" by auto
    from FCB_decref_inv [OF _ held_named(1,4) [OF assms(1) g] this] assms(1) Some show ?thesis by (simp add: files_ok_def)
  qed (use e(4) assms(1) in \<open>simp add: files_ok_def\<close>)
  then have p: "CURPROC c s = Some p" using e(5) by simp
  then have "FIDT (PT s1 p) (nat newfd) = new" using e(2,7,8) s1 by (simp add: get_fcb_def)
  moreover have "p < MAX_PROC" using p assms(1) by (simp add: files_ok_def)
  ultimately have "files_inv {} pins s'"
    unfolding e(6) using s1 e(3,7,8) hf held_cong [of s1 s pins f] by (intro dup_inv [where new = new]) auto
  then show ?thesis using assms(1) s1 by (simp add: files_ok_def e(6))
qed (use assms in simp)

section \<open>Opening\<close>

lemma FCB_reserve_files:
  assumes "files_ok pins s" "FCB_reserve c num s = Some (r, s')"
  shows "files_ok pins s' \<and> (\<forall>fids fcbs. r = Some (fids, fcbs) \<longrightarrow>
    length fids = num \<and> length fcbs = num \<and> set fcbs \<inter> set (FCB_freelist s') = {} \<and>
    (\<exists>p. CURPROC c s = Some p \<and> distinct fids \<and> (\<forall>i \<in> set fids. FIDT (PT s p) i = None) \<and> s' = reserved p fids fcbs s))"
proof -
  from assms(2) obtain p where p: "CURPROC c s = Some p" by (auto simp: FCB_reserve_def)
  have inv: "files_inv {} pins s" "p < MAX_PROC" using assms(1) p by (auto simp: files_ok_def)
  show ?thesis
  proof (cases "num \<le> length (free_fids (FIDT (PT s p)) 0) \<and> num \<le> length (FCB_freelist s)")
    case True
    let ?fids = "take num (free_fids (FIDT (PT s p)) 0)" and ?fcbs = "take num (FCB_freelist s)"
    have e: "r = Some (?fids, ?fcbs)" "s' = reserved p ?fids ?fcbs s" "files_inv {} pins s'"
      using FCB_reserve_ok [OF inv(1) p inv(2)] True assms(2) by (auto simp: Let_def)
    have "set ?fcbs \<inter> set (drop num (FCB_freelist s)) = {}"
      using inv(1) by (simp add: files_inv_def set_take_disj_set_drop_if_distinct)
    moreover have "distinct ?fids" "\<forall>i \<in> set ?fids. FIDT (PT s p) i = None"
      by (auto simp: free_fids_def dest: in_set_takeD)
    ultimately show ?thesis using e p True assms(1) by (simp add: files_ok_def reserved_def)
  next
    case False
    then have "length (free_fids (FIDT (PT s p)) 0) < num \<or> length (FCB_freelist s) < num" by auto
    from FCB_reserve_fail [OF inv(1) p this] assms(2) obtain s1 where
      "r = None" "s' = s1" "s1 = s\<lparr>FT := FT s1, FCB_freelist := FCB_freelist s1\<rparr>" "files_inv {} pins s1" by auto
    moreover from this(3) have "CURPROC d s1 = CURPROC d s" for d by (metis CURPROC_fields(5,6))
    ultimately show ?thesis using assms(1) by (simp add: files_ok_def)
  qed
qed

lemma FCB_reserve_ok_files: "FCB_reserve c num s = Some (r, s') \<Longrightarrow> files_ok pins s \<Longrightarrow> files_ok pins s'"
  using FCB_reserve_files by blast

text \<open>Setting the stream of a block does not matter for the counts.\<close>

lemma files_ok_stream [simp]:
  "files_ok pins (upd_fcb f (\<lambda>x. x\<lparr>streamobj := a, streamfunc := b\<rparr>) s) = files_ok pins s"
proof -
  let ?s = "upd_fcb f (\<lambda>x. x\<lparr>streamobj := a, streamfunc := b\<rparr>) s"
  have "refcount (FT ?s g) = refcount (FT s g)" for g by (simp add: upd_fcb_def)
  moreover have "FCB_freelist ?s = FCB_freelist s" "CURPROC c ?s = CURPROC c s" for c by (simp_all add: upd_fcb_def)
  ultimately show ?thesis by (simp add: files_ok_def files_inv_def)
qed

lemma files_ok_fields [simp]:
  "files_ok pins (s\<lparr>next_addr := n\<rparr>) = files_ok pins s" "files_ok pins (s\<lparr>sockets := so\<rparr>) = files_ok pins s"
  "files_ok pins (s\<lparr>pipes := pi\<rparr>) = files_ok pins s" "files_ok pins (s\<lparr>picbs := pc\<rparr>) = files_ok pins s"
  "files_ok pins (s\<lparr>requests := rq\<rparr>) = files_ok pins s" "files_ok pins (cond_init cv s) = files_ok pins s"
  by (simp_all add: files_ok_def files_inv_def fidt_ok_def held_def refs_def cond_init_def)

lemma files_ok_same: "same_files s s' \<Longrightarrow> files_ok pins s \<Longrightarrow> files_ok pins s'"
  using same_files_inv [of s s'] by (simp add: files_ok_def same_files_def)

lemma sys_Socket_files: "files_ok pins s \<Longrightarrow> sys_Socket c port s = Some (r, s') \<Longrightarrow> files_ok pins s'"
  by (auto simp: sys_Socket_def xmalloc_def split: if_splits option.splits, (blast intro: FCB_reserve_ok_files)+)

lemma sys_OpenInfo_files: "files_ok pins s \<Longrightarrow> sys_OpenInfo c s = Some (r, s') \<Longrightarrow> files_ok pins s'"
  by (auto simp: sys_OpenInfo_def xmalloc_def split: if_splits option.splits, (blast intro: FCB_reserve_ok_files)+)

lemma sys_Pipe_files: "files_ok pins s \<Longrightarrow> sys_Pipe c s = Some (r, s') \<Longrightarrow> files_ok pins s'"
  by (auto simp: sys_Pipe_def acquire_PipeCB_def xmalloc_def upd_pipe_def Let_def split: if_splits option.splits, (blast intro: FCB_reserve_ok_files)+)

lemma open_stream_files:
  assumes "files_ok pins s" "open_stream c major minor s = Some (r, s')"
  shows "files_ok pins s'"
proof -
  from assms(2) obtain q s1 where q: "FCB_reserve c 1 s = Some (q, s1)" by (auto simp: open_stream_def)
  note res = FCB_reserve_files [OF assms(1) q]
  show ?thesis
  proof (cases q)
    case None
    then show ?thesis using assms(2) q res by (auto simp: open_stream_def)
  next
    case (Some ff)
    obtain fids fcbs where ff: "ff = (fids, fcbs)" by (cases ff)
    from res Some ff obtain p where p: "length fids = 1" "length fcbs = 1" "CURPROC c s = Some p" "distinct fids"
      "\<forall>i \<in> set fids. FIDT (PT s p) i = None" "s1 = reserved p fids fcbs s" by auto
    show ?thesis
    proof (cases "device_open major minor s1")
      case (Some dev)
      show ?thesis
      proof (cases dev)
        case None
        then obtain s2 where s2: "FCB_unreserve c fids fcbs s1 = Some s2" "s' = s2"
          using assms(2) q \<open>q = Some ff\<close> ff Some by (auto simp: open_stream_def)
        have inv: "files_inv {} pins s" "p < MAX_PROC" using assms(1) p(3) by (auto simp: files_ok_def)
        from FCB_unreserve_ok [OF inv(1) p(3) inv(2) q [unfolded \<open>q = Some ff\<close> ff]] s2
        have u: "files_inv {} pins s'" "s' = s\<lparr>FT := FT s', FCB_freelist := FCB_freelist s'\<rparr>" by auto
        then have "CURPROC d s' = CURPROC d s" for d by (metis CURPROC_fields(5,6))
        with u(1) assms(1) show ?thesis by (simp add: files_ok_def)
      next
        case (Some oo)
        then show ?thesis using assms(2) q \<open>q = Some ff\<close> ff res \<open>device_open major minor s1 = Some dev\<close>
          by (auto simp: open_stream_def split: prod.splits)
      qed
    qed (use assms(2) q Some ff in \<open>auto simp: open_stream_def\<close>)
  qed
qed

section \<open>A pipe through its file ids\<close>

lemma finish_other_refs:
  assumes "refcount (FT s1 f) \<noteq> 1"
  shows "finish c f (Done r, s1) = Some (Done r, upd_fcb f (\<lambda>x. x\<lparr>refcount := refcount x - 1\<rparr>) s1)"
  using assms by (simp add: finish_def FCB_decref_def upd_fcb_def)

text \<open>A call of a method that returns, on a stream that stays open.\<close>

lemma sys_Write_returns:
  assumes "CURPROC c s = Some p" "FIDT (PT s p) i = Some f" "i < MAX_FILEID" "streamfunc (FT s f) = Some ops"
    "fops_Write c ops (streamobj (FT s f)) wcs buf (FCB_incref f s) = Some (Done r, s1)" "refcount (FT s f) \<noteq> 0"
  shows "sys_Write c (int i) wcs buf s = Some (Done r, upd_fcb f (\<lambda>x. x\<lparr>refcount := refcount x - 1\<rparr>) s1) \<and>
    FT s1 = FT (FCB_incref f s) \<and> PT s1 = PT s"
proof -
  note k = fops_Write_method.keeps_fields [OF assms(5)]
  have "refcount (FT s1 f) = refcount (FT s f) + 1" using k by (simp add: FCB_incref_def upd_fcb_def)
  then have "refcount (FT s1 f) \<noteq> 1" using assms(6) by simp
  from finish_other_refs [OF this] assms(1-5) k show ?thesis by (simp add: sys_Write_def get_fcb_def)
qed

lemma sys_Read_returns:
  assumes "CURPROC c s = Some p" "FIDT (PT s p) i = Some f" "i < MAX_FILEID" "streamfunc (FT s f) = Some ops"
    "fops_Read c ops (streamobj (FT s f)) rcs n (FCB_incref f s) = Some (Done r, s1)" "refcount (FT s f) \<noteq> 0"
  shows "sys_Read c (int i) rcs n s = Some (Done r, upd_fcb f (\<lambda>x. x\<lparr>refcount := refcount x - 1\<rparr>) s1) \<and>
    FT s1 = FT (FCB_incref f s) \<and> PT s1 = PT s"
proof -
  note k = fops_Read_method.keeps_fields [OF assms(5)]
  have "refcount (FT s1 f) = refcount (FT s f) + 1" using k by (simp add: FCB_incref_def upd_fcb_def)
  then have "refcount (FT s1 f) \<noteq> 1" using assms(6) by simp
  from finish_other_refs [OF this] assms(1-5) k show ?thesis by (simp add: sys_Read_def get_fcb_def)
qed

lemma sys_Pipe_ok:
  assumes "files_ok pins s" "CURPROC c s = Some p" "quiet sw s"
    "take 2 (free_fids (FIDT (PT s p)) 0) = [fr, fw]" "take 2 (FCB_freelist s) = [f0, f1]"
  shows "\<exists>s1 q. sys_Pipe c s = Some ((0, Some (fr, fw)), s1) \<and> quiet sw s1 \<and> CURPROC c s1 = Some p \<and>
    fr < MAX_FILEID \<and> fw < MAX_FILEID \<and> fr \<noteq> fw \<and> f0 \<noteq> f1 \<and>
    FIDT (PT s1 p) fr = Some f0 \<and> FIDT (PT s1 p) fw = Some f1 \<and>
    FT s1 f0 = \<lparr>refcount = 1, streamobj = Some (Pipe_obj (next_addr s)), streamfunc = Some reader_file_ops\<rparr> \<and>
    FT s1 f1 = \<lparr>refcount = 1, streamobj = Some (Pipe_obj (next_addr s)), streamfunc = Some writer_file_ops\<rparr> \<and>
    pipes s1 (next_addr s) = Some q \<and> pipe_inv q \<and> pipe_contents q = [] \<and> reader q = Some f0 \<and> writer q = Some f1"
proof -
  let ?a = "next_addr s" and ?s1 = "reserved p [fr, fw] [f0, f1] s"
  have inv: "files_inv {} pins s" "p < MAX_PROC" using assms(1,2) by (auto simp: files_ok_def)
  have l: "2 \<le> length (free_fids (FIDT (PT s p)) 0)" "2 \<le> length (FCB_freelist s)"
    using arg_cong [OF assms(4), of length] arg_cong [OF assms(5), of length] by simp_all
  have r: "FCB_reserve c 2 s = Some (Some ([fr, fw], [f0, f1]), ?s1)"
    using FCB_reserve_ok [OF inv(1) assms(2) inv(2) l] assms(4,5) by (simp add: Let_def)
  have "distinct (take 2 (free_fids (FIDT (PT s p)) 0))" "distinct (take 2 (FCB_freelist s))"
    using inv(1) by (auto simp: free_fids_def files_inv_def)
  then have d: "fr \<noteq> fw" "f0 \<noteq> f1" unfolding assms(4,5) by auto
  have "set (take 2 (free_fids (FIDT (PT s p)) 0)) \<subseteq> {..<MAX_FILEID}" by (auto simp: free_fids_def dest: in_set_takeD)
  then have b: "fr < MAX_FILEID" "fw < MAX_FILEID" unfolding assms(4) by auto
  let ?q = "\<lparr>reader = Some f0, writer = Some f1, w_position = 0, r_position = 0, BUFFER = (\<lambda>_. 0), used_space = 0\<rparr> :: Pipe_CB"
  let ?s2 = "cond_init (has_space ?a) (cond_init (has_data ?a) (?s1\<lparr>next_addr := ?a + 1\<rparr>))"
  let ?s3 = "?s2\<lparr>pipes := (pipes s)(?a \<mapsto> ?q)\<rparr>"
  let ?s5 = "upd_fcb f1 (\<lambda>f. f\<lparr>streamobj := Some (Pipe_obj ?a), streamfunc := Some writer_file_ops\<rparr>)
     (upd_fcb f0 (\<lambda>f. f\<lparr>streamobj := Some (Pipe_obj ?a), streamfunc := Some reader_file_ops\<rparr>) ?s3)"
  have run: "sys_Pipe c s = Some ((0, Some (fr, fw)), ?s5)"
    using r by (simp add: sys_Pipe_def acquire_PipeCB_def xmalloc_def upd_pipe_def reserved_def Let_def cond_init_def)
  have "quiet sw (?s1\<lparr>next_addr := ?a + 1\<rparr>)" using assms(3) by (simp add: reserved_def)
  then have "quiet sw ?s5" by (simp add: upd_fcb_def quiet_cond_init)
  moreover have "CURPROC c ?s5 = Some p" using assms(2) by (simp add: upd_fcb_def reserved_def cond_init_def)
  moreover have "FIDT (PT ?s5 p) fr = Some f0" "FIDT (PT ?s5 p) fw = Some f1"
    using d by (simp_all add: upd_fcb_def reserved_def cond_init_def)
  moreover have "FT ?s5 f0 = \<lparr>refcount = 1, streamobj = Some (Pipe_obj ?a), streamfunc = Some reader_file_ops\<rparr>"
    "FT ?s5 f1 = \<lparr>refcount = 1, streamobj = Some (Pipe_obj ?a), streamfunc = Some writer_file_ops\<rparr>"
    using d by (simp_all add: upd_fcb_def reserved_def cond_init_def)
  moreover have "pipes ?s5 ?a = Some ?q" by (simp add: upd_fcb_def)
  moreover have "pipe_inv ?q" "pipe_contents ?q = []" using fresh_pipe_inv [of ?q] by simp_all
  ultimately show ?thesis using run d b by (intro exI [of _ ?s5] exI [of _ ?q]) simp
qed

lemma pipe_transfer_fids:
  assumes "CURPROC c s = Some p" "quiet sw s" "fr < MAX_FILEID" "fw < MAX_FILEID" "fr \<noteq> fw" "f0 \<noteq> f1"
    "FIDT (PT s p) fr = Some f0" "FIDT (PT s p) fw = Some f1"
    "FT s f0 = \<lparr>refcount = 1, streamobj = Some (Pipe_obj a), streamfunc = Some reader_file_ops\<rparr>"
    "FT s f1 = \<lparr>refcount = 1, streamobj = Some (Pipe_obj a), streamfunc = Some writer_file_ops\<rparr>"
    "pipes s a = Some q" "pipe_inv q" "pipe_contents q = []" "reader q = Some f0" "writer q = Some f1"
    "buf \<noteq> []" "length buf \<le> PIPE_BUFFER_SIZE"
  shows "\<exists>s1 s2. sys_Write c (int fw) wcs buf s = Some (Done (int (length buf)), s1) \<and>
    sys_Read c (int fr) rcs n s1 = Some (Done (int (min n (length buf)), take n buf), s2)"
proof -
  let ?dec = "\<lambda>f. upd_fcb f (\<lambda>x. x\<lparr>refcount := refcount x - 1\<rparr>)"
  let ?i = "FCB_incref f1 s"
  have qi: "quiet sw ?i" "pipes ?i a = Some q" using assms(2,11) by (simp_all add: FCB_incref_def upd_fcb_def)
  have u: "used_space q = 0" "used_space q < PIPE_BUFFER_SIZE" using assms(13) by (simp_all add: PIPE_BUFFER_SIZE_def)
  obtain q1 t1 where t1: "pipe_write_loop c a buf ?i = Some (Done (int (length buf)), t1)" "pipe_inv q1"
    "pipe_contents q1 = buf" "reader q1 = Some f0" "writer q1 = Some f1" "pipe_only a q1 ?i t1" "quiet sw t1"
    using pipe_write_copies [OF qi assms(12) _ u(2), of c buf] assms(13-15,17) u by auto
  have w: "fops_Write c writer_file_ops (streamobj (FT s f1)) wcs buf ?i = Some (Done (int (length buf)), t1)"
    using t1(1) assms(10,11,14,15) qi(2) by (simp add: fops_Write_def pipe_ptr_def pipe_write_def)
  have W: "sys_Write c (int fw) wcs buf s = Some (Done (int (length buf)), ?dec f1 t1)"
    "FT t1 = FT ?i" "PT t1 = PT s"
    using sys_Write_returns [OF assms(1,8,4) _ w] assms(10) by simp_all
  let ?s1 = "?dec f1 t1"
  have s1: "CURPROC c ?s1 = Some p" "FIDT (PT ?s1 p) fr = Some f0" "FT ?s1 f0 = FT s f0"
    using fops_Write_method.keeps_fields [OF w] assms(1,6,7) by (auto simp: upd_fcb_def FCB_incref_def)
  let ?j = "FCB_incref f0 ?s1"
  have qj: "quiet sw ?j" "pipes ?j a = Some q1"
    using t1(7) pipe_only_pipes [OF t1(6)] by (simp_all add: FCB_incref_def upd_fcb_def)
  have u1: "used_space q1 = length buf" using t1(3) by (metis length_pipe_contents)
  with assms(16) have "used_space q1 > 0 \<or> writer q1 = None" by simp
  from pipe_read_copies [OF qj t1(2) this, of c n] u1 t1(3) obtain t2 where
    t2: "pipe_read_loop c a n ?j = Some (Done (int (min n (length buf)), take n buf), t2)" by auto
  have r: "fops_Read c reader_file_ops (streamobj (FT ?s1 f0)) rcs n ?j = Some (Done (int (min n (length buf)), take n buf), t2)"
    using t2 assms(9) t1(4) qj(2) unfolding s1(3) by (simp add: fops_Read_def pipe_ptr_def pipe_read_def)
  have R: "sys_Read c (int fr) rcs n ?s1 = Some (Done (int (min n (length buf)), take n buf), ?dec f0 t2)"
    using sys_Read_returns [OF s1(1,2) assms(3) _ r] assms(9) by (simp add: s1(3))
  with W(1) show ?thesis by blast
qed

section \<open>Properties\<close>

lemma take2_list: "2 \<le> length xs \<Longrightarrow> \<exists>a b. take 2 xs = [a, b]"
  by (cases xs; cases "tl xs") (auto simp: numeral_2_eq_2)

lemma kernel4_files_ok: "files_ok (\<lambda>_. 0) kernel4"
  using kernel4_inv
  by (auto simp: files_ok_def kernel4_def kernel_files_def initialize_files_eq kernel_waiting_sel MAX_PROC_def split: if_splits)

text \<open>
  C28. A pipe through its file ids.  When two file ids and two file control blocks are free,
  \<^verbatim>\<open>Pipe\<close> succeeds, and what the process then writes to the write end (up to the capacity of
  the buffer) is what it reads at the read end, in order and without waiting.
\<close>

theorem pipe_write_read:
  assumes "files_ok pins s" "CURPROC c s = Some p" "quiet sw s" "2 \<le> length (free_fids (FIDT (PT s p)) 0)"
    "2 \<le> length (FCB_freelist s)" "buf \<noteq> []" "length buf \<le> PIPE_BUFFER_SIZE"
  shows "\<exists>fr fw s1 s2 s3. sys_Pipe c s = Some ((0, Some (fr, fw)), s1) \<and>
    sys_Write c (int fw) wcs buf s1 = Some (Done (int (length buf)), s2) \<and>
    sys_Read c (int fr) rcs n s2 = Some (Done (int (min n (length buf)), take n buf), s3)"
proof -
  obtain fr fw f0 f1 where t: "take 2 (free_fids (FIDT (PT s p)) 0) = [fr, fw]" "take 2 (FCB_freelist s) = [f0, f1]"
    using take2_list [OF assms(4)] take2_list [OF assms(5)] by blast
  obtain s1 q where s1: "sys_Pipe c s = Some ((0, Some (fr, fw)), s1)" "quiet sw s1" "CURPROC c s1 = Some p"
    "fr < MAX_FILEID" "fw < MAX_FILEID" "fr \<noteq> fw" "f0 \<noteq> f1"
    "FIDT (PT s1 p) fr = Some f0" "FIDT (PT s1 p) fw = Some f1"
    "FT s1 f0 = \<lparr>refcount = 1, streamobj = Some (Pipe_obj (next_addr s)), streamfunc = Some reader_file_ops\<rparr>"
    "FT s1 f1 = \<lparr>refcount = 1, streamobj = Some (Pipe_obj (next_addr s)), streamfunc = Some writer_file_ops\<rparr>"
    "pipes s1 (next_addr s) = Some q" "pipe_inv q" "pipe_contents q = []" "reader q = Some f0" "writer q = Some f1"
    using sys_Pipe_ok [OF assms(1-3) t] by blast
  from pipe_transfer_fids [OF s1(3,2,4-16) assms(6,7)] s1(1) show ?thesis by blast
qed

theorem pipe_write_read_witness:
  "\<exists>fr fw s1 s2 s3. sys_Pipe 0 kernel4 = Some ((0, Some (fr, fw)), s1) \<and>
    sys_Write 0 (int fw) (\<lambda>_. WOk) [1, 2, 3] s1 = Some (Done 3, s2) \<and>
    sys_Read 0 (int fr) (\<lambda>_. RAgain) 2 s2 = Some (Done (2, [1, 2]), s3)"
  using pipe_write_read [OF kernel4_files_ok kernel4_sel(1) kernel_files_quiet [of "has_data 0", folded kernel4_def]
    kernel4_free(3,4), of "[1, 2, 3]" "\<lambda>_. WOk" "\<lambda>_. RAgain" 2]
  by (simp add: PIPE_BUFFER_SIZE_def)

text \<open>
  C29. Closing a file id closes the stream exactly when it was the last reference: no other file
  id of any process names the block and no call in progress uses it.  Otherwise the call gives
  up the file id, drops the reference and returns 0, without a call of the driver.
\<close>

theorem sys_Close_last:
  assumes "files_ok pins s" "CURPROC c s = Some p" "FIDT (PT s p) i = Some f" "streamfunc (FT s f) = Some ops"
  shows "let s1 = upd_fcb f (\<lambda>x. x\<lparr>refcount := refcount x - 1\<rparr>) (set_FIDT p i None s) in
    sys_Close c (int i) s =
      (if pins f = 0 \<and> refs f s = {(p, i)}
       then do { (retval, s2) \<leftarrow> fops_Close c ops (streamobj (FT s f)) s1; Some (retval, release_FCB f s2) }
       else Some (0, s1))"
proof -
  let ?s0 = "set_FIDT p i None s"
  let ?s1 = "upd_fcb f (\<lambda>x. x\<lparr>refcount := refcount x - 1\<rparr>) ?s0"
  note h = held_named [OF assms(1,3)]
  note inv0 = cleared_inv [OF assms(1,3)]
  have ok: "fidt_ok s" "0 \<le> pins f" using assms(1) by (simp_all add: files_ok_def files_inv_def)
  have r: "refs f ?s0 = refs f s - {(p, i)}" "(p, i) \<in> refs f s"
    using assms(3) by (auto simp: refs_def set_FIDT_def upd_pcb_def split: if_splits)
  have fin: "finite (refs f ?s0)" using finite_refs(1) [OF ok(1)] r(1) by simp
  have held0: "held (pin f pins) f ?s0 = int (card (refs f ?s0)) + pins f + 1" by (simp add: held_def pin_def)
  have eq: "held (pin f pins) f ?s0 = 1 \<longleftrightarrow> pins f = 0 \<and> refs f s = {(p, i)}"
  proof -
    have "held (pin f pins) f ?s0 = 1 \<longleftrightarrow> card (refs f ?s0) = 0 \<and> pins f = 0" unfolding held0 using ok(2) by linarith
    also have "card (refs f ?s0) = 0 \<longleftrightarrow> refs f s = {(p, i)}" using fin r(2) unfolding r(1) card_eq_0_iff by blast
    finally show ?thesis by blast
  qed
  have "held (pin f pins) f ?s0 > 0" using held0 ok(2) by simp
  from FCB_decref_last [OF inv0 h(1) this] eq
  have last: "refcount (FT ?s1 f) = 0 \<longleftrightarrow> pins f = 0 \<and> refs f s = {(p, i)}" by simp
  have get: "get_fcb c (int i) s = Some (Some f)" using assms(2,3) h(3) by (simp add: get_fcb_def)
  have ft: "streamfunc (FT ?s1 f) = Some ops" "streamobj (FT ?s1 f) = streamobj (FT s f)"
    using assms(4) by (simp_all add: upd_fcb_def)
  have "sys_Close c (int i) s = FCB_decref c f ?s0" using get assms(2) by (simp add: sys_Close_def)
  also have "\<dots> = (if refcount (FT ?s1 f) = 0
       then do { (retval, s2) \<leftarrow> fops_Close c ops (streamobj (FT s f)) ?s1; Some (retval, release_FCB f s2) }
       else Some (0, ?s1))"
    by (simp add: FCB_decref_def Let_def ft)
  finally show ?thesis unfolding last by (simp add: Let_def)
qed

text \<open>The state after the null device is opened in \<open>kernel4\<close>.\<close>

definition kernel9 :: kernel where
  "kernel9 = upd_fcb 0 (\<lambda>f. f\<lparr>streamobj := None, streamfunc := Some nulldev_fops\<rparr>) (reserved 2 [0] [0] kernel4)"

lemma kernel9_files:
  "files_ok (\<lambda>_. 0) kernel9" "CURPROC 0 kernel9 = Some 2" "FIDT (PT kernel9 2) 0 = Some 0"
  "streamfunc (FT kernel9 0) = Some nulldev_fops" "refs 0 kernel9 = {(2, 0)}"
proof -
  have l: "1 \<le> length (free_fids (FIDT (PT kernel4 2)) 0)" "1 \<le> length (FCB_freelist kernel4)"
    using kernel4_free(3,4) by simp_all
  have "take 1 (take 2 xs) = take 1 xs" for xs :: "nat list" by simp
  then have t: "take 1 (free_fids (FIDT (PT kernel4 2)) 0) = [0]" "take 1 (FCB_freelist kernel4) = [0]"
    using kernel4_free(1,2) by (metis take_Suc_Cons take0 One_nat_def)+
  have "FCB_reserve 0 1 kernel4 = Some (Some ([0], [0]), reserved 2 [0] [0] kernel4)"
    using FCB_reserve_ok [OF kernel4_inv kernel4_sel(1) kernel4_free(5) l] t by (simp add: Let_def del: One_nat_def)
  from FCB_reserve_ok_files [OF this kernel4_files_ok]
  show "files_ok (\<lambda>_. 0) kernel9" by (simp add: kernel9_def)
  show "CURPROC 0 kernel9 = Some 2" "FIDT (PT kernel9 2) 0 = Some 0"
    "streamfunc (FT kernel9 0) = Some nulldev_fops" "refs 0 kernel9 = {(2, 0)}"
    by (auto simp: kernel9_def reserved_def upd_fcb_def kernel4_sel refs_def zero_PCB_def split: if_splits)
qed

theorem sys_Close_last_witness:
  "sys_Close 0 0 kernel9 =
     Some (0, release_FCB 0 (upd_fcb 0 (\<lambda>x. x\<lparr>refcount := refcount x - 1\<rparr>) (set_FIDT 2 0 None kernel9)))"
  using sys_Close_last [OF kernel9_files(1-4)] kernel9_files(5)
  by (simp add: fops_Close_def nulldev_close_def Let_def)

end
