(* ===== verification/Proc.thy ===== *)
theory Proc
  imports Streams
begin

text \<open>
  Processes, the first half of \<^verbatim>\<open>kernel_proc.c\<close>: the process table and its free list, \<^verbatim>\<open>Exec\<close>, and
  waiting for children.

  The intrusive nodes of a PCB lie on at most one ring each.  The rings are lists of pids, and
  \<^verbatim>\<open>rlist_remove\<close> of a node takes the pid out of whichever list it is in.  \<^verbatim>\<open>PTCB.exitval\<close> is not
  initialised by the code; it is 0 in the model.
\<close>

section \<open>Entering and leaving the kernel\<close>

text \<open>
  The wrapper that \<^verbatim>\<open>kernel_sys.c\<close> puts around every system call.  The result is \<open>None\<close> when the
  thread has to wait for the kernel lock.
\<close>

definition SYSCALL :: "nat \<Rightarrow> ('a kernel_scheme \<Rightarrow> ('r \<times> 'a kernel_scheme) option) \<Rightarrow> 'a kernel_scheme \<Rightarrow>
  ('r option \<times> 'a kernel_scheme) option" where
  "SYSCALL c call s =
     do { (entered, s1) \<leftarrow> kernel_lock c s;
          if entered
          then do { (ret, s2) \<leftarrow> call s1; s3 \<leftarrow> kernel_unlock c s2; Some (Some ret, s3) }
          else Some (None, s1) }"

section \<open>The process table\<close>

definition initialize_PCB :: "pid \<Rightarrow> 'a kernel_scheme \<Rightarrow> 'a kernel_scheme" where
  "initialize_PCB p s =
     cond_init (child_exit p)
       (upd_pcb p (\<lambda>pcb. pcb\<lparr>pstate := FREE, argl := 0, args := None,
          FIDT := (\<lambda>i. if i < MAX_FILEID then None else FIDT pcb i),
          children_list := [], exited_list := [], ptcb_list := [], thread_count := 0\<rparr>) s)"

definition acquire_PCB :: "'a kernel_scheme \<Rightarrow> pid option \<times> 'a kernel_scheme" where
  "acquire_PCB s =
     (case pcb_freelist s of
        None \<Rightarrow> (None, s)
      | Some p \<Rightarrow> (Some p, (upd_pcb p (\<lambda>pcb. pcb\<lparr>pstate := ALIVE\<rparr>) s)
                   \<lparr>pcb_freelist := parent (PT s p), process_count := process_count s + 1\<rparr>))"

definition acquire_PTCB :: "tcb_ref \<Rightarrow> Task option \<Rightarrow> int \<Rightarrow> byte list option \<Rightarrow> 'a kernel_scheme \<Rightarrow>
  (nat \<times> 'a kernel_scheme) option" where
  "acquire_PTCB t task al a s =
     do { let (ptcb, s1) = xmalloc s;
          let s2 = cond_init (exit_cv ptcb) s1;
          let s3 = s2\<lparr>ptcbs := (ptcbs s2)(ptcb \<mapsto> \<lparr>ptcb_tcb = t, ptcb_task = task, ptcb_argl = al, ptcb_args = a,
                     ptcb_exitval = 0, exited = False, detached = False, ptcb_refcount = 0\<rparr>)\<rparr>;
          s4 \<leftarrow> upd_tcb t (\<lambda>tc. tc\<lparr>owner_ptcb := Some ptcb\<rparr>) s3;
          s5 \<leftarrow> upd_ptcb ptcb (\<lambda>x. x\<lparr>ptcb_refcount := ptcb_refcount x + 1\<rparr>) s4;
          Some (ptcb, s5) }"

definition release_PCB :: "pid \<Rightarrow> 'a kernel_scheme \<Rightarrow> 'a kernel_scheme" where
  "release_PCB p s =
     (upd_pcb p (\<lambda>pcb. pcb\<lparr>pstate := FREE, parent := pcb_freelist s\<rparr>) s)
       \<lparr>pcb_freelist := Some p, process_count := process_count s - 1\<rparr>"

section \<open>Creating a process\<close>

text \<open>One turn of the loop that inherits file streams.\<close>

definition inherit_fid :: "pid \<Rightarrow> pid \<Rightarrow> nat \<Rightarrow> 'a kernel_scheme \<Rightarrow> 'a kernel_scheme" where
  "inherit_fid newproc curproc i s =
     (let f = FIDT (PT s curproc) i; s1 = set_FIDT newproc i f s in
      case f of None \<Rightarrow> s1 | Some x \<Rightarrow> FCB_incref x s1)"

text \<open>
  The copy of the arguments: \<open>a\<close> is the memory from the pointer on, or \<^verbatim>\<open>NULL\<close>.  Reading past the
  end of the caller's memory is a fault, and so is a negative length.
\<close>

definition copy_exec_args :: "int \<Rightarrow> byte list option \<Rightarrow> byte list option option" where
  "copy_exec_args al a =
     (case a of
        None \<Rightarrow> Some None
      | Some bs \<Rightarrow> if 0 \<le> al \<and> nat al \<le> length bs then Some (Some (take (nat al) bs)) else None)"

definition start_process :: "nat \<Rightarrow> pid \<Rightarrow> 'a kernel_scheme \<Rightarrow> 'a kernel_scheme option" where
  "start_process c newproc s =
     do { let (t, s1) = spawn_thread (Some newproc) start_main_thread s;
          let s2 = upd_pcb newproc (\<lambda>pcb. pcb\<lparr>main_thread := Some t\<rparr>) s1;
          let np = PT s2 newproc;
          (main_PTCB, s3) \<leftarrow> acquire_PTCB t (main_task np) (argl np) (args np) s2;
          s4 \<leftarrow> upd_tcb t (\<lambda>tc. tc\<lparr>owner_ptcb := Some main_PTCB\<rparr>) s3;
          s5 \<leftarrow> upd_ptcb main_PTCB (\<lambda>x. x\<lparr>ptcb_refcount := ptcb_refcount x + 1\<rparr>) s4;
          let s6 = upd_pcb newproc (\<lambda>pcb. pcb\<lparr>ptcb_list := ptcb_list pcb @ [main_PTCB],
                     thread_count := thread_count pcb + 1\<rparr>) s5;
          (_, s7) \<leftarrow> wakeup c t s6;
          Some s7 }"

definition sys_Exec :: "nat \<Rightarrow> Task option \<Rightarrow> int \<Rightarrow> byte list option \<Rightarrow> 'a kernel_scheme \<Rightarrow>
  (int \<times> 'a kernel_scheme) option" where
  "sys_Exec c call al a s =
     (case acquire_PCB s of
        (None, s1) \<Rightarrow> Some (get_pid None, s1)
      | (Some newproc, s1) \<Rightarrow>
          do { s2 \<leftarrow> (if get_pid (Some newproc) \<le> 1
                      then Some (upd_pcb newproc (\<lambda>pcb. pcb\<lparr>parent := None\<rparr>) s1)
                      else do { curproc \<leftarrow> CURPROC c s1;
                                let s2 = upd_pcb newproc (\<lambda>pcb. pcb\<lparr>parent := Some curproc\<rparr>) s1;
                                let s3 = upd_pcb curproc (\<lambda>pcb. pcb\<lparr>children_list := newproc # children_list pcb\<rparr>) s2;
                                Some (fold (inherit_fid newproc curproc) [0..<MAX_FILEID] s3) });
               newargs \<leftarrow> copy_exec_args al a;
               let s3 = upd_pcb newproc (\<lambda>pcb. pcb\<lparr>main_task := call, argl := al, args := newargs\<rparr>) s2;
               s4 \<leftarrow> (if call = None then Some s3 else start_process c newproc s3);
               Some (get_pid (Some newproc), s4) })"

definition initialize_processes :: "nat \<Rightarrow> 'a kernel_scheme \<Rightarrow> 'a kernel_scheme option" where
  "initialize_processes c s =
     do { let s1 = fold initialize_PCB [0..<MAX_PROC] s;
          let s2 = fold (\<lambda>p s. (upd_pcb p (\<lambda>pcb. pcb\<lparr>parent := pcb_freelist s\<rparr>) s)\<lparr>pcb_freelist := Some p\<rparr>)
                     (rev [0..<MAX_PROC]) (s1\<lparr>pcb_freelist := None\<rparr>);
          (r, s3) \<leftarrow> SYSCALL c (sys_Exec c None 0 None) (s2\<lparr>process_count := 0\<rparr>);
          c_assert (r = Some 0);
          Some s3 }"

section \<open>Identifiers\<close>

definition sys_GetPid :: "nat \<Rightarrow> 'a kernel_scheme \<Rightarrow> int option" where
  "sys_GetPid c s = do { p \<leftarrow> CURPROC c s; Some (get_pid (Some p)) }"

definition sys_GetPPid :: "nat \<Rightarrow> 'a kernel_scheme \<Rightarrow> int option" where
  "sys_GetPPid c s = do { p \<leftarrow> CURPROC c s; Some (get_pid (parent (PT s p))) }"

section \<open>Waiting for children\<close>

definition remove_children_node :: "pid \<Rightarrow> 'a kernel_scheme \<Rightarrow> 'a kernel_scheme" where
  "remove_children_node p s =
     s\<lparr>PT := (\<lambda>q. (PT s q)\<lparr>children_list := remove1 p (children_list (PT s q))\<rparr>)\<rparr>"

definition remove_exited_node :: "pid \<Rightarrow> 'a kernel_scheme \<Rightarrow> 'a kernel_scheme" where
  "remove_exited_node p s =
     s\<lparr>PT := (\<lambda>q. (PT s q)\<lparr>exited_list := remove1 p (exited_list (PT s q))\<rparr>)\<rparr>"

text \<open>The result is the value stored through \<^verbatim>\<open>status\<close>.\<close>

definition cleanup_zombie :: "pid \<Rightarrow> 'a kernel_scheme \<Rightarrow> int \<times> 'a kernel_scheme" where
  "cleanup_zombie p s =
     (exitval (PT s p), release_PCB p (remove_exited_node p (remove_children_node p s)))"

text \<open>The loop and the end of \<^verbatim>\<open>wait_for_specific_child\<close>; it is entered again after a wait.\<close>

definition wait_specific_loop :: "pid \<Rightarrow> pid \<Rightarrow> 'a kernel_scheme \<Rightarrow> (int \<times> int option) outcome \<times> 'a kernel_scheme" where
  "wait_specific_loop par child s =
     (if pstate (PT s child) = ALIVE then (Block (child_exit par) SCHED_USER NO_TIMEOUT, s)
      else let (status, s1) = cleanup_zombie child s in (Done (int child, Some status), s1))"

definition wait_for_specific_child :: "nat \<Rightarrow> int \<Rightarrow> 'a kernel_scheme \<Rightarrow>
  ((int \<times> int option) outcome \<times> 'a kernel_scheme) option" where
  "wait_for_specific_child c cpid s =
     (if cpid < 0 \<or> cpid \<ge> int MAX_PROC then Some (Done (NOPROC, None), s)
      else do { par \<leftarrow> CURPROC c s;
                case get_pcb (nat cpid) s of
                  None \<Rightarrow> Some (Done (NOPROC, None), s)
                | Some child \<Rightarrow>
                    if parent (PT s child) \<noteq> Some par then Some (Done (NOPROC, None), s)
                    else Some (wait_specific_loop par child s) })"

definition wait_any_loop :: "pid \<Rightarrow> 'a kernel_scheme \<Rightarrow> ((int \<times> int option) outcome \<times> 'a kernel_scheme) option" where
  "wait_any_loop par s =
     (if children_list (PT s par) = [] then Some (Done (NOPROC, None), s)
      else case exited_list (PT s par) of
             [] \<Rightarrow> Some (Block (child_exit par) SCHED_USER NO_TIMEOUT, s)
           | child # _ \<Rightarrow>
               if pstate (PT s child) = ZOMBIE
               then let (status, s1) = cleanup_zombie child s in Some (Done (get_pid (Some child), Some status), s1)
               else None)"

definition wait_for_any_child :: "nat \<Rightarrow> 'a kernel_scheme \<Rightarrow> ((int \<times> int option) outcome \<times> 'a kernel_scheme) option" where
  "wait_for_any_child c s = do { par \<leftarrow> CURPROC c s; wait_any_loop par s }"

definition sys_WaitChild :: "nat \<Rightarrow> int \<Rightarrow> 'a kernel_scheme \<Rightarrow>
  ((int \<times> int option) outcome \<times> 'a kernel_scheme) option" where
  "sys_WaitChild c cpid s =
     (if cpid \<noteq> NOPROC then wait_for_specific_child c cpid s else wait_for_any_child c s)"

end
