(* ===== verification/Threads.thy ===== *)
theory Threads
  imports Proc
begin

text \<open>
  Threads of processes, \<^verbatim>\<open>kernel_threads.c\<close>, and \<^verbatim>\<open>sys_Exit\<close> of \<^verbatim>\<open>kernel_proc.c\<close>, which ends in
  \<^verbatim>\<open>sys_ThreadExit\<close>.  A thread id is the address of a PTCB, or \<^verbatim>\<open>NULL\<close>.
\<close>

section \<open>The functions that threads start with\<close>

text \<open>
  The task that \<^verbatim>\<open>start_main_thread\<close> and \<^verbatim>\<open>thread_Exe\<close> call with its arguments.  Its result is then
  passed to \<^verbatim>\<open>Exit\<close> and \<^verbatim>\<open>ThreadExit\<close>.
\<close>

definition thread_call :: "nat \<Rightarrow> thread_fun \<Rightarrow> 'a kernel_scheme \<Rightarrow> (Task option \<times> int \<times> byte list option) option" where
  "thread_call c f s =
     (case f of
        start_main_thread \<Rightarrow>
          do { p \<leftarrow> CURPROC c s; Some (main_task (PT s p), argl (PT s p), args (PT s p)) }
      | thread_Exe \<Rightarrow>
          do { t \<leftarrow> cur_thread c s; tc \<leftarrow> tcbs s t; a \<leftarrow> owner_ptcb tc; x \<leftarrow> ptcbs s a;
               Some (ptcb_task x, ptcb_argl x, ptcb_args x) })"

section \<open>Operations\<close>

definition sys_CreateThread :: "nat \<Rightarrow> Task option \<Rightarrow> int \<Rightarrow> byte list option \<Rightarrow> 'a kernel_scheme \<Rightarrow>
  (nat \<times> 'a kernel_scheme) option" where
  "sys_CreateThread c task al a s =
     do { curPCB \<leftarrow> CURPROC c s;
          let (newTCB, s1) = spawn_thread (Some curPCB) thread_Exe s;
          s2 \<leftarrow> upd_tcb newTCB (\<lambda>tc. tc\<lparr>owner_pcb := Some curPCB\<rparr>) s1;
          (newPTCB, s3) \<leftarrow> acquire_PTCB newTCB task al a s2;
          let s4 = upd_pcb curPCB (\<lambda>pcb. pcb\<lparr>ptcb_list := ptcb_list pcb @ [newPTCB],
                     thread_count := thread_count pcb + 1\<rparr>) s3;
          (_, s5) \<leftarrow> wakeup c newTCB s4;
          Some (newPTCB, s5) }"

definition sys_ThreadSelf :: "nat \<Rightarrow> 'a kernel_scheme \<Rightarrow> nat option option" where
  "sys_ThreadSelf c s = do { t \<leftarrow> cur_thread c s; tc \<leftarrow> tcbs s t; Some (owner_ptcb tc) }"

definition remove_ptcb_node :: "nat \<Rightarrow> 'a kernel_scheme \<Rightarrow> 'a kernel_scheme" where
  "remove_ptcb_node a s = s\<lparr>PT := (\<lambda>p. (PT s p)\<lparr>ptcb_list := remove1 a (ptcb_list (PT s p))\<rparr>)\<rparr>"

definition free_ptcb :: "nat \<Rightarrow> 'a kernel_scheme \<Rightarrow> 'a kernel_scheme option" where
  "free_ptcb a s = do { _ \<leftarrow> ptcbs s a; Some (s\<lparr>ptcbs := (ptcbs s)(a := None)\<rparr>) }"

text \<open>
  The loop and the end of \<^verbatim>\<open>sys_ThreadJoin\<close>; it is entered again after a wait.  The result is the
  return value and what is stored through \<^verbatim>\<open>exitval\<close>.
\<close>

definition join_loop :: "nat \<Rightarrow> 'a kernel_scheme \<Rightarrow> ((int \<times> int option) outcome \<times> 'a kernel_scheme) option" where
  "join_loop a s =
     do { x \<leftarrow> ptcbs s a;
          if \<not> exited x \<and> \<not> detached x then Some (Block (exit_cv a) SCHED_USER NO_TIMEOUT, s)
          else do { s1 \<leftarrow> upd_ptcb a (\<lambda>x. x\<lparr>ptcb_refcount := ptcb_refcount x - 1\<rparr>) s;
                    x1 \<leftarrow> ptcbs s1 a;
                    if detached x1 then Some (Done (-1, None), s1)
                    else if ptcb_refcount x1 = 0
                    then do { s2 \<leftarrow> free_ptcb a (remove_ptcb_node a s1);
                              Some (Done (0, Some (ptcb_exitval x1)), s2) }
                    else Some (Done (0, Some (ptcb_exitval x1)), s1) } }"

definition sys_ThreadJoin :: "nat \<Rightarrow> nat option \<Rightarrow> 'a kernel_scheme \<Rightarrow>
  ((int \<times> int option) outcome \<times> 'a kernel_scheme) option" where
  "sys_ThreadJoin c tid s =
     do { p \<leftarrow> CURPROC c s;
          case tid of
            None \<Rightarrow> Some (Done (-1, None), s)
          | Some a \<Rightarrow>
              if a \<notin> set (ptcb_list (PT s p)) then Some (Done (-1, None), s)
              else do { self \<leftarrow> sys_ThreadSelf c s;
                        if tid = self then Some (Done (-1, None), s)
                        else do { x \<leftarrow> ptcbs s a;
                                  if detached x then Some (Done (-1, None), s)
                                  else do { s1 \<leftarrow> upd_ptcb a (\<lambda>x. x\<lparr>ptcb_refcount := ptcb_refcount x + 1\<rparr>) s;
                                            join_loop a s1 } } } }"

definition sys_ThreadDetach :: "nat \<Rightarrow> nat option \<Rightarrow> 'a kernel_scheme \<Rightarrow> (int \<times> 'a kernel_scheme) option" where
  "sys_ThreadDetach c tid s =
     do { p \<leftarrow> CURPROC c s;
          case tid of
            None \<Rightarrow> Some (-1, s)
          | Some a \<Rightarrow>
              if a \<notin> set (ptcb_list (PT s p)) then Some (-1, s)
              else do { x \<leftarrow> ptcbs s a;
                        if exited x then Some (-1, s)
                        else do { s1 \<leftarrow> upd_ptcb a (\<lambda>x. x\<lparr>detached := True\<rparr>) s;
                                  s2 \<leftarrow> kernel_broadcast c (exit_cv a) s1;
                                  Some (0, s2) } } }"

section \<open>The end of a process\<close>

text \<open>The loop that gives children to the initial task; each turn pops the first child.\<close>

fun reparent_loop :: "pid list \<Rightarrow> pid \<Rightarrow> pid option \<Rightarrow> 'a kernel_scheme \<Rightarrow> 'a kernel_scheme option" where
  "reparent_loop [] curproc initpcb s = Some s"
| "reparent_loop (child # rest) curproc initpcb s =
     do { let s1 = upd_pcb curproc (\<lambda>pcb. pcb\<lparr>children_list := rest\<rparr>) s;
          let s2 = upd_pcb child (\<lambda>pcb. pcb\<lparr>parent := initpcb\<rparr>) s1;
          i \<leftarrow> initpcb;
          reparent_loop rest curproc initpcb (upd_pcb i (\<lambda>pcb. pcb\<lparr>children_list := child # children_list pcb\<rparr>) s2) }"

text \<open>What a process other than the initial task does with its children, and with its parent.\<close>

definition leave_family :: "nat \<Rightarrow> pid \<Rightarrow> 'a kernel_scheme \<Rightarrow> 'a kernel_scheme option" where
  "leave_family c curproc s =
     do { let initpcb = get_pcb 1 s;
          s1 \<leftarrow> reparent_loop (children_list (PT s curproc)) curproc initpcb s;
          s2 \<leftarrow> (if exited_list (PT s1 curproc) = [] then Some s1
                 else do { i \<leftarrow> initpcb;
                           let ex = exited_list (PT s1 curproc);
                           kernel_broadcast c (child_exit i)
                             (upd_pcb curproc (\<lambda>pcb. pcb\<lparr>exited_list := []\<rparr>)
                               (upd_pcb i (\<lambda>pcb. pcb\<lparr>exited_list := exited_list pcb @ ex\<rparr>) s1)) });
          par \<leftarrow> parent (PT s2 curproc);
          kernel_broadcast c (child_exit par)
            (upd_pcb par (\<lambda>pcb. pcb\<lparr>exited_list := curproc # exited_list pcb\<rparr>) s2) }"

fun close_fids :: "nat \<Rightarrow> pid \<Rightarrow> nat list \<Rightarrow> 'a kernel_scheme \<Rightarrow> 'a kernel_scheme option" where
  "close_fids c p [] s = Some s"
| "close_fids c p (i # is) s =
     (case FIDT (PT s p) i of
        None \<Rightarrow> close_fids c p is s
      | Some f \<Rightarrow> do { (_, s1) \<leftarrow> FCB_decref c f s; close_fids c p is (set_FIDT p i None s1) })"

fun free_ptcbs :: "nat list \<Rightarrow> pid \<Rightarrow> 'a kernel_scheme \<Rightarrow> 'a kernel_scheme option" where
  "free_ptcbs [] p s = Some s"
| "free_ptcbs (a # rest) p s =
     do { s1 \<leftarrow> free_ptcb a (upd_pcb p (\<lambda>pcb. pcb\<lparr>ptcb_list := rest\<rparr>) s); free_ptcbs rest p s1 }"

definition process_exit :: "nat \<Rightarrow> pid \<Rightarrow> 'a kernel_scheme \<Rightarrow> 'a kernel_scheme option" where
  "process_exit c curproc s =
     do { s1 \<leftarrow> (if get_pid (Some curproc) \<noteq> 1 then leave_family c curproc s else Some s);
          c_assert (children_list (PT s1 curproc) = []);
          c_assert (exited_list (PT s1 curproc) = []);
          s2 \<leftarrow> close_fids c curproc [0..<MAX_FILEID] (upd_pcb curproc (\<lambda>pcb. pcb\<lparr>args := None\<rparr>) s1);
          s3 \<leftarrow> (if thread_count (PT s2 curproc) = 0 then free_ptcbs (ptcb_list (PT s2 curproc)) curproc s2 else Some s2);
          Some (upd_pcb curproc (\<lambda>pcb. pcb\<lparr>main_thread := None, pstate := ZOMBIE\<rparr>) s3) }"

section \<open>The end of a thread\<close>

text \<open>\<^verbatim>\<open>sys_ThreadExit\<close> up to \<^verbatim>\<open>kernel_sleep(EXITED, SCHED_USER)\<close>, which does not return.\<close>

definition thread_exit_section :: "nat \<Rightarrow> int \<Rightarrow> 'a kernel_scheme \<Rightarrow> 'a kernel_scheme option" where
  "thread_exit_section c ev s =
     do { curproc \<leftarrow> CURPROC c s;
          curthd \<leftarrow> cur_thread c s;
          tc \<leftarrow> tcbs s curthd;
          CURptcb \<leftarrow> owner_ptcb tc;
          s1 \<leftarrow> upd_ptcb CURptcb (\<lambda>x. x\<lparr>ptcb_exitval := ev\<rparr>) s;
          let s2 = upd_pcb curproc (\<lambda>pcb. pcb\<lparr>thread_count := thread_count pcb - 1\<rparr>) s1;
          s3 \<leftarrow> kernel_broadcast c (exit_cv CURptcb) s2;
          s4 \<leftarrow> upd_ptcb CURptcb (\<lambda>x. x\<lparr>ptcb_refcount := ptcb_refcount x - 1, exited := True\<rparr>) s3;
          s5 \<leftarrow> kernel_broadcast c (exit_cv CURptcb) s4;
          if thread_count (PT s5 curproc) = 0 then process_exit c curproc s5 else Some s5 }"

definition sys_ThreadExit :: "nat \<Rightarrow> int \<Rightarrow> 'a kernel_scheme \<Rightarrow> 'a kernel_scheme option" where
  "sys_ThreadExit c ev s = do { s1 \<leftarrow> thread_exit_section c ev s; kernel_sleep c EXITED SCHED_USER s1 }"

section \<open>The end of the calling thread of a process\<close>

lemma wait_any_loop_decreases:
  assumes "wait_any_loop par s = Some (Done (r, st), s1)" "r \<noteq> NOPROC"
  shows "length (exited_list (PT s1 par)) < length (exited_list (PT s par))"
  using assms
  by (cases "exited_list (PT s par)")
    (auto simp: wait_any_loop_def cleanup_zombie_def release_PCB_def remove_exited_node_def
      remove_children_node_def upd_pcb_def split: if_splits)

text \<open>The loop in which the initial task waits for all its children.\<close>

function exit_wait_loop :: "pid \<Rightarrow> 'a kernel_scheme \<Rightarrow> (unit outcome \<times> 'a kernel_scheme) option" where
  "exit_wait_loop par s =
     (case wait_any_loop par s of
        None \<Rightarrow> None
      | Some (Done (r, _), s1) \<Rightarrow> if r \<noteq> NOPROC then exit_wait_loop par s1 else Some (Done (), s1)
      | Some (Block cv cause to, s1) \<Rightarrow> Some (Block cv cause to, s1)
      | Some (Yield cause, s1) \<Rightarrow> Some (Yield cause, s1))"
  by pat_completeness auto
termination
  by (relation "measure (\<lambda>(par, s). length (exited_list (PT s par)))") (auto dest: wait_any_loop_decreases)

declare exit_wait_loop.simps [simp del]

text \<open>\<^verbatim>\<open>sys_Exit\<close> from the loop on, entered again after a wait, and up to the call that does not return.\<close>

definition exit_loop :: "nat \<Rightarrow> pid \<Rightarrow> int \<Rightarrow> 'a kernel_scheme \<Rightarrow> (unit outcome \<times> 'a kernel_scheme) option" where
  "exit_loop c curproc ev s =
     do { (r, s1) \<leftarrow> (if get_pid (Some curproc) = 1 then exit_wait_loop curproc s else Some (Done (), s));
          case r of
            Done _ \<Rightarrow> do { s2 \<leftarrow> thread_exit_section c ev (upd_pcb curproc (\<lambda>pcb. pcb\<lparr>exitval := ev\<rparr>) s1);
                          Some (Done (), s2) }
          | _ \<Rightarrow> Some (r, s1) }"

definition sys_Exit :: "nat \<Rightarrow> int \<Rightarrow> 'a kernel_scheme \<Rightarrow> (unit outcome \<times> 'a kernel_scheme) option" where
  "sys_Exit c ev s =
     do { curproc \<leftarrow> CURPROC c s;
          (r, s1) \<leftarrow> exit_loop c curproc ev (upd_pcb curproc (\<lambda>pcb. pcb\<lparr>exitval := ev\<rparr>) s);
          case r of
            Done _ \<Rightarrow> do { s2 \<leftarrow> kernel_sleep c EXITED SCHED_USER s1; Some (Done (), s2) }
          | _ \<Rightarrow> Some (r, s1) }"

end
