(* ===== verification/Family.thy ===== *)
theory Family
  imports Threads
begin

text \<open>
  The process table as a forest: the free list, the lists of children and of exited children,
  and the parent pointers agree with each other.  Each operation on processes keeps this
  invariant; the operations on threads and streams do not touch what it reads.
\<close>

section \<open>The invariant\<close>

text \<open>The free list is linked through the field \<^verbatim>\<open>parent\<close>.\<close>

fun free_path :: "(pid \<Rightarrow> PCB) \<Rightarrow> pid option \<Rightarrow> pid list \<Rightarrow> bool" where
  "free_path T q [] \<longleftrightarrow> q = None"
| "free_path T q (p # ps) \<longleftrightarrow> q = Some p \<and> free_path T (parent (T p)) ps"

definition used :: "'a kernel_scheme \<Rightarrow> pid set" where
  "used s = {p. p < MAX_PROC \<and> pstate (PT s p) \<noteq> FREE}"

definition free_ok :: "'a kernel_scheme \<Rightarrow> bool" where
  "free_ok s \<longleftrightarrow> (\<exists>fl. free_path (PT s) (pcb_freelist s) fl \<and> distinct fl \<and> set fl = {..<MAX_PROC} - used s) \<and>
     (\<forall>p. MAX_PROC \<le> p \<longrightarrow> pstate (PT s p) = FREE) \<and> process_count s = of_nat (card (used s))"

definition children_ok :: "'a kernel_scheme \<Rightarrow> bool" where
  "children_ok s \<longleftrightarrow> (\<forall>p. distinct (children_list (PT s p)) \<and>
     set (children_list (PT s p)) = {q \<in> used s. parent (PT s q) = Some p})"

definition exited_ok :: "'a kernel_scheme \<Rightarrow> bool" where
  "exited_ok s \<longleftrightarrow> (\<forall>p. distinct (exited_list (PT s p)) \<and>
     set (exited_list (PT s p)) = {q \<in> used s. parent (PT s q) = Some p \<and> pstate (PT s q) = ZOMBIE})"

text \<open>
  The scheduler process and the initial task have no parent; every other process has one that
  is alive, or that is the initial task.
\<close>

definition parents_ok :: "'a kernel_scheme \<Rightarrow> bool" where
  "parents_ok s \<longleftrightarrow> {0, 1} \<subseteq> used s \<and>
     (\<forall>q \<in> used s. if q \<le> 1 then parent (PT s q) = None
        else \<exists>p \<in> used s. p \<noteq> q \<and> parent (PT s q) = Some p \<and> (p = 1 \<or> pstate (PT s p) = ALIVE))"

definition family_inv :: "'a kernel_scheme \<Rightarrow> bool" where
  "family_inv s \<longleftrightarrow> free_ok s \<and> children_ok s \<and> exited_ok s \<and> parents_ok s"

section \<open>Frame\<close>

definition same_family :: "'a kernel_scheme \<Rightarrow> 'a kernel_scheme \<Rightarrow> bool" where
  "same_family s s' \<longleftrightarrow> pcb_freelist s' = pcb_freelist s \<and> process_count s' = process_count s \<and>
     (\<forall>p. pstate (PT s' p) = pstate (PT s p) \<and> parent (PT s' p) = parent (PT s p) \<and>
        children_list (PT s' p) = children_list (PT s p) \<and> exited_list (PT s' p) = exited_list (PT s p))"

lemma same_family_refl [simp]: "same_family s s" by (simp add: same_family_def)

lemma same_family_trans [trans]: "same_family s s' \<Longrightarrow> same_family s' s'' \<Longrightarrow> same_family s s''"
  by (simp add: same_family_def)

lemma free_path_cong:
  "(\<And>p. p \<in> set fl \<Longrightarrow> parent (T' p) = parent (T p)) \<Longrightarrow> free_path T' q fl = free_path T q fl"
  by (induction fl arbitrary: q) auto

lemma same_family_inv:
  assumes "same_family s s'"
  shows "family_inv s' = family_inv s"
proof -
  have u: "used s' = used s" using assms by (simp add: used_def same_family_def)
  have "free_path (PT s') q fl = free_path (PT s) q fl" for q fl
    using assms by (intro free_path_cong) (simp add: same_family_def)
  then show ?thesis
    using assms unfolding family_inv_def free_ok_def children_ok_def exited_ok_def parents_ok_def u
    by (simp add: same_family_def)
qed

lemma same_family_kframe: "kframe s s' \<Longrightarrow> same_family s s'"
  using more_kernel [of s' s] by (simp add: same_family_def kframe_def)

lemma same_family_files: "same_files s s' \<Longrightarrow> same_family s s'"
  by (simp add: same_files_def same_family_def)

section \<open>Creating a process\<close>

text \<open>A process that is alive and its new child.\<close>

definition adopt :: "pid \<Rightarrow> pid \<Rightarrow> 'a kernel_scheme \<Rightarrow> 'a kernel_scheme" where
  "adopt p cp s = upd_pcb cp (\<lambda>pcb. pcb\<lparr>children_list := p # children_list pcb\<rparr>)
     (upd_pcb p (\<lambda>pcb. pcb\<lparr>parent := Some cp\<rparr>) (snd (acquire_PCB s)))"

lemma adopt_PT:
  assumes "pcb_freelist s = Some p" "p \<noteq> cp"
  shows "PT (adopt p cp s) = (PT s)(p := (PT s p)\<lparr>pstate := ALIVE, parent := Some cp\<rparr>,
      cp := (PT s cp)\<lparr>children_list := p # children_list (PT s cp)\<rparr>)"
    "pcb_freelist (adopt p cp s) = parent (PT s p)" "process_count (adopt p cp s) = process_count s + 1"
  using assms by (auto simp: adopt_def acquire_PCB_def upd_pcb_def fun_eq_iff)

lemma freelist_head:
  assumes "family_inv s" "pcb_freelist s = Some p"
  shows "p < MAX_PROC" "pstate (PT s p) = FREE" "1 < p"
proof -
  obtain fl where fl: "free_path (PT s) (Some p) fl" "set fl = {..<MAX_PROC} - used s"
    using assms by (auto simp: family_inv_def free_ok_def)
  then have "p \<in> {..<MAX_PROC} - used s" by (cases fl) auto
  then show "p < MAX_PROC" "pstate (PT s p) = FREE" by (auto simp: used_def)
  have "{0, 1} \<subseteq> used s" using assms(1) by (simp add: family_inv_def parents_ok_def)
  with \<open>p \<in> {..<MAX_PROC} - used s\<close> have "p \<noteq> 0" "p \<noteq> 1" by (metis DiffD2 insertCI subsetD)+
  then show "1 < p" by simp
qed

lemma unused_no_children:
  assumes "family_inv s" "pstate (PT s p) = FREE"
  shows "children_list (PT s p) = []" "exited_list (PT s p) = []" "\<And>q. q \<in> used s \<Longrightarrow> parent (PT s q) \<noteq> Some p"
proof -
  show no: "parent (PT s q) \<noteq> Some p" if "q \<in> used s" for q
    using assms that unfolding family_inv_def parents_ok_def by (force simp: used_def split: if_splits)
  have "set (children_list (PT s p)) = {}" "set (exited_list (PT s p)) = {}"
    using assms(1) no unfolding family_inv_def children_ok_def exited_ok_def by auto
  then show "children_list (PT s p) = []" "exited_list (PT s p) = []" by simp_all
qed

lemma family_adopt:
  assumes "family_inv s" "pcb_freelist s = Some p" "cp < MAX_PROC" "pstate (PT s cp) = ALIVE"
  shows "family_inv (adopt p cp s)"
proof -
  note h = freelist_head [OF assms(1,2)]
  have pcp: "p \<noteq> cp" using h(2) assms(4) by auto
  note e = adopt_PT [OF assms(2) pcp]
  let ?s = "adopt p cp s"
  have u: "used ?s = insert p (used s)" "p \<notin> used s" "finite (used s)" "cp \<in> used s"
    using h assms(3,4) by (auto simp: used_def e(1))
  note no = unused_no_children [OF assms(1) h(2)]
  obtain fl where fl: "free_path (PT s) (parent (PT s p)) fl" "distinct (p # fl)" "set (p # fl) = {..<MAX_PROC} - used s"
  proof -
    obtain fl where "free_path (PT s) (Some p) fl" "distinct fl" "set fl = {..<MAX_PROC} - used s"
      using assms(1,2) by (auto simp: family_inv_def free_ok_def)
    then show ?thesis using that by (cases fl) auto
  qed
  have "free_path (PT ?s) (parent (PT s p)) fl"
    using fl(1,2) by (subst free_path_cong [of _ _ "PT s"]) (auto simp: e(1))
  moreover have "set fl = {..<MAX_PROC} - used ?s" using fl(2,3) u(1) by auto
  ultimately have "free_ok ?s" using assms(1) fl(2) u h(1) assms(3)
    by (auto simp: family_inv_def free_ok_def e)
  moreover have "children_ok ?s"
    using assms(1) no(1,3) u pcp unfolding family_inv_def children_ok_def e(1) u(1) by auto
  moreover have "exited_ok ?s"
    using assms(1) no(2,3) u pcp assms(4) unfolding family_inv_def exited_ok_def e(1) u(1) by auto
  moreover have "parents_ok ?s"
    using assms(1,4) h u pcp unfolding family_inv_def parents_ok_def e(1) u(1) by (auto split: if_splits)
  ultimately show ?thesis by (simp add: family_inv_def)
qed

section \<open>Reaping a zombie\<close>

lemma cleanup_PT:
  "PT (snd (cleanup_zombie ch s)) = (\<lambda>q. (PT s q)\<lparr>children_list := remove1 ch (children_list (PT s q)),
       exited_list := remove1 ch (exited_list (PT s q)),
       pstate := if q = ch then FREE else pstate (PT s q),
       parent := if q = ch then pcb_freelist s else parent (PT s q)\<rparr>)"
  "pcb_freelist (snd (cleanup_zombie ch s)) = Some ch" "process_count (snd (cleanup_zombie ch s)) = process_count s - 1"
  by (auto simp: cleanup_zombie_def release_PCB_def remove_exited_node_def remove_children_node_def upd_pcb_def fun_eq_iff)

lemma zombie_no_children:
  assumes "family_inv s" "q \<in> used s" "pstate (PT s q) = ZOMBIE" "1 < q" "r \<in> used s"
  shows "parent (PT s r) \<noteq> Some q"
proof
  assume p: "parent (PT s r) = Some q"
  from assms(1,5) p have "1 < r" by (auto simp: family_inv_def parents_ok_def split: if_splits)
  with assms p show False by (auto simp: family_inv_def parents_ok_def split: if_splits)
qed

lemma family_reap:
  assumes "family_inv s" "ch \<in> used s" "pstate (PT s ch) = ZOMBIE" "1 < ch"
  shows "family_inv (snd (cleanup_zombie ch s))"
proof -
  let ?s = "snd (cleanup_zombie ch s)"
  note e = cleanup_PT [of ch s]
  have u: "used ?s = used s - {ch}" "finite (used s)" by (auto simp: used_def e(1) split: if_splits)
  note no = zombie_no_children [OF assms]
  obtain fl where fl: "free_path (PT s) (pcb_freelist s) fl" "distinct fl" "set fl = {..<MAX_PROC} - used s"
    using assms(1) by (auto simp: family_inv_def free_ok_def)
  have nf: "ch \<notin> set fl" using fl(3) assms(2) by simp
  have "parent (PT ?s q) = parent (PT s q)" if "q \<in> set fl" for q using that nf by (auto simp: e(1))
  with fl(1) have "free_path (PT ?s) (pcb_freelist s) fl" using free_path_cong [of fl "PT ?s" "PT s"] by blast
  moreover have "parent (PT ?s ch) = pcb_freelist s" by (simp add: e(1))
  ultimately have "free_path (PT ?s) (Some ch) (ch # fl)" by simp
  moreover have "distinct (ch # fl)" using fl(2) nf by simp
  moreover have "set (ch # fl) = {..<MAX_PROC} - used ?s"
  proof -
    have "ch < MAX_PROC" using assms(2) by (simp add: used_def)
    then show ?thesis unfolding u(1) using fl(3) by auto
  qed
  moreover have "process_count s - 1 = of_nat (card (used s - {ch}))"
    using assms(1,2) u(2) card_Suc_Diff1 [OF u(2) assms(2)]
    by (simp add: family_inv_def free_ok_def)
  moreover have "\<forall>p. MAX_PROC \<le> p \<longrightarrow> pstate (PT ?s p) = FREE" using assms(1) by (auto simp: e(1) family_inv_def free_ok_def)
  ultimately have "free_ok ?s" unfolding free_ok_def e(2,3) u(1) by blast
  moreover have "children_ok ?s" using assms(1) unfolding family_inv_def children_ok_def u(1) by (auto simp: e(1))
  moreover have "exited_ok ?s" using assms(1) unfolding family_inv_def exited_ok_def u(1) by (auto simp: e(1))
  moreover have "parents_ok ?s"
    unfolding parents_ok_def u(1)
  proof (intro conjI ballI)
    show "{0, 1} \<subseteq> used s - {ch}" using assms(1,4) by (auto simp: family_inv_def parents_ok_def)
    fix q assume q: "q \<in> used s - {ch}"
    then have "if q \<le> 1 then parent (PT s q) = None
        else \<exists>p \<in> used s. p \<noteq> q \<and> parent (PT s q) = Some p \<and> (p = 1 \<or> pstate (PT s p) = ALIVE)"
      using assms(1) unfolding family_inv_def parents_ok_def by blast
    with q no [of q] assms(4) show "if q \<le> 1 then parent (PT ?s q) = None
        else \<exists>p \<in> used s - {ch}. p \<noteq> q \<and> parent (PT ?s q) = Some p \<and> (p = 1 \<or> pstate (PT ?s p) = ALIVE)"
      by (auto simp: e(1) split: if_splits)
  qed
  ultimately show ?thesis by (simp add: family_inv_def)
qed

section \<open>The end of a process\<close>

lemma reparent_loop_eq:
  assumes "distinct ch" "p \<notin> set ch" "i \<notin> set ch" "p \<noteq> i" "children_list (PT s p) = ch"
  shows "reparent_loop ch p (Some i) s = Some (s\<lparr>PT := (\<lambda>q. (PT s q)\<lparr>
      parent := if q \<in> set ch then Some i else parent (PT s q),
      children_list := if q = p then [] else if q = i then rev ch @ children_list (PT s i) else children_list (PT s q)\<rparr>)\<rparr>)"
  using assms
proof (induction ch arbitrary: s)
  case Nil
  then show ?case by (auto intro!: kernel.equality simp: fun_eq_iff)
next
  case (Cons x ch)
  let ?s = "upd_pcb i (\<lambda>pcb. pcb\<lparr>children_list := x # children_list pcb\<rparr>)
     (upd_pcb x (\<lambda>pcb. pcb\<lparr>parent := Some i\<rparr>) (upd_pcb p (\<lambda>pcb. pcb\<lparr>children_list := ch\<rparr>) s))"
  have "children_list (PT ?s p) = ch" using Cons.prems by (auto simp: upd_pcb_def)
  from Cons.IH [OF _ _ _ _ this] Cons.prems show ?case
    by (auto intro!: kernel.equality simp: fun_eq_iff upd_pcb_def)
qed

text \<open>The process table when process \<open>p\<close>, a child of \<open>par\<close>, has left its family and is a zombie.\<close>

definition departed :: "pid \<Rightarrow> pid \<Rightarrow> (pid \<Rightarrow> PCB) \<Rightarrow> pid \<Rightarrow> PCB" where
  "departed p par T q = (T q)\<lparr>
     parent := if q \<in> set (children_list (T p)) then Some 1 else parent (T q),
     children_list := if q = p then [] else if q = 1 then rev (children_list (T p)) @ children_list (T 1) else children_list (T q),
     exited_list := if q = p then [] else
       (if q = par then [p] else []) @ exited_list (T q) @ (if q = 1 then exited_list (T p) else [])\<rparr>"

lemma leave_family_eq:
  assumes "family_inv s" "p < MAX_PROC" "pstate (PT s p) = ALIVE" "p \<noteq> 1" "leave_family c p s = Some s'"
  shows "\<exists>par. parent (PT s p) = Some par \<and> par \<in> used s \<and> par \<noteq> p \<and> 1 < p \<and> kframe (s\<lparr>PT := departed p par (PT s)\<rparr>) s'"
proof -
  let ?ch = "children_list (PT s p)"
  have ok: "distinct ?ch" "set ?ch = {q \<in> used s. parent (PT s q) = Some p}" "p \<in> used s"
    using assms(1-3) by (simp_all add: family_inv_def children_ok_def used_def)
  have one: "1 \<in> used s" "0 \<in> used s" using assms(1) by (simp_all add: family_inv_def parents_ok_def)
  have pp: "if p \<le> 1 then parent (PT s p) = None
      else \<exists>q \<in> used s. q \<noteq> p \<and> parent (PT s p) = Some q \<and> (q = 1 \<or> pstate (PT s q) = ALIVE)"
    using assms(1) ok(3) unfolding family_inv_def parents_ok_def by blast
  have "parent (PT s 1) = None" using assms(1) one(1) by (auto simp: family_inv_def parents_ok_def)
  then have nin: "p \<notin> set ?ch" "1 \<notin> set ?ch" using ok(2) pp by (auto split: if_splits)
  define T1 where "T1 = (\<lambda>q. (PT s q)\<lparr>parent := if q \<in> set ?ch then Some 1 else parent (PT s q),
      children_list := if q = p then [] else if q = 1 then rev ?ch @ children_list (PT s 1) else children_list (PT s q)\<rparr>)"
  define T2 where "T2 = (\<lambda>q. (T1 q)\<lparr>exited_list := if q = p then [] else exited_list (T1 q) @ (if q = 1 then exited_list (PT s p) else [])\<rparr>)"
  have get: "get_pcb 1 s = Some 1" using one(1) by (simp add: get_pcb_def used_def)
  have re: "reparent_loop ?ch p (Some 1) s = Some (s\<lparr>PT := T1\<rparr>)"
    unfolding T1_def by (rule reparent_loop_eq [OF ok(1) nin assms(4) refl])
  have ex: "exited_list (T1 p) = exited_list (PT s p)" by (simp add: T1_def)
  have notify: "\<exists>s2. kframe (s\<lparr>PT := T2\<rparr>) s2 \<and> (do { par \<leftarrow> parent (PT s2 p); kernel_broadcast c (child_exit par)
            (upd_pcb par (\<lambda>pcb. pcb\<lparr>exited_list := p # exited_list pcb\<rparr>) s2) }) = Some s'"
  proof (cases "exited_list (PT s p) = []")
    case True
    have "T2 = T1" using True by (auto simp: fun_eq_iff T2_def T1_def)
    with True assms(5) ex show ?thesis
      by (intro exI [of _ "s\<lparr>PT := T1\<rparr>"]) (simp add: leave_family_def get re Let_def del: One_nat_def)
  next
    case False
    have "upd_pcb p (\<lambda>pcb. pcb\<lparr>exited_list := []\<rparr>)
        (upd_pcb 1 (\<lambda>pcb. pcb\<lparr>exited_list := exited_list pcb @ exited_list (PT s p)\<rparr>) (s\<lparr>PT := T1\<rparr>)) = s\<lparr>PT := T2\<rparr>"
      using assms(4) by (auto intro!: kernel.equality simp: fun_eq_iff upd_pcb_def T2_def)
    then have "leave_family c p s = do { s2 \<leftarrow> kernel_broadcast c (child_exit 1) (s\<lparr>PT := T2\<rparr>);
         par \<leftarrow> parent (PT s2 p); kernel_broadcast c (child_exit par)
            (upd_pcb par (\<lambda>pcb. pcb\<lparr>exited_list := p # exited_list pcb\<rparr>) s2) }"
      using False ex by (simp add: leave_family_def Let_def get re del: One_nat_def)
    with assms(5) kernel_broadcast_kframe [of c "child_exit 1" "s\<lparr>PT := T2\<rparr>"] show ?thesis
      by (cases "kernel_broadcast c (child_exit 1) (s\<lparr>PT := T2\<rparr>)") (auto simp del: One_nat_def)
  qed
  then obtain s2 where s2: "kframe (s\<lparr>PT := T2\<rparr>) s2"
    "(do { par \<leftarrow> parent (PT s2 p); kernel_broadcast c (child_exit par)
            (upd_pcb par (\<lambda>pcb. pcb\<lparr>exited_list := p # exited_list pcb\<rparr>) s2) }) = Some s'" by (elim exE conjE)
  have t2: "parent (T2 p) = parent (PT s p)" using nin(1) by (simp add: T2_def T1_def)
  have pt2: "PT s2 = T2" using s2(1) more_kernel(1) [of s2 "s\<lparr>PT := T2\<rparr>"] by (simp add: kframe_def)
  with s2(2) t2 obtain par where par: "parent (PT s p) = Some par"
    "kframe (upd_pcb par (\<lambda>pcb. pcb\<lparr>exited_list := p # exited_list pcb\<rparr>) s2) s'"
    by (auto dest!: kernel_broadcast_kframe split: bind_splits)
  with pp have q: "par \<in> used s" "par \<noteq> p" "1 < p" by (auto split: if_splits)
  have "departed p par (PT s) = (\<lambda>q. if q = par then (T2 par)\<lparr>exited_list := p # exited_list (T2 par)\<rparr> else T2 q)"
    using q(2) by (auto simp: departed_def fun_eq_iff T2_def T1_def)
  moreover have "kframe (s\<lparr>PT := T\<rparr>) s'" if "T = (\<lambda>q. if q = par then (T2 par)\<lparr>exited_list := p # exited_list (T2 par)\<rparr> else T2 q)" for T
  proof -
    have "kframe (s\<lparr>PT := T2\<rparr>\<lparr>PT := T\<rparr>) (s2\<lparr>PT := T\<rparr>)"
      using s2(1) by (cases s rule: kernel.cases_scheme; cases s2 rule: kernel.cases_scheme) (simp add: kframe_def)
    moreover have "s2\<lparr>PT := T\<rparr> = upd_pcb par (\<lambda>pcb. pcb\<lparr>exited_list := p # exited_list pcb\<rparr>) s2"
      unfolding that pt2 by (auto intro!: kernel.equality simp: upd_pcb_def fun_eq_iff pt2)
    ultimately show ?thesis using par(2) kframe_trans by auto
  qed
  ultimately show ?thesis using par(1) q by blast
qed

lemma departed_sel [simp]:
  "pstate (departed p par T q) = pstate (T q)" "FIDT (departed p par T q) = FIDT (T q)"
  "ptcb_list (departed p par T q) = ptcb_list (T q)" "thread_count (departed p par T q) = thread_count (T q)"
  by (simp_all add: departed_def)

text \<open>The family when process \<open>p\<close> has become a zombie.\<close>

definition buried :: "pid \<Rightarrow> pid \<Rightarrow> 'a kernel_scheme \<Rightarrow> 'a kernel_scheme" where
  "buried p par s = s\<lparr>PT := (departed p par (PT s))(p := (departed p par (PT s) p)\<lparr>pstate := ZOMBIE\<rparr>)\<rparr>"

lemma family_buried:
  assumes "family_inv s" "p \<in> used s" "pstate (PT s p) = ALIVE" "parent (PT s p) = Some par" "par \<in> used s" "par \<noteq> p" "1 < p"
  shows "family_inv (buried p par s)"
proof -
  let ?s = "buried p par s" and ?ch = "children_list (PT s p)"
  have st: "pstate (PT ?s q) = (if q = p then ZOMBIE else pstate (PT s q))" for q by (simp add: buried_def)
  have pa: "parent (PT ?s q) = (if q \<in> set ?ch then Some 1 else parent (PT s q))" for q
    by (simp add: buried_def departed_def)
  have cl: "children_list (PT ?s q) = (if q = p then [] else if q = 1 then rev ?ch @ children_list (PT s 1) else children_list (PT s q))" for q
    using assms(7) by (simp add: buried_def departed_def)
  have el: "exited_list (PT ?s q) = (if q = p then [] else (if q = par then [p] else []) @ exited_list (PT s q) @
      (if q = 1 then exited_list (PT s p) else []))" for q
    using assms(7) by (simp add: buried_def departed_def)
  have u: "used ?s = used s" using assms(3) by (auto simp: used_def st)
  have ch: "distinct (children_list (PT s q))" "set (children_list (PT s q)) = {r \<in> used s. parent (PT s r) = Some q}"
    and ex: "distinct (exited_list (PT s q))"
      "set (exited_list (PT s q)) = {r \<in> used s. parent (PT s r) = Some q \<and> pstate (PT s r) = ZOMBIE}" for q
    using assms(1) by (simp_all add: family_inv_def children_ok_def exited_ok_def)
  have pk: "if q \<le> 1 then parent (PT s q) = None
      else \<exists>r \<in> used s. r \<noteq> q \<and> parent (PT s q) = Some r \<and> (r = 1 \<or> pstate (PT s r) = ALIVE)" if "q \<in> used s" for q
    using assms(1) that unfolding family_inv_def parents_ok_def by blast
  have one: "1 \<in> used s" "0 \<in> used s" using assms(1) by (simp_all add: family_inv_def parents_ok_def)
  have chq: "q \<in> set ?ch \<Longrightarrow> 1 < q \<and> q \<noteq> p \<and> q \<in> used s" for q
    using pk [of q] assms(4,6) by (auto simp: ch(2) split: if_splits)
  have fp: "free_path (PT ?s) q fl = free_path (PT s) q fl" if "set fl \<inter> used s = {}" for q fl
    using that chq by (intro free_path_cong) (auto simp: pa)
  obtain fl where "free_path (PT s) (pcb_freelist s) fl" "distinct fl" "set fl = {..<MAX_PROC} - used s"
    using assms(1) by (auto simp: family_inv_def free_ok_def)
  moreover from this(3) have "set fl \<inter> used s = {}" by blast
  moreover have "pcb_freelist ?s = pcb_freelist s" "process_count ?s = process_count s" by (simp_all add: buried_def)
  ultimately have "\<exists>fl. free_path (PT ?s) (pcb_freelist ?s) fl \<and> distinct fl \<and> set fl = {..<MAX_PROC} - used s"
    using fp by metis
  moreover have "\<forall>q. MAX_PROC \<le> q \<longrightarrow> pstate (PT ?s q) = FREE"
    using assms(1,2) by (auto simp: st family_inv_def free_ok_def used_def)
  moreover have "process_count ?s = of_nat (card (used s))" using assms(1) by (simp add: buried_def family_inv_def free_ok_def)
  ultimately have "free_ok ?s" unfolding free_ok_def u by simp
  moreover have "children_ok ?s" unfolding children_ok_def u
  proof (intro allI conjI)
    fix q
    have "set ?ch \<inter> set (children_list (PT s 1)) = {}" using assms(7) by (auto simp: ch(2))
    then show "distinct (children_list (PT ?s q))" using ch(1) by (auto simp: cl)
    show "set (children_list (PT ?s q)) = {r \<in> used s. parent (PT ?s r) = Some q}"
      using assms(7) by (auto simp: cl pa ch(2))
  qed
  moreover have "exited_ok ?s" unfolding exited_ok_def u
  proof (intro allI conjI)
    fix q
    have "p \<notin> set (exited_list (PT s r))" for r using assms(3) by (auto simp: ex(2))
    moreover have "set (exited_list (PT s 1)) \<inter> set (exited_list (PT s p)) = {}" using assms(7) by (auto simp: ex(2))
    ultimately show "distinct (exited_list (PT ?s q))" using ex(1) by (auto simp: el)
    show "set (exited_list (PT ?s q)) = {r \<in> used s. parent (PT ?s r) = Some q \<and> pstate (PT ?s r) = ZOMBIE}"
      using assms(2-4,6,7) by (auto simp: el pa st ch(2) ex(2))
  qed
  moreover have "parents_ok ?s" unfolding parents_ok_def u
  proof (intro conjI ballI)
    show "{0, 1} \<subseteq> used s" using one by simp
    fix q assume q: "q \<in> used s"
    show "if q \<le> 1 then parent (PT ?s q) = None
        else \<exists>r \<in> used s. r \<noteq> q \<and> parent (PT ?s q) = Some r \<and> (r = 1 \<or> pstate (PT ?s r) = ALIVE)"
    proof (cases "q \<in> set ?ch")
      case True
      with chq [of q] one(1) show ?thesis by (auto simp: pa)
    next
      case False
      then have "parent (PT s q) \<noteq> Some p" using q by (simp add: ch(2))
      with pk [OF q] False show ?thesis by (auto simp: pa st split: if_splits)
    qed
  qed
  ultimately show ?thesis by (simp add: family_inv_def)
qed

text \<open>The end of the initial task, which has no children left.\<close>

lemma family_init_exit:
  assumes "family_inv s" "children_list (PT s 1) = []" "pstate (PT s 1) = ALIVE"
  shows "family_inv (upd_pcb 1 (\<lambda>pcb. pcb\<lparr>pstate := ZOMBIE\<rparr>) s)"
proof -
  let ?s = "upd_pcb 1 (\<lambda>pcb. pcb\<lparr>pstate := ZOMBIE\<rparr>) s"
  have e: "parent (PT ?s q) = parent (PT s q)" "children_list (PT ?s q) = children_list (PT s q)"
    "exited_list (PT ?s q) = exited_list (PT s q)" "pstate (PT ?s q) = (if q = 1 then ZOMBIE else pstate (PT s q))"
    "pcb_freelist ?s = pcb_freelist s" "process_count ?s = process_count s" for q
    by (simp_all add: upd_pcb_def)
  have u: "used ?s = used s" unfolding used_def e(4) using assms(3) by auto
  have "1 \<in> used s" "0 \<in> used s" using assms(1) by (simp_all add: family_inv_def parents_ok_def)
  then have "parent (PT s 1) = None" "1 < MAX_PROC" using assms(1) by (auto simp: family_inv_def parents_ok_def used_def)
  moreover have "free_path (PT ?s) q fl = free_path (PT s) q fl" for q fl by (intro free_path_cong) (simp add: e(1) del: One_nat_def)
  ultimately have "free_ok ?s" "children_ok ?s" "exited_ok ?s"
    using assms(1) unfolding family_inv_def free_ok_def children_ok_def exited_ok_def u e by auto
  moreover have "parents_ok ?s" unfolding parents_ok_def u e
  proof (intro conjI ballI)
    show "{0, 1} \<subseteq> used s" using assms(1) by (simp add: family_inv_def parents_ok_def)
    fix q assume "q \<in> used s"
    with assms(1) have "if q \<le> 1 then parent (PT s q) = None
        else \<exists>p \<in> used s. p \<noteq> q \<and> parent (PT s q) = Some p \<and> (p = 1 \<or> pstate (PT s p) = ALIVE)"
      unfolding family_inv_def parents_ok_def by blast
    then show "if q \<le> 1 then parent (PT s q) = None
        else \<exists>p \<in> used s. p \<noteq> q \<and> parent (PT s q) = Some p \<and> (p = 1 \<or> (if p = 1 then ZOMBIE else pstate (PT s p)) = ALIVE)"
      by metis
  qed
  ultimately show ?thesis by (simp add: family_inv_def)
qed

end
