(* ===== verification/Thread_Inv.thy ===== *)
theory Thread_Inv
  imports Family
begin

text \<open>
  The threads of processes: every thread control block of a process is on exactly one list,
  \<^verbatim>\<open>thread_count\<close> is the number of threads that have not exited, only processes that are alive
  have threads, and the back pointers of the scheduler's TCBs agree with the lists.
\<close>

section \<open>The invariant\<close>

definition live :: "'a kernel_scheme \<Rightarrow> nat \<Rightarrow> bool" where
  "live s a = (case ptcbs s a of None \<Rightarrow> False | Some x \<Rightarrow> \<not> exited x)"

definition ptcbs_ok :: "'a kernel_scheme \<Rightarrow> bool" where
  "ptcbs_ok s \<longleftrightarrow> (\<forall>p. distinct (ptcb_list (PT s p)) \<and> set (ptcb_list (PT s p)) \<subseteq> dom (ptcbs s)) \<and>
     (\<forall>p q a. a \<in> set (ptcb_list (PT s p)) \<longrightarrow> a \<in> set (ptcb_list (PT s q)) \<longrightarrow> p = q) \<and>
     (\<forall>a. ptcbs s a \<noteq> None \<longrightarrow> a < next_addr s)"

definition counts_ok :: "'a kernel_scheme \<Rightarrow> bool" where
  "counts_ok s \<longleftrightarrow> (\<forall>p. thread_count (PT s p) = int (length (filter (live s) (ptcb_list (PT s p)))) \<and>
     (pstate (PT s p) \<noteq> ALIVE \<longrightarrow> ptcb_list (PT s p) = []))"

definition owners_ok :: "'a kernel_scheme \<Rightarrow> bool" where
  "owners_ok s \<longleftrightarrow> (\<forall>n. next_tcb s \<le> n \<longrightarrow> tcbs s (Thr n) = None) \<and>
     (\<forall>t tc. tcbs s t = Some tc \<longrightarrow> (\<forall>p. owner_pcb tc = Some p \<longrightarrow> p < MAX_PROC) \<and>
        (\<forall>a. owner_ptcb tc = Some a \<longrightarrow> a < next_addr s \<and>
           (ptcbs s a \<noteq> None \<longrightarrow> (\<exists>p. owner_pcb tc = Some p \<and> a \<in> set (ptcb_list (PT s p))))))"

definition threads_inv :: "'a kernel_scheme \<Rightarrow> bool" where
  "threads_inv s \<longleftrightarrow> ptcbs_ok s \<and> counts_ok s \<and> owners_ok s"

lemma owners_okD:
  assumes "owners_ok s" "tcbs s t = Some tc"
  shows "owner_pcb tc = Some p \<Longrightarrow> p < MAX_PROC" "owner_ptcb tc = Some a \<Longrightarrow> a < next_addr s"
    "owner_ptcb tc = Some a \<Longrightarrow> ptcbs s a \<noteq> None \<Longrightarrow> \<exists>p. owner_pcb tc = Some p \<and> a \<in> set (ptcb_list (PT s p))"
    "t = Thr n \<Longrightarrow> n < next_tcb s"
proof -
  show "owner_pcb tc = Some p \<Longrightarrow> p < MAX_PROC" "owner_ptcb tc = Some a \<Longrightarrow> a < next_addr s"
    "owner_ptcb tc = Some a \<Longrightarrow> ptcbs s a \<noteq> None \<Longrightarrow> \<exists>p. owner_pcb tc = Some p \<and> a \<in> set (ptcb_list (PT s p))"
    using assms unfolding owners_ok_def by blast+
  show "t = Thr n \<Longrightarrow> n < next_tcb s" using assms unfolding owners_ok_def by (metis not_less option.distinct(1))
qed

text \<open>The thread on core \<open>c\<close>, a thread of process \<open>p\<close> that has not exited.\<close>

definition caller :: "nat \<Rightarrow> tcb_ref \<Rightarrow> pid \<Rightarrow> nat \<Rightarrow> 'a kernel_scheme \<Rightarrow> bool" where
  "caller c t p a s \<longleftrightarrow> cur_thread c s = Some t \<and>
     (\<exists>tc. tcbs s t = Some tc \<and> owner_pcb tc = Some p \<and> owner_ptcb tc = Some a) \<and> live s a"

lemma caller_CURPROC: "caller c t p a s \<Longrightarrow> CURPROC c s = Some p"
  by (auto simp: caller_def CURPROC_def)

lemma caller_alive:
  assumes "threads_inv s" "caller c t p a s"
  shows "a \<in> set (ptcb_list (PT s p))" "pstate (PT s p) = ALIVE" "p < MAX_PROC" "0 < thread_count (PT s p)"
proof -
  obtain tc where tc: "tcbs s t = Some tc" "owner_pcb tc = Some p" "owner_ptcb tc = Some a" "live s a"
    using assms(2) by (auto simp: caller_def)
  have "ptcbs s a \<noteq> None" using tc(4) by (auto simp: live_def split: option.splits)
  with tc assms(1) show m: "a \<in> set (ptcb_list (PT s p))" and "p < MAX_PROC"
    using owners_okD [of s t tc] by (auto simp: threads_inv_def)
  have "a \<in> set (filter (live s) (ptcb_list (PT s p)))" using m tc(4) by simp
  then have "filter (live s) (ptcb_list (PT s p)) \<noteq> []" by (metis empty_iff empty_set)
  then show "0 < thread_count (PT s p)" using assms(1) by (simp add: threads_inv_def counts_ok_def)
  show "pstate (PT s p) = ALIVE" using m assms(1) by (auto simp: threads_inv_def counts_ok_def)
qed

section \<open>Frame\<close>

definition same_owners :: "'a sched_scheme \<Rightarrow> 'a sched_scheme \<Rightarrow> bool" where
  "same_owners s s' \<longleftrightarrow> next_tcb s' = next_tcb s \<and> (\<forall>t tc'. tcbs s' t = Some tc' \<longrightarrow>
     (\<exists>tc. tcbs s t = Some tc \<and> owner_pcb tc' = owner_pcb tc \<and> owner_ptcb tc' = owner_ptcb tc))"

definition same_threads :: "'a kernel_scheme \<Rightarrow> 'a kernel_scheme \<Rightarrow> bool" where
  "same_threads s s' \<longleftrightarrow> same_owners s s' \<and> next_addr s \<le> next_addr s' \<and>
     (\<forall>a. map_option exited (ptcbs s' a) = map_option exited (ptcbs s a)) \<and>
     (\<forall>p. pstate (PT s' p) = pstate (PT s p) \<and> ptcb_list (PT s' p) = ptcb_list (PT s p) \<and>
        thread_count (PT s' p) = thread_count (PT s p))"

lemma same_ownersD:
  assumes "same_owners s s'" "tcbs s' t = Some tc'"
  obtains tc where "tcbs s t = Some tc" "owner_pcb tc' = owner_pcb tc" "owner_ptcb tc' = owner_ptcb tc"
  using assms unfolding same_owners_def by blast

lemma same_owners_refl [simp]: "same_owners s s" by (simp add: same_owners_def)

lemma same_owners_trans: "same_owners s s' \<Longrightarrow> same_owners s' s'' \<Longrightarrow> same_owners s s''"
  unfolding same_owners_def by fastforce

lemma same_threads_refl [simp]: "same_threads s s" by (simp add: same_threads_def)

lemma same_threads_trans: "same_threads s s' \<Longrightarrow> same_threads s' s'' \<Longrightarrow> same_threads s s''"
  using same_owners_trans [of s s' s''] by (simp add: same_threads_def)

lemma owner_map_same:
  assumes "\<forall>t. map_option owner_pcb (tcbs s' t) = map_option owner_pcb (tcbs s t)"
    "\<forall>t. map_option owner_ptcb (tcbs s' t) = map_option owner_ptcb (tcbs s t)" "next_tcb s' = next_tcb s"
  shows "same_owners s s'"
  unfolding same_owners_def
proof (intro conjI allI impI)
  fix t tc' assume "tcbs s' t = Some tc'"
  with assms(1,2) have "map_option owner_pcb (tcbs s t) = Some (owner_pcb tc')"
    "map_option owner_ptcb (tcbs s t) = Some (owner_ptcb tc')" by (metis option.map(2))+
  then show "\<exists>tc. tcbs s t = Some tc \<and> owner_pcb tc' = owner_pcb tc \<and> owner_ptcb tc' = owner_ptcb tc" by auto
qed (use assms(3) in simp)

lemma same_threads_kframe: "kframe s s' \<Longrightarrow> same_threads s s'"
  using more_kernel [of s' s] owner_map_same [of s' s] by (simp add: same_threads_def kframe_def)

lemma same_threads_files: "same_files s s' \<Longrightarrow> same_threads s s'"
  using owner_map_same [of s' s] by (simp add: same_files_def same_threads_def)

lemma live_cong: "map_option exited (ptcbs s' a) = map_option exited (ptcbs s a) \<Longrightarrow> live s' a = live s a"
  by (auto simp: live_def split: option.splits)

lemma same_threads_inv:
  assumes "same_threads s s'" "threads_inv s"
  shows "threads_inv s'"
proof -
  have l: "live s' a = live s a" for a using assms(1) live_cong by (metis same_threads_def)
  have d: "(ptcbs s' a = None) = (ptcbs s a = None)" for a
    using assms(1) unfolding same_threads_def by (metis option.map_disc_iff)
  then have dom: "dom (ptcbs s') = dom (ptcbs s)" by (simp add: dom_def)
  have le: "next_addr s \<le> next_addr s'" and same: "\<And>p. pstate (PT s' p) = pstate (PT s p)"
    "\<And>p. ptcb_list (PT s' p) = ptcb_list (PT s p)" "\<And>p. thread_count (PT s' p) = thread_count (PT s p)"
    using assms(1) by (simp_all add: same_threads_def)
  have "ptcbs_ok s'" using assms(2) le unfolding threads_inv_def ptcbs_ok_def same dom d by fastforce
  moreover have "live s' = live s" using l by blast
  then have "counts_ok s'" using assms(2) unfolding threads_inv_def counts_ok_def same by simp
  moreover have "owners_ok s'" unfolding owners_ok_def same d
  proof (intro conjI allI impI)
    fix n assume "next_tcb s' \<le> n"
    then have "tcbs s (Thr n) = None" using assms by (simp add: same_threads_def same_owners_def threads_inv_def owners_ok_def)
    then show "tcbs s' (Thr n) = None" using assms(1) unfolding same_threads_def same_owners_def
      by (metis option.collapse option.distinct(1))
  next
    fix t tc' assume "tcbs s' t = Some tc'"
    then obtain tc where tc: "tcbs s t = Some tc" "owner_pcb tc' = owner_pcb tc" "owner_ptcb tc' = owner_ptcb tc"
      using assms(1) same_ownersD unfolding same_threads_def by blast
    note ok = owners_okD [OF _ tc(1), folded tc(2,3)]
    have own: "owners_ok s" using assms(2) by (simp add: threads_inv_def)
    show "p < MAX_PROC" if "owner_pcb tc' = Some p" for p using ok(1) [OF own that] .
    fix a assume a: "owner_ptcb tc' = Some a"
    show "a < next_addr s'" using ok(2) [OF own a] le by simp
    show "\<exists>p. owner_pcb tc' = Some p \<and> a \<in> set (ptcb_list (PT s p))" if "ptcbs s a \<noteq> None"
      using ok(3) [OF own a that] .
  qed
  ultimately show ?thesis by (simp add: threads_inv_def)
qed

section \<open>A new thread\<close>

lemma threads_new:
  assumes inv: "threads_inv s" and p: "pstate (PT s p) = ALIVE" "p < MAX_PROC"
    and pt: "\<And>q. ptcb_list (PT s' q) = (if q = p then ptcb_list (PT s p) @ [next_addr s] else ptcb_list (PT s q))"
      "\<And>q. thread_count (PT s' q) = thread_count (PT s q) + (if q = p then 1 else 0)" "\<And>q. pstate (PT s' q) = pstate (PT s q)"
    and new: "ptcbs s' = (ptcbs s)(next_addr s \<mapsto> x)" "\<not> exited x" "next_addr s' = next_addr s + 1" "next_tcb s' = next_tcb s + 1"
    and own: "\<And>t tc'. tcbs s' t = Some tc' \<Longrightarrow> t = Thr (next_tcb s) \<and> owner_pcb tc' = Some p \<and> owner_ptcb tc' = Some (next_addr s) \<or>
      (\<exists>tc. tcbs s t = Some tc \<and> owner_pcb tc' = owner_pcb tc \<and> owner_ptcb tc' = owner_ptcb tc)"
  shows "threads_inv s'"
proof -
  let ?a = "next_addr s"
  have ok: "ptcbs_ok s" "counts_ok s" "owners_ok s" using inv by (simp_all add: threads_inv_def)
  have fresh: "ptcbs s ?a = None" using ok(1) by (auto simp: ptcbs_ok_def)
  then have fresh: "ptcbs s ?a = None" "\<And>q. ?a \<notin> set (ptcb_list (PT s q))"
    using ok(1) by (auto simp: ptcbs_ok_def)
  have l: "live s' a = (if a = ?a then True else live s a)" for a using new(1,2) by (simp add: live_def)
  have f: "filter (live s') (ptcb_list (PT s q)) = filter (live s) (ptcb_list (PT s q))" for q
    using fresh(2) [of q] by (intro filter_cong) (auto simp: l)
  have "ptcbs_ok s'" using ok(1) fresh unfolding ptcbs_ok_def pt new(1,3)
    by (auto simp: less_SucI split: if_splits)
  moreover have "counts_ok s'" using ok(2) p(1) unfolding counts_ok_def pt by (auto simp: f l)
  moreover have "owners_ok s'" unfolding owners_ok_def
  proof (intro conjI allI impI)
    fix n assume n: "next_tcb s' \<le> n"
    show "tcbs s' (Thr n) = None"
    proof (rule ccontr)
      assume "tcbs s' (Thr n) \<noteq> None"
      then obtain tc' where "tcbs s' (Thr n) = Some tc'" by auto
      from own [OF this] n new(4) ok(3) show False by (auto simp: owners_ok_def)
    qed
  next
    fix t tc' assume t: "tcbs s' t = Some tc'"
    consider (new) "t = Thr (next_tcb s)" "owner_pcb tc' = Some p" "owner_ptcb tc' = Some ?a"
      | (old) tc where "tcbs s t = Some tc" "owner_pcb tc' = owner_pcb tc" "owner_ptcb tc' = owner_ptcb tc"
      using own [OF t] by blast
    note c = this
    show "q < MAX_PROC" if "owner_pcb tc' = Some q" for q
      using c by cases (use that p(2) owners_okD(1) [OF ok(3)] in auto)
    fix a assume a: "owner_ptcb tc' = Some a"
    show "a < next_addr s'" using c
    proof cases
      case (old tc)
      with a new(3) owners_okD(2) [OF ok(3) old(1)] show ?thesis by simp
    qed (use a new(3) in simp)
    assume d: "ptcbs s' a \<noteq> None"
    show "\<exists>q. owner_pcb tc' = Some q \<and> a \<in> set (ptcb_list (PT s' q))" using c
    proof cases
      case (old tc)
      then have "a < ?a" using owners_okD(2) [OF ok(3) old(1), of a] a by simp
      then have "a \<noteq> ?a" by simp
      with d new(1) have "ptcbs s a \<noteq> None" by simp
      from owners_okD(3) [OF ok(3) old(1) _ this] old a pt(1) show ?thesis by fastforce
    qed (use a pt(1) in auto)
  qed
  ultimately show ?thesis by (simp add: threads_inv_def)
qed

section \<open>A thread exits or is joined\<close>

text \<open>
  The general step: some PTCBs leave the lists and are freed, none of them live, or a live one
  exits and is counted no more.
\<close>

lemma threads_shrink:
  assumes inv: "threads_inv s"
    and own: "same_owners s s'" and addr: "next_addr s \<le> next_addr s'"
    and pt: "\<And>q. ptcb_list (PT s' q) = filter (\<lambda>a. a \<notin> F) (ptcb_list (PT s q))"
    and st: "\<And>q. pstate (PT s' q) \<noteq> ALIVE \<Longrightarrow> ptcb_list (PT s' q) = []"
    and ptcbs: "\<And>a. a \<notin> F \<Longrightarrow> ptcbs s' a = None \<longleftrightarrow> ptcbs s a = None" "\<And>a. a \<in> F \<Longrightarrow> ptcbs s' a = None"
    and count: "\<And>q. thread_count (PT s' q) = int (length (filter (live s') (ptcb_list (PT s' q))))"
  shows "threads_inv s'"
proof -
  have ok: "ptcbs_ok s" "owners_ok s" using inv by (simp_all add: threads_inv_def)
  have d: "ptcbs s' a \<noteq> None \<longleftrightarrow> a \<notin> F \<and> ptcbs s a \<noteq> None" for a
    by (cases "a \<in> F") (use ptcbs(1) [of a] ptcbs(2) [of a] in simp_all)
  have "ptcbs_ok s'" unfolding ptcbs_ok_def pt
  proof (intro conjI allI impI)
    fix p
    show "distinct (filter (\<lambda>a. a \<notin> F) (ptcb_list (PT s p)))" using ok(1) by (simp add: ptcbs_ok_def)
    show "set (filter (\<lambda>a. a \<notin> F) (ptcb_list (PT s p))) \<subseteq> dom (ptcbs s')"
    proof
      fix a assume "a \<in> set (filter (\<lambda>a. a \<notin> F) (ptcb_list (PT s p)))"
      then have "a \<notin> F" "ptcbs s a \<noteq> None" using ok(1) by (auto simp: ptcbs_ok_def)
      then show "a \<in> dom (ptcbs s')" using d [of a] by (simp add: domIff)
    qed
    show "p = q" if "a \<in> set (filter (\<lambda>a. a \<notin> F) (ptcb_list (PT s p)))" "a \<in> set (filter (\<lambda>a. a \<notin> F) (ptcb_list (PT s q)))" for q a
      using that ok(1) by (auto simp: ptcbs_ok_def)
    show "a < next_addr s'" if "ptcbs s' a \<noteq> None" for a
    proof -
      have "a < next_addr s" using that d [of a] ok(1) unfolding ptcbs_ok_def by blast
      with addr show ?thesis by simp
    qed
  qed
  moreover have "counts_ok s'" unfolding counts_ok_def using count st by blast
  moreover have "owners_ok s'" unfolding owners_ok_def
  proof (intro conjI allI impI)
    fix n assume "next_tcb s' \<le> n"
    then have "tcbs s (Thr n) = None" using own ok(2) by (simp add: same_owners_def owners_ok_def)
    then show "tcbs s' (Thr n) = None" using own unfolding same_owners_def by (metis option.collapse option.distinct(1))
  next
    fix t tc' assume "tcbs s' t = Some tc'"
    then obtain tc where tc: "tcbs s t = Some tc" "owner_pcb tc' = owner_pcb tc" "owner_ptcb tc' = owner_ptcb tc"
      using own same_ownersD by blast
    show "p < MAX_PROC" if "owner_pcb tc' = Some p" for p using owners_okD(1) [OF ok(2) tc(1)] that tc(2) by simp
    fix a assume a: "owner_ptcb tc' = Some a"
    show "a < next_addr s'" using owners_okD(2) [OF ok(2) tc(1), of a] a tc(3) addr by simp
    show "\<exists>p. owner_pcb tc' = Some p \<and> a \<in> set (ptcb_list (PT s' p))" if "ptcbs s' a \<noteq> None"
      using owners_okD(3) [OF ok(2) tc(1)] a tc(2,3) d [of a] that by (auto simp: pt)
  qed
  ultimately show ?thesis by (simp add: threads_inv_def)
qed

lemma remove1_filter: "distinct xs \<Longrightarrow> remove1 x xs = filter (\<lambda>y. y \<notin> {x}) xs"
  by (simp add: distinct_remove1_removeAll removeAll_filter_not_eq eq_commute)

lemma filter_filter_notin: "(\<And>a. a \<in> F \<Longrightarrow> \<not> P a) \<Longrightarrow> filter P (filter (\<lambda>a. a \<notin> F) xs) = filter P xs"
  by (auto intro: filter_cong)

lemma upd_ptcb_threads:
  assumes "upd_ptcb a f s = Some s'" "\<And>x. exited (f x) = exited x"
  shows "same_threads s s'"
  using assms by (auto simp: upd_ptcb_def same_threads_def same_owners_def)

lemma upd_ptcb_family: "upd_ptcb a f s = Some s' \<Longrightarrow> same_family s s'"
  by (auto simp: upd_ptcb_def same_family_def)

lemma free_exited_inv:
  assumes "threads_inv s" "\<not> live s a" "free_ptcb a (remove_ptcb_node a s) = Some s'"
  shows "threads_inv s'"
proof -
  have e: "ptcb_list (PT s' q) = remove1 a (ptcb_list (PT s q))" "thread_count (PT s' q) = thread_count (PT s q)"
    "pstate (PT s' q) = pstate (PT s q)" "ptcbs s' = (ptcbs s)(a := None)" "same_owners s s'" "next_addr s' = next_addr s" for q
    using assms(3) by (auto simp: free_ptcb_def remove_ptcb_node_def same_owners_def)
  have ok: "ptcbs_ok s" "counts_ok s" using assms(1) by (simp_all add: threads_inv_def)
  have pt: "ptcb_list (PT s' q) = filter (\<lambda>b. b \<notin> {a}) (ptcb_list (PT s q))" for q
    unfolding e(1) using ok(1) by (intro remove1_filter) (simp add: ptcbs_ok_def)
  have "live s' b = live s b" if "b \<noteq> a" for b using that by (simp add: live_def e(4))
  then have "filter (live s') (ptcb_list (PT s' q)) = filter (live s) (ptcb_list (PT s' q))" for q
    unfolding pt by (intro filter_cong) auto
  moreover have "filter (live s) (ptcb_list (PT s' q)) = filter (live s) (ptcb_list (PT s q))" for q
    unfolding pt using assms(2) by (intro filter_filter_notin) auto
  ultimately have c: "thread_count (PT s' q) = int (length (filter (live s') (ptcb_list (PT s' q))))" for q
    using ok(2) by (simp add: counts_ok_def e(2))
  have "ptcb_list (PT s' q) = []" if "pstate (PT s' q) \<noteq> ALIVE" for q
    using that ok(2) by (simp add: counts_ok_def e(1,3))
  from threads_shrink [OF assms(1) e(5) _ pt this _ _ c] show ?thesis by (simp add: e(4,6))
qed

lemma join_loop_threads:
  assumes "threads_inv s" "join_loop a s = Some (r, s')"
  shows "threads_inv s' \<and> same_family s s'"
proof -
  obtain x where x: "ptcbs s a = Some x" using assms(2) by (auto simp: join_loop_def)
  show ?thesis
  proof (cases "\<not> exited x \<and> \<not> detached x")
    case False
    obtain s1 where s1: "upd_ptcb a (\<lambda>x. x\<lparr>ptcb_refcount := ptcb_refcount x - 1\<rparr>) s = Some s1" "ptcbs s1 a = Some (x\<lparr>ptcb_refcount := ptcb_refcount x - 1\<rparr>)"
      using x by (auto simp: upd_ptcb_def)
    have inv1: "threads_inv s1" "same_family s s1"
      using same_threads_inv [OF upd_ptcb_threads [OF s1(1)] assms(1)] upd_ptcb_family [OF s1(1)] by simp_all
    show ?thesis
    proof (cases "detached x \<or> ptcb_refcount x \<noteq> 1")
      case True
      then show ?thesis using assms(2) x False s1 inv1 by (auto simp: join_loop_def split: if_splits)
    next
      case f: False
      then have "free_ptcb a (remove_ptcb_node a s1) = Some s'" using assms(2) x False s1 by (auto simp: join_loop_def)
      moreover from this have "same_family s1 s'" by (auto simp: free_ptcb_def remove_ptcb_node_def same_family_def)
      moreover have "\<not> live s1 a" using s1(2) False f by (simp add: live_def)
      ultimately show ?thesis using free_exited_inv [OF inv1(1)] same_family_trans [OF inv1(2)] by blast
    qed
  qed (use assms x in \<open>auto simp: join_loop_def\<close>)
qed

end
