(* ===== verification/Process_Inv.thy ===== *)
theory Process_Inv
  imports Thread_Inv
begin

text \<open>
  The system calls on processes and threads keep the family, the threads and the reference
  counts of the file table in order.
\<close>

section \<open>Creating threads\<close>

text \<open>What a new thread changes: its TCB, its PTCB and the lists of its process.\<close>

definition gains_thread :: "pid \<Rightarrow> 'a kernel_scheme \<Rightarrow> 'a kernel_scheme \<Rightarrow> bool" where
  "gains_thread p s s' \<longleftrightarrow> next_tcb s' = next_tcb s + 1 \<and> next_addr s' = next_addr s + 1 \<and> cctx s' = cctx s \<and>
     FT s' = FT s \<and> FCB_freelist s' = FCB_freelist s \<and> pcb_freelist s' = pcb_freelist s \<and> process_count s' = process_count s \<and>
     (\<forall>q. (PT s' q)\<lparr>main_thread := None\<rparr> = (if q = p then (PT s p)\<lparr>main_thread := None,
        ptcb_list := ptcb_list (PT s p) @ [next_addr s], thread_count := thread_count (PT s p) + 1\<rparr>
        else (PT s q)\<lparr>main_thread := None\<rparr>)) \<and>
     (\<forall>b. b \<noteq> next_addr s \<longrightarrow> ptcbs s' b = ptcbs s b) \<and>
     (case ptcbs s' (next_addr s) of None \<Rightarrow> False | Some x \<Rightarrow> \<not> exited x \<and> 0 < ptcb_refcount x) \<and>
     (\<forall>t tc'. tcbs s' t = Some tc' \<longrightarrow>
        t = Thr (next_tcb s) \<and> owner_pcb tc' = Some p \<and> owner_ptcb tc' = Some (next_addr s) \<or>
        (\<exists>tc. tcbs s t = Some tc \<and> owner_pcb tc' = owner_pcb tc \<and> owner_ptcb tc' = owner_ptcb tc)) \<and>
     (\<forall>t. tcbs s t \<noteq> None \<longrightarrow> tcbs s' t \<noteq> None)"

lemma gains_thread_kframe:
  assumes "gains_thread p s s1" "kframe s1 s2"
  shows "gains_thread p s s2"
proof -
  have k: "PT s2 = PT s1" "ptcbs s2 = ptcbs s1" "FT s2 = FT s1" "FCB_freelist s2 = FCB_freelist s1"
    "pcb_freelist s2 = pcb_freelist s1" "process_count s2 = process_count s1" "next_addr s2 = next_addr s1"
    "next_tcb s2 = next_tcb s1" "cctx s2 = cctx s1"
    using assms(2) more_kernel [of s2 s1] by (simp_all add: kframe_def)
  have "same_owners s1 s2" using assms(2) by (intro owner_map_same) (simp_all add: kframe_def)
  then have own: "\<exists>tc1. tcbs s1 t = Some tc1 \<and> owner_pcb tc' = owner_pcb tc1 \<and> owner_ptcb tc' = owner_ptcb tc1"
    if "tcbs s2 t = Some tc'" for t tc' using that unfolding same_owners_def by blast
  have "map_option owner_pcb (tcbs s2 t) = map_option owner_pcb (tcbs s1 t)" for t using assms(2) by (simp add: kframe_def)
  then have n: "tcbs s2 t = None \<longleftrightarrow> tcbs s1 t = None" for t by (metis option.map_disc_iff)
  have "t = Thr (next_tcb s) \<and> owner_pcb tc' = Some p \<and> owner_ptcb tc' = Some (next_addr s) \<or>
      (\<exists>tc. tcbs s t = Some tc \<and> owner_pcb tc' = owner_pcb tc \<and> owner_ptcb tc' = owner_ptcb tc)"
    if t: "tcbs s2 t = Some tc'" for t tc'
  proof -
    obtain tc1 where tc1: "tcbs s1 t = Some tc1" "owner_pcb tc' = owner_pcb tc1" "owner_ptcb tc' = owner_ptcb tc1"
      using own [OF t] by blast
    show ?thesis unfolding tc1(2,3) using assms(1) tc1(1) unfolding gains_thread_def by blast
  qed
  with assms(1) show ?thesis unfolding gains_thread_def k n by blast
qed

lemma start_process_gains:
  assumes "start_process c p s = Some s'" "tcbs s (Thr (next_tcb s)) = None"
  shows "gains_thread p s s'"
proof -
  let ?t = "Thr (next_tcb s)"
  let ?s2 = "upd_pcb p (\<lambda>pcb. pcb\<lparr>main_thread := Some ?t\<rparr>) (snd (spawn_thread (Some p) start_main_thread s))"
  let ?np = "PT ?s2 p"
  obtain a s3 s4 s5 r where s5: "acquire_PTCB ?t (main_task ?np) (argl ?np) (args ?np) ?s2 = Some (a, s3)"
    "upd_tcb ?t (\<lambda>tc. tc\<lparr>owner_ptcb := Some a\<rparr>) s3 = Some s4"
    "upd_ptcb a (\<lambda>x. x\<lparr>ptcb_refcount := ptcb_refcount x + 1\<rparr>) s4 = Some s5"
    "wakeup c ?t (upd_pcb p (\<lambda>pcb. pcb\<lparr>ptcb_list := ptcb_list pcb @ [a], thread_count := thread_count pcb + 1\<rparr>) s5) = Some (r, s')"
    using assms(1) by (auto simp: start_process_def spawn_thread_def Let_def)
  then have a: "a = next_addr s"
    by (auto simp: spawn_thread_def acquire_PTCB_def xmalloc_def upd_pcb_def Let_def split: if_splits)
  have "gains_thread p s (upd_pcb p (\<lambda>pcb. pcb\<lparr>ptcb_list := ptcb_list pcb @ [a], thread_count := thread_count pcb + 1\<rparr>) s5)"
    using s5(1-3) assms(2) unfolding a
    by (auto simp: spawn_thread_def acquire_PTCB_def xmalloc_def cond_init_def upd_tcb_def upd_ptcb_def
        upd_pcb_def gains_thread_def Let_def split: if_splits)
  from gains_thread_kframe [OF this wakeup_kframe [OF s5(4)]] show ?thesis .
qed

lemma sys_CreateThread_gains:
  assumes "sys_CreateThread c task al a s = Some (tid, s')" "tcbs s (Thr (next_tcb s)) = None" "CURPROC c s = Some p"
  shows "gains_thread p s s' \<and> tid = next_addr s"
proof -
  let ?t = "Thr (next_tcb s)" and ?a = "next_addr s"
  let ?s1 = "snd (spawn_thread (Some p) thread_Exe s)"
  obtain s2 s3 r where s3: "upd_tcb ?t (\<lambda>tc. tc\<lparr>owner_pcb := Some p\<rparr>) ?s1 = Some s2" "acquire_PTCB ?t task al a s2 = Some (tid, s3)"
    "wakeup c ?t (upd_pcb p (\<lambda>pcb. pcb\<lparr>ptcb_list := ptcb_list pcb @ [tid], thread_count := thread_count pcb + 1\<rparr>) s3) = Some (r, s')"
    using assms(1,3) by (auto simp: sys_CreateThread_def spawn_thread_def Let_def)
  then have tid: "tid = ?a"
    by (auto simp: spawn_thread_def acquire_PTCB_def xmalloc_def upd_tcb_def Let_def split: if_splits)
  have "gains_thread p s (upd_pcb p (\<lambda>pcb. pcb\<lparr>ptcb_list := ptcb_list pcb @ [tid], thread_count := thread_count pcb + 1\<rparr>) s3)"
    using s3(1,2) assms(2) unfolding tid
    by (auto simp: spawn_thread_def acquire_PTCB_def xmalloc_def cond_init_def upd_tcb_def upd_ptcb_def
        upd_pcb_def gains_thread_def Let_def split: if_splits)
  from gains_thread_kframe [OF this wakeup_kframe [OF s3(3)]] tid show ?thesis by simp
qed

lemma gains_thread_PT:
  assumes "gains_thread p s s'"
  shows "ptcb_list (PT s' q) = (if q = p then ptcb_list (PT s p) @ [next_addr s] else ptcb_list (PT s q))"
    "thread_count (PT s' q) = thread_count (PT s q) + (if q = p then 1 else 0)" "pstate (PT s' q) = pstate (PT s q)"
    "parent (PT s' q) = parent (PT s q)" "children_list (PT s' q) = children_list (PT s q)"
    "exited_list (PT s' q) = exited_list (PT s q)" "FIDT (PT s' q) = FIDT (PT s q)"
proof -
  have e: "(PT s' q)\<lparr>main_thread := None\<rparr> = (if q = p then (PT s p)\<lparr>main_thread := None,
        ptcb_list := ptcb_list (PT s p) @ [next_addr s], thread_count := thread_count (PT s p) + 1\<rparr>
        else (PT s q)\<lparr>main_thread := None\<rparr>)" using assms by (simp add: gains_thread_def)
  show "ptcb_list (PT s' q) = (if q = p then ptcb_list (PT s p) @ [next_addr s] else ptcb_list (PT s q))"
    using arg_cong [OF e, of ptcb_list] by (simp split: if_splits)
  show "thread_count (PT s' q) = thread_count (PT s q) + (if q = p then 1 else 0)"
    using arg_cong [OF e, of thread_count] by (simp split: if_splits)
  show "pstate (PT s' q) = pstate (PT s q)" using arg_cong [OF e, of pstate] by (simp split: if_splits)
  show "parent (PT s' q) = parent (PT s q)" using arg_cong [OF e, of parent] by (simp split: if_splits)
  show "children_list (PT s' q) = children_list (PT s q)" using arg_cong [OF e, of children_list] by (simp split: if_splits)
  show "exited_list (PT s' q) = exited_list (PT s q)" using arg_cong [OF e, of exited_list] by (simp split: if_splits)
  show "FIDT (PT s' q) = FIDT (PT s q)" using arg_cong [OF e, of FIDT] by (simp split: if_splits)
qed

lemma gains_thread_inv:
  assumes "gains_thread p s s'" "threads_inv s" "pstate (PT s p) = ALIVE" "p < MAX_PROC"
  shows "threads_inv s'" "same_family s s'"
proof -
  note e = gains_thread_PT [OF assms(1)]
  obtain x where x: "ptcbs s' (next_addr s) = Some x" "\<not> exited x" "\<And>b. b \<noteq> next_addr s \<Longrightarrow> ptcbs s' b = ptcbs s b"
    using assms(1) by (auto simp: gains_thread_def split: option.splits)
  have "ptcbs s' = (ptcbs s)(next_addr s \<mapsto> x)" using x by (auto simp: fun_eq_iff)
  moreover have "next_addr s' = next_addr s + 1" "next_tcb s' = next_tcb s + 1"
    "pcb_freelist s' = pcb_freelist s" "process_count s' = process_count s" using assms(1) by (simp_all add: gains_thread_def)
  moreover have "t = Thr (next_tcb s) \<and> owner_pcb tc' = Some p \<and> owner_ptcb tc' = Some (next_addr s) \<or>
      (\<exists>tc. tcbs s t = Some tc \<and> owner_pcb tc' = owner_pcb tc \<and> owner_ptcb tc' = owner_ptcb tc)"
    if "tcbs s' t = Some tc'" for t tc' using assms(1) that unfolding gains_thread_def by blast
  ultimately show "threads_inv s'" "same_family s s'"
    using threads_new [OF assms(2-4) e(1-3) _ x(2)] e(3-6) by (auto simp: same_family_def)
qed

section \<open>The invariant of the kernel\<close>

text \<open>Only processes that are alive have open file ids.\<close>

definition fids_dead :: "'a kernel_scheme \<Rightarrow> bool" where
  "fids_dead s \<longleftrightarrow> (\<forall>p. pstate (PT s p) \<noteq> ALIVE \<longrightarrow> FIDT (PT s p) = (\<lambda>_. None))"

definition kernel_ok :: "(fcb_ref \<Rightarrow> int) \<Rightarrow> 'a kernel_scheme \<Rightarrow> bool" where
  "kernel_ok pins s \<longleftrightarrow> family_inv s \<and> threads_inv s \<and> fids_dead s \<and> files_inv {} pins s \<and> (\<forall>f. 0 \<le> pins f \<and> pins f < 2 ^ 31)"

lemma threads_CURPROC: "threads_inv s \<Longrightarrow> CURPROC c s = Some p \<Longrightarrow> p < MAX_PROC"
  using owners_okD(1) [of s] by (auto simp: threads_inv_def CURPROC_def)

lemma kernel_ok_files: "kernel_ok pins s \<Longrightarrow> files_ok pins s"
  using threads_CURPROC by (auto simp: kernel_ok_def files_ok_def)

definition same_streams :: "'a kernel_scheme \<Rightarrow> 'a kernel_scheme \<Rightarrow> bool" where
  "same_streams s s' \<longleftrightarrow> FT s' = FT s \<and> FCB_freelist s' = FCB_freelist s \<and> (\<forall>p. FIDT (PT s' p) = FIDT (PT s p))"

lemma same_streams_refl [simp]: "same_streams s s" by (simp add: same_streams_def)

lemma same_streams_trans: "same_streams s s' \<Longrightarrow> same_streams s' s'' \<Longrightarrow> same_streams s s''"
  by (simp add: same_streams_def)

lemma same_streams_inv: "same_streams s s' \<Longrightarrow> files_inv L pins s' = files_inv L pins s"
  by (simp add: same_streams_def files_inv_def held_def refs_def fidt_ok_def)

lemma same_streams_kframe: "kframe s s' \<Longrightarrow> same_streams s s'"
  using more_kernel [of s' s] by (simp add: same_streams_def kframe_def)

text \<open>A step that touches neither the family, nor the threads, nor the streams.\<close>

lemma kernel_ok_same:
  assumes "kernel_ok pins s" "same_family s s'" "same_threads s s'" "same_streams s s'"
  shows "kernel_ok pins s'"
  using assms same_family_inv [OF assms(2)] same_threads_inv [OF assms(3)] same_streams_inv [OF assms(4)]
  by (simp add: kernel_ok_def fids_dead_def same_streams_def same_family_def)

lemma kernel_ok_kframe: "kernel_ok pins s \<Longrightarrow> kframe s s' \<Longrightarrow> kernel_ok pins s'"
  using kernel_ok_same same_family_kframe same_threads_kframe same_streams_kframe by blast

lemma kernel_ok_gains:
  assumes "kernel_ok pins s" "gains_thread p s s'" "pstate (PT s p) = ALIVE" "p < MAX_PROC"
  shows "kernel_ok pins s'"
proof -
  have ok: "family_inv s" "threads_inv s" "fids_dead s" using assms(1) by (simp_all add: kernel_ok_def)
  note g = gains_thread_inv [OF assms(2) ok(2) assms(3,4)]
  have "same_streams s s'" using assms(2) gains_thread_PT(7) [OF assms(2)] by (simp add: same_streams_def gains_thread_def)
  moreover have "fids_dead s'" using ok(3) gains_thread_PT(3,7) [OF assms(2)] by (simp add: fids_dead_def)
  ultimately show ?thesis
    using assms(1) g same_family_inv [OF g(2)] same_streams_inv [of s s'] by (simp add: kernel_ok_def)
qed

lemma free_TCB: "kernel_ok pins s \<Longrightarrow> tcbs s (Thr (next_tcb s)) = None"
  by (simp add: kernel_ok_def threads_inv_def owners_ok_def)

lemma sys_CreateThread_ok:
  assumes "kernel_ok pins s" "caller c t p a s" "sys_CreateThread c task al ag s = Some (tid, s')"
  shows "kernel_ok pins s' \<and> gains_thread p s s'"
proof -
  have "threads_inv s" using assms(1) by (simp add: kernel_ok_def)
  note al = caller_alive [OF this assms(2)]
  have "gains_thread p s s'"
    using sys_CreateThread_gains [OF assms(3) free_TCB [OF assms(1)] caller_CURPROC [OF assms(2)]] by simp
  with kernel_ok_gains [OF assms(1) this al(2,3)] show ?thesis by simp
qed

section \<open>Exec\<close>

lemma inherit_fid_frame:
  "same_family s (inherit_fid np cp i s)" "same_threads s (inherit_fid np cp i s)"
  "q \<noteq> np \<Longrightarrow> FIDT (PT (inherit_fid np cp i s) q) = FIDT (PT s q)"
  "j \<noteq> i \<Longrightarrow> FIDT (PT (inherit_fid np cp i s) np) j = FIDT (PT s np) j"
  "pstate (PT (inherit_fid np cp i s) q) = pstate (PT s q)" "CURPROC c (inherit_fid np cp i s) = CURPROC c s"
  "next_tcb (inherit_fid np cp i s) = next_tcb s" "tcbs (inherit_fid np cp i s) = tcbs s"
  by (auto simp: inherit_fid_def set_FIDT_def upd_pcb_def FCB_incref_def upd_fcb_def Let_def same_family_def
      same_threads_def same_owners_def split: option.splits)

lemma inherit_fid_files:
  assumes "files_ok pins s" "np \<noteq> cp" "np < MAX_PROC" "FIDT (PT s np) i = None" "i < MAX_FILEID"
  shows "files_ok pins (inherit_fid np cp i s)"
proof (cases "FIDT (PT s cp) i")
  case None
  have inv: "files_inv {} pins s" using assms(1) by (simp add: files_ok_def)
  have "repin None None pins = pins" by (auto simp: repin_def)
  with files_inv_set_FIDT [OF inv, of None np i] assms(4) None assms(1) show ?thesis
    by (simp add: inherit_fid_def files_ok_def)
next
  case (Some f)
  note h = held_named [OF assms(1) Some]
  have inv: "files_inv {} pins s" using assms(1) by (simp add: files_ok_def)
  let ?s1 = "set_FIDT np i (Some f) s"
  have i1: "files_inv {} (repin None (Some f) pins) ?s1"
    using files_inv_set_FIDT [OF inv, of "Some f" np i] assms(3-5) h(1) by simp
  have "held (repin None (Some f) pins) f ?s1 = held pins f s"
    using held_set_FIDT [of s np i "Some f" pins f] assms(4) inv by (simp add: files_inv_def)
  with files_inv_incref [OF i1 h(1)] h(5,6)
  have "files_inv {} ((repin None (Some f) pins)(f := repin None (Some f) pins f + 1)) (FCB_incref f ?s1)" by simp
  moreover have "(repin None (Some f) pins)(f := repin None (Some f) pins f + 1) = pins" by (auto simp: repin_def fun_eq_iff)
  ultimately show ?thesis using assms(1) Some by (simp add: inherit_fid_def files_ok_def)
qed

lemma inherit_all:
  assumes "files_ok pins s" "np \<noteq> cp" "np < MAX_PROC" "\<forall>i \<in> set is. FIDT (PT s np) i = None \<and> i < MAX_FILEID" "distinct is"
  shows "files_ok pins (fold (inherit_fid np cp) is s) \<and> same_family s (fold (inherit_fid np cp) is s) \<and>
    same_threads s (fold (inherit_fid np cp) is s) \<and> (\<forall>q. q \<noteq> np \<longrightarrow> FIDT (PT (fold (inherit_fid np cp) is s) q) = FIDT (PT s q)) \<and>
    (\<forall>i \<in> set is. FIDT (PT (fold (inherit_fid np cp) is s) np) i = FIDT (PT s cp) i)"
  using assms
proof (induction "is" arbitrary: s)
  case (Cons i "is")
  let ?s = "inherit_fid np cp i s"
  have f: "files_ok pins ?s" using inherit_fid_files [OF Cons.prems(1-3)] Cons.prems(4) by simp
  have "FIDT (PT ?s np) j = FIDT (PT s np) j" if "j \<in> set is" for j
    using that Cons.prems(5) by (intro inherit_fid_frame(4)) auto
  then have "\<forall>j \<in> set is. FIDT (PT ?s np) j = None \<and> j < MAX_FILEID" using Cons.prems(4) by simp
  note ih = Cons.IH [OF f Cons.prems(2,3) this]
  have "FIDT (PT ?s np) i = FIDT (PT s cp) i"
    by (auto simp: inherit_fid_def Let_def set_FIDT_def upd_pcb_def FCB_incref_def upd_fcb_def split: option.splits)
  moreover have "FIDT (PT (fold (inherit_fid np cp) js s1) np) i = FIDT (PT s1 np) i" if "i \<notin> set js" for js and s1 :: "'a kernel_scheme"
    using that by (induction js arbitrary: s1) (auto simp: inherit_fid_frame(4))
  then have "FIDT (PT (fold (inherit_fid np cp) is ?s) np) i = FIDT (PT ?s np) i" using Cons.prems(5) by simp
  ultimately show ?case
    using ih Cons.prems(2,5) same_family_trans [OF inherit_fid_frame(1)] same_threads_trans [OF inherit_fid_frame(2)]
    by (auto simp: inherit_fid_frame(3))
qed simp

text \<open>\<^verbatim>\<open>sys_Exec\<close> on behalf of a process: the new process is a child with copies of the file ids.\<close>

definition execs :: "pid \<Rightarrow> pid \<Rightarrow> Task option \<Rightarrow> int \<Rightarrow> byte list option \<Rightarrow> 'a kernel_scheme \<Rightarrow> 'a kernel_scheme \<Rightarrow> bool" where
  "execs p cp call al newargs s s' \<longleftrightarrow> same_family (adopt p cp s) s' \<and>
     (\<forall>q. FIDT (PT s' q) = (if q = p then FIDT (PT s cp) else FIDT (PT s q))) \<and>
     main_task (PT s' p) = call \<and> argl (PT s' p) = al \<and> args (PT s' p) = newargs \<and>
     thread_count (PT s' p) = (if call = None then 0 else 1)"

lemma adopt_keeps:
  assumes "pcb_freelist s = Some p"
  shows "FT (adopt p cp s) = FT s" "FCB_freelist (adopt p cp s) = FCB_freelist s" "tcbs (adopt p cp s) = tcbs s"
    "next_tcb (adopt p cp s) = next_tcb s" "ptcbs (adopt p cp s) = ptcbs s" "next_addr (adopt p cp s) = next_addr s"
    "CURPROC c (adopt p cp s) = CURPROC c s" "FIDT (PT (adopt p cp s) q) = FIDT (PT s q)"
    "ptcb_list (PT (adopt p cp s) q) = ptcb_list (PT s q)" "thread_count (PT (adopt p cp s) q) = thread_count (PT s q)"
    "pstate (PT (adopt p cp s) q) = (if q = p then ALIVE else pstate (PT s q))"
  using assms by (auto simp: adopt_def acquire_PCB_def upd_pcb_def)

lemma kernel_ok_adopt:
  assumes "kernel_ok pins s" "pcb_freelist s = Some p" "cp < MAX_PROC" "pstate (PT s cp) = ALIVE"
  shows "kernel_ok pins (adopt p cp s)"
proof -
  have ok: "family_inv s" "threads_inv s" "fids_dead s" "files_inv {} pins s" using assms(1) by (simp_all add: kernel_ok_def)
  note k = adopt_keeps [OF assms(2), of cp]
  note h = freelist_head [OF ok(1) assms(2)]
  have "same_streams s (adopt p cp s)" by (simp add: same_streams_def k)
  moreover have "live (adopt p cp s) = live s" by (auto simp: live_def k fun_eq_iff)
  then have "threads_inv (adopt p cp s)" using ok(2)
    by (simp add: threads_inv_def ptcbs_ok_def counts_ok_def owners_ok_def k)
  moreover have "fids_dead (adopt p cp s)" using ok(3) by (simp add: fids_dead_def k)
  ultimately show ?thesis
    using family_adopt [OF ok(1) assms(2-4)] ok(4) same_streams_inv [of s "adopt p cp s"] assms(1) by (simp add: kernel_ok_def)
qed

text \<open>The new process, up to the test of \<^verbatim>\<open>call\<close>.\<close>

definition prepared :: "pid \<Rightarrow> pid \<Rightarrow> Task option \<Rightarrow> int \<Rightarrow> byte list option \<Rightarrow> 'a kernel_scheme \<Rightarrow> 'a kernel_scheme" where
  "prepared p cp call al newargs s = upd_pcb p (\<lambda>pcb. pcb\<lparr>main_task := call, argl := al, args := newargs\<rparr>)
     (fold (inherit_fid p cp) [0..<MAX_FILEID] (adopt p cp s))"

lemma sys_Exec_eq:
  assumes "pcb_freelist s = Some p" "1 < p" "CURPROC c s = Some cp"
  shows "sys_Exec c call al ag s =
    do { newargs \<leftarrow> copy_exec_args al ag;
         s4 \<leftarrow> (if call = None then Some (prepared p cp call al newargs s) else start_process c p (prepared p cp call al newargs s));
         Some (int p, s4) }"
proof -
  let ?s1 = "snd (acquire_PCB s)"
  have aq: "acquire_PCB s = (Some p, ?s1)" using assms(1) by (simp add: acquire_PCB_def)
  have "CURPROC c ?s1 = Some cp" using assms(1,3) by (simp add: acquire_PCB_def upd_pcb_def)
  moreover have "\<not> get_pid (Some p) \<le> 1" using assms(2) by (simp add: get_pid_def)
  ultimately show ?thesis unfolding prepared_def adopt_def by (subst sys_Exec_def, subst aq) (simp add: get_pid_def Let_def)
qed

lemma inherit_all_tasks:
  "ptcbs (fold (inherit_fid np cp) is s) = ptcbs s \<and> next_addr (fold (inherit_fid np cp) is s) = next_addr s"
  by (induction "is" arbitrary: s)
    (simp_all add: inherit_fid_def set_FIDT_def upd_pcb_def FCB_incref_def upd_fcb_def Let_def split: option.splits)

lemma prepared_ok:
  assumes "kernel_ok pins s" "pcb_freelist s = Some p" "cp < MAX_PROC" "pstate (PT s cp) = ALIVE"
  shows "kernel_ok pins (prepared p cp call al newargs s)" "same_family (adopt p cp s) (prepared p cp call al newargs s)"
    "FIDT (PT (prepared p cp call al newargs s) q) = (if q = p then FIDT (PT s cp) else FIDT (PT s q))"
    "pstate (PT (prepared p cp call al newargs s) p) = ALIVE"
    "main_task (PT (prepared p cp call al newargs s) p) = call" "argl (PT (prepared p cp call al newargs s) p) = al"
    "args (PT (prepared p cp call al newargs s) p) = newargs" "thread_count (PT (prepared p cp call al newargs s) p) = 0"
    "ptcbs (prepared p cp call al newargs s) = ptcbs s" "next_addr (prepared p cp call al newargs s) = next_addr s"
    "ptcb_list (PT (prepared p cp call al newargs s) q) = ptcb_list (PT s q)"
proof -
  have ok: "family_inv s" "threads_inv s" "fids_dead s" using assms(1) by (simp_all add: kernel_ok_def)
  note h = freelist_head [OF ok(1) assms(2)] and k = adopt_keeps [OF assms(2), of cp]
  let ?s3 = "adopt p cp s"
  have pcp: "p \<noteq> cp" using h(2) assms(4) by auto
  have ok3: "kernel_ok pins ?s3" by (rule kernel_ok_adopt [OF assms])
  have none: "FIDT (PT s p) = (\<lambda>_. None)" using ok(3) h(2) by (simp add: fids_dead_def)
  define s5 where "s5 = fold (inherit_fid p cp) [0..<MAX_FILEID] ?s3"
  have inh: "files_ok pins s5" "same_family ?s3 s5" "same_threads ?s3 s5"
    "\<forall>q. q \<noteq> p \<longrightarrow> FIDT (PT s5 q) = FIDT (PT s q)" "\<forall>i < MAX_FILEID. FIDT (PT s5 p) i = FIDT (PT s cp) i"
    using inherit_all [OF kernel_ok_files [OF ok3] pcp h(1), of "[0..<MAX_FILEID]"] none by (auto simp: s5_def k)
  have "fidt_ok s5" "fidt_ok s" using inh(1) assms(1) by (simp_all add: files_ok_def files_inv_def kernel_ok_def)
  then have "FIDT (PT s5 p) i = FIDT (PT s cp) i" for i
    using inh(5) unfolding fidt_ok_def by (cases "i < MAX_FILEID") (metis option.exhaust)+
  then have fid: "FIDT (PT s5 q) = (if q = p then FIDT (PT s cp) else FIDT (PT s q))" for q using inh(4) by auto
  have "fids_dead s5" using ok(3) inh(2) fid by (auto simp: fids_dead_def same_family_def k)
  moreover have "family_inv s5" "threads_inv s5"
    using ok3 same_family_inv [OF inh(2)] same_threads_inv [OF inh(3)] by (simp_all add: kernel_ok_def)
  ultimately have ok5: "kernel_ok pins s5" using inh(1) assms(1) by (simp add: kernel_ok_def files_ok_def)
  have s6: "prepared p cp call al newargs s = upd_pcb p (\<lambda>pcb. pcb\<lparr>main_task := call, argl := al, args := newargs\<rparr>) s5"
    by (simp add: prepared_def s5_def)
  have same: "same_family s5 (prepared p cp call al newargs s)" "same_threads s5 (prepared p cp call al newargs s)"
    "same_streams s5 (prepared p cp call al newargs s)"
    by (simp_all add: s6 upd_pcb_def same_family_def same_threads_def same_owners_def same_streams_def)
  show "kernel_ok pins (prepared p cp call al newargs s)" by (rule kernel_ok_same [OF ok5 same])
  show "same_family (adopt p cp s) (prepared p cp call al newargs s)" using inh(2) same(1) same_family_trans by blast
  show "thread_count (PT (prepared p cp call al newargs s) p) = 0" using inh(3) ok(2) h(2)
    by (simp add: s6 upd_pcb_def same_threads_def k threads_inv_def counts_ok_def)
  show "ptcbs (prepared p cp call al newargs s) = ptcbs s" "next_addr (prepared p cp call al newargs s) = next_addr s"
    using inherit_all_tasks [of p cp "[0..<MAX_FILEID]" ?s3] by (simp_all add: s6 s5_def upd_pcb_def k)
  show "ptcb_list (PT (prepared p cp call al newargs s) q) = ptcb_list (PT s q)"
    using inh(3) by (simp add: s6 upd_pcb_def same_threads_def k)
  show "FIDT (PT (prepared p cp call al newargs s) q) = (if q = p then FIDT (PT s cp) else FIDT (PT s q))"
    "pstate (PT (prepared p cp call al newargs s) p) = ALIVE"
    using fid inh(2) by (simp_all add: s6 upd_pcb_def same_family_def k)
qed (simp_all add: prepared_def upd_pcb_def)

text \<open>Existing threads and processes stay, and a new thread block has a reference.\<close>

definition tasks_grow :: "'a kernel_scheme \<Rightarrow> 'a kernel_scheme \<Rightarrow> bool" where
  "tasks_grow s s' \<longleftrightarrow> (\<forall>b. b < next_addr s \<longrightarrow> ptcbs s' b = ptcbs s b) \<and>
     (\<forall>b x. next_addr s \<le> b \<longrightarrow> ptcbs s' b = Some x \<longrightarrow> ptcbs s b = None \<longrightarrow> \<not> exited x \<and> 0 < ptcb_refcount x) \<and>
     (\<forall>q. set (ptcb_list (PT s q)) \<subseteq> set (ptcb_list (PT s' q))) \<and>
     (\<forall>q \<in> used s. q \<in> used s' \<and> parent (PT s' q) = parent (PT s q))"

lemma gains_grow: "gains_thread p s s' \<Longrightarrow> tasks_grow s s'"
proof -
  assume g: "gains_thread p s s'"
  have "ptcbs s' b = ptcbs s b" if "b \<noteq> next_addr s" for b using g that by (simp add: gains_thread_def)
  moreover have "\<not> exited x \<and> 0 < ptcb_refcount x" if "ptcbs s' (next_addr s) = Some x" for x
    using g that by (simp add: gains_thread_def)
  ultimately have "\<not> exited x \<and> 0 < ptcb_refcount x" if "ptcbs s' b = Some x" "ptcbs s b = None" for b x
    using that by (cases "b = next_addr s") simp_all
  then show ?thesis using gains_thread_PT [OF g] \<open>\<And>b. b \<noteq> next_addr s \<Longrightarrow> ptcbs s' b = ptcbs s b\<close>
    by (simp add: tasks_grow_def used_def subset_iff)
qed

lemma prepared_grow:
  assumes "kernel_ok pins s" "pcb_freelist s = Some p" "cp < MAX_PROC" "pstate (PT s cp) = ALIVE"
  shows "tasks_grow s (prepared p cp call al newargs s)"
proof -
  have inv: "family_inv s" using assms(1) by (simp add: kernel_ok_def)
  note f = prepared_ok [OF assms, of call al newargs] and h = freelist_head [OF inv assms(2)]
  have ne: "p \<noteq> cp" using h(2) assms(4) by auto
  have "q \<in> used (prepared p cp call al newargs s) \<and> parent (PT (prepared p cp call al newargs s) q) = parent (PT s q)" if "q \<in> used s" for q
  proof -
    have "q \<noteq> p" using that h(2) by (auto simp: used_def)
    then have "pstate (PT (adopt p cp s) q) = pstate (PT s q)" "parent (PT (adopt p cp s) q) = parent (PT s q)"
      using adopt_PT(1) [OF assms(2) ne] by simp_all
    then show ?thesis using f(2) that by (simp add: same_family_def used_def)
  qed
  then show ?thesis using f(9,11) by (simp add: tasks_grow_def)
qed

lemma tasks_grow_trans:
  assumes "tasks_grow s s1" "tasks_grow s1 s2" "ptcbs s1 = ptcbs s" "next_addr s1 = next_addr s"
  shows "tasks_grow s s2"
  using assms by (simp add: tasks_grow_def subset_iff)

lemma sys_Exec_ok:
  assumes "kernel_ok pins s" "CURPROC c s = Some cp" "pstate (PT s cp) = ALIVE" "sys_Exec c call al ag s = Some (r, s')"
  shows "kernel_ok pins s' \<and> tasks_grow s s' \<and> (if pcb_freelist s = None then r = NOPROC \<and> s' = s
     else \<exists>p newargs. pcb_freelist s = Some p \<and> r = int p \<and> 1 < p \<and> p < MAX_PROC \<and>
       copy_exec_args al ag = Some newargs \<and> execs p cp call al newargs s s')"
proof (cases "pcb_freelist s")
  case None
  then have "s' = s" "r = NOPROC" using assms(4) by (simp_all add: sys_Exec_def acquire_PCB_def get_pid_def)
  then show ?thesis using assms(1) None by (auto simp: tasks_grow_def)
next
  case (Some p)
  have inv: "family_inv s" "threads_inv s" using assms(1) by (simp_all add: kernel_ok_def)
  note h = freelist_head [OF inv(1) Some]
  have cp: "cp < MAX_PROC" using threads_CURPROC [OF inv(2) assms(2)] .
  from assms(4) obtain newargs where na: "copy_exec_args al ag = Some newargs" "r = int p"
    and s4: "(if call = None then Some (prepared p cp call al newargs s) else start_process c p (prepared p cp call al newargs s)) = Some s'"
    unfolding sys_Exec_eq [OF Some h(3) assms(2)] by (auto split: bind_splits)
  note f = prepared_ok [OF assms(1) Some cp assms(3), of call al newargs]
    and gr = prepared_grow [OF assms(1) Some cp assms(3), of call al newargs]
  define s6 where "s6 = prepared p cp call al newargs s"
  note f6 = f [folded s6_def]
  show ?thesis
  proof (cases "call = None")
    case True
    then have "s' = s6" using s4 by (simp add: s6_def)
    then show ?thesis using f6 na h Some True gr [folded s6_def] by (auto simp: execs_def)
  next
    case False
    then have st: "start_process c p s6 = Some s'" using s4 by (auto simp: s6_def)
    have g: "gains_thread p s6 s'" by (rule start_process_gains [OF st free_TCB [OF f6(1)]])
    have "(PT s' p)\<lparr>main_thread := None\<rparr> = (PT s6 p)\<lparr>main_thread := None,
        ptcb_list := ptcb_list (PT s6 p) @ [next_addr s6], thread_count := thread_count (PT s6 p) + 1\<rparr>"
      using g by (simp add: gains_thread_def)
    from arg_cong [OF this, of main_task] arg_cong [OF this, of argl] arg_cong [OF this, of args]
    have "main_task (PT s' p) = call" "argl (PT s' p) = al" "args (PT s' p) = newargs" using f6 by simp_all
    moreover have "same_family (adopt p cp s) s'"
      using same_family_trans [OF f6(2) gains_thread_inv(2) [OF g _ f6(4) h(1)]] f6(1) by (simp add: kernel_ok_def)
    moreover have "tasks_grow s s'" by (rule tasks_grow_trans [OF gr [folded s6_def] gains_grow [OF g] f6(9,10)])
    ultimately show ?thesis
      using kernel_ok_gains [OF f6(1) g f6(4) h(1)] f6(3,8) gains_thread_PT(2,7) [OF g] na h Some False by (auto simp: execs_def)
  qed
qed

end
