(* ===== verification/Exit_Inv.thy ===== *)
theory Exit_Inv
  imports Process_Inv
begin

text \<open>
  Waiting for children, joining and detaching threads, and the ends of threads and processes
  keep the invariant of the kernel.
\<close>

section \<open>Waiting for children\<close>

lemma kernel_ok_reap:
  assumes "kernel_ok pins s" "ch \<in> used s" "pstate (PT s ch) = ZOMBIE" "1 < ch"
  shows "kernel_ok pins (snd (cleanup_zombie ch s))"
proof -
  let ?s = "snd (cleanup_zombie ch s)"
  have ok: "family_inv s" "threads_inv s" "fids_dead s" "files_inv {} pins s" using assms(1) by (simp_all add: kernel_ok_def)
  note e = cleanup_PT [of ch s]
  have k: "ptcbs ?s = ptcbs s" "tcbs ?s = tcbs s" "next_tcb ?s = next_tcb s" "next_addr ?s = next_addr s" "FT ?s = FT s" "FCB_freelist ?s = FCB_freelist s"
    by (simp_all add: cleanup_zombie_def release_PCB_def remove_exited_node_def remove_children_node_def upd_pcb_def)
  have f: "FIDT (PT ?s q) = FIDT (PT s q)" "ptcb_list (PT ?s q) = ptcb_list (PT s q)" "thread_count (PT ?s q) = thread_count (PT s q)"
    "pstate (PT ?s q) = (if q = ch then FREE else pstate (PT s q))" for q by (simp_all add: e(1))
  have "same_streams s ?s" by (simp add: same_streams_def k f)
  moreover have "live ?s = live s" by (auto simp: live_def k fun_eq_iff)
  then have "threads_inv ?s" using ok(2) assms(3)
    by (auto simp: threads_inv_def ptcbs_ok_def counts_ok_def owners_ok_def k f)
  moreover have "fids_dead ?s" using ok(3) assms(3) by (simp add: fids_dead_def f)
  ultimately show ?thesis
    using family_reap [OF ok(1) assms(2-4)] ok(4) same_streams_inv [of s ?s] assms(1) by (simp add: kernel_ok_def)
qed

lemma child_above_init:
  assumes "family_inv s" "ch \<in> used s" "parent (PT s ch) = Some par"
  shows "1 < ch"
proof (rule ccontr)
  assume "\<not> 1 < ch"
  then have "ch \<le> 1" by simp
  moreover have "if ch \<le> 1 then parent (PT s ch) = None else True"
    using assms(1,2) unfolding family_inv_def parents_ok_def by (auto split: if_splits)
  ultimately show False using assms(3) by simp
qed

text \<open>A child that was legal when the wait began is reaped exactly when it is a zombie.\<close>

lemma wait_specific_loop_ok:
  assumes "kernel_ok pins s" "ch \<in> used s" "parent (PT s ch) = Some par"
  shows "if pstate (PT s ch) = ALIVE then wait_specific_loop par ch s = (Block (child_exit par) SCHED_USER NO_TIMEOUT, s)
    else pstate (PT s ch) = ZOMBIE \<and> wait_specific_loop par ch s = (Done (int ch, Some (exitval (PT s ch))), snd (cleanup_zombie ch s)) \<and>
      kernel_ok pins (snd (cleanup_zombie ch s))"
proof -
  have st: "pstate (PT s ch) = ALIVE \<or> pstate (PT s ch) = ZOMBIE"
    using assms(2) by (cases "pstate (PT s ch)") (auto simp: used_def)
  have "family_inv s" using assms(1) by (simp add: kernel_ok_def)
  then have "1 < ch" using child_above_init assms(2,3) by blast
  with st kernel_ok_reap [OF assms(1,2)] show ?thesis by (auto simp: wait_specific_loop_def cleanup_zombie_def Let_def)
qed

lemma wait_any_loop_ok:
  assumes "kernel_ok pins s"
  shows "\<exists>r s'. wait_any_loop par s = Some (r, s') \<and> kernel_ok pins s' \<and>
    (case r of Done (pid, st) \<Rightarrow> (if children_list (PT s par) = [] then pid = NOPROC \<and> s' = s
        else \<exists>ch \<in> used s. parent (PT s ch) = Some par \<and> pstate (PT s ch) = ZOMBIE \<and> pid = int ch \<and>
          st = Some (exitval (PT s ch)) \<and> s' = snd (cleanup_zombie ch s))
      | Block cv _ _ \<Rightarrow> cv = child_exit par \<and> s' = s \<and> exited_list (PT s par) = [] \<and> children_list (PT s par) \<noteq> []
      | Yield _ \<Rightarrow> False)"
proof (cases "children_list (PT s par) = [] \<or> exited_list (PT s par) = []")
  case True
  then show ?thesis using assms by (auto simp: wait_any_loop_def)
next
  case False
  then obtain ch rest where ex: "exited_list (PT s par) = ch # rest" by (cases "exited_list (PT s par)") auto
  have "ch \<in> set (exited_list (PT s par))" using ex by simp
  then have ch: "ch \<in> used s" "parent (PT s ch) = Some par" "pstate (PT s ch) = ZOMBIE"
    using assms by (auto simp: kernel_ok_def family_inv_def exited_ok_def)
  have "1 < ch" using child_above_init [OF _ ch(1,2)] assms by (simp add: kernel_ok_def)
  note kernel_ok_reap [OF assms ch(1,3) this]
  then show ?thesis using False ex ch by (auto simp: wait_any_loop_def cleanup_zombie_def get_pid_def Let_def)
qed

section \<open>Joining and detaching\<close>

lemma kernel_ok_threads:
  assumes "kernel_ok pins s" "threads_inv s'" "same_family s s'" "same_streams s s'"
  shows "kernel_ok pins s'"
  using assms same_family_inv [OF assms(3)] same_streams_inv [OF assms(4)]
  by (simp add: kernel_ok_def fids_dead_def same_streams_def same_family_def)

lemma join_loop_streams: "join_loop a s = Some (r, s') \<Longrightarrow> same_streams s s'"
  by (auto simp: join_loop_def upd_ptcb_def free_ptcb_def remove_ptcb_node_def same_streams_def split: if_splits)

lemma join_loop_ok: "kernel_ok pins s \<Longrightarrow> join_loop a s = Some (r, s') \<Longrightarrow> kernel_ok pins s'"
  using kernel_ok_threads [of pins s s'] join_loop_threads [of s a r s'] join_loop_streams [of a s r s']
  by (simp add: kernel_ok_def)

lemma upd_ptcb_ok:
  assumes "kernel_ok pins s" "upd_ptcb a f s = Some s'" "\<And>x. exited (f x) = exited x"
  shows "kernel_ok pins s'"
proof -
  have "same_streams s s'" using assms(2) by (auto simp: upd_ptcb_def same_streams_def)
  with kernel_ok_same [OF assms(1) upd_ptcb_family [OF assms(2)] upd_ptcb_threads [OF assms(2,3)]] show ?thesis by simp
qed

lemma sys_ThreadJoin_cases:
  assumes "sys_ThreadJoin c tid s = Some (r, s')"
  shows "r = Done (-1, None) \<and> s' = s \<or>
    (\<exists>p a x s1. CURPROC c s = Some p \<and> tid = Some a \<and> a \<in> set (ptcb_list (PT s p)) \<and> ptcbs s a = Some x \<and>
       sys_ThreadSelf c s \<noteq> Some (Some a) \<and> \<not> detached x \<and>
       upd_ptcb a (\<lambda>x. x\<lparr>ptcb_refcount := ptcb_refcount x + 1\<rparr>) s = Some s1 \<and> join_loop a s1 = Some (r, s'))"
  using assms by (auto simp: sys_ThreadJoin_def split: option.splits if_splits bind_splits)

lemma sys_ThreadJoin_ok:
  assumes "kernel_ok pins s" "sys_ThreadJoin c tid s = Some (r, s')"
  shows "kernel_ok pins s'"
  using sys_ThreadJoin_cases [OF assms(2)]
proof (elim disjE exE conjE)
  fix a s1 assume 1: "upd_ptcb a (\<lambda>x. x\<lparr>ptcb_refcount := ptcb_refcount x + 1\<rparr>) s = Some s1" "join_loop a s1 = Some (r, s')"
  have "kernel_ok pins s1" by (rule upd_ptcb_ok [OF assms(1) 1(1)]) simp
  from join_loop_ok [OF this 1(2)] show ?thesis .
qed (use assms(1) in simp)

lemma sys_ThreadDetach_cases:
  assumes "sys_ThreadDetach c tid s = Some (r, s')"
  shows "r = -1 \<and> s' = s \<or>
    (\<exists>p a x s1. CURPROC c s = Some p \<and> tid = Some a \<and> a \<in> set (ptcb_list (PT s p)) \<and> ptcbs s a = Some x \<and> \<not> exited x \<and>
       upd_ptcb a (\<lambda>x. x\<lparr>detached := True\<rparr>) s = Some s1 \<and> kernel_broadcast c (exit_cv a) s1 = Some s' \<and> r = 0)"
  using assms by (auto simp: sys_ThreadDetach_def split: option.splits if_splits bind_splits)

lemma sys_ThreadDetach_ok:
  assumes "kernel_ok pins s" "sys_ThreadDetach c tid s = Some (r, s')"
  shows "kernel_ok pins s'"
  using sys_ThreadDetach_cases [OF assms(2)]
proof (elim disjE exE conjE)
  fix a s1 assume 1: "upd_ptcb a (\<lambda>x. x\<lparr>detached := True\<rparr>) s = Some s1" "kernel_broadcast c (exit_cv a) s1 = Some s'"
  have "kernel_ok pins s1" by (rule upd_ptcb_ok [OF assms(1) 1(1)]) simp
  from kernel_ok_kframe [OF this kernel_broadcast_kframe [OF 1(2)]] show ?thesis .
qed (use assms(1) in simp)

section \<open>The end of a thread\<close>

text \<open>The thread \<open>a\<close> of process \<open>p\<close> is marked as exited and counted no more.\<close>

definition exits :: "pid \<Rightarrow> nat \<Rightarrow> int \<Rightarrow> 'a kernel_scheme \<Rightarrow> 'a kernel_scheme \<Rightarrow> bool" where
  "exits p a ev s s' \<longleftrightarrow> (\<exists>x. ptcbs s a = Some x \<and> kframe (s\<lparr>
     PT := (PT s)(p := (PT s p)\<lparr>thread_count := thread_count (PT s p) - 1\<rparr>),
     ptcbs := (ptcbs s)(a \<mapsto> x\<lparr>ptcb_exitval := ev, ptcb_refcount := ptcb_refcount x - 1, exited := True\<rparr>)\<rparr>) s')"

lemma kframe_upd_kernel:
  assumes "kframe s s1"
  shows "kframe (s\<lparr>ptcbs := P\<rparr>) (s1\<lparr>ptcbs := P\<rparr>)"
  using assms by (cases s rule: kernel.cases_scheme; cases s1 rule: kernel.cases_scheme) (simp add: kframe_def)

lemma thread_exit_cases:
  assumes "thread_exit_section c ev s = Some s'" "caller c t p a s"
  shows "\<exists>s5. exits p a ev s s5 \<and> (if thread_count (PT s5 p) = 0 then process_exit c p s5 = Some s' else s' = s5)"
proof -
  obtain tc where tc: "cur_thread c s = Some t" "tcbs s t = Some tc" "owner_pcb tc = Some p" "owner_ptcb tc = Some a"
    using assms(2) by (auto simp: caller_def)
  have cp: "CURPROC c s = Some p" by (rule caller_CURPROC [OF assms(2)])
  obtain x where x: "ptcbs s a = Some x" using assms(2) by (auto simp: caller_def live_def split: option.splits)
  let ?s1 = "s\<lparr>ptcbs := (ptcbs s)(a \<mapsto> x\<lparr>ptcb_exitval := ev\<rparr>)\<rparr>"
  let ?s2 = "upd_pcb p (\<lambda>pcb. pcb\<lparr>thread_count := thread_count pcb - 1\<rparr>) ?s1"
  obtain s3 s4 s5 where s: "kernel_broadcast c (exit_cv a) ?s2 = Some s3"
    "upd_ptcb a (\<lambda>x. x\<lparr>ptcb_refcount := ptcb_refcount x - 1, exited := True\<rparr>) s3 = Some s4"
    "kernel_broadcast c (exit_cv a) s4 = Some s5"
    "(if thread_count (PT s5 p) = 0 then process_exit c p s5 else Some s5) = Some s'"
    using assms(1) cp tc x by (auto simp: thread_exit_section_def upd_ptcb_def Let_def split: bind_splits)
  note k3 = kernel_broadcast_kframe [OF s(1)]
  have p3: "ptcbs s3 = (ptcbs s)(a \<mapsto> x\<lparr>ptcb_exitval := ev\<rparr>)"
    using more_kernel(4) [of s3 ?s2] k3 by (simp add: kframe_def upd_pcb_def)
  let ?P = "(ptcbs s)(a \<mapsto> x\<lparr>ptcb_exitval := ev, ptcb_refcount := ptcb_refcount x - 1, exited := True\<rparr>)"
  have "s4 = s3\<lparr>ptcbs := ?P\<rparr>" using s(2) p3 by (auto simp: upd_ptcb_def)
  with kframe_upd_kernel [OF k3, of ?P] kernel_broadcast_kframe [OF s(3)]
  have "kframe (?s2\<lparr>ptcbs := ?P\<rparr>) s5" using kframe_trans by auto
  then have "exits p a ev s s5" unfolding exits_def using x by (simp add: upd_pcb_def)
  with s(4) show ?thesis by (auto split: if_splits)
qed

lemma exits_ok:
  assumes "kernel_ok pins s" "caller c t p a s" "exits p a ev s s'"
  shows "kernel_ok pins s'"
proof -
  obtain x where x: "ptcbs s a = Some x" "kframe (s\<lparr>
     PT := (PT s)(p := (PT s p)\<lparr>thread_count := thread_count (PT s p) - 1\<rparr>),
     ptcbs := (ptcbs s)(a \<mapsto> x\<lparr>ptcb_exitval := ev, ptcb_refcount := ptcb_refcount x - 1, exited := True\<rparr>)\<rparr>) s'"
    using assms(3) by (auto simp: exits_def)
  let ?s1 = "s\<lparr>PT := (PT s)(p := (PT s p)\<lparr>thread_count := thread_count (PT s p) - 1\<rparr>),
     ptcbs := (ptcbs s)(a \<mapsto> x\<lparr>ptcb_exitval := ev, ptcb_refcount := ptcb_refcount x - 1, exited := True\<rparr>)\<rparr>"
  have inv: "threads_inv s" "ptcbs_ok s" "counts_ok s" using assms(1) by (simp_all add: kernel_ok_def threads_inv_def)
  note al = caller_alive [OF inv(1) assms(2)]
  have la: "live s a" using assms(2) by (simp add: caller_def)
  have l: "live ?s1 = (\<lambda>b. b \<noteq> a \<and> live s b)" by (auto simp: live_def fun_eq_iff)
  have rem: "filter (\<lambda>b. b \<noteq> a \<and> live s b) xs = remove1 a (filter (live s) xs)" if "distinct xs" for xs
    using that by (induction xs) (auto simp: filter_id_conv remove1_idem)
  have "length (filter (live ?s1) (ptcb_list (PT s q))) = length (filter (live s) (ptcb_list (PT s q))) - (if q = p then 1 else 0)" for q
  proof -
    have "filter (live ?s1) (ptcb_list (PT s q)) = remove1 a (filter (live s) (ptcb_list (PT s q)))"
      unfolding l using inv(2) by (intro rem) (simp add: ptcbs_ok_def)
    moreover have "distinct (ptcb_list (PT s q))" using inv(2) by (simp add: ptcbs_ok_def)
    moreover have "a \<in> set (filter (live s) (ptcb_list (PT s q))) \<longleftrightarrow> q = p"
      using al(1) la inv(2) by (auto simp: ptcbs_ok_def)
    ultimately show ?thesis by (simp add: length_remove1)
  qed
  moreover have n: "1 \<le> length (filter (live s) (ptcb_list (PT s p)))" using al(4) inv(3) by (simp add: counts_ok_def Suc_le_eq)
  moreover have "int (length (filter (live s) (ptcb_list (PT s p))) - 1) = int (length (filter (live s) (ptcb_list (PT s p)))) - 1"
    using of_nat_diff [OF n] by simp
  ultimately have cnt: "thread_count (PT ?s1 q) = int (length (filter (live ?s1) (ptcb_list (PT ?s1 q))))" for q
    using inv(3) by (auto simp: counts_ok_def simp del: One_nat_def)
  have pt: "ptcb_list (PT ?s1 q) = filter (\<lambda>b. b \<notin> {}) (ptcb_list (PT s q))" for q by simp
  have st: "ptcb_list (PT ?s1 q) = []" if "pstate (PT ?s1 q) \<noteq> ALIVE" for q
    using that inv(3) by (auto simp: counts_ok_def split: if_splits)
  have "threads_inv ?s1"
    by (rule threads_shrink [OF inv(1) _ _ pt st _ _ cnt]) (auto simp: same_owners_def x(1))
  moreover have "same_family s ?s1" "same_streams s ?s1" by (auto simp: same_family_def same_streams_def)
  ultimately have "kernel_ok pins ?s1" using kernel_ok_threads [OF assms(1)] by blast
  from kernel_ok_kframe [OF this x(2)] show ?thesis .
qed

section \<open>The end of a process\<close>

lemma FCB_decref_frame:
  assumes "FCB_decref c f s = Some (r, s')"
  shows "same_family s s'" "same_threads s s'" "PT s' = PT s" "ptcbs s' = ptcbs s"
proof -
  let ?s1 = "upd_fcb f (\<lambda>x. x\<lparr>refcount := refcount x - 1\<rparr>) s"
  have s1: "same_family s ?s1" "same_threads s ?s1" "PT ?s1 = PT s" "ptcbs ?s1 = ptcbs s"
    by (simp_all add: upd_fcb_def same_family_def same_threads_def same_owners_def)
  consider "s' = ?s1" | ops s2 where "fops_Close c ops (streamobj (FT ?s1 f)) ?s1 = Some (r, s2)" "s' = release_FCB f s2"
    using assms by (auto simp: FCB_decref_def Let_def split: if_splits)
  then have "same_family s s' \<and> same_threads s s' \<and> PT s' = PT s \<and> ptcbs s' = ptcbs s"
  proof cases
    case 2
    note m = fops_Close_method.neutral [OF 2(1)]
    have "same_family s2 s'" "same_threads s2 s'" "PT s' = PT s2" "ptcbs s' = ptcbs s2"
      by (simp_all add: 2(2) release_FCB_def same_family_def same_threads_def same_owners_def)
    moreover have "PT s2 = PT ?s1" "ptcbs s2 = ptcbs ?s1" using m by (simp_all add: same_files_def)
    ultimately show ?thesis
      using same_family_trans [OF same_family_trans [OF s1(1) same_family_files [OF m]]]
        same_threads_trans [OF same_threads_trans [OF s1(2) same_threads_files [OF m]]] s1(3,4) by simp
  qed (use s1 in simp)
  then show "same_family s s'" "same_threads s s'" "PT s' = PT s" "ptcbs s' = ptcbs s" by simp_all
qed

lemma set_FIDT_frame:
  "same_family s (set_FIDT p i v s)" "same_threads s (set_FIDT p i v s)"
  "FIDT (PT (set_FIDT p i v s) q) = (if q = p then (FIDT (PT s p))(i := v) else FIDT (PT s q))"
  "ptcb_list (PT (set_FIDT p i v s) q) = ptcb_list (PT s q)" "ptcbs (set_FIDT p i v s) = ptcbs s"
  by (simp_all add: set_FIDT_def upd_pcb_def same_family_def same_threads_def same_owners_def)

lemma close_fids_ok:
  assumes "files_ok pins s" "close_fids c p is s = Some s'"
  shows "files_ok pins s' \<and> same_family s s' \<and> same_threads s s' \<and> ptcbs s' = ptcbs s \<and>
    (\<forall>q. FIDT (PT s' q) = (if q = p then (\<lambda>i. if i \<in> set is then None else FIDT (PT s p) i) else FIDT (PT s q)))"
  using assms
proof (induction "is" arbitrary: s)
  case (Cons i "is")
  show ?case
  proof (cases "FIDT (PT s p) i")
    case None
    with Cons.IH [of s] Cons.prems show ?thesis by (auto simp: fun_eq_iff)
  next
    case (Some f)
    then obtain r s1 where s1: "FCB_decref c f s = Some (r, s1)" "close_fids c p is (set_FIDT p i None s1) = Some s'"
      using Cons.prems(2) by auto
    note h = held_named [OF Cons.prems(1) Some]
    have inv: "files_inv {} pins s" using Cons.prems(1) by (simp add: files_ok_def)
    note d = FCB_decref_inv [OF inv h(1,4) s1(1)]
    have "files_inv {} (repin (FIDT (PT s1 p) i) None (unpin f pins)) (set_FIDT p i None s1)"
      using files_inv_set_FIDT [of "{}" "unpin f pins" s1 None p i] d by simp
    moreover have "repin (FIDT (PT s1 p) i) None (unpin f pins) = pins"
      using d Some by (auto simp: repin_def unpin_def fun_eq_iff)
    ultimately have ok: "files_ok pins (set_FIDT p i None s1)" using Cons.prems(1) d by (simp add: files_ok_def)
    note fr = FCB_decref_frame [OF s1(1)]
    from Cons.IH [OF ok s1(2)] same_family_trans [OF fr(1) same_family_trans [OF set_FIDT_frame(1)]]
      same_threads_trans [OF fr(2) same_threads_trans [OF set_FIDT_frame(2)]]
    show ?thesis by (auto simp: set_FIDT_frame(3,5) fr(3,4) fun_eq_iff)
  qed
qed simp

lemma free_ptcbs_eq:
  "free_ptcbs l p s = Some s' \<Longrightarrow> s' = s\<lparr>PT := (PT s)(p := (PT s p)\<lparr>ptcb_list := if l = [] then ptcb_list (PT s p) else []\<rparr>),
     ptcbs := (\<lambda>a. if a \<in> set l then None else ptcbs s a)\<rparr>"
proof (induction l arbitrary: s)
  case (Cons a l)
  let ?s1 = "upd_pcb p (\<lambda>pcb. pcb\<lparr>ptcb_list := l\<rparr>) s"
  have "free_ptcbs l p (?s1\<lparr>ptcbs := (ptcbs s)(a := None)\<rparr>) = Some s'"
    using Cons.prems by (auto simp: free_ptcb_def upd_pcb_def split: bind_splits)
  from Cons.IH [OF this] show ?case by (auto intro!: kernel.equality simp: upd_pcb_def fun_eq_iff)
qed (auto intro!: kernel.equality simp: fun_eq_iff)

text \<open>What is left of a process: a zombie without threads and file ids.\<close>

definition zombie :: "PCB \<Rightarrow> bool" where
  "zombie pcb \<longleftrightarrow> pstate pcb = ZOMBIE \<and> FIDT pcb = (\<lambda>_. None) \<and> ptcb_list pcb = [] \<and> thread_count pcb = 0 \<and>
     children_list pcb = [] \<and> exited_list pcb = []"

lemma process_exit_steps:
  assumes "process_exit c p s = Some s'"
  obtains s1 s2 s3 where "if p = 1 then s1 = s else leave_family c p s = Some s1"
    "children_list (PT s1 p) = []" "exited_list (PT s1 p) = []"
    "close_fids c p [0..<MAX_FILEID] (upd_pcb p (\<lambda>pcb. pcb\<lparr>args := None\<rparr>) s1) = Some s2"
    "if thread_count (PT s2 p) = 0 then free_ptcbs (ptcb_list (PT s2 p)) p s2 = Some s3 else s3 = s2"
    "s' = upd_pcb p (\<lambda>pcb. pcb\<lparr>main_thread := None, pstate := ZOMBIE\<rparr>) s3"
  using assms by (auto simp: process_exit_def get_pid_def c_assert_def split: if_splits bind_splits)

lemma process_exit_ok:
  assumes "kernel_ok pins s" "pstate (PT s p) = ALIVE" "p < MAX_PROC" "thread_count (PT s p) = 0" "process_exit c p s = Some s'"
  shows "kernel_ok pins s' \<and> zombie (PT s' p) \<and> ptcbs s' = (\<lambda>a. if a \<in> set (ptcb_list (PT s p)) then None else ptcbs s a) \<and>
    (\<forall>q. q \<noteq> p \<longrightarrow> FIDT (PT s' q) = FIDT (PT s q) \<and> ptcb_list (PT s' q) = ptcb_list (PT s q) \<and> pstate (PT s' q) = pstate (PT s q)) \<and>
    (p \<noteq> 1 \<longrightarrow> (\<exists>par. parent (PT s p) = Some par \<and> same_family (buried p par s) s'))"
proof -
  from process_exit_steps [OF assms(5)] obtain s1 s2 s3 where
    1: "if p = 1 then s1 = s else leave_family c p s = Some s1" and
    2: "children_list (PT s1 p) = []" "exited_list (PT s1 p) = []" and
    3: "close_fids c p [0..<MAX_FILEID] (upd_pcb p (\<lambda>pcb. pcb\<lparr>args := None\<rparr>) s1) = Some s2" and
    4: "if thread_count (PT s2 p) = 0 then free_ptcbs (ptcb_list (PT s2 p)) p s2 = Some s3 else s3 = s2" and
    5: "s' = upd_pcb p (\<lambda>pcb. pcb\<lparr>main_thread := None, pstate := ZOMBIE\<rparr>) s3" by blast
  have ok: "family_inv s" "threads_inv s" "fids_dead s" "files_inv {} pins s" using assms(1) by (simp_all add: kernel_ok_def)
  have fam1: "if p = 1 then s1 = s else \<exists>par. parent (PT s p) = Some par \<and> par \<in> used s \<and> par \<noteq> p \<and> 1 < p \<and>
      kframe (s\<lparr>PT := departed p par (PT s)\<rparr>) s1"
    using 1 leave_family_eq [OF ok(1) assms(3,2)] by auto
  have p1: "ptcbs s1 = ptcbs s"
  proof (cases "p = 1")
    case False
    with fam1 obtain par where "kframe (s\<lparr>PT := departed p par (PT s)\<rparr>) s1" by auto
    from this [unfolded kframe_def, THEN conjunct1, THEN more_kernel(4)] show ?thesis by simp
  qed (use fam1 in simp)
  have same1: "same_threads s s1" "same_streams s s1"
  proof -
    have "same_threads s (s\<lparr>PT := departed p par (PT s)\<rparr>)" "same_streams s (s\<lparr>PT := departed p par (PT s)\<rparr>)" for par
      by (simp_all add: same_threads_def same_owners_def same_streams_def)
    with fam1 same_threads_trans same_streams_trans same_threads_kframe same_streams_kframe
    show "same_threads s s1" "same_streams s s1" by (metis same_threads_refl same_streams_refl)+
  qed
  let ?s1 = "upd_pcb p (\<lambda>pcb. pcb\<lparr>args := None\<rparr>) s1"
  have same1': "same_family s1 ?s1" "same_threads s1 ?s1" "same_streams s1 ?s1"
    by (simp_all add: upd_pcb_def same_family_def same_threads_def same_owners_def same_streams_def)
  have thr1: "threads_inv ?s1" using same_threads_inv [OF same_threads_trans [OF same1(1) same1'(2)] ok(2)] .
  have "files_inv {} pins ?s1" using same_streams_inv [OF same_streams_trans [OF same1(2) same1'(3)]] ok(4) by simp
  then have "files_ok pins ?s1" using threads_CURPROC [OF thr1] assms(1) by (simp add: files_ok_def kernel_ok_def)
  from close_fids_ok [OF this 3]
  have c: "files_ok pins s2" "same_family ?s1 s2" "same_threads ?s1 s2"
    "ptcbs s2 = ptcbs s1" "\<And>q. FIDT (PT s2 q) = (if q = p then (\<lambda>i. if i < MAX_FILEID then None else FIDT (PT s p) i) else FIDT (PT s q))"
    using same1(2) same1'(3) by (auto simp: same_streams_def upd_pcb_def)
  have thr2: "threads_inv s2" using same_threads_inv [OF c(3) thr1] .
  have st2: "same_threads s s2" using same_threads_trans [OF same1(1) same_threads_trans [OF same1'(2) c(3)]] .
  have l2: "thread_count (PT s2 q) = thread_count (PT s q)" "ptcb_list (PT s2 q) = ptcb_list (PT s q)" "pstate (PT s2 q) = pstate (PT s q)"
    "map_option exited (ptcbs s2 a) = map_option exited (ptcbs s a)" for q a
    using st2 by (simp_all add: same_threads_def)
  have "fidt_ok s" using ok(4) by (simp add: files_inv_def)
  then have f2: "FIDT (PT s2 q) = (if q = p then (\<lambda>_. None) else FIDT (PT s q))" for q
    using c(5) unfolding fidt_ok_def by (auto simp: fun_eq_iff) (metis option.exhaust)
  let ?l = "ptcb_list (PT s p)"
  have s3: "s3 = s2\<lparr>PT := (PT s2)(p := (PT s2 p)\<lparr>ptcb_list := []\<rparr>), ptcbs := (\<lambda>a. if a \<in> set ?l then None else ptcbs s2 a)\<rparr>"
    using 4 free_ptcbs_eq [of ?l p s2 s3] assms(4) by (auto simp: l2)
  have thr: "threads_inv s'"
  proof -
    have dead: "\<not> live s2 a" if "a \<in> set ?l" for a
    proof -
      have "filter (live s2) (ptcb_list (PT s2 p)) = []" using thr2 assms(4) l2(1) by (simp add: threads_inv_def counts_ok_def)
      then show ?thesis using that by (simp add: l2(2) filter_empty_conv)
    qed
    have pt: "ptcb_list (PT s' q) = filter (\<lambda>a. a \<notin> set ?l) (ptcb_list (PT s2 q))" for q
    proof (cases "q = p")
      case False
      have "filter (\<lambda>a. a \<notin> set ?l) (ptcb_list (PT s q)) = ptcb_list (PT s q)"
        using ok(2) False by (intro filter_True) (auto simp: threads_inv_def ptcbs_ok_def)
      then show ?thesis using False by (simp add: 5 s3 upd_pcb_def l2(2))
    qed (simp add: 5 s3 upd_pcb_def l2(2))
    have lv: "live s' = live s2"
    proof
      fix a show "live s' a = live s2 a" using dead [of a] by (auto simp: live_def 5 s3 upd_pcb_def split: option.splits)
    qed
    have "thread_count (PT s' q) = thread_count (PT s2 q)" for q by (simp add: 5 s3 upd_pcb_def)
    moreover have "filter (live s2) (ptcb_list (PT s' q)) = filter (live s2) (ptcb_list (PT s2 q))" for q
      unfolding pt using dead by (intro filter_filter_notin) auto
    ultimately have cnt: "thread_count (PT s' q) = int (length (filter (live s') (ptcb_list (PT s' q))))" for q
      using thr2 by (simp add: lv threads_inv_def counts_ok_def)
    have st: "ptcb_list (PT s' q) = []" if "pstate (PT s' q) \<noteq> ALIVE" for q
      using that thr2 by (auto simp: 5 s3 upd_pcb_def threads_inv_def counts_ok_def split: if_splits)
    show ?thesis
      by (rule threads_shrink [OF thr2 _ _ pt st _ _ cnt]) (auto simp: 5 s3 upd_pcb_def same_owners_def)
  qed
  have fam3: "same_family s1 s3"
  proof -
    have "same_family s2 s3" by (simp add: s3 same_family_def)
    with same1'(1) c(2) same_family_trans show ?thesis by blast
  qed
  have "children_list (PT s3 p) = []" "exited_list (PT s3 p) = []" using fam3 2 by (simp_all add: same_family_def)
  then have z: "zombie (PT s' p)" using assms(4) by (simp add: zombie_def 5 s3 upd_pcb_def f2 l2(1))
  have fam: "family_inv s' \<and> (p \<noteq> 1 \<longrightarrow> (\<exists>par. parent (PT s p) = Some par \<and> same_family (buried p par s) s'))"
  proof (cases "p = 1")
    case True
    have "same_family (upd_pcb 1 (\<lambda>pcb. pcb\<lparr>pstate := ZOMBIE\<rparr>) s1) s'"
      using fam3 True by (simp add: 5 same_family_def upd_pcb_def)
    moreover have "family_inv (upd_pcb 1 (\<lambda>pcb. pcb\<lparr>pstate := ZOMBIE\<rparr>) s1)"
      using family_init_exit [of s1] fam1 ok(1) 2(1) assms(2) True by simp
    ultimately show ?thesis using same_family_inv True by blast
  next
    case False
    then obtain par where par: "parent (PT s p) = Some par" "par \<in> used s" "par \<noteq> p" "1 < p"
      "kframe (s\<lparr>PT := departed p par (PT s)\<rparr>) s1" using fam1 by auto
    have "same_family (s\<lparr>PT := departed p par (PT s)\<rparr>) s3" using same_family_trans [OF same_family_kframe [OF par(5)] fam3] .
    then have "same_family (buried p par s) s'" by (simp add: 5 buried_def same_family_def upd_pcb_def)
    moreover have "p \<in> used s" using assms(2,3) by (simp add: used_def)
    ultimately show ?thesis
      using same_family_inv family_buried [OF ok(1) _ assms(2) par(1-4)] par(1) by blast
  qed
  have "same_streams s2 s'" by (simp add: 5 s3 upd_pcb_def same_streams_def)
  then have "files_inv {} pins s'" using c(1) same_streams_inv [of s2 s'] by (simp add: files_ok_def)
  moreover have rest: "FIDT (PT s' q) = FIDT (PT s q) \<and> ptcb_list (PT s' q) = ptcb_list (PT s q) \<and> pstate (PT s' q) = pstate (PT s q)" if "q \<noteq> p" for q
    using that by (simp add: 5 s3 upd_pcb_def f2 l2)
  have "fids_dead s'" unfolding fids_dead_def
  proof (intro allI impI)
    fix q assume "pstate (PT s' q) \<noteq> ALIVE"
    then show "FIDT (PT s' q) = (\<lambda>_. None)"
      using rest [of q] z ok(3) by (cases "q = p") (auto simp: zombie_def fids_dead_def)
  qed
  ultimately have "kernel_ok pins s'" using thr fam assms(1) by (simp add: kernel_ok_def)
  moreover have "ptcbs s' = (\<lambda>a. if a \<in> set ?l then None else ptcbs s a)" by (auto simp: 5 s3 upd_pcb_def c(4) p1 fun_eq_iff)
  ultimately show ?thesis using z fam rest by blast
qed

lemma exits_fields:
  assumes "exits p a ev s s'"
  shows "PT s' = (PT s)(p := (PT s p)\<lparr>thread_count := thread_count (PT s p) - 1\<rparr>)"
    "\<And>b. b \<noteq> a \<Longrightarrow> ptcbs s' b = ptcbs s b"
    "\<exists>x. ptcbs s a = Some x \<and> ptcbs s' a = Some (x\<lparr>ptcb_exitval := ev, ptcb_refcount := ptcb_refcount x - 1, exited := True\<rparr>)"
proof -
  obtain x where x: "ptcbs s a = Some x" "kframe (s\<lparr>
     PT := (PT s)(p := (PT s p)\<lparr>thread_count := thread_count (PT s p) - 1\<rparr>),
     ptcbs := (ptcbs s)(a \<mapsto> x\<lparr>ptcb_exitval := ev, ptcb_refcount := ptcb_refcount x - 1, exited := True\<rparr>)\<rparr>) s'"
    using assms by (auto simp: exits_def)
  note m = x(2) [unfolded kframe_def, THEN conjunct1, THEN more_kernel(1)]
    x(2) [unfolded kframe_def, THEN conjunct1, THEN more_kernel(4)]
  show "PT s' = (PT s)(p := (PT s p)\<lparr>thread_count := thread_count (PT s p) - 1\<rparr>)"
    "\<And>b. b \<noteq> a \<Longrightarrow> ptcbs s' b = ptcbs s b" using m by simp_all
  show "\<exists>x. ptcbs s a = Some x \<and> ptcbs s' a = Some (x\<lparr>ptcb_exitval := ev, ptcb_refcount := ptcb_refcount x - 1, exited := True\<rparr>)"
    using m x(1) by simp
qed

text \<open>The end of a thread, and of its process when it was the last thread.\<close>

lemma thread_exit_ok:
  assumes "kernel_ok pins s" "caller c t p a s" "thread_exit_section c ev s = Some s'"
  shows "kernel_ok pins s' \<and> (\<exists>s5. exits p a ev s s5 \<and> kernel_ok pins s5 \<and>
    (if thread_count (PT s p) = 1 then process_exit c p s5 = Some s' \<and> zombie (PT s' p) else s' = s5))"
proof -
  obtain s5 where s5: "exits p a ev s s5" "if thread_count (PT s5 p) = 0 then process_exit c p s5 = Some s' else s' = s5"
    using thread_exit_cases [OF assms(3,2)] by blast
  note ok5 = exits_ok [OF assms(1,2) s5(1)]
  note pt = exits_fields(1) [OF s5(1)]
  have "threads_inv s" using assms(1) by (simp add: kernel_ok_def)
  note al = caller_alive [OF this assms(2)]
  have al5: "pstate (PT s5 p) = ALIVE" "thread_count (PT s5 p) = thread_count (PT s p) - 1" using al(2) by (simp_all add: pt)
  show ?thesis
  proof (cases "thread_count (PT s p) = 1")
    case True
    with s5 al5 process_exit_ok [OF ok5 al5(1) al(3), of c s'] ok5 show ?thesis by auto
  next
    case False
    with s5 al5 ok5 show ?thesis by auto
  qed
qed

lemma caller_reap: "caller c t p a (snd (cleanup_zombie ch s)) = caller c t p a s"
  by (simp add: caller_def live_def cur_thread_def cleanup_zombie_def release_PCB_def remove_exited_node_def
      remove_children_node_def upd_pcb_def)

text \<open>The initial task reaps its children until none is left, or waits for one.\<close>

lemma exit_wait_loop_ok:
  assumes "kernel_ok pins s"
  shows "\<exists>r s'. exit_wait_loop par s = Some (r, s') \<and> kernel_ok pins s' \<and> (\<forall>c t p a. caller c t p a s' = caller c t p a s) \<and>
    ptcbs s' = ptcbs s \<and> (\<forall>q. ptcb_list (PT s' q) = ptcb_list (PT s q)) \<and>
    (\<forall>q \<in> used s. parent (PT s q) \<noteq> Some par \<longrightarrow> q \<in> used s' \<and> parent (PT s' q) = parent (PT s q)) \<and>
    (case r of Done _ \<Rightarrow> children_list (PT s' par) = [] | Block cv _ _ \<Rightarrow> cv = child_exit par \<and> children_list (PT s' par) \<noteq> [] | Yield _ \<Rightarrow> False)"
  using assms
proof (induction "length (exited_list (PT s par))" arbitrary: s rule: less_induct)
  case less
  from wait_any_loop_ok [OF less.prems, of par] obtain r s1 where w: "wait_any_loop par s = Some (r, s1)" "kernel_ok pins s1"
    and r: "case r of Done (pid, st) \<Rightarrow> (if children_list (PT s par) = [] then pid = NOPROC \<and> s1 = s
        else \<exists>ch \<in> used s. parent (PT s ch) = Some par \<and> pstate (PT s ch) = ZOMBIE \<and> pid = int ch \<and>
          st = Some (exitval (PT s ch)) \<and> s1 = snd (cleanup_zombie ch s))
      | Block cv _ _ \<Rightarrow> cv = child_exit par \<and> s1 = s \<and> exited_list (PT s par) = [] \<and> children_list (PT s par) \<noteq> []
      | Yield _ \<Rightarrow> False" by blast
  show ?case
  proof (cases "\<exists>pid st. r = Done (pid, st) \<and> children_list (PT s par) \<noteq> []")
    case True
    then obtain pid st ch where d: "r = Done (pid, st)" "ch \<in> used s" "parent (PT s ch) = Some par" "pid = int ch"
      "s1 = snd (cleanup_zombie ch s)" using r by auto
    have "pid \<noteq> NOPROC" using d(4) by (simp add: NOPROC_def)
    with w(1) d(1) have e: "exit_wait_loop par s = exit_wait_loop par s1" by (simp add: exit_wait_loop.simps [of par s])
    have "length (exited_list (PT s1 par)) < length (exited_list (PT s par))"
      using wait_any_loop_decreases [of par s pid st s1] w(1) d(1) \<open>pid \<noteq> NOPROC\<close> by simp
    from less.hyps [OF this w(2)] obtain r' s' where ih: "exit_wait_loop par s1 = Some (r', s')" "kernel_ok pins s'"
      "\<forall>c t p a. caller c t p a s' = caller c t p a s1" "ptcbs s' = ptcbs s1" "\<forall>q. ptcb_list (PT s' q) = ptcb_list (PT s1 q)"
      "\<forall>q \<in> used s1. parent (PT s1 q) \<noteq> Some par \<longrightarrow> q \<in> used s' \<and> parent (PT s' q) = parent (PT s1 q)"
      "case r' of Done _ \<Rightarrow> children_list (PT s' par) = [] | Block cv _ _ \<Rightarrow> cv = child_exit par \<and> children_list (PT s' par) \<noteq> [] | Yield _ \<Rightarrow> False"
      by blast
    have c1: "caller c t p a s1 = caller c t p a s" for c t p a by (simp add: d(5) caller_reap)
    have p1: "ptcbs s1 = ptcbs s" "ptcb_list (PT s1 q) = ptcb_list (PT s q)" for q
      by (simp_all add: d(5) cleanup_zombie_def release_PCB_def remove_exited_node_def remove_children_node_def upd_pcb_def)
    have u1: "q \<in> used s1" "parent (PT s1 q) = parent (PT s q)" if "q \<in> used s" "parent (PT s q) \<noteq> Some par" for q
      using that d(3) by (auto simp: d(5) used_def cleanup_PT(1))
    have "\<forall>q \<in> used s. parent (PT s q) \<noteq> Some par \<longrightarrow> q \<in> used s' \<and> parent (PT s' q) = parent (PT s q)"
      using ih(6) u1 by metis
    then show ?thesis unfolding e using ih by (intro exI [of _ r'] exI [of _ s']) (simp add: c1 p1)
  next
    case False
    then show ?thesis using r w by (cases r) (auto simp: exit_wait_loop.simps [of par s] NOPROC_def split: if_splits)
  qed
qed

lemma exitval_ok: "kernel_ok pins s \<Longrightarrow> kernel_ok pins (upd_pcb p (\<lambda>pcb. pcb\<lparr>exitval := ev\<rparr>) s)"
  by (rule kernel_ok_same, assumption)
    (simp_all add: upd_pcb_def same_family_def same_threads_def same_owners_def same_streams_def)

lemma caller_exitval: "caller c t p a (upd_pcb q (\<lambda>pcb. pcb\<lparr>exitval := ev\<rparr>) s) = caller c t p a s"
  by (simp add: caller_def live_def cur_thread_def upd_pcb_def)

end
