(* ===== verification/Calls.thy ===== *)
theory Calls
  imports Exit_Inv
begin

text \<open>
  The contract between processes and streams: a system call on streams may open and close file
  ids of the calling process, and leaves every other part of the process table, the threads and
  their owners alone.  Every system call of the stream layer keeps to the contract, and under
  it the invariant of the kernel is kept when the reference counts are.
\<close>

section \<open>The contract\<close>

definition stream_frame :: "nat \<Rightarrow> 'a kernel_scheme \<Rightarrow> 'a kernel_scheme \<Rightarrow> bool" where
  "stream_frame c s s' \<longleftrightarrow> pcb_freelist s' = pcb_freelist s \<and> process_count s' = process_count s \<and> ptcbs s' = ptcbs s \<and>
     next_tcb s' = next_tcb s \<and> cctx s' = cctx s \<and> next_addr s \<le> next_addr s' \<and>
     (\<forall>t. map_option owner_pcb (tcbs s' t) = map_option owner_pcb (tcbs s t)) \<and>
     (\<forall>t. map_option owner_ptcb (tcbs s' t) = map_option owner_ptcb (tcbs s t)) \<and>
     (\<forall>p. (PT s' p)\<lparr>FIDT := \<lambda>_. None\<rparr> = (PT s p)\<lparr>FIDT := \<lambda>_. None\<rparr>) \<and>
     (\<forall>p. CURPROC c s \<noteq> Some p \<longrightarrow> FIDT (PT s' p) = FIDT (PT s p))"

lemma owners_CURPROC:
  assumes "\<forall>t. map_option owner_pcb (tcbs s' t) = map_option owner_pcb (tcbs s t)" "cctx s' = cctx s"
  shows "CURPROC c s' = CURPROC c s"
proof -
  have "(do { tc \<leftarrow> tcbs s' t; owner_pcb tc }) = (do { tc \<leftarrow> tcbs s t; owner_pcb tc })" for t
  proof -
    have "map_option owner_pcb (tcbs s' t) = map_option owner_pcb (tcbs s t)" using assms by simp
    then show ?thesis by (cases "tcbs s' t"; cases "tcbs s t") auto
  qed
  then show ?thesis unfolding CURPROC_def cur_thread_def assms(2) by simp
qed

lemma stream_frame_CURPROC: "stream_frame c s s' \<Longrightarrow> CURPROC d s' = CURPROC d s"
  by (rule owners_CURPROC) (simp_all add: stream_frame_def)

lemma stream_frame_refl [simp]: "stream_frame c s s" by (simp add: stream_frame_def)

lemma stream_frame_trans: "stream_frame c s s' \<Longrightarrow> stream_frame c s' s'' \<Longrightarrow> stream_frame c s s''"
  using stream_frame_CURPROC [of c s s' c] by (simp add: stream_frame_def)

lemma stream_frame_PT:
  assumes "stream_frame c s s'"
  shows "pstate (PT s' p) = pstate (PT s p)" "parent (PT s' p) = parent (PT s p)" "children_list (PT s' p) = children_list (PT s p)"
    "exited_list (PT s' p) = exited_list (PT s p)" "ptcb_list (PT s' p) = ptcb_list (PT s p)"
    "thread_count (PT s' p) = thread_count (PT s p)"
proof -
  have e: "(PT s' p)\<lparr>FIDT := \<lambda>_. None\<rparr> = (PT s p)\<lparr>FIDT := \<lambda>_. None\<rparr>" using assms by (simp add: stream_frame_def)
  show "pstate (PT s' p) = pstate (PT s p)" using arg_cong [OF e, of pstate] by simp
  show "parent (PT s' p) = parent (PT s p)" using arg_cong [OF e, of parent] by simp
  show "children_list (PT s' p) = children_list (PT s p)" using arg_cong [OF e, of children_list] by simp
  show "exited_list (PT s' p) = exited_list (PT s p)" using arg_cong [OF e, of exited_list] by simp
  show "ptcb_list (PT s' p) = ptcb_list (PT s p)" using arg_cong [OF e, of ptcb_list] by simp
  show "thread_count (PT s' p) = thread_count (PT s p)" using arg_cong [OF e, of thread_count] by simp
qed

lemma stream_frame_same:
  assumes "stream_frame c s s'"
  shows "same_family s s'" "same_threads s s'"
  using assms stream_frame_PT [OF assms] owner_map_same [of s' s]
  by (simp_all add: same_family_def same_threads_def stream_frame_def)

lemma stream_frame_caller:
  assumes "stream_frame c s s'"
  shows "caller d t p a s' = caller d t p a s"
proof -
  have "map_option owner_pcb (tcbs s' t) = map_option owner_pcb (tcbs s t)"
    "map_option owner_ptcb (tcbs s' t) = map_option owner_ptcb (tcbs s t)" "cctx s' = cctx s" "ptcbs s' = ptcbs s"
    using assms by (simp_all add: stream_frame_def)
  then show ?thesis unfolding caller_def live_def cur_thread_def by (cases "tcbs s' t"; cases "tcbs s t") auto
qed

lemma stream_frame_files: "same_files s s' \<Longrightarrow> stream_frame c s s'"
  by (simp add: same_files_def stream_frame_def)

lemma stream_frame_kframe: "kframe s s' \<Longrightarrow> stream_frame c s s'"
  by (rule stream_frame_files [OF same_files_kframe])

lemma stream_frame_updates [simp]:
  "stream_frame c s (s'\<lparr>FT := x1\<rparr>) = stream_frame c s s'" "stream_frame c s (s'\<lparr>FCB_freelist := x2\<rparr>) = stream_frame c s s'"
  "stream_frame c s (s'\<lparr>pipes := x3\<rparr>) = stream_frame c s s'" "stream_frame c s (s'\<lparr>sockets := x4\<rparr>) = stream_frame c s s'"
  "stream_frame c s (s'\<lparr>Port_Map := x5\<rparr>) = stream_frame c s s'" "stream_frame c s (s'\<lparr>requests := x6\<rparr>) = stream_frame c s s'"
  "stream_frame c s (s'\<lparr>picbs := x7\<rparr>) = stream_frame c s s'" "stream_frame c s (upd_fcb f g s') = stream_frame c s s'"
  "stream_frame c s (cond_init cv s') = stream_frame c s s'" "stream_frame c s (release_FCB f s') = stream_frame c s s'"
  "stream_frame c s (FCB_incref f s') = stream_frame c s s'"
  by (simp_all add: stream_frame_def upd_fcb_def cond_init_def release_FCB_def FCB_incref_def)

lemma stream_frame_alloc [simp]: "next_addr s' \<le> n \<Longrightarrow> stream_frame c s s' \<Longrightarrow> stream_frame c s (s'\<lparr>next_addr := n\<rparr>)"
  by (simp add: stream_frame_def)

lemma stream_frame_FIDT: "CURPROC c s = Some p \<Longrightarrow> stream_frame c s s' \<Longrightarrow> stream_frame c s (set_FIDT p i v s')"
proof -
  assume a: "CURPROC c s = Some p" "stream_frame c s s'"
  have "stream_frame c s' (set_FIDT p i v s')"
    using stream_frame_CURPROC [OF a(2), of c] a(1) by (simp add: stream_frame_def set_FIDT_def upd_pcb_def)
  with a(2) stream_frame_trans show ?thesis by blast
qed

section \<open>Building blocks\<close>

lemma acquire_FCBs_frame: "acquire_FCBs n s = (fs, s') \<Longrightarrow> stream_frame c s s'"
proof (induction n arbitrary: s fs s')
  case (Suc n)
  show ?case
  proof (cases "FCB_freelist s")
    case (Cons f fl)
    let ?s1 = "upd_fcb f (\<lambda>x. x\<lparr>refcount := 0\<rparr>) (s\<lparr>FCB_freelist := fl\<rparr>)"
    obtain gs where "acquire_FCBs n ?s1 = (gs, s')"
      using Suc.prems Cons by (auto simp: acquire_FCB_def split: prod.splits)
    from Suc.IH [OF this] have "stream_frame c ?s1 s'" .
    then show ?thesis using stream_frame_trans [of c s ?s1 s'] by simp
  qed (use Suc.prems in \<open>simp add: acquire_FCB_def\<close>)
qed simp

lemma install_FCBs_frame: "CURPROC c s = Some p \<Longrightarrow> stream_frame c s s' \<Longrightarrow> stream_frame c s (install_FCBs p xs s')"
  by (induction p xs s' rule: install_FCBs.induct) (simp_all add: stream_frame_FIDT)

lemma release_FCBs_frame: "stream_frame c s s' \<Longrightarrow> stream_frame c s (fold release_FCB fs s')"
  by (induction fs arbitrary: s') simp_all

lemma FCB_reserve_frame: "FCB_reserve c n s = Some (r, s') \<Longrightarrow> stream_frame c s s'"
  by (auto simp: FCB_reserve_def Let_def split: option.splits prod.splits if_splits
      dest!: acquire_FCBs_frame [where c = c] intro: release_FCBs_frame install_FCBs_frame)

lemma unreserve_frame: "unreserve_loop p xs s' = Some s'' \<Longrightarrow> CURPROC c s = Some p \<Longrightarrow> stream_frame c s s' \<Longrightarrow> stream_frame c s s''"
  by (induction p xs s' rule: unreserve_loop.induct) (auto simp: stream_frame_FIDT split: if_splits)

lemma FCB_unreserve_frame: "FCB_unreserve c fids fcbs s' = Some s'' \<Longrightarrow> stream_frame c s s' \<Longrightarrow> stream_frame c s s''"
  using stream_frame_CURPROC [of c s s' c] by (auto simp: FCB_unreserve_def intro: unreserve_frame)

lemma FCB_decref_stream_frame:
  assumes "FCB_decref c f s' = Some (r, s'')" "stream_frame c s s'"
  shows "stream_frame c s s''"
proof -
  let ?s1 = "upd_fcb f (\<lambda>x. x\<lparr>refcount := refcount x - 1\<rparr>) s'"
  have f1: "stream_frame c s ?s1" using assms(2) by simp
  consider "s'' = ?s1" | ops s2 where "fops_Close c ops (streamobj (FT ?s1 f)) ?s1 = Some (r, s2)" "s'' = release_FCB f s2"
    using assms(1) by (auto simp: FCB_decref_def Let_def split: if_splits)
  then show ?thesis
  proof cases
    case 2
    from stream_frame_trans [OF f1 stream_frame_files [OF fops_Close_method.neutral [OF 2(1)]]] 2(2) show ?thesis by simp
  qed (use f1 in simp)
qed

lemma finish_frame: "finish c f (r1, s1) = Some (r, s'') \<Longrightarrow> stream_frame c s s1 \<Longrightarrow> stream_frame c s s''"
  by (auto simp: finish_def split: outcome.splits intro: FCB_decref_stream_frame)

lemma method_frames:
  "fops_Read c ops obj rcs n (FCB_incref f s) = Some (r, s') \<Longrightarrow> stream_frame c s s'"
  "fops_Write c ops obj wcs buf (FCB_incref f s) = Some (w, s') \<Longrightarrow> stream_frame c s s'"
  "read_resume c cv rcs n s = Some (r, s') \<Longrightarrow> stream_frame c s s'"
  "write_resume c cv buf s = Some (w, s') \<Longrightarrow> stream_frame c s s'"
  "serial_write d wcs buf s = Some (w, s') \<Longrightarrow> stream_frame c s s'"
proof -
  have i: "stream_frame c s (FCB_incref f s)" by simp
  show "fops_Read c ops obj rcs n (FCB_incref f s) = Some (r, s') \<Longrightarrow> stream_frame c s s'"
    by (rule stream_frame_trans [OF i stream_frame_files]) (rule fops_Read_method.neutral)
  show "fops_Write c ops obj wcs buf (FCB_incref f s) = Some (w, s') \<Longrightarrow> stream_frame c s s'"
    by (rule stream_frame_trans [OF i stream_frame_files]) (rule fops_Write_method.neutral)
qed (rule stream_frame_files, (rule read_resume_method.neutral write_resume_method.neutral serial_write_method.neutral, assumption))+

lemma upd_frames:
  "upd_socket a g s' = Some s'' \<Longrightarrow> stream_frame c s s'' = stream_frame c s s'"
  "upd_request a h s' = Some s'' \<Longrightarrow> stream_frame c s s'' = stream_frame c s s'"
  "unref_socket a s' = Some s'' \<Longrightarrow> stream_frame c s s'' = stream_frame c s s'"
  "port_set port x s' = Some s'' \<Longrightarrow> stream_frame c s s'' = stream_frame c s s'"
  by (auto simp: upd_socket_def upd_request_def unref_socket_def port_set_def split: if_splits)

section \<open>The system calls on streams\<close>

locale stream_call =
  fixes c :: nat and call :: "'a kernel_scheme \<Rightarrow> ('r \<times> 'a kernel_scheme) option"
  assumes frame: "call s = Some (r, s') \<Longrightarrow> stream_frame c s s'"
begin

lemma keeps_kernel_ok:
  assumes "kernel_ok pins s" "caller c t p a s" "call s = Some (r, s')"
    and "files_inv {} pins' s'" "\<forall>f. 0 \<le> pins' f \<and> pins' f < 2 ^ 31"
  shows "kernel_ok pins' s'"
proof -
  note f = frame [OF assms(3)]
  have "pstate (PT s p) = ALIVE" "CURPROC c s = Some p"
    using caller_alive(2) [OF _ assms(2)] caller_CURPROC [OF assms(2)] assms(1) by (simp_all add: kernel_ok_def)
  then have "FIDT (PT s' q) = FIDT (PT s q)" if "pstate (PT s q) \<noteq> ALIVE" for q
    using that f by (auto simp: stream_frame_def)
  then have "fids_dead s'" using assms(1) stream_frame_PT(1) [OF f] by (simp add: kernel_ok_def fids_dead_def)
  then show ?thesis
    using assms(1,4,5) same_family_inv [OF stream_frame_same(1) [OF f]] same_threads_inv [OF stream_frame_same(2) [OF f]]
    by (simp add: kernel_ok_def)
qed

lemma keeps_callers: "call s = Some (r, s') \<Longrightarrow> caller d t p a s' = caller d t p a s"
  by (rule stream_frame_caller [OF frame])

end

interpretation Read_call: stream_call c "sys_Read c fid rcs n" for c fid rcs n
  by unfold_locales
    (auto simp: sys_Read_def split: option.splits intro: finish_frame dest!: method_frames)

interpretation Read_resume_call: stream_call c "sys_Read_resume c f cv rcs n" for c f cv rcs n
  by unfold_locales (auto simp: sys_Read_resume_def intro: finish_frame method_frames)

interpretation Write_call: stream_call c "sys_Write c fid wcs buf" for c fid wcs buf
  by unfold_locales
    (auto simp: sys_Write_def split: option.splits intro: finish_frame dest!: method_frames)

interpretation Write_resume_call: stream_call c "sys_Write_resume c f cv buf" for c f cv buf
  by unfold_locales (auto simp: sys_Write_resume_def intro: finish_frame method_frames)

interpretation Write_again_call: stream_call c "sys_Write_again c f wcs buf" for c f wcs buf
  by unfold_locales (auto simp: sys_Write_again_def intro: finish_frame method_frames)

interpretation Close_call: stream_call c "sys_Close c fid" for c fid
  by unfold_locales
    (auto simp: sys_Close_def Let_def split: option.splits, erule FCB_decref_stream_frame, erule stream_frame_FIDT, simp)

lemma Dup2_frame:
  assumes "sys_Dup2 c oldfd newfd s = Some (r, s')"
  shows "stream_frame c s s'"
proof (cases "s' = s")
  case False
  with assms obtain f new s1 p where e: "get_fcb c oldfd s = Some (Some f)" "get_fcb c newfd s = Some new" "new \<noteq> Some f"
    "(case new of None \<Rightarrow> Some s | Some g \<Rightarrow> map_option snd (FCB_decref c g s)) = Some s1"
    "CURPROC c s1 = Some p" "s' = set_FIDT p (nat newfd) (Some f) (FCB_incref f s1)"
    unfolding sys_Dup2_def by (auto split: if_splits option.splits)
  have f1: "stream_frame c s s1" using e(4) by (auto split: option.splits intro: FCB_decref_stream_frame)
  with e(5,6) stream_frame_CURPROC [OF f1, of c] show ?thesis by (simp add: stream_frame_FIDT)
qed simp

interpretation Dup2_call: stream_call c "sys_Dup2 c oldfd newfd" for c oldfd newfd
  by unfold_locales (rule Dup2_frame)

interpretation Socket_call: stream_call c "sys_Socket c port" for c port
  by unfold_locales
    (auto simp: sys_Socket_def xmalloc_def split: if_splits option.splits dest!: FCB_reserve_frame)

interpretation OpenInfo_call: stream_call c "sys_OpenInfo c" for c
  by unfold_locales
    (auto simp: sys_OpenInfo_def xmalloc_def split: option.splits dest!: FCB_reserve_frame)

interpretation Pipe_call: stream_call c "sys_Pipe c" for c
  by unfold_locales
    (auto simp: sys_Pipe_def acquire_PipeCB_def xmalloc_def upd_pipe_def Let_def split: if_splits option.splits dest!: FCB_reserve_frame)

interpretation open_stream_call: stream_call c "open_stream c major minor" for c major minor
  by unfold_locales
    (auto simp: open_stream_def split: option.splits dest!: FCB_reserve_frame, erule FCB_unreserve_frame, assumption)

interpretation Listen_call: stream_call c "sys_Listen c sock" for c sock
  by unfold_locales
    (auto simp: sys_Listen_def upd_frames split: if_splits option.splits bind_splits)

lemma close_frames:
  "pipe_reader_close c p s = Some (r, s') \<Longrightarrow> stream_frame c' s s' \<and> same_streams s s'"
  "pipe_writer_close c p s = Some (r, s') \<Longrightarrow> stream_frame c' s s' \<and> same_streams s s'"
  using pipe_reader_close_method.neutral [of c p s r s'] pipe_writer_close_method.neutral [of c p s r s'] stream_frame_files [of s s']
  by (simp_all add: same_files_def same_streams_def)

lemma ShutDown_frame:
  assumes "sys_ShutDown c sock how s = Some (r, s')"
  shows "stream_frame c s s' \<and> same_streams s s'"
  using assms
  by (auto simp: sys_ShutDown_def split: if_splits option.splits shutdown_mode.splits dest!: close_frames [where c' = c],
      (blast intro: stream_frame_trans same_streams_trans)+)

interpretation ShutDown_call: stream_call c "sys_ShutDown c sock how" for c sock how
  by unfold_locales (rule ShutDown_frame [THEN conjunct1])

lemma connect_peers_frame:
  "connect_peers rp lp rf lf s' = Some s'' \<Longrightarrow> stream_frame c s s' \<Longrightarrow> stream_frame c s s''"
  by (auto simp: connect_peers_def xmalloc_def upd_socket_def Let_def split: bind_splits)

lemma signal_frame: "kernel_signal c' cv s' = Some s'' \<Longrightarrow> stream_frame c s s' \<Longrightarrow> stream_frame c s s''"
  using stream_frame_trans stream_frame_kframe kernel_signal_kframe by blast

lemma accept_request_frame:
  assumes "accept_request c a port r s' = Some (fid, s'')" "stream_frame c s s'"
  shows "stream_frame c s s''"
proof -
  obtain s1 fid' s2 where s: "upd_request r (\<lambda>x. x\<lparr>admitted := True\<rparr>) s' = Some s1" "sys_Socket c port s1 = Some (fid', s2)"
    using assms(1) by (auto simp: accept_request_def split: bind_splits)
  have f2: "stream_frame c s s2"
    using stream_frame_trans [OF _ Socket_call.frame [OF s(2)]] upd_frames(2) [OF s(1)] assms(2) by simp
  show ?thesis
  proof (cases "fid' = NOFILE")
    case True
    then show ?thesis using assms(1) s f2 by (auto simp: accept_request_def upd_frames(3) split: bind_splits)
  next
    case False
    then obtain rp lp rf lf s3 s4 where "connect_peers rp lp rf lf s2 = Some s3" "kernel_signal c (connected_cv r) s3 = Some s4"
      "unref_socket a s4 = Some s''"
      using assms(1) s by (auto simp: accept_request_def split: bind_splits)
    with signal_frame connect_peers_frame [OF _ f2] upd_frames(3) show ?thesis by metis
  qed
qed

lemma accept_loop_frame:
  assumes "accept_loop c a s' = Some (r, s'')" "stream_frame c s s'"
  shows "stream_frame c s s''"
  using assms
  by (auto simp: accept_loop_def upd_frames split: if_splits list.splits bind_splits dest!: accept_request_frame [where s = s])

interpretation accept_loop_call: stream_call c "accept_loop c a" for c a
  by unfold_locales (erule accept_loop_frame, simp)

interpretation Accept_call: stream_call c "sys_Accept c lsock" for c lsock
  by unfold_locales
    (auto simp: sys_Accept_def upd_frames split: if_splits option.splits bind_splits dest!: accept_loop_frame)

section \<open>Streams that a call leaves alone\<close>

lemma same_streams_updates [simp]:
  "same_streams s (s'\<lparr>sockets := x4\<rparr>) = same_streams s s'" "same_streams s (s'\<lparr>Port_Map := x5\<rparr>) = same_streams s s'"
  "same_streams s (s'\<lparr>requests := x6\<rparr>) = same_streams s s'" "same_streams s (s'\<lparr>next_addr := n\<rparr>) = same_streams s s'"
  "same_streams s (s'\<lparr>pipes := x7\<rparr>) = same_streams s s'" "same_streams s (cond_init cv s') = same_streams s s'"
  by (simp_all add: same_streams_def cond_init_def)

lemma upd_streams:
  "upd_socket a g s' = Some s'' \<Longrightarrow> same_streams s s'' = same_streams s s'"
  "upd_request a h s' = Some s'' \<Longrightarrow> same_streams s s'' = same_streams s s'"
  "unref_socket a s' = Some s'' \<Longrightarrow> same_streams s s'' = same_streams s s'"
  "port_set port x s' = Some s'' \<Longrightarrow> same_streams s s'' = same_streams s s'"
  by (auto simp: upd_socket_def upd_request_def unref_socket_def port_set_def split: if_splits)

lemma Listen_streams: "sys_Listen c sock s = Some (r, s') \<Longrightarrow> same_streams s s'"
  by (auto simp: sys_Listen_def upd_streams split: if_splits option.splits bind_splits)

lemma Connect_frame:
  assumes "sys_Connect c sock port timeout s = Some (r, l, s')"
  shows "stream_frame c s s' \<and> same_streams s s' \<and> (\<forall>x. r = Done x \<longrightarrow> s' = s) \<and> (r = Yield y \<longrightarrow> False)"
proof (cases "s' = s")
  case True
  then show ?thesis using assms by (auto simp: sys_Connect_def xmalloc_def Let_def split: if_splits option.splits bind_splits)
next
  case False
  then obtain a b s1 s4 x where s: "upd_socket a (\<lambda>x. x\<lparr>sock_refcount := sock_refcount x + 1\<rparr>) s = Some s1"
    "upd_socket b (\<lambda>x. x\<lparr>sock_queue := next_addr s1 # sock_queue x\<rparr>)
       (cond_init (connected_cv (next_addr s1)) (s1\<lparr>next_addr := next_addr s1 + 1, requests := x\<rparr>)) = Some s4"
    "kernel_signal c (req_available b) s4 = Some s'" "\<exists>cv cause t. r = Block cv cause t"
    using assms by (auto simp: sys_Connect_def xmalloc_def Let_def split: if_splits option.splits bind_splits)
  have "stream_frame c s s4" "same_streams s s4"
    using upd_frames(1) [OF s(1), of c s] upd_frames(1) [OF s(2), of c s] upd_streams(1) [OF s(1), of s] upd_streams(1) [OF s(2), of s] by simp_all
  moreover have "same_streams s4 s'" using same_streams_kframe [OF kernel_signal_kframe [OF s(3)]] .
  ultimately show ?thesis using signal_frame [OF s(3)] same_streams_trans s(4) by blast
qed

lemma connect_resume_frame:
  "connect_resume a r ret s = Some (v, s') \<Longrightarrow> stream_frame c s s' \<and> same_streams s s'"
  by (auto simp: connect_resume_def upd_frames upd_streams split: bind_splits)

lemma same_streams_files_ok:
  "stream_frame c s s' \<Longrightarrow> same_streams s s' \<Longrightarrow> files_ok pins s \<Longrightarrow> files_ok pins s'"
  using same_streams_inv [of s s' "{}" pins] stream_frame_CURPROC [of c s s'] by (simp add: files_ok_def)

lemma connect_peers_streams: "connect_peers rp lp rf lf s' = Some s'' \<Longrightarrow> same_streams s s' \<Longrightarrow> same_streams s s''"
  by (auto simp: connect_peers_def xmalloc_def upd_socket_def Let_def split: bind_splits)

lemma accept_request_files:
  assumes "accept_request c a port r s = Some (fid, s')" "files_ok pins s"
  shows "files_ok pins s'"
proof -
  obtain s1 fid' s2 where s: "upd_request r (\<lambda>x. x\<lparr>admitted := True\<rparr>) s = Some s1" "sys_Socket c port s1 = Some (fid', s2)"
    using assms(1) by (auto simp: accept_request_def split: bind_splits)
  have "files_ok pins s1"
    by (rule same_streams_files_ok [OF _ _ assms(2)]) (use upd_frames(2) [OF s(1)] upd_streams(2) [OF s(1)] in simp_all)
  then have f2: "files_ok pins s2" using sys_Socket_files s(2) by blast
  have "stream_frame c s2 s' \<and> same_streams s2 s'"
  proof (cases "fid' = NOFILE")
    case True
    then show ?thesis using assms(1) s by (auto simp: accept_request_def upd_frames(3) upd_streams(3) split: bind_splits)
  next
    case False
    then obtain rp lp rf lf s3 s4 where u: "connect_peers rp lp rf lf s2 = Some s3" "kernel_signal c (connected_cv r) s3 = Some s4"
      "unref_socket a s4 = Some s'"
      using assms(1) s by (auto simp: accept_request_def split: bind_splits)
    have "stream_frame c s2 s4" "same_streams s2 s3" "same_streams s3 s4"
      using signal_frame [OF u(2) connect_peers_frame [OF u(1)]] connect_peers_streams [OF u(1)]
        same_streams_kframe [OF kernel_signal_kframe [OF u(2)]] by simp_all
    with upd_frames(3) [OF u(3)] upd_streams(3) [OF u(3)] same_streams_trans show ?thesis by blast
  qed
  with same_streams_files_ok f2 show ?thesis by blast
qed

lemma accept_loop_files:
  assumes "accept_loop c a s = Some (r, s')" "files_ok pins s"
  shows "files_ok pins s'"
proof -
  have u: "files_ok pins s1" if "upd_socket a g s = Some s1" for g s1
    by (rule same_streams_files_ok [OF _ _ assms(2)]) (use upd_frames(1) [OF that] upd_streams(1) [OF that] in simp_all)
  then show ?thesis using assms
    by (auto simp: accept_loop_def unref_socket_def split: if_splits list.splits bind_splits intro: accept_request_files)
qed

lemma Accept_files:
  assumes "sys_Accept c lsock s = Some (r, s')" "files_ok pins s"
  shows "files_ok pins s'"
proof -
  have u: "files_ok pins s1" if "upd_socket a g s = Some s1" for a g s1
    by (rule same_streams_files_ok [OF _ _ assms(2)]) (use upd_frames(1) [OF that] upd_streams(1) [OF that] in simp_all)
  then show ?thesis using assms
    by (auto simp: sys_Accept_def split: if_splits option.splits bind_splits intro: accept_loop_files)
qed

end
