(* ===== verification/Machine.thy ===== *)
theory Machine
  imports Calls
begin

text \<open>
  What happens between two calls: the scheduler switches threads, threads take and leave the kernel
  lock and sleep, interrupts are handled.  Each of these operations leaves the data of the kernel
  alone and the threads with their owners; a thread may only disappear.
\<close>

section \<open>Moves of the machine\<close>

definition sched_moves :: "'a sched_scheme \<Rightarrow> 'a sched_scheme \<Rightarrow> bool" where
  "sched_moves s s' \<longleftrightarrow> sched.more s' = sched.more s \<and> same_owners s s'"

definition machine_moves :: "'a cc_scheme \<Rightarrow> 'a cc_scheme \<Rightarrow> bool" where
  "machine_moves s s' \<longleftrightarrow> cc.more s' = cc.more s \<and> same_owners s s'"

lemma sched_moves_refl [simp]: "sched_moves s s" by (simp add: sched_moves_def)
lemma machine_moves_refl [simp]: "machine_moves s s" by (simp add: machine_moves_def)

lemma sched_moves_trans: "sched_moves s s' \<Longrightarrow> sched_moves s' s'' \<Longrightarrow> sched_moves s s''"
  using same_owners_trans by (auto simp: sched_moves_def)

lemma machine_moves_trans: "machine_moves s s' \<Longrightarrow> machine_moves s' s'' \<Longrightarrow> machine_moves s s''"
  using same_owners_trans by (auto simp: machine_moves_def)

lemma sched_machine: "sched_moves s s' \<Longrightarrow> machine_moves s s'"
  using more_cc(4) [of s' s] by (simp add: sched_moves_def machine_moves_def)

lemma kframe_machine: "kframe s s' \<Longrightarrow> machine_moves s s'"
  using owner_map_same [of s' s] by (simp add: kframe_def machine_moves_def)

text \<open>Fields that threads and their owners do not depend on.\<close>

lemma sched_moves_fields [simp]:
  "sched_moves s (s'\<lparr>SCHED := Q\<rparr>) = sched_moves s s'" "sched_moves s (s'\<lparr>TIMEOUT_LIST := L\<rparr>) = sched_moves s s'"
  "sched_moves s (s'\<lparr>cctx := C\<rparr>) = sched_moves s s'" "sched_moves s (s'\<lparr>ctx_preempt := P\<rparr>) = sched_moves s s'"
  "sched_moves s (s'\<lparr>yield_counter := n\<rparr>) = sched_moves s s'" "sched_moves s (s'\<lparr>mutexes := M\<rparr>) = sched_moves s s'"
  "sched_moves s (Mutex_Unlock m s') = sched_moves s s'"
  by (simp_all add: sched_moves_def same_owners_def Mutex_Unlock_def)

lemma machine_sel [simp]:
  "tcbs (cpu_core_restart_one s) = tcbs s" "next_tcb (cpu_core_restart_one s) = next_tcb s"
  "tcbs (snd (cpu_disable_interrupts c s)) = tcbs s" "next_tcb (snd (cpu_disable_interrupts c s)) = next_tcb s"
  "tcbs (cpu_enable_interrupts c s) = tcbs s" "next_tcb (cpu_enable_interrupts c s) = next_tcb s"
  "tcbs (snd (bios_set_timer c u s)) = tcbs s" "next_tcb (snd (bios_set_timer c u s)) = next_tcb s"
  "tcbs (snd (bios_cancel_timer c s)) = tcbs s" "next_tcb (snd (bios_cancel_timer c s)) = next_tcb s"
  by (simp_all add: cpu_core_restart_one_def core_restart_def interrupt_core_def Let_def
      cpu_disable_interrupts_def cpu_enable_interrupts_def bios_set_timer_def bios_cancel_timer_def split_beta)

lemma sched_moves_machine [simp]:
  "sched_moves s (cpu_core_restart_one s') = sched_moves s s'" "sched_moves s (snd (cpu_disable_interrupts c s')) = sched_moves s s'"
  "sched_moves s (cpu_enable_interrupts c s') = sched_moves s s'" "sched_moves s (snd (bios_set_timer c u s')) = sched_moves s s'"
  "sched_moves s (snd (bios_cancel_timer c s')) = sched_moves s s'"
  using frame_machine(1) [of s'] frame_machine(2) [of s' c] frame_machine(3) [of s' c] frame_machine(4) [of s' c u] frame_machine(5) [of s' c]
  by (simp_all add: sched_moves_def same_owners_def frame_def)

lemma sched_moves_release [simp]: "sched_moves s s' \<Longrightarrow> sched_moves s (release_TCB t s')"
  by (auto simp: sched_moves_def same_owners_def release_TCB_def)

lemma sched_moves_upd:
  assumes "upd_tcb t f s' = Some s''" "sched_moves s s'" "\<And>tc. owner_pcb (f tc) = owner_pcb tc" "\<And>tc. owner_ptcb (f tc) = owner_ptcb tc"
  shows "sched_moves s s''"
proof -
  have "sched_moves s' s''" using assms(1,3,4) by (auto simp: sched_moves_def same_owners_def upd_tcb_def split: if_splits)
  with assms(2) show ?thesis by (rule sched_moves_trans)
qed

section \<open>The scheduler\<close>

lemma sched_moves_queue_add: "sched_queue_add t s' = Some s'' \<Longrightarrow> sched_moves s s' \<Longrightarrow> sched_moves s s''"
  by (auto simp: sched_queue_add_def split: if_splits)

lemma sched_moves_ready: "sched_make_ready t s = Some s' \<Longrightarrow> sched_moves s s'"
  by (auto simp: sched_make_ready_def sched_node_remove_def split: if_splits bind_splits
      intro: sched_moves_queue_add dest!: sched_moves_upd [where s = s])

lemma sched_moves_expired: "wakeup_expired_loop curtime s = Some s' \<Longrightarrow> sched_moves s s'"
proof (rule wakeup_expired_loop.raw_induct [of "\<lambda>curtime s s'. sched_moves s s'"])
  fix f :: "TimerDuration \<Rightarrow> 'a sched_scheme \<Rightarrow> 'a sched_scheme option" and curtime s s'
  assume ih: "\<And>curtime s s'. f curtime s = Some s' \<Longrightarrow> sched_moves s s'"
    and b: "(case TIMEOUT_LIST s of [] \<Rightarrow> Some s
      | t # _ \<Rightarrow> do { tc \<leftarrow> tcbs s t; if wakeup_time tc > curtime then Some s
          else do { s1 \<leftarrow> sched_make_ready t s; f curtime s1 } }) = Some s'"
  then show "sched_moves s s'"
    by (auto split: list.splits if_splits bind_splits dest!: sched_moves_ready intro: sched_moves_trans)
qed

lemma sched_moves_aging: "aging_loop k s' = Some s'' \<Longrightarrow> sched_moves s s' \<Longrightarrow> sched_moves s s''"
proof (induction k arbitrary: s')
  case (Suc k)
  show ?case
  proof (cases "SCHED s' k")
    case (Cons t ts)
    with Suc.prems obtain s1 where s1: "upd_tcb t (\<lambda>tc. tc\<lparr>priority := priority tc + 1\<rparr>) (s'\<lparr>SCHED := (SCHED s')(k := ts)\<rparr>) = Some s1"
      "aging_loop k (s1\<lparr>SCHED := (SCHED s1)(k + 1 := SCHED s1 (k + 1) @ [t])\<rparr>) = Some s''" by (auto split: bind_splits)
    have "sched_moves s s1" using Suc.prems(2) by (intro sched_moves_upd [OF s1(1)]) simp_all
    then show ?thesis using Suc.IH [OF s1(2)] by simp
  qed (use Suc in simp)
qed simp

lemma sched_moves_select: "sched_queue_select c t s' = Some (n, s'') \<Longrightarrow> sched_moves s s' \<Longrightarrow> sched_moves s s''"
proof -
  have sel: "select_loop k s1 = (r, s2) \<Longrightarrow> sched_moves s s1 \<Longrightarrow> sched_moves s s2" for k r and s1 s2 :: "'a sched_scheme"
    by (induction k) (auto split: list.splits)
  assume "sched_queue_select c t s' = Some (n, s'')" "sched_moves s s'"
  then show ?thesis
    by (auto simp: sched_queue_select_def Let_def split: prod.splits bind_splits dest!: sel elim!: sched_moves_upd)
qed

lemma adjust_owners [simp]: "owner_pcb (adjust_priority cause tc) = owner_pcb tc" "owner_ptcb (adjust_priority cause tc) = owner_ptcb tc"
  by (simp_all add: adjust_priority_def split: SCHED_CAUSE.splits)

lemma yield_moves:
  assumes "yield c cause s = Some s'"
  shows "sched_moves s s'"
proof -
  let ?s1 = "snd (cpu_disable_interrupts c (snd (bios_cancel_timer c s)))"
  from assms obtain cur rem pre s2 s3 where y: "yield_account c cause cur rem ?s1 = Some s2"
    "sched_wakeup_expired_timeouts s2 = Some s3" "yield_select c cause cur pre s3 = Some s'"
    by (auto simp: yield_def split_beta Let_def split: bind_splits)
  have "sched_moves s s2" using y(1)
    by (auto simp: yield_account_def aging_def Let_def split: if_splits bind_splits
        intro!: sched_moves_upd [of _ _ _ s2 s] dest!: sched_moves_aging [where s = s] sched_moves_upd [where s = s])
  then have s3: "sched_moves s s3" by (rule sched_moves_trans [OF _ sched_moves_expired [OF y(2) [unfolded sched_wakeup_expired_timeouts_def]]])
  obtain n s4 s5 where s4: "sched_queue_select c cur s3 = Some (n, s4)" "upd_tcb cur (adjust_priority cause) s4 = Some s5"
    and s': "sched_moves s s5 \<Longrightarrow> sched_moves s s'" using y(3) by (auto simp: yield_select_def Let_def split: bind_splits if_splits)
  show ?thesis by (rule s' [OF sched_moves_upd [OF s4(2) sched_moves_select [OF s4(1) s3]]]) simp_all
qed

lemma gain_moves:
  assumes "gain c s = Some s'"
  shows "sched_moves s s'"
proof -
  let ?switch = "\<lambda>prev s0. do { pt \<leftarrow> tcbs s0 prev;
    case state pt of READY \<Rightarrow> if ttype pt \<noteq> IDLE_THREAD then sched_queue_add prev s0 else Some s0
      | EXITED \<Rightarrow> Some (release_TCB prev s0) | STOPPED \<Rightarrow> Some s0 | _ \<Rightarrow> None }"
  from assms obtain cur s1 prev s2 where g: "upd_tcb cur (\<lambda>tc. tc\<lparr>state := RUNNING, phase := CTX_DIRTY, rts := its tc\<rparr>) s = Some s1"
    "(if cur \<noteq> prev then do { s0 \<leftarrow> upd_tcb prev (\<lambda>tc. tc\<lparr>phase := CTX_CLEAN\<rparr>) s1; ?switch prev s0 } else Some s1) = Some s2"
    and s': "sched_moves s s2 \<Longrightarrow> sched_moves s s'"
    unfolding gain_def Let_def by (auto elim!: bind_eq_Some_conv [THEN iffD1, elim_format] split: if_splits)
  have s1: "sched_moves s s1" by (rule sched_moves_upd [OF g(1)]) simp_all
  have "sched_moves s s2"
  proof (cases "cur = prev")
    case False
    then obtain s0 where s0: "upd_tcb prev (\<lambda>tc. tc\<lparr>phase := CTX_CLEAN\<rparr>) s1 = Some s0"
      "s2 = s0 \<or> sched_queue_add prev s0 = Some s2 \<or> s2 = release_TCB prev s0"
      using g(2) by (auto split: bind_splits if_splits Thread_state.splits)
    have "sched_moves s s0" by (rule sched_moves_upd [OF s0(1) s1]) simp_all
    then show ?thesis using s0(2) sched_moves_queue_add by auto
  qed (use g(2) s1 in simp)
  then show ?thesis by (rule s')
qed

lemma sleep_section_moves: "sleep_section c st mx timeout s' = Some s'' \<Longrightarrow> sched_moves s s' \<Longrightarrow> sched_moves s s''"
  by (auto simp: sleep_section_def sched_register_timeout_def split_beta Let_def split: bind_splits if_splits option.splits
      elim!: sched_moves_upd dest!: sched_moves_upd [where s = s])

section \<open>The kernel lock and condition variables\<close>

lemma machine_moves_fields [simp]:
  "machine_moves s (s'\<lparr>waiter := W\<rparr>) = machine_moves s s'" "machine_moves s (s'\<lparr>waitset := V\<rparr>) = machine_moves s s'"
  "machine_moves s (s'\<lparr>kernel_sem := k\<rparr>) = machine_moves s s'" "machine_moves s (s'\<lparr>mutexes := M\<rparr>) = machine_moves s s'"
  "machine_moves s (Mutex_Unlock m s') = machine_moves s s'" "machine_moves s (remove_from_ring cv w s') = machine_moves s s'"
  by (simp_all add: machine_moves_def same_owners_def Mutex_Unlock_def remove_from_ring_def)

lemma Mutex_Lock_moves: "Mutex_Lock m s' = Some s'' \<Longrightarrow> machine_moves s s'' = machine_moves s s'"
  by (auto simp: Mutex_Lock_def split: if_splits)

lemma yields: "yield c cause s' = Some s'' \<Longrightarrow> machine_moves s s' \<Longrightarrow> machine_moves s s''"
  using machine_moves_trans sched_machine yield_moves by blast

lemma sleeps: "sleep_section c st mx timeout s' = Some s'' \<Longrightarrow> machine_moves s s' \<Longrightarrow> machine_moves s s''"
  using machine_moves_trans sched_machine sleep_section_moves sched_moves_refl by blast

lemma waits: "cv_wait_section c m cv timeout s' = Some s'' \<Longrightarrow> machine_moves s s' \<Longrightarrow> machine_moves s s''"
  by (auto simp: cv_wait_section_def Mutex_Lock_def Let_def split: bind_splits if_splits elim!: sleeps)

lemma wait_leaves: "cv_wait_leave c m cv s' = Some (r, s'') \<Longrightarrow> machine_moves s s' \<Longrightarrow> machine_moves s s''"
  by (auto simp: cv_wait_leave_def Mutex_Lock_def Let_def split: bind_splits if_splits)

lemma acquires: "kernel_acquire_section c s' = Some (r, s'') \<Longrightarrow> machine_moves s s' \<Longrightarrow> machine_moves s s''"
  by (auto simp: kernel_acquire_section_def split: bind_splits if_splits elim!: waits)

lemma signals: "Cond_Signal c cv s' = Some s'' \<Longrightarrow> machine_moves s s' \<Longrightarrow> machine_moves s s''"
  using machine_moves_trans kframe_machine kernel_signal_kframe [unfolded kernel_signal_def] by blast

lemma broadcasts: "Cond_Broadcast c cv s' = Some s'' \<Longrightarrow> machine_moves s s' \<Longrightarrow> machine_moves s s''"
  using machine_moves_trans kframe_machine kernel_broadcast_kframe [unfolded kernel_broadcast_def] by blast

lemma releases: "kernel_release c s' = Some s'' \<Longrightarrow> machine_moves s s' \<Longrightarrow> machine_moves s s''"
  by (auto simp: kernel_release_def Mutex_Lock_def split: bind_splits if_splits elim!: signals)

lemma rx_loop_moves: "rx_loop c is s' = Some s'' \<Longrightarrow> machine_moves s s' \<Longrightarrow> machine_moves s s''"
  by (induction "is" arbitrary: s') (auto split: bind_splits dest: broadcasts)

lemma machine_moves_interrupts [simp]:
  "machine_moves s (snd (cpu_disable_interrupts c s')) = machine_moves s s'" "machine_moves s (cpu_enable_interrupts c s') = machine_moves s s'"
  by (simp_all add: machine_moves_def same_owners_def) (simp_all add: cpu_disable_interrupts_def cpu_enable_interrupts_def)

section \<open>Operations of the machine\<close>

locale machine_operation =
  fixes operation :: "'a kernel_scheme \<Rightarrow> 'a kernel_scheme option"
  assumes moves: "operation s = Some s' \<Longrightarrow> machine_moves s s'"
begin

lemma keeps_tables: "operation s = Some s' \<Longrightarrow> PT s' = PT s \<and> ptcbs s' = ptcbs s \<and> FT s' = FT s \<and> FCB_freelist s' = FCB_freelist s"
  using more_kernel [of s' s] moves by (simp add: machine_moves_def)

lemma keeps_kernel_ok:
  assumes "kernel_ok pins s" "operation s = Some s'"
  shows "kernel_ok pins s'"
proof -
  have more: "cc.more s' = cc.more s" "same_owners s s'" using moves [OF assms(2)] by (simp_all add: machine_moves_def)
  note m = more_kernel [OF more(1)]
  have "same_family s s'" "same_threads s s'" "same_streams s s'"
    using more(2) by (simp_all add: same_family_def same_threads_def same_streams_def m)
  then show ?thesis using kernel_ok_same assms(1) by blast
qed

end

interpretation yield_op: machine_operation "yield c cause" for c cause
  by unfold_locales (erule yields, simp)

interpretation gain_op: machine_operation "gain c" for c
  by unfold_locales (rule sched_machine [OF gain_moves])

interpretation kernel_lock_op: machine_operation "\<lambda>s. map_option snd (kernel_lock c s)" for c
  by unfold_locales
    (auto simp: kernel_lock_def kernel_lock_section_def then_yield_def Mutex_Lock_def split: bind_splits if_splits
      elim!: yields dest!: acquires intro: machine_moves_trans)

interpretation kernel_lock_resume_op: machine_operation "\<lambda>s. map_option snd (kernel_lock_resume c s)" for c
  by unfold_locales (auto simp: kernel_lock_resume_def split: bind_splits elim!: acquires wait_leaves)

interpretation kernel_unlock_op: machine_operation "kernel_unlock c" for c
  by unfold_locales (auto simp: kernel_unlock_def split: bind_splits elim!: releases)

interpretation kernel_wait_wchan_op: machine_operation "kernel_wait_wchan c cv cause timeout" for c cv cause timeout
  by unfold_locales
    (auto simp: kernel_wait_wchan_def kernel_wait_section_def split: bind_splits elim!: yields waits releases)

interpretation kernel_wait_leave_op: machine_operation "\<lambda>s. map_option (snd o snd) (kernel_wait_leave c cv s)" for c cv
  by unfold_locales (auto simp: kernel_wait_leave_def split: bind_splits elim!: acquires wait_leaves)

interpretation kernel_sleep_op: machine_operation "kernel_sleep c st cause" for c st cause
  by unfold_locales
    (auto simp: kernel_sleep_def kernel_sleep_section_def split: bind_splits elim!: yields sleeps releases)

interpretation serial_rx_op: machine_operation "serial_rx_handler c" for c
  by unfold_locales (auto simp: serial_rx_handler_def split_beta Let_def split: bind_splits if_splits dest!: rx_loop_moves)

end
