(* ===== verification/System.thy ===== *)
theory System
  imports Machine
begin

text \<open>
  The system calls of \<^verbatim>\<open>kernel_sys.c\<close> as steps of a machine, and what holds in every state that
  threads can reach by any interleaving of calls, if programs keep the discipline \<open>waits_apart\<close>.

  A call that waits inside the kernel leaves a record of what it waits for, keyed by the PTCB of
  the calling thread; when the thread runs again the call continues from there.  Everything that
  the scheduler, the kernel lock, interrupts and timeouts do in between is one kind of step that
  leaves the data of the kernel alone.
\<close>

section \<open>The table of system calls\<close>

datatype sys_call =
    Exec "Task option" int "byte list option"
  | Exit int
  | GetPid
  | GetPPid
  | WaitChild int
  | CreateThread "Task option" int "byte list option"
  | ThreadSelf
  | ThreadJoin "nat option"
  | ThreadDetach "nat option"
  | ThreadExit int
  | GetTerminalDevices
  | OpenTerminal nat
  | OpenNull
  | Read int nat
  | Write int "byte list"
  | Close int
  | Dup2 int int
  | Pipe
  | Socket int
  | Listen int
  | Accept int
  | Connect int int TimerDuration
  | ShutDown int shutdown_mode
  | OpenInfo

text \<open>The calls that wait, with the local variables that they need when they continue.\<close>

datatype pending =
    P_Read fcb_ref cv_ref nat
  | P_Write fcb_ref cv_ref "byte list"
  | P_Write_again fcb_ref "byte list"
  | P_WaitChild pid pid
  | P_WaitAny pid
  | P_Exit pid int
  | P_Join nat
  | P_Accept nat
  | P_Connect nat nat

datatype status = Returned | Exited | Waiting pending

text \<open>What the devices answer, and the result of a timed wait.\<close>

record inputs =
  in_read :: "nat \<Rightarrow> read_result"
  in_write :: "nat \<Rightarrow> write_result"
  in_signalled :: bool

fun returned :: "'r \<times> 'a kernel_scheme \<Rightarrow> status \<times> 'a kernel_scheme" where
  "returned (r, s) = (Returned, s)"

fun waiting :: "pending \<Rightarrow> 'r outcome \<times> 'a kernel_scheme \<Rightarrow> status \<times> 'a kernel_scheme" where
  "waiting w (Done r, s) = (Returned, s)"
| "waiting w (Block cv cause to, s) = (Waiting w, s)"
| "waiting w (Yield cause, s) = (Waiting w, s)"

text \<open>No driver yields in the middle of a read.\<close>

fun read_status :: "fcb_ref option \<Rightarrow> nat \<Rightarrow> 'r outcome \<times> 'a kernel_scheme \<Rightarrow> (status \<times> 'a kernel_scheme) option" where
  "read_status f n (Done r, s) = Some (Returned, s)"
| "read_status f n (Block cv cause to, s) = do { x \<leftarrow> f; Some (Waiting (P_Read x cv n), s) }"
| "read_status f n (Yield cause, s) = None"

fun write_status :: "fcb_ref option \<Rightarrow> byte list \<Rightarrow> 'r outcome \<times> 'a kernel_scheme \<Rightarrow> (status \<times> 'a kernel_scheme) option" where
  "write_status f buf (Done r, s) = Some (Returned, s)"
| "write_status f buf (Block cv cause to, s) = do { x \<leftarrow> f; Some (Waiting (P_Write x cv buf), s) }"
| "write_status f buf (Yield cause, s) = do { x \<leftarrow> f; Some (Waiting (P_Write_again x buf), s) }"

fun exit_status :: "pending \<Rightarrow> unit outcome \<times> 'a kernel_scheme \<Rightarrow> status \<times> 'a kernel_scheme" where
  "exit_status w (Done r, s) = (Exited, s)"
| "exit_status w (Block cv cause to, s) = (Waiting w, s)"
| "exit_status w (Yield cause, s) = (Waiting w, s)"

text \<open>
  A system call inside the kernel, between \<^verbatim>\<open>PRE_CALL\<close> and \<^verbatim>\<open>POST_CALL\<close>.  \<^verbatim>\<open>Exit\<close> and \<^verbatim>\<open>ThreadExit\<close> end
  in \<^verbatim>\<open>kernel_sleep\<close>, which is a step of the scheduler.
\<close>

definition dispatch :: "nat \<Rightarrow> inputs \<Rightarrow> sys_call \<Rightarrow> 'a kernel_scheme \<Rightarrow> (status \<times> 'a kernel_scheme) option" where
  "dispatch c i call s =
     (case call of
        Exec task al a \<Rightarrow> map_option returned (sys_Exec c task al a s)
      | Exit ev \<Rightarrow> do { p \<leftarrow> CURPROC c s;
                       map_option (exit_status (P_Exit p ev)) (exit_loop c p ev (upd_pcb p (\<lambda>pcb. pcb\<lparr>exitval := ev\<rparr>) s)) }
      | GetPid \<Rightarrow> do { r \<leftarrow> sys_GetPid c s; Some (Returned, s) }
      | GetPPid \<Rightarrow> do { r \<leftarrow> sys_GetPPid c s; Some (Returned, s) }
      | WaitChild cpid \<Rightarrow> do { p \<leftarrow> CURPROC c s;
                       map_option (waiting (if cpid = NOPROC then P_WaitAny p else P_WaitChild p (nat cpid))) (sys_WaitChild c cpid s) }
      | CreateThread task al a \<Rightarrow> map_option returned (sys_CreateThread c task al a s)
      | ThreadSelf \<Rightarrow> do { r \<leftarrow> sys_ThreadSelf c s; Some (Returned, s) }
      | ThreadJoin tid \<Rightarrow> map_option (waiting (P_Join (the tid))) (sys_ThreadJoin c tid s)
      | ThreadDetach tid \<Rightarrow> map_option returned (sys_ThreadDetach c tid s)
      | ThreadExit ev \<Rightarrow> map_option (Pair Exited) (thread_exit_section c ev s)
      | GetTerminalDevices \<Rightarrow> Some (returned (sys_GetTerminalDevices s, s))
      | OpenTerminal n \<Rightarrow> map_option returned (sys_OpenTerminal c n s)
      | OpenNull \<Rightarrow> map_option returned (sys_OpenNull c s)
      | Read fid n \<Rightarrow> do { f \<leftarrow> get_fcb c fid s; rs \<leftarrow> sys_Read c fid (in_read i) n s; read_status f n rs }
      | Write fid buf \<Rightarrow> do { f \<leftarrow> get_fcb c fid s; rs \<leftarrow> sys_Write c fid (in_write i) buf s; write_status f buf rs }
      | Close fid \<Rightarrow> map_option returned (sys_Close c fid s)
      | Dup2 oldfd newfd \<Rightarrow> map_option returned (sys_Dup2 c oldfd newfd s)
      | Pipe \<Rightarrow> map_option returned (sys_Pipe c s)
      | Socket port \<Rightarrow> map_option returned (sys_Socket c port s)
      | Listen sock \<Rightarrow> map_option returned (sys_Listen c sock s)
      | Accept lsock \<Rightarrow> do { p \<leftarrow> CURPROC c s; f \<leftarrow> FIDT (PT s p) (nat lsock); a \<leftarrow> socket_ptr (streamobj (FT s f));
                       map_option (waiting (P_Accept (the a))) (sys_Accept c lsock s) }
      | Connect sock port to \<Rightarrow> map_option (\<lambda>(r, l, s'). waiting (P_Connect (fst (the l)) (snd (the l))) (r, s')) (sys_Connect c sock port to s)
      | ShutDown sock how \<Rightarrow> map_option returned (sys_ShutDown c sock how s)
      | OpenInfo \<Rightarrow> map_option returned (sys_OpenInfo c s))"

definition continue :: "nat \<Rightarrow> inputs \<Rightarrow> pending \<Rightarrow> 'a kernel_scheme \<Rightarrow> (status \<times> 'a kernel_scheme) option" where
  "continue c i w s =
     (case w of
        P_Read f cv n \<Rightarrow> do { rs \<leftarrow> sys_Read_resume c f cv (in_read i) n s; read_status (Some f) n rs }
      | P_Write f cv buf \<Rightarrow> do { rs \<leftarrow> sys_Write_resume c f cv buf s; write_status (Some f) buf rs }
      | P_Write_again f buf \<Rightarrow> do { rs \<leftarrow> sys_Write_again c f (in_write i) buf s; write_status (Some f) buf rs }
      | P_WaitChild par child \<Rightarrow> Some (waiting w (wait_specific_loop par child s))
      | P_WaitAny par \<Rightarrow> map_option (waiting w) (wait_any_loop par s)
      | P_Exit p ev \<Rightarrow> map_option (exit_status w) (exit_loop c p ev s)
      | P_Join a \<Rightarrow> map_option (waiting w) (join_loop a s)
      | P_Accept a \<Rightarrow> map_option (waiting w) (accept_loop c a s)
      | P_Connect a r \<Rightarrow> map_option returned (connect_resume a r (in_signalled i) s))"

section \<open>Steps\<close>

type_synonym calls = "nat \<rightharpoonup> pending"

definition after :: "nat \<Rightarrow> status \<Rightarrow> calls \<Rightarrow> calls" where
  "after a st pend = (case st of Waiting w \<Rightarrow> pend(a \<mapsto> w) | _ \<Rightarrow> pend(a := None))"

text \<open>The process whose children a call waits for.\<close>

fun waits_in :: "pending \<Rightarrow> pid option" where
  "waits_in (P_WaitChild par ch) = Some par"
| "waits_in (P_WaitAny par) = Some par"
| "waits_in (P_Exit par ev) = Some par"
| "waits_in _ = None"

text \<open>The calls in progress that can collect the child \<open>ch\<close> of \<open>par\<close>, and those that could collect the same child.\<close>

fun collects :: "pending \<Rightarrow> pid \<Rightarrow> pid \<Rightarrow> bool" where
  "collects (P_WaitChild p c) par ch \<longleftrightarrow> p = par \<and> c = ch"
| "collects (P_WaitAny p) par ch \<longleftrightarrow> p = par"
| "collects (P_Exit p ev) par ch \<longleftrightarrow> p = par"
| "collects _ par ch \<longleftrightarrow> False"

definition clash :: "pending \<Rightarrow> pending \<Rightarrow> bool" where
  "clash w v \<longleftrightarrow> (\<exists>par ch. w = P_WaitChild par ch \<and> collects v par ch \<or> v = P_WaitChild par ch \<and> collects w par ch)"

text \<open>How a call waits for children; \<^verbatim>\<open>Exit\<close> does so in the initial task only.\<close>

fun wait_of :: "sys_call \<Rightarrow> pid \<Rightarrow> pending option" where
  "wait_of (WaitChild cpid) p = Some (if cpid = NOPROC then P_WaitAny p else P_WaitChild p (nat cpid))"
| "wait_of (Exit ev) p = (if p = 1 then Some (P_Exit p ev) else None)"
| "wait_of _ p = None"

text \<open>
  The discipline under which the kernel is correct: no thread waits for a particular child while
  another call in progress of the same process can collect that child.  Threads may wait for
  different children, and any number of them for any child.  The kernel does not enforce the
  discipline, and the theorem \<open>waiting_twice_reaps_twice\<close> shows what happens without it.  The number of
  calls in progress, and so of threads, is below \<open>2 ^ 31\<close>.
\<close>

definition waits_apart :: "sys_call \<Rightarrow> pid \<Rightarrow> calls \<Rightarrow> bool" where
  "waits_apart call p pend \<longleftrightarrow> card (dom pend) + 1 < 2 ^ 31 \<and>
     (\<forall>w b v. wait_of call p = Some w \<longrightarrow> pend b = Some v \<longrightarrow> \<not> clash w v)"

text \<open>
  A thread enters a system call or continues one, the machine moves, or a core that has none enters
  the scheduler with its idle thread.  \<open>rule\<close> says which calls the programs make in which situation.
\<close>

inductive system_step :: "(sys_call \<Rightarrow> pid \<Rightarrow> calls \<Rightarrow> bool) \<Rightarrow> 'a kernel_scheme \<times> calls \<Rightarrow> 'a kernel_scheme \<times> calls \<Rightarrow> bool"
  for rule where
  enter: "caller c t p a s \<Longrightarrow> pend a = None \<Longrightarrow> rule call p pend \<Longrightarrow> dispatch c i call s = Some (st, s') \<Longrightarrow>
    system_step rule (s, pend) (s', after a st pend)"
| resume: "caller c t p a s \<Longrightarrow> pend a = Some w \<Longrightarrow> continue c i w s = Some (st, s') \<Longrightarrow>
    system_step rule (s, pend) (s', after a st pend)"
| machine: "machine_moves s s' \<Longrightarrow> system_step rule (s, pend) (s', pend)"
| start: "cur_thread c s = None \<Longrightarrow> system_step rule (s, pend) (run_scheduler c (get_pcb 0 s) s, pend)"

section \<open>The calls in progress\<close>

fun uses :: "pending \<Rightarrow> fcb_ref option" where
  "uses (P_Read f cv n) = Some f"
| "uses (P_Write f cv buf) = Some f"
| "uses (P_Write_again f buf) = Some f"
| "uses _ = None"

definition users :: "calls \<Rightarrow> fcb_ref \<Rightarrow> nat set" where
  "users pend f = {a. \<exists>w. pend a = Some w \<and> uses w = Some f}"

definition pins_of :: "calls \<Rightarrow> fcb_ref \<Rightarrow> int" where
  "pins_of pend f = int (card (users pend f))"

definition joiners :: "calls \<Rightarrow> nat \<Rightarrow> nat set" where
  "joiners pend b = {a. pend a = Some (P_Join b)}"

text \<open>What is known of a thread \<open>a\<close> that waits in call \<open>w\<close>.\<close>

definition waits_legally :: "'a kernel_scheme \<Rightarrow> nat \<Rightarrow> pending \<Rightarrow> bool" where
  "waits_legally s a w \<longleftrightarrow> live s a \<and> (\<forall>f. uses w = Some f \<longrightarrow> f < MAX_FILES) \<and>
     (\<forall>par. waits_in w = Some par \<longrightarrow> a \<in> set (ptcb_list (PT s par))) \<and>
     (\<forall>par ch. w = P_WaitChild par ch \<longrightarrow> ch \<in> used s \<and> parent (PT s ch) = Some par) \<and>
     (\<forall>b. w = P_Join b \<longrightarrow> (\<exists>p. a \<in> set (ptcb_list (PT s p)) \<and> b \<in> set (ptcb_list (PT s p))))"

definition waits_disjoint :: "calls \<Rightarrow> bool" where
  "waits_disjoint pend \<longleftrightarrow> (\<forall>a b w v. a \<noteq> b \<longrightarrow> pend a = Some w \<longrightarrow> pend b = Some v \<longrightarrow> \<not> clash w v)"

lemma clash_sym: "clash w v \<longleftrightarrow> clash v w"
  by (auto simp: clash_def)

lemma clash_any: "\<not> clash (P_WaitAny p) v \<Longrightarrow> v \<noteq> P_WaitChild p ch" "\<not> clash (P_Exit p ev) v \<Longrightarrow> v \<noteq> P_WaitChild p ch"
  "\<not> clash (P_WaitChild p ch) v \<Longrightarrow> v \<noteq> P_WaitChild p ch"
  by (auto simp: clash_def)

lemma no_clash: "waits_in w = None \<Longrightarrow> \<not> clash w v"
  by (cases w) (auto simp: clash_def)

text \<open>A thread block counts its own thread until it exits, and every thread that joins it.\<close>

definition joins_counted :: "'a kernel_scheme \<Rightarrow> calls \<Rightarrow> bool" where
  "joins_counted s pend \<longleftrightarrow> (\<forall>b x. ptcbs s b = Some x \<longrightarrow>
     (if exited x then 0 else 1) + int (card (joiners pend b)) \<le> ptcb_refcount x)"

definition calls_ok :: "'a kernel_scheme \<Rightarrow> calls \<Rightarrow> bool" where
  "calls_ok s pend \<longleftrightarrow> finite (dom pend) \<and> card (dom pend) < 2 ^ 31 \<and>
     (\<forall>a w. pend a = Some w \<longrightarrow> waits_legally s a w) \<and> waits_disjoint pend \<and> joins_counted s pend"

definition system_inv :: "'a kernel_scheme \<times> calls \<Rightarrow> bool" where
  "system_inv S \<longleftrightarrow> kernel_ok (pins_of (snd S)) (fst S) \<and> calls_ok (fst S) (snd S)"

lemma users_finite: "finite (dom pend) \<Longrightarrow> finite (users pend f)" "finite (dom pend) \<Longrightarrow> finite (joiners pend b)"
  by (auto intro: finite_subset [of _ "dom pend"] simp: users_def joiners_def)

lemma pins_of_bounds:
  assumes "calls_ok s pend"
  shows "0 \<le> pins_of pend f \<and> pins_of pend f < 2 ^ 31"
proof -
  have "card (users pend f) \<le> card (dom pend)"
    using assms by (intro card_mono) (auto simp: calls_ok_def users_def)
  then show ?thesis using assms by (simp add: pins_of_def calls_ok_def)
qed

lemma pins_of_add:
  assumes "finite (dom pend)" "pend a = None"
  shows "pins_of (pend(a \<mapsto> w)) = (case uses w of None \<Rightarrow> pins_of pend | Some f \<Rightarrow> pin f (pins_of pend))"
proof
  fix f
  have u: "users (pend(a \<mapsto> w)) f = (if uses w = Some f then insert a (users pend f) else users pend f)"
    using assms(2) by (auto simp: users_def split: if_splits)
  have "a \<notin> users pend f" using assms(2) by (simp add: users_def)
  then show "pins_of (pend(a \<mapsto> w)) f = (case uses w of None \<Rightarrow> pins_of pend | Some f \<Rightarrow> pin f (pins_of pend)) f"
    using users_finite(1) [OF assms(1)] by (auto simp: pins_of_def u pin_def split: option.splits)
qed

lemma pins_of_remove:
  assumes "finite (dom pend)" "pend a = Some w"
  shows "pins_of (pend(a := None)) = (case uses w of None \<Rightarrow> pins_of pend | Some f \<Rightarrow> unpin f (pins_of pend))"
proof -
  have "finite (dom (pend(a := None)))" using assms(1) by simp
  from pins_of_add [OF this, of a w] have "pins_of pend = (case uses w of None \<Rightarrow> pins_of (pend(a := None)) | Some f \<Rightarrow> pin f (pins_of (pend(a := None))))"
    using assms(2) by (simp add: map_upd_triv)
  then show ?thesis by (auto split: option.splits)
qed

lemma pins_of_again:
  assumes "finite (dom pend)" "pend a = Some w" "uses v = uses w"
  shows "pins_of (pend(a \<mapsto> v)) = pins_of pend"
proof -
  have "users (pend(a \<mapsto> v)) f = users pend f" for f using assms(2,3) by (auto simp: users_def)
  then show ?thesis by (simp add: pins_of_def fun_eq_iff)
qed

lemma joins_counted_at:
  "joins_counted s P \<Longrightarrow> ptcbs s b = Some x \<Longrightarrow> (if exited x then 0 else 1) + int (card (joiners P b)) \<le> ptcb_refcount x"
  by (simp add: joins_counted_def)

lemma joins_counted_mono:
  assumes "joins_counted s P" "\<And>b. card (joiners Q b) \<le> card (joiners P b)"
  shows "joins_counted s Q"
  unfolding joins_counted_def
proof (intro allI impI)
  fix b x assume "ptcbs s b = Some x"
  from joins_counted_at [OF assms(1) this] assms(2) [of b]
  show "(if exited x then 0 else 1) + int (card (joiners Q b)) \<le> ptcb_refcount x" by linarith
qed

lemma calls_ok_remove:
  assumes "calls_ok s pend"
  shows "calls_ok s (pend(a := None))"
proof -
  have fin: "finite (dom pend)" using assms by (simp add: calls_ok_def)
  have "card (joiners (pend(a := None)) b) \<le> card (joiners pend b)" for b
    using users_finite(2) [OF fin] by (intro card_mono) (auto simp: joiners_def)
  then have "joins_counted s (pend(a := None))"
    using assms joins_counted_mono by (auto simp: calls_ok_def)
  moreover have "card (dom (pend(a := None))) \<le> card (dom pend)" using fin by (intro card_mono) auto
  ultimately show ?thesis using assms fin by (auto simp: calls_ok_def waits_disjoint_def)
qed

lemma calls_ok_add:
  assumes "calls_ok s P" "P a = None" "card (dom P) + 1 < 2 ^ 31" "waits_legally s a w"
    "\<And>b v. P b = Some v \<Longrightarrow> \<not> clash w v"
    "\<And>b x. w = P_Join b \<Longrightarrow> ptcbs s b = Some x \<Longrightarrow> (if exited x then 0 else 1) + int (card (joiners P b)) + 1 \<le> ptcb_refcount x"
  shows "calls_ok s (P(a \<mapsto> w))"
proof -
  have fin: "finite (dom P)" using assms(1) by (simp add: calls_ok_def)
  have j: "joiners (P(a \<mapsto> w)) b = (if w = P_Join b then insert a (joiners P b) else joiners P b)" for b
    using assms(2) by (auto simp: joiners_def split: if_splits)
  have "a \<notin> joiners P b" for b using assms(2) by (simp add: joiners_def)
  then have c: "int (card (joiners (P(a \<mapsto> w)) b)) = int (card (joiners P b)) + (if w = P_Join b then 1 else 0)" for b
    using users_finite(2) [OF fin] by (simp add: j)
  have "joins_counted s (P(a \<mapsto> w))" unfolding joins_counted_def c
  proof (intro allI impI)
    fix b x assume x: "ptcbs s b = Some x"
    then have "(if exited x then 0 else 1) + int (card (joiners P b)) \<le> ptcb_refcount x"
      using assms(1) joins_counted_at unfolding calls_ok_def by blast
    then show "(if exited x then 0 else 1) + (int (card (joiners P b)) + (if w = P_Join b then 1 else 0)) \<le> ptcb_refcount x"
      using assms(6) [OF _ x] by (cases "w = P_Join b"; cases "exited x") simp_all
  qed
  moreover have "waits_disjoint (P(a \<mapsto> w))" using assms(1,5) clash_sym unfolding waits_disjoint_def calls_ok_def by (auto split: if_splits)
  moreover have "card (dom (P(a \<mapsto> w))) < 2 ^ 31" using assms(2,3) fin by (simp add: card_insert_if domIff)
  ultimately show ?thesis using assms(1,4) fin by (auto simp: calls_ok_def)
qed

text \<open>A change of state that the waiting threads do not notice.\<close>

lemma calls_ok_keep:
  assumes "calls_ok s P"
    and "\<And>b w. P b = Some w \<Longrightarrow> live s' b"
    and "\<And>b w p. P b = Some w \<Longrightarrow> b \<in> set (ptcb_list (PT s p)) \<Longrightarrow> b \<in> set (ptcb_list (PT s' p))"
    and "\<And>b par ch. P b = Some (P_WaitChild par ch) \<Longrightarrow> ch \<in> used s' \<and> parent (PT s' ch) = Some par"
    and "\<And>b x p. P b = Some (P_Join x) \<Longrightarrow> b \<in> set (ptcb_list (PT s p)) \<Longrightarrow> x \<in> set (ptcb_list (PT s p)) \<Longrightarrow> x \<in> set (ptcb_list (PT s' p))"
    and "joins_counted s' P"
  shows "calls_ok s' P"
proof -
  have "waits_legally s' b w" if b: "P b = Some w" for b w
  proof -
    have l: "waits_legally s b w" using assms(1) b by (simp add: calls_ok_def)
    have "\<exists>p. b \<in> set (ptcb_list (PT s' p)) \<and> x \<in> set (ptcb_list (PT s' p))" if "w = P_Join x" for x
      using l that assms(3) [OF b] assms(5) [of b x] b unfolding waits_legally_def by blast
    then show ?thesis using l assms(2-4) b unfolding waits_legally_def by blast
  qed
  then show ?thesis using assms(1,6) by (simp add: calls_ok_def)
qed

definition same_tasks :: "'a kernel_scheme \<Rightarrow> 'a kernel_scheme \<Rightarrow> bool" where
  "same_tasks s s' \<longleftrightarrow> ptcbs s' = ptcbs s \<and> (\<forall>p. ptcb_list (PT s' p) = ptcb_list (PT s p) \<and>
     pstate (PT s' p) = pstate (PT s p) \<and> parent (PT s' p) = parent (PT s p))"

lemma same_tasks_legal: "same_tasks s s' \<Longrightarrow> waits_legally s' a w = waits_legally s a w"
  by (simp add: same_tasks_def waits_legally_def live_def used_def)

lemma same_tasks_ok: "same_tasks s s' \<Longrightarrow> calls_ok s' P = calls_ok s P"
  by (simp add: calls_ok_def same_tasks_legal) (simp add: same_tasks_def joins_counted_def)

lemma same_tasks_stream: "stream_frame c s s' \<Longrightarrow> same_tasks s s'"
  using stream_frame_PT [of c s s'] by (simp add: same_tasks_def stream_frame_def)

section \<open>A call inside the kernel\<close>

text \<open>Thread \<open>a\<close> of process \<open>p\<close> runs in the kernel; \<open>P\<close> are the calls of the other threads.\<close>

definition in_call :: "nat \<Rightarrow> tcb_ref \<Rightarrow> pid \<Rightarrow> nat \<Rightarrow> (fcb_ref \<Rightarrow> int) \<Rightarrow> calls \<Rightarrow> 'a kernel_scheme \<Rightarrow> bool" where
  "in_call c t p a pins P s \<longleftrightarrow> kernel_ok pins s \<and> calls_ok s P \<and> P a = None \<and> card (dom P) + 1 < 2 ^ 31 \<and> caller c t p a s"

lemma in_callD:
  assumes "in_call c t p a pins P s"
  shows "kernel_ok pins s" "calls_ok s P" "P a = None" "card (dom P) + 1 < 2 ^ 31" "caller c t p a s" "finite (dom P)"
    "CURPROC c s = Some p" "a \<in> set (ptcb_list (PT s p))" "pstate (PT s p) = ALIVE" "p < MAX_PROC" "live s a" "files_ok pins s"
    "family_inv s" "threads_inv s" "joins_counted s P"
  using assms caller_alive [of s c t p a] caller_CURPROC [of c t p a s] kernel_ok_files [of pins s]
  by (simp_all add: in_call_def calls_ok_def kernel_ok_def caller_def)

lemma pins_of_room:
  assumes "in_call c t p a pins P s"
  shows "pins_of P f + 1 < 2 ^ 31"
proof -
  have "card (users P f) \<le> card (dom P)"
    using in_callD(6) [OF assms] by (intro card_mono) (auto simp: users_def)
  then show ?thesis using in_callD(4) [OF assms] by (simp add: pins_of_def)
qed

lemma enter_call:
  "system_inv (s, pend) \<Longrightarrow> caller c t p a s \<Longrightarrow> pend a = None \<Longrightarrow> waits_apart call p pend \<Longrightarrow> in_call c t p a (pins_of pend) pend s"
  by (simp add: system_inv_def in_call_def waits_apart_def)

lemma resume_call:
  assumes "system_inv (s, pend)" "caller c t p a s" "pend a = Some w"
  shows "in_call c t p a (pins_of pend) (pend(a := None)) s"
    "pins_of pend = (case uses w of None \<Rightarrow> pins_of (pend(a := None)) | Some f \<Rightarrow> pin f (pins_of (pend(a := None))))"
    "waits_legally s a w" "\<And>b v. (pend(a := None)) b = Some v \<Longrightarrow> \<not> clash w v"
    "\<And>b x. w = P_Join b \<Longrightarrow> ptcbs s b = Some x \<Longrightarrow> (if exited x then 0 else 1) + int (card (joiners (pend(a := None)) b)) + 1 \<le> ptcb_refcount x"
    "after a st pend = after a st (pend(a := None))"
proof -
  let ?P = "pend(a := None)"
  have ok: "kernel_ok (pins_of pend) s" "calls_ok s pend" using assms(1) by (simp_all add: system_inv_def)
  then have fin: "finite (dom pend)" "card (dom pend) < 2 ^ 31" by (simp_all add: calls_ok_def)
  have "card (dom ?P) + 1 = card (dom pend)" using assms(3) fin(1) card_Suc_Diff1 [of "dom pend" a] by (simp add: domIff)
  then show "in_call c t p a (pins_of pend) ?P s"
    using ok calls_ok_remove [OF ok(2), of a] assms(2) fin by (simp add: in_call_def)
  show "pins_of pend = (case uses w of None \<Rightarrow> pins_of ?P | Some f \<Rightarrow> pin f (pins_of ?P))"
    using pins_of_add [of ?P a w] fin(1) assms(3) by (simp add: map_upd_triv)
  show "waits_legally s a w" using ok(2) assms(3) by (simp add: calls_ok_def)
  show "\<And>b v. ?P b = Some v \<Longrightarrow> \<not> clash w v"
    using ok(2) assms(3) unfolding calls_ok_def waits_disjoint_def by (metis fun_upd_apply option.distinct(1))
  show "after a st pend = after a st ?P" by (simp add: after_def split: status.splits)
  fix b x assume b: "w = P_Join b" "ptcbs s b = Some x"
  have "joiners pend b = insert a (joiners ?P b)" "a \<notin> joiners ?P b" using assms(3) b(1) by (auto simp: joiners_def)
  then have "card (joiners pend b) = card (joiners ?P b) + 1" using users_finite(2) [of ?P b] fin(1) by simp
  then show "(if exited x then 0 else 1) + int (card (joiners ?P b)) + 1 \<le> ptcb_refcount x"
    using joins_counted_at [OF _ b(2), of pend] ok(2) by (simp add: calls_ok_def)
qed

lemma call_ends:
  assumes "in_call c t p a pins P s" "kernel_ok (pins_of P) s'" "calls_ok s' P" "st = Returned \<or> st = Exited"
  shows "system_inv (s', after a st P)"
  using assms in_callD(3) [OF assms(1)] by (auto simp: after_def system_inv_def fun_upd_idem)

lemma call_waits:
  assumes "in_call c t p a pins P s" "kernel_ok (pins_of P) s'" "calls_ok s' P" "uses w = None" "waits_legally s' a w"
    "\<And>b v. P b = Some v \<Longrightarrow> \<not> clash w v"
    "\<And>b x. w = P_Join b \<Longrightarrow> ptcbs s' b = Some x \<Longrightarrow> (if exited x then 0 else 1) + int (card (joiners P b)) + 1 \<le> ptcb_refcount x"
  shows "system_inv (s', after a (Waiting w) P)"
proof -
  note i = in_callD [OF assms(1)]
  have "calls_ok s' (P(a \<mapsto> w))" by (rule calls_ok_add [OF assms(3) i(3,4) assms(5-7)])
  moreover have "pins_of (P(a \<mapsto> w)) = pins_of P" using pins_of_add [of P a w] i(3,6) assms(4) by simp
  ultimately show ?thesis using assms(2) by (simp add: after_def system_inv_def)
qed

section \<open>System calls on streams keep the invariant\<close>

lemma stream_step:
  assumes "in_call c t p a pins P s" "stream_frame c s s'" "files_ok (pins_of (after a st P)) s'"
    "\<And>w. st = Waiting w \<Longrightarrow> waits_in w = None \<and> (\<forall>b. w \<noteq> P_Join b) \<and> (\<forall>f. uses w = Some f \<longrightarrow> f < MAX_FILES)"
  shows "system_inv (s', after a st P)"
proof -
  note i = in_callD [OF assms(1)]
  have "stream_call c (\<lambda>x. if x = s then Some ((), s') else None)" by unfold_locales (auto simp: assms(2) split: if_splits)
  from stream_call.keeps_kernel_ok [OF this i(1) i(5), of "()" s' "pins_of (after a st P)"] assms(3)
  have k: "kernel_ok (pins_of (after a st P)) s'" by (simp add: files_ok_def)
  have same: "same_tasks s s'" by (rule same_tasks_stream [OF assms(2)])
  have "calls_ok s (after a st P)"
  proof (cases st)
    case (Waiting w)
    have "waits_legally s a w" using assms(4) [OF Waiting] i(11) by (auto simp: waits_legally_def)
    then show ?thesis using calls_ok_add [OF i(2,3,4), of w] assms(4) [OF Waiting] Waiting no_clash by (simp add: after_def)
  qed (use i(2,3) in \<open>simp_all add: after_def fun_upd_idem\<close>)
  then show ?thesis using k same_tasks_ok [OF same] by (simp add: system_inv_def)
qed

lemma stream_returns:
  assumes "in_call c t p a (pins_of P) P s" "stream_frame c s s'" "files_ok (pins_of P) s'"
  shows "system_inv (s', after a Returned P)"
  using stream_step [OF assms(1,2), of Returned] assms(3) in_callD(3) [OF assms(1)] by (simp add: after_def fun_upd_idem)

text \<open>A call that uses no file control block while it waits.\<close>

lemma stream_waits:
  assumes "in_call c t p a (pins_of P) P s" "stream_frame c s s'" "files_ok (pins_of P) s'"
    "waits_in w = None" "uses w = None" "\<forall>b. w \<noteq> P_Join b"
  shows "system_inv (s', after a (Waiting w) P)"
  using stream_step [OF assms(1,2), of "Waiting w"] assms(3-6) in_callD(3,6) [OF assms(1)] by (simp add: after_def pins_of_add)

text \<open>A call that uses a file control block: it holds a reference until it returns.\<close>

lemma uses_other: "uses w = Some f \<Longrightarrow> waits_in w = None \<and> (\<forall>b. w \<noteq> P_Join b)"
  by (cases w) auto

lemma stream_uses:
  assumes "in_call c t p a pins P s" "stream_frame c s s'" "f < MAX_FILES" "files_ok (pins_after r f (pin f (pins_of P))) s'"
    and st: "case r of Done v \<Rightarrow> st = Returned | _ \<Rightarrow> \<exists>w. st = Waiting w \<and> uses w = Some f"
  shows "system_inv (s', after a st P)"
proof (rule stream_step [OF assms(1,2)])
  note i = in_callD [OF assms(1)]
  have "pins_of (after a st P) = pins_after r f (pin f (pins_of P))"
    using st i(3,6) by (auto simp: pins_after_def after_def fun_upd_idem pins_of_add split: outcome.splits)
  with assms(4) show "files_ok (pins_of (after a st P)) s'" by simp
  show "waits_in w = None \<and> (\<forall>b. w \<noteq> P_Join b) \<and> (\<forall>f. uses w = Some f \<longrightarrow> f < MAX_FILES)" if "st = Waiting w" for w
    using st that assms(3) uses_other [of w f] by (auto split: outcome.splits)
qed

lemma read_statusD:
  assumes "read_status fo n (r, s1) = Some (st, s')"
  shows "s' = s1" "case r of Done v \<Rightarrow> st = Returned | _ \<Rightarrow> \<exists>f w. fo = Some f \<and> st = Waiting w \<and> uses w = Some f"
  using assms by (cases r; cases fo; auto)+

lemma write_statusD:
  assumes "write_status fo buf (r, s1) = Some (st, s')"
  shows "s' = s1" "case r of Done v \<Rightarrow> st = Returned | _ \<Rightarrow> \<exists>f w. fo = Some f \<and> st = Waiting w \<and> uses w = Some f"
  using assms by (cases r; cases fo; auto)+

lemma step_Read:
  assumes "in_call c t p a (pins_of P) P s" "get_fcb c fid s = Some fo" "sys_Read c fid rcs n s = Some (r, s1)"
    "read_status fo n (r, s1) = Some (st, s')"
  shows "system_inv (s', after a st P)"
proof -
  note i = in_callD [OF assms(1)] and st = read_statusD [OF assms(4)]
  have "\<forall>f. pins_of P f + 1 < 2 ^ 31" using pins_of_room [OF assms(1)] by blast
  from sys_Read_files [OF i(12) assms(3) this] assms(2)
  consider v where "fo = None" "s1 = s" "r = Done v" | f where "fo = Some f" "f < MAX_FILES" "files_ok (pins_after r f (pin f (pins_of P))) s1" by auto
  then show ?thesis
  proof cases
    case 1
    then show ?thesis using call_ends [OF assms(1) i(1,2), of st] st by simp
  next
    case 2
    then show ?thesis using stream_uses [OF assms(1) Read_call.frame [OF assms(3)] 2(2,3)] st by (auto split: outcome.splits)
  qed
qed

lemma step_Write:
  assumes "in_call c t p a (pins_of P) P s" "get_fcb c fid s = Some fo" "sys_Write c fid wcs buf s = Some (r, s1)"
    "write_status fo buf (r, s1) = Some (st, s')"
  shows "system_inv (s', after a st P)"
proof -
  note i = in_callD [OF assms(1)] and st = write_statusD [OF assms(4)]
  have "\<forall>f. pins_of P f + 1 < 2 ^ 31" using pins_of_room [OF assms(1)] by blast
  from sys_Write_files [OF i(12) assms(3) this] assms(2)
  consider v where "fo = None" "s1 = s" "r = Done v" | f where "fo = Some f" "f < MAX_FILES" "files_ok (pins_after r f (pin f (pins_of P))) s1" by auto
  then show ?thesis
  proof cases
    case 1
    then show ?thesis using call_ends [OF assms(1) i(1,2), of st] st by simp
  next
    case 2
    then show ?thesis using stream_uses [OF assms(1) Write_call.frame [OF assms(3)] 2(2,3)] st by (auto split: outcome.splits)
  qed
qed

lemma step_again:
  assumes "in_call c t p a (pin f (pins_of P)) P s" "f < MAX_FILES"
  shows "sys_Read_resume c f cv rcs n s = Some (r, s1) \<Longrightarrow> read_status (Some f) n (r, s1) = Some (st, s') \<Longrightarrow> system_inv (s', after a st P)"
    and "sys_Write_resume c f cv buf s = Some (r', s1) \<Longrightarrow> write_status (Some f) buf (r', s1) = Some (st, s') \<Longrightarrow> system_inv (s', after a st P)"
    and "sys_Write_again c f wcs buf s = Some (r', s1) \<Longrightarrow> write_status (Some f) buf (r', s1) = Some (st, s') \<Longrightarrow> system_inv (s', after a st P)"
proof -
  note i = in_callD [OF assms(1)]
  have pos: "0 < pin f (pins_of P) f" by (simp add: pin_def pins_of_def)
  { assume e: "sys_Read_resume c f cv rcs n s = Some (r, s1)" "read_status (Some f) n (r, s1) = Some (st, s')"
    note st = read_statusD [OF e(2)]
    show "system_inv (s', after a st P)"
      using stream_uses [OF assms(1) Read_resume_call.frame [OF e(1)] assms(2) sys_Read_resume_files [OF i(12) pos assms(2) e(1)], of st] st
      by (auto split: outcome.splits) }
  { assume e: "sys_Write_resume c f cv buf s = Some (r', s1)" "write_status (Some f) buf (r', s1) = Some (st, s')"
    note st = write_statusD [OF e(2)]
    show "system_inv (s', after a st P)"
      using stream_uses [OF assms(1) Write_resume_call.frame [OF e(1)] assms(2) sys_Write_resume_files [OF i(12) pos assms(2) e(1)], of st] st
      by (auto split: outcome.splits) }
  { assume e: "sys_Write_again c f wcs buf s = Some (r', s1)" "write_status (Some f) buf (r', s1) = Some (st, s')"
    note st = write_statusD [OF e(2)]
    show "system_inv (s', after a st P)"
      using stream_uses [OF assms(1) Write_again_call.frame [OF e(1)] assms(2) sys_Write_again_files [OF i(12) pos assms(2) e(1)], of st] st
      by (auto split: outcome.splits) }
qed

section \<open>Creating processes and threads\<close>

lemma calls_ok_grow:
  assumes "threads_inv s" "calls_ok s P" "tasks_grow s s'"
  shows "calls_ok s' P"
proof -
  have old: "b < next_addr s" if "ptcbs s b \<noteq> None" for b using assms(1) that by (simp add: threads_inv_def ptcbs_ok_def)
  have same: "ptcbs s' b = ptcbs s b" if "ptcbs s b \<noteq> None" for b using assms(3) old [OF that] by (simp add: tasks_grow_def)
  have legal: "waits_legally s b w" if "P b = Some w" for b w using assms(2) that by (simp add: calls_ok_def)
  have listed: "ptcbs s b \<noteq> None" if "b \<in> set (ptcb_list (PT s q))" for b q
    using assms(1) that unfolding threads_inv_def ptcbs_ok_def by blast
  show ?thesis
  proof (rule calls_ok_keep [OF assms(2)])
    fix b w assume "P b = Some w"
    from legal [OF this] have "live s b" by (simp add: waits_legally_def)
    then show "live s' b" using same [of b] by (auto simp: live_def split: option.splits)
  next
    fix b par ch assume "P b = Some (P_WaitChild par ch)"
    from legal [OF this] show "ch \<in> used s' \<and> parent (PT s' ch) = Some par" using assms(3) by (simp add: waits_legally_def tasks_grow_def)
  next
    show "joins_counted s' P" unfolding joins_counted_def
    proof (intro allI impI)
      fix b x assume x: "ptcbs s' b = Some x"
      show "(if exited x then 0 else 1) + int (card (joiners P b)) \<le> ptcb_refcount x"
      proof (cases "ptcbs s b = None")
        case True
        have "\<not> b < next_addr s" using assms(3) True x by (auto simp: tasks_grow_def)
        then have "next_addr s \<le> b" by simp
        with True x assms(3) have "\<not> exited x \<and> 0 < ptcb_refcount x" by (simp add: tasks_grow_def)
        moreover have "P d \<noteq> Some (P_Join b)" for d
          using legal [of d "P_Join b"] listed [of b] True by (auto simp: waits_legally_def)
        then have "joiners P b = {}" by (simp add: joiners_def)
        ultimately show ?thesis by simp
      next
        case False
        then show ?thesis using same [OF False] x assms(2) joins_counted_at [of s P b x] by (simp add: calls_ok_def)
      qed
    qed
  qed (use assms(3) in \<open>auto simp: tasks_grow_def\<close>)
qed

lemma step_Exec:
  assumes "in_call c t p a (pins_of P) P s" "sys_Exec c task al ag s = Some (r, s')"
  shows "system_inv (s', after a Returned P)"
proof -
  note i = in_callD [OF assms(1)]
  from sys_Exec_ok [OF i(1,7,9) assms(2)] calls_ok_grow [OF i(14,2)] show ?thesis by (intro call_ends [OF assms(1)]) auto
qed

lemma step_CreateThread:
  assumes "in_call c t p a (pins_of P) P s" "sys_CreateThread c task al ag s = Some (r, s')"
  shows "system_inv (s', after a Returned P)"
proof -
  note i = in_callD [OF assms(1)]
  from sys_CreateThread_ok [OF i(1,5) assms(2)] calls_ok_grow [OF i(14,2)] gains_grow
  show ?thesis by (intro call_ends [OF assms(1)]) auto
qed

section \<open>Waiting for children\<close>

text \<open>Reaping children that no other thread waits for.\<close>

lemma calls_ok_family:
  assumes "calls_ok s P" "ptcbs s' = ptcbs s" "\<And>q. ptcb_list (PT s' q) = ptcb_list (PT s q)"
    "\<And>b q ch. P b = Some (P_WaitChild q ch) \<Longrightarrow> ch \<in> used s \<Longrightarrow> parent (PT s ch) = Some q \<Longrightarrow> ch \<in> used s' \<and> parent (PT s' ch) = Some q"
  shows "calls_ok s' P"
proof (rule calls_ok_keep [OF assms(1)])
  have legal: "waits_legally s b w" if "P b = Some w" for b w using assms(1) that by (simp add: calls_ok_def)
  show "live s' b" if "P b = Some w" for b w
    using legal [OF that] assms(2) by (simp add: waits_legally_def live_def)
  show "ch \<in> used s' \<and> parent (PT s' ch) = Some q" if "P b = Some (P_WaitChild q ch)" for b q ch
    using legal [OF that] assms(4) [OF that] by (simp add: waits_legally_def)
  show "joins_counted s' P" using assms(1,2) by (simp add: calls_ok_def joins_counted_def)
qed (simp_all add: assms(3))

lemma reap_keeps:
  "ptcbs (snd (cleanup_zombie ch s)) = ptcbs s" "ptcb_list (PT (snd (cleanup_zombie ch s)) q) = ptcb_list (PT s q)"
  "q \<noteq> ch \<Longrightarrow> q \<in> used s \<Longrightarrow> q \<in> used (snd (cleanup_zombie ch s)) \<and> parent (PT (snd (cleanup_zombie ch s)) q) = parent (PT s q)"
  by (simp_all add: cleanup_PT used_def)
    (simp add: cleanup_zombie_def release_PCB_def remove_exited_node_def remove_children_node_def upd_pcb_def)

lemma calls_ok_reap:
  assumes "calls_ok s P" "parent (PT s ch) = Some par" "\<And>b. P b \<noteq> Some (P_WaitChild par ch)"
  shows "calls_ok (snd (cleanup_zombie ch s)) P"
proof (rule calls_ok_family [OF assms(1) reap_keeps(1,2)])
  fix b q d assume d: "P b = Some (P_WaitChild q d)" "d \<in> used s" "parent (PT s d) = Some q"
  with assms(2,3) have "d \<noteq> ch" by auto
  from reap_keeps(3) [OF this d(2)] d(3)
  show "d \<in> used (snd (cleanup_zombie ch s)) \<and> parent (PT (snd (cleanup_zombie ch s)) d) = Some q" by simp
qed

lemma step_wait_specific:
  assumes "in_call c t p a (pins_of P) P s" "ch \<in> used s" "parent (PT s ch) = Some p"
    "\<And>b v. P b = Some v \<Longrightarrow> \<not> clash (P_WaitChild p ch) v" "waiting (P_WaitChild p ch) (wait_specific_loop p ch s) = (st, s')"
  shows "system_inv (s', after a st P)"
proof -
  note i = in_callD [OF assms(1)]
  show ?thesis
  proof (cases "pstate (PT s ch) = ALIVE")
    case True
    with wait_specific_loop_ok [OF i(1) assms(2,3)] assms(5) have st: "st = Waiting (P_WaitChild p ch)" "s' = s" by auto
    have "waits_legally s a (P_WaitChild p ch)" using assms(2,3) i(8,11) by (simp add: waits_legally_def)
    with i(1,2) show ?thesis unfolding st by (intro call_waits [OF assms(1)]) (auto simp: assms(4))
  next
    case False
    with wait_specific_loop_ok [OF i(1) assms(2,3)] assms(5)
    have st: "st = Returned" "s' = snd (cleanup_zombie ch s)" "kernel_ok (pins_of P) (snd (cleanup_zombie ch s))" by auto
    have "P b \<noteq> Some (P_WaitChild p ch)" for b using assms(4) clash_any(3) by blast
    then show ?thesis using call_ends [OF assms(1) st(3) calls_ok_reap [OF i(2) assms(3)]] st by simp
  qed
qed

lemma step_wait_any:
  assumes "in_call c t p a (pins_of P) P s" "\<And>b v. P b = Some v \<Longrightarrow> \<not> clash (P_WaitAny p) v"
    "map_option (waiting (P_WaitAny p)) (wait_any_loop p s) = Some (st, s')"
  shows "system_inv (s', after a st P)"
proof -
  note i = in_callD [OF assms(1)]
  obtain r where r: "wait_any_loop p s = Some (r, s')" "waiting (P_WaitAny p) (r, s') = (st, s')"
    using assms(3) wait_any_loop_ok [OF i(1), of p] by (auto elim: waiting.elims)
  have k: "kernel_ok (pins_of P) s'" using wait_any_loop_ok [OF i(1), of p] r(1) by auto
  show ?thesis
  proof (cases r)
    case (Done v)
    then have "s' = s \<or> (\<exists>ch. parent (PT s ch) = Some p \<and> s' = snd (cleanup_zombie ch s))"
      using wait_any_loop_ok [OF i(1), of p] r(1) by (auto split: if_splits prod.splits)
    moreover have "P b \<noteq> Some (P_WaitChild p ch)" for b ch using assms(2) clash_any(1) by blast
    ultimately have "calls_ok s' P" using i(2) calls_ok_reap [OF i(2)] by auto
    then show ?thesis using call_ends [OF assms(1) k] r(2) Done by auto
  next
    case (Block cv cause to)
    then have st: "s' = s" "st = Waiting (P_WaitAny p)" using wait_any_loop_ok [OF i(1), of p] r by auto
    have "waits_legally s a (P_WaitAny p)" using i(8,11) by (simp add: waits_legally_def)
    with i(1,2) show ?thesis unfolding st by (intro call_waits [OF assms(1)]) (auto simp: assms(2))
  qed (use wait_any_loop_ok [OF i(1), of p] r in auto)
qed

lemma step_WaitChild:
  assumes "in_call c t p a (pins_of P) P s"
    "\<And>b v. P b = Some v \<Longrightarrow> \<not> clash (if cpid = NOPROC then P_WaitAny p else P_WaitChild p (nat cpid)) v"
    "map_option (waiting (if cpid = NOPROC then P_WaitAny p else P_WaitChild p (nat cpid))) (sys_WaitChild c cpid s) = Some (st, s')"
  shows "system_inv (s', after a st P)"
proof -
  note i = in_callD [OF assms(1)]
  show ?thesis
  proof (cases "cpid = NOPROC")
    case True
    then show ?thesis using step_wait_any [OF assms(1)] assms(2,3) i(7) by (simp add: sys_WaitChild_def wait_for_any_child_def)
  next
    case False
    then have w: "map_option (waiting (P_WaitChild p (nat cpid))) (wait_for_specific_child c cpid s) = Some (st, s')"
      using assms(3) by (simp add: sys_WaitChild_def)
    show ?thesis
    proof (cases "0 \<le> cpid \<and> cpid < int MAX_PROC \<and> get_pcb (nat cpid) s \<noteq> None \<and> parent (PT s (nat cpid)) = Some p")
      case True
      then have "nat cpid \<in> used s" "get_pcb (nat cpid) s = Some (nat cpid)"
        by (auto simp: get_pcb_def used_def split: if_splits)
      then show ?thesis using step_wait_specific [OF assms(1), where ch = "nat cpid" and st = st and s' = s'] assms(2) \<open>cpid \<noteq> NOPROC\<close> w True i(7)
        by (simp add: wait_for_specific_child_def)
    next
      case False
      then have "wait_for_specific_child c cpid s = Some (Done (NOPROC, None), s)"
        using i(7) by (auto simp: wait_for_specific_child_def get_pcb_def split: if_splits)
      then show ?thesis using w call_ends [OF assms(1) i(1,2)] by auto
    qed
  qed
qed

section \<open>Joining and detaching threads\<close>

lemma calls_ok_ptcbs:
  assumes "calls_ok s P" "PT s' = PT s" "\<And>b w. P b = Some w \<Longrightarrow> live s b \<Longrightarrow> live s' b" "joins_counted s' P"
  shows "calls_ok s' P"
proof (rule calls_ok_keep [OF assms(1) _ _ _ _ assms(4)])
  have legal: "waits_legally s b w" if "P b = Some w" for b w using assms(1) that by (simp add: calls_ok_def)
  show "live s' b" if "P b = Some w" for b w using legal [OF that] assms(3) [OF that] by (simp add: waits_legally_def)
  show "ch \<in> used s' \<and> parent (PT s' ch) = Some q" if "P b = Some (P_WaitChild q ch)" for b q ch
    using legal [OF that] assms(2) by (simp add: waits_legally_def used_def)
qed (simp_all add: assms(2))

lemma live_upd_ptcb:
  assumes "upd_ptcb a f s = Some s'" "\<And>x. exited (f x) = exited x"
  shows "live s' b = live s b" "PT s' = PT s" "caller c t p d s' = caller c t p d s"
proof -
  obtain x where s': "ptcbs s a = Some x" "s' = s\<lparr>ptcbs := (ptcbs s)(a \<mapsto> f x)\<rparr>" using assms(1) by (auto simp: upd_ptcb_def)
  then show l: "live s' b = live s b" for b using assms(2) by (simp add: live_def)
  show "PT s' = PT s" "caller c t p d s' = caller c t p d s" by (simp_all add: caller_def l) (simp_all add: s' cur_thread_def)
qed

lemma upd_ptcb_at: "upd_ptcb a f s = Some s' \<Longrightarrow> ptcbs s' b = (if b = a then map_option f (ptcbs s a) else ptcbs s b)"
  by (auto simp: upd_ptcb_def)

lemma joins_upd:
  assumes "joins_counted s P" "upd_ptcb b f s = Some s'"
    "\<And>x. ptcbs s b = Some x \<Longrightarrow> (if exited (f x) then 0 else 1) + int (card (joiners P b)) \<le> ptcb_refcount (f x)"
  shows "joins_counted s' P"
  unfolding joins_counted_def
proof (intro allI impI)
  fix d x assume "ptcbs s' d = Some x"
  then show "(if exited x then 0 else 1) + int (card (joiners P d)) \<le> ptcb_refcount x"
    using upd_ptcb_at [OF assms(2), of d] assms(3) joins_counted_at [OF assms(1), of d x] by (auto split: if_splits)
qed

text \<open>
  The end of a join: the block is freed only by the last reference, when no other thread waits
  for it.
\<close>

lemma calls_ok_free:
  assumes "threads_inv s" "calls_ok s P" "\<not> live s b" "joiners P b = {}" "free_ptcb b (remove_ptcb_node b s) = Some s'"
  shows "calls_ok s' P"
proof (rule calls_ok_keep [OF assms(2)])
  have legal: "waits_legally s d w" if "P d = Some w" for d w using assms(2) that by (simp add: calls_ok_def)
  have s': "ptcbs s' = (ptcbs s)(b := None)" "PT s' = (\<lambda>p. (PT s p)\<lparr>ptcb_list := remove1 b (ptcb_list (PT s p))\<rparr>)"
    using assms(5) by (auto simp: free_ptcb_def remove_ptcb_node_def)
  have ne: "d \<noteq> b" if "P d = Some w" for d w using legal [OF that] assms(3) by (auto simp: waits_legally_def)
  show "live s' d" if "P d = Some w" for d w using legal [OF that] ne [OF that] by (simp add: waits_legally_def live_def s')
  show "d \<in> set (ptcb_list (PT s' q))" if "P d = Some w" "d \<in> set (ptcb_list (PT s q))" for d w q
    using that ne by (auto simp: s')
  show "ch \<in> used s' \<and> parent (PT s' ch) = Some q" if "P d = Some (P_WaitChild q ch)" for d q ch
    using legal [OF that] by (simp add: waits_legally_def used_def s')
  show "x \<in> set (ptcb_list (PT s' q))" if "P d = Some (P_Join x)" "x \<in> set (ptcb_list (PT s q))" for d x q
  proof -
    have "x \<noteq> b" using that(1) assms(4) by (auto simp: joiners_def)
    then show ?thesis using that(2) by (simp add: s')
  qed
  show "joins_counted s' P" using assms(2) by (auto simp: calls_ok_def joins_counted_def s')
qed

lemma step_join:
  assumes "in_call c t p a (pins_of P) P s" "b \<in> set (ptcb_list (PT s p))"
    and refs: "\<And>x. ptcbs s b = Some x \<Longrightarrow> (if exited x then 0 else 1) + int (card (joiners P b)) + 1 \<le> ptcb_refcount x"
    and st: "map_option (waiting (P_Join b)) (join_loop b s) = Some (st, s')"
  shows "system_inv (s', after a st P)"
proof -
  note i = in_callD [OF assms(1)]
  obtain r where r: "join_loop b s = Some (r, s')" "waiting (P_Join b) (r, s') = (st, s')"
    using st by (auto elim: waiting.elims)
  have k: "kernel_ok (pins_of P) s'" by (rule join_loop_ok [OF i(1) r(1)])
  from r(1) obtain x where x: "ptcbs s b = Some x" by (auto simp: join_loop_def)
  show ?thesis
  proof (cases "\<not> exited x \<and> \<not> detached x")
    case True
    then have st: "s' = s" "st = Waiting (P_Join b)" using r x by (auto simp: join_loop_def)
    have "waits_legally s a (P_Join b)" using i(8,11) assms(2) by (auto simp: waits_legally_def)
    with i(1,2) refs show ?thesis unfolding st by (intro call_waits [OF assms(1)]) (auto simp: no_clash)
  next
    case False
    then obtain s1 x1 where s1: "upd_ptcb b (\<lambda>x. x\<lparr>ptcb_refcount := ptcb_refcount x - 1\<rparr>) s = Some s1" "ptcbs s1 b = Some x1"
      and s': "if detached x1 \<or> ptcb_refcount x1 \<noteq> 0 then s' = s1 else free_ptcb b (remove_ptcb_node b s1) = Some s'"
      and ret: "st = Returned" using r x by (auto simp: join_loop_def split: if_splits bind_splits)
    have x1: "x1 = x\<lparr>ptcb_refcount := ptcb_refcount x - 1\<rparr>" using upd_ptcb_at [OF s1(1), of b] s1(2) x by simp
    note u = live_upd_ptcb [OF s1(1)]
    have "joins_counted s1 P" by (rule joins_upd [OF i(15) s1(1)]) (use refs in fastforce)
    then have c1: "calls_ok s1 P" using u by (intro calls_ok_ptcbs [OF i(2)]) auto
    have "calls_ok s' P"
    proof (cases "detached x1 \<or> ptcb_refcount x1 \<noteq> 0")
      case False
      then have "exited x" "ptcb_refcount x = 1" using \<open>\<not> (\<not> exited x \<and> \<not> detached x)\<close> x1 by auto
      with refs [OF x] have none: "joiners P b = {}" using users_finite(2) [OF i(6)] by simp
      have dead: "\<not> live s1 b" using \<open>exited x\<close> u(1) [of b] x by (simp add: live_def)
      have "threads_inv s1" using upd_ptcb_ok [OF i(1) s1(1)] by (simp add: kernel_ok_def)
      from calls_ok_free [OF this c1 dead none] s' False show ?thesis by simp
    qed (use s' c1 in simp)
    then show ?thesis using call_ends [OF assms(1) k] ret by simp
  qed
qed

lemma step_ThreadJoin:
  assumes "in_call c t p a (pins_of P) P s" "map_option (waiting (P_Join (the tid))) (sys_ThreadJoin c tid s) = Some (st, s')"
  shows "system_inv (s', after a st P)"
proof -
  note i = in_callD [OF assms(1)]
  obtain r where r: "sys_ThreadJoin c tid s = Some (r, s')" "waiting (P_Join (the tid)) (r, s') = (st, s')"
    using assms(2) by (auto elim: waiting.elims)
  from sys_ThreadJoin_cases [OF r(1)] show ?thesis
  proof (elim disjE conjE exE)
    assume "r = Done (-1, None)" "s' = s"
    then show ?thesis using call_ends [OF assms(1) i(1,2)] r(2) by auto
  next
    fix q b x s1
    assume b: "CURPROC c s = Some q" "tid = Some b" "b \<in> set (ptcb_list (PT s q))" "ptcbs s b = Some x"
      and s1: "upd_ptcb b (\<lambda>x. x\<lparr>ptcb_refcount := ptcb_refcount x + 1\<rparr>) s = Some s1" and j: "join_loop b s1 = Some (r, s')"
    note u = live_upd_ptcb [OF s1]
    have "joins_counted s1 P" using joins_counted_at [OF i(15)] by (intro joins_upd [OF i(15) s1]) fastforce
    then have "calls_ok s1 P" using u by (intro calls_ok_ptcbs [OF i(2)]) auto
    moreover have "kernel_ok (pins_of P) s1" using upd_ptcb_ok [OF i(1) s1] by simp
    ultimately have in1: "in_call c t p a (pins_of P) P s1" using i(3-5) u(3) by (simp add: in_call_def)
    have "ptcbs s1 b = Some (x\<lparr>ptcb_refcount := ptcb_refcount x + 1\<rparr>)" using upd_ptcb_at [OF s1, of b] b(4) by simp
    then show ?thesis
      using step_join [OF in1, of b st s'] b j r(2) u(2) i(7) joins_counted_at [OF i(15) b(4)] by simp
  qed
qed

lemma step_ThreadDetach:
  assumes "in_call c t p a (pins_of P) P s" "sys_ThreadDetach c tid s = Some (r, s')"
  shows "system_inv (s', after a Returned P)"
proof -
  note i = in_callD [OF assms(1)]
  have "calls_ok s' P" using sys_ThreadDetach_cases [OF assms(2)]
  proof (elim disjE conjE exE)
    fix q b x s1
    assume b: "ptcbs s b = Some x" and s1: "upd_ptcb b (\<lambda>x. x\<lparr>detached := True\<rparr>) s = Some s1"
      and br: "kernel_broadcast c (exit_cv b) s1 = Some s'"
    note u = live_upd_ptcb [OF s1]
    have "joins_counted s1 P" using joins_counted_at [OF i(15)] by (intro joins_upd [OF i(15) s1]) fastforce
    then have c1: "calls_ok s1 P" using u by (intro calls_ok_ptcbs [OF i(2)]) auto
    have "kframe s1 s'" using br kernel_broadcast_kframe by blast
    then have "cc.more s' = cc.more s1" by (simp add: kframe_def)
    note m = more_kernel [OF this]
    show ?thesis by (rule calls_ok_ptcbs [OF c1 m(1)]) (use m(4) c1 in \<open>simp_all add: live_def joins_counted_def calls_ok_def\<close>)
  qed (use i(2) in simp)
  then show ?thesis using call_ends [OF assms(1) sys_ThreadDetach_ok [OF i(1) assms(2)]] by simp
qed

section \<open>Exiting\<close>

lemma calls_ok_exits:
  assumes "in_call c t p a pins P s" "exits p a ev s s'"
  shows "calls_ok s' P"
proof -
  note i = in_callD [OF assms(1)] and f = exits_fields [OF assms(2)]
  have legal: "waits_legally s b w" if "P b = Some w" for b w using i(2) that by (simp add: calls_ok_def)
  have ne: "b \<noteq> a" if "P b = Some w" for b w using that i(3) by auto
  have same: "ptcb_list (PT s' q) = ptcb_list (PT s q)" "pstate (PT s' q) = pstate (PT s q)" "parent (PT s' q) = parent (PT s q)" for q
    by (simp_all add: f(1))
  show ?thesis
  proof (rule calls_ok_keep [OF i(2)])
    show "live s' b" if "P b = Some w" for b w using legal [OF that] f(2) [OF ne [OF that]] by (simp add: waits_legally_def live_def)
    show "ch \<in> used s' \<and> parent (PT s' ch) = Some q" if "P b = Some (P_WaitChild q ch)" for b q ch
      using legal [OF that] by (simp add: waits_legally_def used_def same)
    show "joins_counted s' P" unfolding joins_counted_def
    proof (intro allI impI)
      fix b y assume y: "ptcbs s' b = Some y"
      obtain x where x: "ptcbs s a = Some x" "ptcbs s' a = Some (x\<lparr>ptcb_exitval := ev, ptcb_refcount := ptcb_refcount x - 1, exited := True\<rparr>)"
        using f(3) by blast
      have "\<not> exited x" using i(11) x(1) by (simp add: live_def)
      then show "(if exited y then 0 else 1) + int (card (joiners P b)) \<le> ptcb_refcount y"
        using x y f(2) [of b] joins_counted_at [OF i(15), of a x] joins_counted_at [OF i(15), of b y] by (cases "b = a") auto
    qed
  qed (simp_all add: same)
qed

lemma process_exit_init:
  assumes "kernel_ok pins s" "p = 1" "process_exit c p s = Some s'"
  shows "parent (PT s' q) = parent (PT s q)"
proof -
  from process_exit_steps [OF assms(3)] obtain s1 s2 s3 where
    1: "if p = 1 then s1 = s else leave_family c p s = Some s1" and
    2: "close_fids c p [0..<MAX_FILEID] (upd_pcb p (\<lambda>pcb. pcb\<lparr>args := None\<rparr>) s1) = Some s2" and
    3: "if thread_count (PT s2 p) = 0 then free_ptcbs (ptcb_list (PT s2 p)) p s2 = Some s3 else s3 = s2" and
    4: "s' = upd_pcb p (\<lambda>pcb. pcb\<lparr>main_thread := None, pstate := ZOMBIE\<rparr>) s3" by blast
  have s1: "s1 = s" using 1 assms(2) by simp
  let ?s1 = "upd_pcb p (\<lambda>pcb. pcb\<lparr>args := None\<rparr>) s"
  have "same_family s ?s1" "same_threads s ?s1" "same_streams s ?s1"
    by (simp_all add: upd_pcb_def same_family_def same_threads_def same_owners_def same_streams_def)
  then have "files_ok pins ?s1" using kernel_ok_files kernel_ok_same [OF assms(1)] by blast
  from close_fids_ok [OF this 2 [unfolded s1]] have "parent (PT s2 q) = parent (PT s q)" by (simp add: same_family_def upd_pcb_def)
  moreover have "parent (PT s3 q) = parent (PT s2 q)"
    using 3 free_ptcbs_eq [of "ptcb_list (PT s2 p)" p s2 s3] by (auto split: if_splits)
  ultimately show ?thesis by (auto simp: 4 upd_pcb_def)
qed

text \<open>When the last thread of a process has exited, no call of the process is in progress.\<close>

lemma calls_ok_process_exit:
  assumes "kernel_ok pins s" "calls_ok s P" "pstate (PT s p) = ALIVE" "p < MAX_PROC" "thread_count (PT s p) = 0" "process_exit c p s = Some s'"
  shows "calls_ok s' P"
proof -
  note e = process_exit_ok [OF assms(1,3-6)]
  have legal: "waits_legally s b w" if "P b = Some w" for b w using assms(2) that by (simp add: calls_ok_def)
  have "filter (live s) (ptcb_list (PT s p)) = []" using assms(1,5) by (simp add: kernel_ok_def threads_inv_def counts_ok_def)
  then have gone: "b \<notin> set (ptcb_list (PT s p))" if "P b = Some w" for b w
    using legal [OF that] by (auto simp: waits_legally_def filter_empty_conv)
  have others: "b \<in> set (ptcb_list (PT s q)) \<Longrightarrow> ptcb_list (PT s' q) = ptcb_list (PT s q)" if "P b = Some w" for b w q
    using gone [OF that] e by (cases "q = p") auto
  have family: "ch \<in> used s' \<and> parent (PT s' ch) = Some q" if "ch \<in> used s" "parent (PT s ch) = Some q" "q \<noteq> p" for ch q
  proof
    show "ch \<in> used s'" using that(1) e by (cases "ch = p") (auto simp: used_def zombie_def)
    show "parent (PT s' ch) = Some q"
    proof (cases "p = 1")
      case True
      then show ?thesis using process_exit_init [OF assms(1) True assms(6)] that(2) by simp
    next
      case False
      then obtain par where "same_family (buried p par s) s'" using e by blast
      moreover have "ch \<notin> set (children_list (PT s p))" using that assms(1) by (simp add: kernel_ok_def family_inv_def children_ok_def)
      then have "parent (PT (buried p par s) ch) = Some q" using that(2) by (cases "ch = p") (simp_all add: buried_def departed_def)
      ultimately show ?thesis by (simp add: same_family_def)
    qed
  qed
  show ?thesis
  proof (rule calls_ok_keep [OF assms(2)])
    show "live s' b" if "P b = Some w" for b w using legal [OF that] gone [OF that] e by (simp add: waits_legally_def live_def)
    show "ch \<in> used s' \<and> parent (PT s' ch) = Some q" if w: "P b = Some (P_WaitChild q ch)" for b q ch
    proof -
      have "ch \<in> used s" "parent (PT s ch) = Some q" "b \<in> set (ptcb_list (PT s q))" using legal [OF w] by (simp_all add: waits_legally_def)
      then show ?thesis using family [of ch q] gone [OF w] by auto
    qed
    show "joins_counted s' P" using assms(2) e by (auto simp: calls_ok_def joins_counted_def split: if_splits)
  qed (use others in auto)
qed

lemma step_thread_exit:
  assumes "in_call c t p a (pins_of P) P s" "thread_exit_section c ev s = Some s'"
  shows "system_inv (s', after a Exited P)"
proof -
  note i = in_callD [OF assms(1)]
  from thread_exit_ok [OF i(1,5) assms(2)] obtain s5 where s5: "kernel_ok (pins_of P) s'" "exits p a ev s s5" "kernel_ok (pins_of P) s5"
    "if thread_count (PT s p) = 1 then process_exit c p s5 = Some s' else s' = s5" by (auto split: if_splits)
  note c5 = calls_ok_exits [OF assms(1) s5(2)]
  have "calls_ok s' P"
  proof (cases "thread_count (PT s p) = 1")
    case True
    then have "thread_count (PT s5 p) = 0" "pstate (PT s5 p) = ALIVE" using exits_fields(1) [OF s5(2)] i(9) by simp_all
    then show ?thesis using calls_ok_process_exit [OF s5(3) c5 _ i(10)] s5(4) True by simp
  qed (use s5(4) c5 in simp)
  then show ?thesis using call_ends [OF assms(1) s5(1)] by simp
qed

lemma in_call_exitval:
  "in_call c t p a pins P s \<Longrightarrow> in_call c t p a pins P (upd_pcb q (\<lambda>pcb. pcb\<lparr>exitval := ev\<rparr>) s)"
proof -
  have "same_tasks s (upd_pcb q (\<lambda>pcb. pcb\<lparr>exitval := ev\<rparr>) s)" by (simp add: same_tasks_def upd_pcb_def)
  from same_tasks_ok [OF this, of P] show "in_call c t p a pins P s \<Longrightarrow> ?thesis" by (simp add: in_call_def exitval_ok caller_exitval)
qed

lemma step_exit_loop:
  assumes "in_call c t p a (pins_of P) P s" "\<And>b v. p = 1 \<Longrightarrow> P b = Some v \<Longrightarrow> \<not> clash (P_Exit p ev) v"
    "map_option (exit_status (P_Exit p ev)) (exit_loop c p ev s) = Some (st, s')"
  shows "system_inv (s', after a st P)"
proof -
  note i = in_callD [OF assms(1)]
  obtain r s1 where w: "(if get_pid (Some p) = 1 then exit_wait_loop p s else Some (Done (), s)) = Some (r, s1)"
    and r: "case r of Done _ \<Rightarrow> thread_exit_section c ev (upd_pcb p (\<lambda>pcb. pcb\<lparr>exitval := ev\<rparr>) s1) = Some s' \<and> st = Exited
      | _ \<Rightarrow> s' = s1 \<and> st = Waiting (P_Exit p ev)"
    using assms(3) by (auto simp: exit_loop_def split: bind_splits outcome.splits if_splits)
  have in1: "in_call c t p a (pins_of P) P s1"
  proof (cases "get_pid (Some p) = 1")
    case True
    with w exit_wait_loop_ok [OF i(1), of p]
    have e: "kernel_ok (pins_of P) s1" "caller c t p a s1 = caller c t p a s" "ptcbs s1 = ptcbs s"
      "\<And>q. ptcb_list (PT s1 q) = ptcb_list (PT s q)"
      "\<And>q. q \<in> used s \<Longrightarrow> parent (PT s q) \<noteq> Some p \<Longrightarrow> q \<in> used s1 \<and> parent (PT s1 q) = parent (PT s q)" by auto
    have p: "p = 1" using True by (simp add: get_pid_def)
    have "P b \<noteq> Some (P_WaitChild p ch)" for b ch using assms(2) [OF p, of b] clash_any(2) by blast
    then have "calls_ok s1 P" using e(5) by (intro calls_ok_family [OF i(2) e(3,4)]) (metis option.inject)
    then show ?thesis using e(1,2) i by (simp add: in_call_def)
  qed (use w assms(1) in simp)
  note i1 = in_callD [OF in1]
  show ?thesis
  proof (cases "\<exists>u. r = Done u")
    case True
    then show ?thesis using step_thread_exit [OF in_call_exitval [OF in1]] r by auto
  next
    case False
    then have st: "s' = s1" "st = Waiting (P_Exit p ev)" using r by (auto split: outcome.splits)
    have "waits_legally s1 a (P_Exit p ev)" using i1(8,11) by (simp add: waits_legally_def)
    moreover have "p = 1" using False w by (auto simp: get_pid_def split: if_splits)
    ultimately show ?thesis unfolding st using i1(1,2) assms(2) by (intro call_waits [OF in1]) auto
  qed
qed

section \<open>Every step keeps the invariant\<close>

lemma returnedD: "map_option returned x = Some (st, s') \<Longrightarrow> st = Returned \<and> (\<exists>r. x = Some (r, s'))"
  by (cases x) auto

lemma waitingD: "map_option (waiting w) x = Some (st, s') \<Longrightarrow> \<exists>r. x = Some (r, s') \<and> (st = Returned \<or> st = Waiting w)"
  by (cases x) (auto elim: waiting.elims)

lemma same_streams_returns:
  "in_call c t p a (pins_of P) P s \<Longrightarrow> stream_frame c s s' \<and> same_streams s s' \<Longrightarrow> system_inv (s', after a Returned P)"
  using stream_returns [of c t p a P s s'] same_streams_files_ok [of c s s' "pins_of P"] in_callD(12) by blast

lemma step_Accept:
  assumes "in_call c t p a (pins_of P) P s" "map_option (waiting (P_Accept l)) (sys_Accept c lsock s) = Some (st, s')"
  shows "system_inv (s', after a st P)"
proof -
  obtain r where r: "sys_Accept c lsock s = Some (r, s')" "st = Returned \<or> st = Waiting (P_Accept l)" using waitingD [OF assms(2)] by blast
  note f = Accept_call.frame [OF r(1)] Accept_files [OF r(1) in_callD(12) [OF assms(1)]]
  from r(2) show ?thesis using stream_returns [OF assms(1) f] stream_waits [OF assms(1) f] by auto
qed

lemma step_accept_loop:
  assumes "in_call c t p a (pins_of P) P s" "map_option (waiting (P_Accept l)) (accept_loop c l s) = Some (st, s')"
  shows "system_inv (s', after a st P)"
proof -
  obtain r where r: "accept_loop c l s = Some (r, s')" "st = Returned \<or> st = Waiting (P_Accept l)" using waitingD [OF assms(2)] by blast
  note f = accept_loop_call.frame [OF r(1)] accept_loop_files [OF r(1) in_callD(12) [OF assms(1)]]
  from r(2) show ?thesis using stream_returns [OF assms(1) f] stream_waits [OF assms(1) f] by auto
qed

lemma step_Connect:
  assumes "in_call c t p a (pins_of P) P s"
    "map_option (\<lambda>(r, l, s'). waiting (P_Connect (fst (the l)) (snd (the l))) (r, s')) (sys_Connect c sock port to s) = Some (st, s')"
  shows "system_inv (s', after a st P)"
proof -
  obtain r l where r: "sys_Connect c sock port to s = Some (r, l, s')" "st = Returned \<or> (\<exists>x y. st = Waiting (P_Connect x y))"
    using assms(2) by (cases "sys_Connect c sock port to s") (auto elim!: waiting.elims)
  have f: "stream_frame c s s'" "same_streams s s'" using Connect_frame [OF r(1)] by simp_all
  note ok = same_streams_files_ok [OF f in_callD(12) [OF assms(1)]]
  from r(2) show ?thesis using stream_returns [OF assms(1) f(1) ok] stream_waits [OF assms(1) f(1) ok] by auto
qed

lemma step_same: "in_call c t p a (pins_of P) P s \<Longrightarrow> system_inv (s, after a Returned P)"
  by (rule call_ends) (auto dest: in_callD(1,2))

lemmas stream_calls_files = sys_Close_files sys_Dup2_files sys_Socket_files sys_OpenInfo_files sys_Pipe_files open_stream_files

lemma dispatch_ok:
  assumes "in_call c t p a (pins_of P) P s" "waits_apart call p P" "dispatch c i call s = Some (st, s')"
  shows "system_inv (s', after a st P)"
proof -
  note f = in_callD(12) [OF assms(1)] and cur = in_callD(7) [OF assms(1)]
  show ?thesis
  proof (cases call)
    case (Exec task al ag)
    then show ?thesis using assms(3) step_Exec [OF assms(1)] by (auto simp: dispatch_def dest!: returnedD)
  next
    case (Exit ev)
    have "\<And>b v. p = 1 \<Longrightarrow> P b = Some v \<Longrightarrow> \<not> clash (P_Exit p ev) v" using assms(2) Exit by (simp add: waits_apart_def)
    from step_exit_loop [OF in_call_exitval [OF assms(1)] this] show ?thesis
      using Exit assms(3) cur by (auto simp: dispatch_def)
  next
    case (WaitChild cpid)
    then show ?thesis using assms(2,3) step_WaitChild [OF assms(1), of cpid st s'] cur by (auto simp: dispatch_def waits_apart_def)
  next
    case (CreateThread task al ag)
    then show ?thesis using assms(3) step_CreateThread [OF assms(1)] by (auto simp: dispatch_def dest!: returnedD)
  next
    case (ThreadJoin tid)
    then show ?thesis using assms(3) step_ThreadJoin [OF assms(1)] by (simp add: dispatch_def)
  next
    case (ThreadDetach tid)
    then show ?thesis using assms(3) step_ThreadDetach [OF assms(1)] by (auto simp: dispatch_def dest!: returnedD)
  next
    case (ThreadExit ev)
    then show ?thesis using assms(3) step_thread_exit [OF assms(1)] by (auto simp: dispatch_def)
  next
    case (Read fid n)
    then show ?thesis using assms(3) step_Read [OF assms(1)] by (auto simp: dispatch_def split: bind_splits)
  next
    case (Write fid buf)
    then show ?thesis using assms(3) step_Write [OF assms(1)] by (auto simp: dispatch_def split: bind_splits)
  next
    case (Close fid)
    then show ?thesis using assms(3) stream_returns [OF assms(1) Close_call.frame stream_calls_files(1) [OF f]] by (auto simp: dispatch_def dest!: returnedD)
  next
    case (Dup2 oldfd newfd)
    then show ?thesis using assms(3) stream_returns [OF assms(1) Dup2_call.frame stream_calls_files(2) [OF f]] by (auto simp: dispatch_def dest!: returnedD)
  next
    case Pipe
    then show ?thesis using assms(3) stream_returns [OF assms(1) Pipe_call.frame stream_calls_files(5) [OF f]] by (auto simp: dispatch_def dest!: returnedD)
  next
    case (Socket port)
    then show ?thesis using assms(3) stream_returns [OF assms(1) Socket_call.frame stream_calls_files(3) [OF f]] by (auto simp: dispatch_def dest!: returnedD)
  next
    case (OpenTerminal n)
    then show ?thesis using assms(3) stream_returns [OF assms(1) open_stream_call.frame stream_calls_files(6) [OF f]]
      by (auto simp: dispatch_def sys_OpenTerminal_def dest!: returnedD)
  next
    case OpenNull
    then show ?thesis using assms(3) stream_returns [OF assms(1) open_stream_call.frame stream_calls_files(6) [OF f]]
      by (auto simp: dispatch_def sys_OpenNull_def dest!: returnedD)
  next
    case OpenInfo
    then show ?thesis using assms(3) stream_returns [OF assms(1) OpenInfo_call.frame stream_calls_files(4) [OF f]] by (auto simp: dispatch_def dest!: returnedD)
  next
    case (Listen sock)
    then show ?thesis using assms(3) same_streams_returns [OF assms(1) conjI [OF Listen_call.frame Listen_streams]]
      by (auto simp: dispatch_def dest!: returnedD)
  next
    case (ShutDown sock how)
    then show ?thesis using assms(3) same_streams_returns [OF assms(1) ShutDown_frame] by (auto simp: dispatch_def dest!: returnedD)
  next
    case (Accept lsock)
    then show ?thesis using assms(3) step_Accept [OF assms(1)] by (auto simp: dispatch_def split: bind_splits)
  next
    case (Connect sock port to)
    then show ?thesis using assms(3) step_Connect [OF assms(1)] by (simp add: dispatch_def)
  qed (use assms(3) step_same [OF assms(1)] in \<open>auto simp: dispatch_def split: bind_splits\<close>)
qed

lemma continue_ok:
  assumes "system_inv (s, pend)" "caller c t p a s" "pend a = Some w" "continue c i w s = Some (st, s')"
  shows "system_inv (s', after a st pend)"
proof -
  note r = resume_call [OF assms(1-3)]
  define P where "P = pend(a := None)"
  note r' = r [folded P_def]
  have in0: "in_call c t p a (pins_of P) P s" if "uses w = None" using r'(1,2) that by simp
  note mem = in_callD(8,14) [OF r'(1)]
  have own: "par = p" if "waits_in w = Some par" for par
    using r(3) that mem unfolding waits_legally_def threads_inv_def ptcbs_ok_def by blast
  have inb: "b \<in> set (ptcb_list (PT s p))" if "w = P_Join b" for b
    using r(3) that mem unfolding waits_legally_def threads_inv_def ptcbs_ok_def by blast
  note alone = r'(4)
  have "system_inv (s', after a st P)"
  proof (cases w)
    case (P_Read f cv n)
    then have "in_call c t p a (pin f (pins_of P)) P s" "f < MAX_FILES" using r'(1-3) by (simp_all add: waits_legally_def)
    with step_again(1) show ?thesis using assms(4) P_Read by (auto simp: continue_def split: bind_splits)
  next
    case (P_Write f cv buf)
    then have "in_call c t p a (pin f (pins_of P)) P s" "f < MAX_FILES" using r'(1-3) by (simp_all add: waits_legally_def)
    with step_again(2) show ?thesis using assms(4) P_Write by (auto simp: continue_def split: bind_splits)
  next
    case (P_Write_again f buf)
    then have "in_call c t p a (pin f (pins_of P)) P s" "f < MAX_FILES" using r'(1-3) by (simp_all add: waits_legally_def)
    with step_again(3) show ?thesis using assms(4) P_Write_again by (auto simp: continue_def split: bind_splits)
  next
    case (P_WaitChild par ch)
    then have "par = p" "ch \<in> used s" "parent (PT s ch) = Some p" using own r(3) by (simp_all add: waits_legally_def)
    then show ?thesis using step_wait_specific [OF in0, of ch] alone assms(4) P_WaitChild by (simp add: continue_def)
  next
    case (P_WaitAny par)
    then show ?thesis using step_wait_any [OF in0] alone own assms(4) by (simp add: continue_def)
  next
    case (P_Exit par ev)
    then have par: "w = P_Exit p ev" using own by simp
    have "\<And>b v. p = 1 \<Longrightarrow> P b = Some v \<Longrightarrow> \<not> clash (P_Exit p ev) v" using alone par by simp
    from step_exit_loop [OF in0 this] show ?thesis using par assms(4) by (simp add: continue_def)
  next
    case (P_Join b)
    then show ?thesis using step_join [OF in0 inb, of b] r'(5) assms(4) by (simp add: continue_def)
  next
    case (P_Accept l)
    then show ?thesis using step_accept_loop [OF in0] assms(4) by (simp add: continue_def)
  next
    case (P_Connect l q)
    then show ?thesis using same_streams_returns [OF in0 connect_resume_frame] assms(4) by (auto simp: continue_def dest!: returnedD)
  qed
  then show ?thesis using r'(6) by simp
qed

lemma machine_ok:
  assumes "system_inv (s, pend)" "machine_moves s s'"
  shows "system_inv (s', pend)"
proof -
  have more: "cc.more s' = cc.more s" "same_owners s s'" using assms(2) by (simp_all add: machine_moves_def)
  note m = more_kernel [OF more(1)]
  have "same_family s s'" "same_threads s s'" "same_streams s s'"
    using more(2) by (simp_all add: same_family_def same_threads_def same_streams_def m)
  then have "kernel_ok (pins_of pend) s'" using kernel_ok_same assms(1) by (auto simp: system_inv_def)
  moreover have "same_tasks s s'" by (simp add: same_tasks_def m)
  then have "calls_ok s' pend" using assms(1) same_tasks_ok by (auto simp: system_inv_def)
  ultimately show ?thesis by (simp add: system_inv_def)
qed

lemma start_ok:
  assumes "system_inv (s, pend)"
  shows "system_inv (run_scheduler c (get_pcb 0 s) s, pend)"
proof -
  let ?s = "run_scheduler c (get_pcb 0 s) s"
  have k: "kernel_ok (pins_of pend) s" "threads_inv s" using assms by (simp_all add: system_inv_def kernel_ok_def)
  have f: "cc.more ?s = cc.more s" "next_tcb ?s = next_tcb s"
    "tcbs ?s = (tcbs s)(IdleT c \<mapsto> \<lparr>owner_pcb = get_pcb 0 s, owner_ptcb = None, ttype = IDLE_THREAD, state = RUNNING,
       phase = CTX_DIRTY, thread_func = None, wakeup_time = NO_TIMEOUT, its = QUANTUM, rts = QUANTUM,
       curr_cause = SCHED_IDLE, last_cause = SCHED_IDLE, priority = 0\<rparr>)"
    by (simp_all add: run_scheduler_def Let_def cpu_interrupt_handler_def cpu_enable_interrupts_def)
  note m = more_kernel [OF f(1)]
  have "get_pcb 0 s = Some q \<Longrightarrow> q < MAX_PROC" for q by (auto simp: get_pcb_def MAX_PROC_def split: if_splits)
  then have "threads_inv ?s" using k(2)
    by (auto simp: threads_inv_def ptcbs_ok_def counts_ok_def owners_ok_def live_def m f(2,3) cong: filter_cong split: if_splits)
  moreover have "same_family s ?s" "same_streams s ?s" by (simp_all add: same_family_def same_streams_def m)
  ultimately have "kernel_ok (pins_of pend) ?s" using kernel_ok_threads [OF k(1)] by blast
  moreover have "same_tasks s ?s" by (simp add: same_tasks_def m)
  then have "calls_ok ?s pend" using assms same_tasks_ok by (auto simp: system_inv_def)
  ultimately show ?thesis by (simp add: system_inv_def)
qed

lemma system_step_inv: "system_step waits_apart S S' \<Longrightarrow> system_inv S \<Longrightarrow> system_inv S'"
proof (induction rule: system_step.induct)
  case (enter c t p a s pend call i st s')
  then show ?case using dispatch_ok [OF enter_call] by blast
next
  case (resume c t p a s pend w i st s')
  then show ?case using continue_ok by blast
next
  case (machine s s' pend)
  then show ?case using machine_ok by blast
next
  case (start c s pend)
  then show ?case using start_ok by blast
qed

end
