(* ===== verification/Boot.thy ===== *)
theory Boot
  imports System
begin

text \<open>
  \<^verbatim>\<open>kernel_init.c\<close>: the boot of the kernel, and that it leads from zeroed static storage to a state
  where the invariants of the tables and of the scheduler hold and the thread of the initial task, process 1, is ready and queued.
\<close>

section \<open>The boot code\<close>

text \<open>What core 0 does before the barrier.\<close>

definition boot_section :: "nat \<Rightarrow> Task option \<Rightarrow> int \<Rightarrow> byte list option \<Rightarrow> 'a kernel_scheme \<Rightarrow> 'a kernel_scheme option" where
  "boot_section c init_task al a s =
     do { s1 \<leftarrow> initialize_processes c s;
          let s2 = initialize_devices c s1;
          let s3 = initialize_files s2;
          let s4 = initialize_scheduler s3;
          (r, s5) \<leftarrow> SYSCALL c (sys_Exec c init_task al a) s4;
          c_assert (r = Some 1);
          Some s5 }"

text \<open>\<^verbatim>\<open>boot_tinyos_kernel\<close> up to the idle loop; the barrier keeps the other cores waiting for core 0.\<close>

definition boot_tinyos_kernel :: "nat \<Rightarrow> Task option \<Rightarrow> int \<Rightarrow> byte list option \<Rightarrow> 'a kernel_scheme \<Rightarrow> 'a kernel_scheme option" where
  "boot_tinyos_kernel c init_task al a s =
     do { s1 \<leftarrow> (if c = 0 then boot_section c init_task al a s else Some s);
          Some (run_scheduler c (get_pcb 0 s1) s1) }"

fun boot_cores :: "nat list \<Rightarrow> Task option \<Rightarrow> int \<Rightarrow> byte list option \<Rightarrow> 'a kernel_scheme \<Rightarrow> 'a kernel_scheme option" where
  "boot_cores [] init_task al a s = Some s"
| "boot_cores (c # cs) init_task al a s =
     do { s1 \<leftarrow> boot_tinyos_kernel c init_task al a s; boot_cores cs init_task al a s1 }"

definition boot :: "nat \<Rightarrow> nat \<Rightarrow> Task option \<Rightarrow> int \<Rightarrow> byte list option \<Rightarrow> 'a kernel_scheme \<Rightarrow> 'a kernel_scheme option" where
  "boot n nt boot_task al a s = boot_cores [0..<n] boot_task al a (s\<lparr>ncores := n, nterm := nt\<rparr>)"

section \<open>Static storage\<close>

text \<open>The values that the variables of the kernel have before its code runs.\<close>

definition static_storage :: "'a kernel_scheme \<Rightarrow> bool" where
  "static_storage s \<longleftrightarrow> PT s = (\<lambda>_. zero_PCB) \<and> ptcbs s = Map.empty \<and> tcbs s = Map.empty \<and>
     waitset s = (\<lambda>_. []) \<and> mutexes s = (\<lambda>_. False) \<and> kernel_sem s = 1 \<and> (\<forall>c. cur_thread c s = None)"

text \<open>The scheduler's part of static storage: no core has run anything yet.\<close>

definition cores_zeroed :: "'a sched_scheme \<Rightarrow> bool" where
  "cores_zeroed s \<longleftrightarrow> cctx s = (\<lambda>_. \<lparr>current_thread = None, previous_thread = None\<rparr>) \<and> active_threads s = 0"

text \<open>Nobody uses the kernel and no thread waits.\<close>

definition idle_kernel :: "'a cc_scheme \<Rightarrow> bool" where
  "idle_kernel s \<longleftrightarrow> waitset s = (\<lambda>_. []) \<and> mutexes s = (\<lambda>_. False) \<and> kernel_sem s = 1"

lemma idle_kernel_signal:
  assumes "waitset s = (\<lambda>_. [])" "mutexes s (waitset_lock cv) = False"
  shows "Cond_Signal c cv s = Some (s\<lparr>mutexes := (mutexes s)(waitset_lock cv := False)\<rparr>)"
  using assms by (simp add: Cond_Signal_def Mutex_Lock_def Mutex_Unlock_def cv_signal.simps)

lemma SYSCALL_idle:
  assumes "idle_kernel s" "call (s\<lparr>kernel_sem := 0\<rparr>) = Some (r, s2)" "idle_kernel (s2\<lparr>kernel_sem := 1\<rparr>)" "kernel_sem s2 = 0"
  shows "SYSCALL c call s = Some (Some r, s2\<lparr>kernel_sem := 1\<rparr>)"
proof -
  have "kernel_lock c s = Some (True, s\<lparr>kernel_sem := 0\<rparr>)"
  proof -
    have "Mutex_Unlock kernel_mutex (s\<lparr>mutexes := (mutexes s)(kernel_mutex := True), kernel_sem := 0\<rparr>) = s\<lparr>kernel_sem := 0\<rparr>"
      using assms(1) by (simp add: Mutex_Unlock_def idle_kernel_def fun_upd_idem)
    then show ?thesis using assms(1)
      by (simp add: kernel_lock_def then_yield_def kernel_lock_section_def kernel_acquire_section_def Mutex_Lock_def idle_kernel_def)
  qed
  moreover have "kernel_unlock c s2 = Some (s2\<lparr>kernel_sem := 1\<rparr>)"
  proof -
    let ?s = "s2\<lparr>mutexes := (mutexes s2)(kernel_mutex := True), kernel_sem := 1\<rparr>"
    have w: "waitset s2 = (\<lambda>_. [])" "mutexes s2 = (\<lambda>_. False)" using assms(3) by (simp_all add: idle_kernel_def)
    have "Cond_Signal c kernel_sem_cv ?s = Some (?s\<lparr>mutexes := (mutexes ?s)(waitset_lock kernel_sem_cv := False)\<rparr>)"
      by (rule idle_kernel_signal) (simp_all add: w)
    then show ?thesis
      by (simp add: kernel_unlock_def kernel_release_def Mutex_Lock_def Mutex_Unlock_def assms(4) w fun_upd_idem)
  qed
  ultimately show ?thesis using assms(2) by (simp add: SYSCALL_def)
qed

section \<open>The process table\<close>

lemma initialize_PCB_static:
  assumes "PT s = (\<lambda>_. zero_PCB)" "waitset s = (\<lambda>_. [])" "mutexes s = (\<lambda>_. False)"
  shows "initialize_PCB p s = s"
proof (rule kernel.equality)
  show "PT (initialize_PCB p s) = PT s"
    using assms(1) by (simp add: initialize_PCB_def upd_pcb_def cond_init_def zero_PCB_def fun_eq_iff)
qed (use assms(2,3) in \<open>simp_all add: initialize_PCB_def upd_pcb_def cond_init_def fun_upd_idem\<close>)

lemma initialize_PCBs_static:
  assumes "PT s = (\<lambda>_. zero_PCB)" "waitset s = (\<lambda>_. [])" "mutexes s = (\<lambda>_. False)"
  shows "fold initialize_PCB ps s = s"
  by (induction ps) (simp_all add: initialize_PCB_static [OF assms])

text \<open>The chain of free process control blocks from \<open>p\<close> on, with \<open>q\<close> at its end.\<close>

definition next_free :: "nat \<Rightarrow> pid option \<Rightarrow> pid \<Rightarrow> pid option" where
  "next_free n q p = (if Suc p = n then q else Some (Suc p))"

lemma link_free:
  "fold (\<lambda>p s. (upd_pcb p (\<lambda>pcb. pcb\<lparr>parent := pcb_freelist s\<rparr>) s)\<lparr>pcb_freelist := Some p\<rparr>) (rev [0..<n]) s =
   s\<lparr>PT := (\<lambda>p. if p < n then (PT s p)\<lparr>parent := next_free n (pcb_freelist s) p\<rparr> else PT s p),
     pcb_freelist := if n = 0 then pcb_freelist s else Some 0\<rparr>"
proof (induction n arbitrary: s)
  case (Suc n)
  show ?case
    by (simp add: Suc.IH)
      (auto simp: upd_pcb_def next_free_def fun_eq_iff less_Suc_eq intro!: kernel.equality)
qed simp

lemma free_chain:
  assumes "\<And>p. k \<le> p \<Longrightarrow> p < n \<Longrightarrow> parent (T p) = next_free n None p"
  shows "free_path T (if k < n then Some k else None) [k..<n]"
  using assms
proof (induction "n - k" arbitrary: k)
  case (Suc d)
  then have "k < n" by simp
  then have "[k..<n] = k # [Suc k..<n]" by (simp add: upt_conv_Cons)
  moreover have "parent (T k) = (if Suc k < n then Some (Suc k) else None)" using Suc.prems [of k] \<open>k < n\<close> by (simp add: next_free_def)
  moreover have "free_path T (if Suc k < n then Some (Suc k) else None) [Suc k..<n]"
    using Suc.hyps(2) Suc.prems by (intro Suc.hyps(1)) auto
  ultimately show ?case using \<open>k < n\<close> by simp
qed simp

text \<open>The table when \<open>k\<close> processes without a parent have been taken.\<close>

definition first_table :: "pid \<Rightarrow> PCB" where
  "first_table p = (if p = 0 then zero_PCB\<lparr>pstate := ALIVE\<rparr>
     else if p < MAX_PROC then zero_PCB\<lparr>parent := next_free MAX_PROC None p\<rparr> else zero_PCB)"

lemma initialize_processes_eq:
  assumes "static_storage s"
  shows "initialize_processes c s = Some (s\<lparr>PT := first_table, pcb_freelist := Some 1, process_count := 1\<rparr>)"
proof -
  have st: "PT s = (\<lambda>_. zero_PCB)" "waitset s = (\<lambda>_. [])" "mutexes s = (\<lambda>_. False)" "kernel_sem s = 1"
    using assms by (simp_all add: static_storage_def)
  have M: "1 < MAX_PROC" by (simp add: MAX_PROC_def)
  define T where "T = (\<lambda>p. if p < MAX_PROC then zero_PCB\<lparr>parent := next_free MAX_PROC None p\<rparr> else zero_PCB)"
  let ?s2 = "s\<lparr>PT := T, pcb_freelist := Some 0, process_count := 0\<rparr>"
  let ?s3 = "s\<lparr>kernel_sem := 0, PT := first_table, pcb_freelist := Some 1, process_count := 1\<rparr>"
  have i: "(fold (\<lambda>p s. (upd_pcb p (\<lambda>pcb. pcb\<lparr>parent := pcb_freelist s\<rparr>) s)\<lparr>pcb_freelist := Some p\<rparr>) (rev [0..<MAX_PROC])
      ((fold initialize_PCB [0..<MAX_PROC] s)\<lparr>pcb_freelist := None\<rparr>))\<lparr>process_count := 0\<rparr> = ?s2"
    unfolding initialize_PCBs_static [OF st(1-3)] link_free using M by (simp add: st(1) T_def cong: if_cong)
  have T0: "parent (T 0) = Some 1" using M by (simp add: T_def next_free_def)
  have "sys_Exec c None 0 None (?s2\<lparr>kernel_sem := 0\<rparr>) = Some (0, ?s3)"
  proof -
    have "first_table = T(0 := (T 0)\<lparr>pstate := ALIVE, parent := None, main_task := None, argl := 0, args := None\<rparr>)"
      using M by (auto simp: first_table_def T_def fun_eq_iff zero_PCB_def)
    then show ?thesis
      by (simp add: sys_Exec_def acquire_PCB_def upd_pcb_def get_pid_def copy_exec_args_def T0 Let_def)
  qed
  moreover have "idle_kernel ?s2" "idle_kernel (?s3\<lparr>kernel_sem := 1\<rparr>)" using st by (simp_all add: idle_kernel_def)
  ultimately have "SYSCALL c (sys_Exec c None 0 None) ?s2 = Some (Some 0, ?s3\<lparr>kernel_sem := 1\<rparr>)"
    by (intro SYSCALL_idle) simp_all
  then show ?thesis using st(4) unfolding initialize_processes_def Let_def i by simp
qed

section \<open>The initial task\<close>

text \<open>The state in which the initial task is executed.\<close>

definition initialised :: "'a kernel_scheme \<Rightarrow> bool" where
  "initialised s \<longleftrightarrow> PT s = first_table \<and> pcb_freelist s = Some 1 \<and> process_count s = 1 \<and> ptcbs s = Map.empty \<and>
     tcbs s = Map.empty \<and> FCB_freelist s = [0..<MAX_FILES] \<and> devnum s DEV_NULL = 1"

lemma cond_init_idle: "waitset s = (\<lambda>_. []) \<Longrightarrow> mutexes s = (\<lambda>_. False) \<Longrightarrow> cond_init cv s = s"
  by (simp add: cond_init_def fun_upd_idem)

lemma cond_inits_idle:
  assumes "waitset s = (\<lambda>_. [])" "mutexes s = (\<lambda>_. False)"
  shows "fold (\<lambda>i. cond_init (f i)) xs s = s"
  by (induction xs) (simp_all add: cond_init_idle [OF assms])

lemma initialize_devices_idle:
  assumes "waitset s = (\<lambda>_. [])" "mutexes s = (\<lambda>_. False)"
  shows "initialize_devices c s = cpu_interrupt_handler c SERIAL_TX_READY (Some serial_tx_ptr)
    (cpu_interrupt_handler c SERIAL_RX_READY (Some serial_rx_ptr)
      (s\<lparr>devnum := (\<lambda>d. case d of DEV_NULL \<Rightarrow> 1 | DEV_SERIAL \<Rightarrow> bios_serial_ports s)\<rparr>))"
  unfolding initialize_devices_def Let_def by (subst cond_inits_idle) (simp_all add: assms)

lemma initialised_before_init:
  assumes "static_storage s"
  shows "\<exists>s1 s4. initialize_processes c s = Some s1 \<and> s4 = initialize_scheduler (initialize_files (initialize_devices c s1)) \<and>
    initialised s4 \<and> idle_kernel s4 \<and> (cores_zeroed s \<longrightarrow> sched_initial s4) \<and> cctx s4 = cctx s"
proof -
  let ?s1 = "s\<lparr>PT := first_table, pcb_freelist := Some 1, process_count := 1\<rparr>"
  have st: "waitset s = (\<lambda>_. [])" "mutexes s = (\<lambda>_. False)" "kernel_sem s = 1" "ptcbs s = Map.empty" "tcbs s = Map.empty"
    using assms by (simp_all add: static_storage_def)
  have "initialised (initialize_scheduler (initialize_files (initialize_devices c ?s1)))"
    "idle_kernel (initialize_scheduler (initialize_files (initialize_devices c ?s1)))"
    "cores_zeroed s \<longrightarrow> sched_initial (initialize_scheduler (initialize_files (initialize_devices c ?s1)))"
    "cctx (initialize_scheduler (initialize_files (initialize_devices c ?s1))) = cctx s"
    by (simp_all add: initialised_def cores_zeroed_def sched_initial_def initialize_scheduler_def initialize_files_eq initialize_devices_idle
        cpu_interrupt_handler_def idle_kernel_def st)
  then show ?thesis using initialize_processes_eq [OF assms] by simp
qed

text \<open>The table before the first thread is started.\<close>

definition second_table :: "Task option \<Rightarrow> int \<Rightarrow> byte list option \<Rightarrow> pid \<Rightarrow> PCB" where
  "second_table task al newargs = first_table(1 := zero_PCB\<lparr>pstate := ALIVE, main_task := task, argl := al, args := newargs\<rparr>)"

lemma second_table_used: "pstate (second_table task al newargs p) = (if p \<le> 1 then ALIVE else FREE)"
  by (auto simp: second_table_def first_table_def zero_PCB_def)

lemma second_table_sel:
  "children_list (second_table task al newargs p) = []" "exited_list (second_table task al newargs p) = []"
  "ptcb_list (second_table task al newargs p) = []" "thread_count (second_table task al newargs p) = 0"
  "FIDT (second_table task al newargs p) = (\<lambda>_. None)"
  "p \<le> 1 \<Longrightarrow> parent (second_table task al newargs p) = None"
  "1 < p \<Longrightarrow> p < MAX_PROC \<Longrightarrow> parent (second_table task al newargs p) = next_free MAX_PROC None p"
  by (auto simp: second_table_def first_table_def zero_PCB_def)

lemma exec_init_eq:
  assumes "initialised s" "copy_exec_args al a = Some newargs"
  shows "sys_Exec c (Some task) al a s =
    map_option (Pair 1) (start_process c 1 (s\<lparr>pcb_freelist := next_free MAX_PROC None 1, process_count := 2, PT := second_table (Some task) al newargs\<rparr>))"
proof -
  have "1 < MAX_PROC" by (simp add: MAX_PROC_def)
  then have "second_table (Some task) al newargs = (PT s)(1 := (PT s 1)\<lparr>pstate := ALIVE, parent := None, main_task := Some task, argl := al, args := newargs\<rparr>)"
    "parent (PT s 1) = next_free MAX_PROC None 1"
    using assms(1) by (auto simp: initialised_def second_table_def first_table_def zero_PCB_def)
  then show ?thesis using assms
    by (simp add: sys_Exec_def acquire_PCB_def upd_pcb_def get_pid_def initialised_def Let_def map_option_case split: option.splits bind_splits)
qed

lemma second_table_ok:
  assumes "PT s = second_table task al newargs" "pcb_freelist s = next_free MAX_PROC None 1" "process_count s = 2"
    "ptcbs s = Map.empty" "tcbs s = Map.empty" "FCB_freelist s = [0..<MAX_FILES]"
  shows "kernel_ok (\<lambda>_. 0) s"
proof -
  have M: "2 < MAX_PROC" by (simp add: MAX_PROC_def)
  have used: "used s = {0, 1}" using M by (auto simp: used_def assms(1) second_table_used split: if_splits)
  have "free_path (PT s) (if 2 < MAX_PROC then Some 2 else None) [2..<MAX_PROC]"
    by (rule free_chain) (simp add: assms(1) second_table_sel)
  then have "free_path (PT s) (pcb_freelist s) [2..<MAX_PROC]" using M by (simp add: assms(2) next_free_def numeral_2_eq_2)
  moreover have "set [2..<MAX_PROC] = {..<MAX_PROC} - used s" by (auto simp: used)
  ultimately have "free_ok s" unfolding free_ok_def using M
    by (intro conjI exI [of _ "[2..<MAX_PROC]"]) (auto simp: used assms(1,3) second_table_used)
  moreover have none: "parent (PT s q) = None" if "q \<in> used s" for q
  proof -
    have "q \<le> 1" using that by (auto simp: used)
    then show ?thesis unfolding assms(1) by (rule second_table_sel(6))
  qed
  have no: "{q \<in> used s. parent (PT s q) = Some p} = {}" "{q \<in> used s. parent (PT s q) = Some p \<and> Q q} = {}" for p Q
    using none by (metis (mono_tags, lifting) empty_Collect_eq option.distinct(1))+
  have "children_ok s" "exited_ok s" unfolding children_ok_def exited_ok_def no by (simp_all add: assms(1) second_table_sel)
  moreover have "parents_ok s" using none by (auto simp: parents_ok_def used)
  moreover have "threads_inv s"
    by (simp add: threads_inv_def ptcbs_ok_def counts_ok_def owners_ok_def assms(1,4,5) second_table_sel)
  moreover have "fids_dead s" by (simp add: fids_dead_def assms(1) second_table_sel)
  moreover have "files_inv {} (\<lambda>_. 0) s"
    by (auto simp: files_inv_def fidt_ok_def held_def refs_def assms(1,6) second_table_sel)
  ultimately show ?thesis by (simp add: kernel_ok_def family_inv_def)
qed

text \<open>A new thread can always be woken up.\<close>

lemma wakeup_new:
  assumes "tcbs s t = Some tc" "state tc = INIT" "wakeup_time tc = NO_TIMEOUT" "phase tc = CTX_CLEAN" "priority tc < PRIORITY_QUEUES"
  shows "\<exists>s'. wakeup c t s = Some (True, s')"
proof -
  let ?s1 = "snd (cpu_disable_interrupts c s)"
  have "tcbs ?s1 t = Some tc" using assms(1) by simp
  then have "\<exists>s2. sched_make_ready t ?s1 = Some s2" using assms(2-5)
    by (simp add: sched_make_ready_def upd_tcb_def sched_queue_add_def)
  then show ?thesis using assms(1,2) by (auto simp: wakeup_def split_beta Let_def)
qed

lemma start_process_total: "\<exists>s'. start_process c p s = Some s'"
proof -
  let ?t = "Thr (next_tcb s)" and ?a = "next_addr s"
  obtain s6 tc where s6: "start_process c p s = do { (_, s7) \<leftarrow> wakeup c ?t s6; Some s7 }"
    "tcbs s6 ?t = Some tc" "state tc = INIT" "wakeup_time tc = NO_TIMEOUT" "phase tc = CTX_CLEAN" "priority tc = PRIORITY_QUEUES div 2"
    by (simp add: start_process_def spawn_thread_def acquire_PTCB_def xmalloc_def cond_init_def upd_tcb_def upd_ptcb_def upd_pcb_def Let_def)
  with wakeup_new [of s6 ?t tc c] show ?thesis by (auto simp: PRIORITY_QUEUES_def)
qed

lemma wakeup_idle:
  "wakeup c t s = Some (r, s') \<Longrightarrow> idle_kernel s' = idle_kernel s \<and> kernel_sem s' = kernel_sem s"
  using frame_wakeup [of c t s r s'] more_cc [of s' s] by (simp add: frame_def idle_kernel_def)

lemma start_process_idle:
  assumes "start_process c p s = Some s'" "waitset s = (\<lambda>_. [])" "mutexes s = (\<lambda>_. False)"
  shows "waitset s' = (\<lambda>_. []) \<and> mutexes s' = (\<lambda>_. False) \<and> kernel_sem s' = kernel_sem s"
proof -
  let ?t = "Thr (next_tcb s)"
  obtain s6 r where s6: "wakeup c ?t s6 = Some (r, s')" "waitset s6 = (\<lambda>_. [])" "mutexes s6 = (\<lambda>_. False)" "kernel_sem s6 = kernel_sem s"
    using assms
    by (auto simp: start_process_def spawn_thread_def acquire_PTCB_def xmalloc_def cond_init_def upd_tcb_def upd_ptcb_def upd_pcb_def
        Let_def fun_upd_idem split: bind_splits)
  with frame_wakeup [OF s6(1)] more_cc [of s' s6] show ?thesis by (simp add: frame_def)
qed

lemma start_process_thread:
  assumes "start_process c p s = Some s'"
  shows "\<exists>tc. tcbs s' (Thr (next_tcb s)) = Some tc \<and> owner_pcb tc = Some p \<and> owner_ptcb tc = Some (next_addr s)" "devnum s' = devnum s"
proof -
  let ?t = "Thr (next_tcb s)"
  obtain s6 r tc where s6: "wakeup c ?t s6 = Some (r, s')" "devnum s6 = devnum s" "tcbs s6 ?t = Some tc" "owner_pcb tc = Some p" "owner_ptcb tc = Some (next_addr s)"
    using assms
    by (auto simp: start_process_def spawn_thread_def acquire_PTCB_def xmalloc_def cond_init_def upd_tcb_def upd_ptcb_def upd_pcb_def
        Let_def split: bind_splits)
  have k: "kframe s6 s'" by (rule wakeup_kframe [OF s6(1)])
  then show "devnum s' = devnum s" using more_kernel(12) [of s' s6] s6(2) by (simp add: kframe_def)
  have "map_option owner_pcb (tcbs s' ?t) = Some (Some p)" "map_option owner_ptcb (tcbs s' ?t) = Some (Some (next_addr s))"
    using k s6 by (simp_all add: kframe_def)
  then show "\<exists>tc. tcbs s' ?t = Some tc \<and> owner_pcb tc = Some p \<and> owner_ptcb tc = Some (next_addr s)" by auto
qed

text \<open>What the scheduler knows of the first thread of a process: it is ready and in a queue.\<close>

lemma sched_inv_owner:
  assumes inv: "sched_inv sw s" and t: "tcbs s t = Some tc"
  shows "sched_inv sw (s\<lparr>tcbs := (tcbs s)(t \<mapsto> tc\<lparr>owner_ptcb := b\<rparr>)\<rparr>)"
proof -
  let ?T = "(tcbs s)(t \<mapsto> tc\<lparr>owner_ptcb := b\<rparr>)"
  have q: "queueable ?T = queueable (tcbs s)" using t by (auto simp: fun_eq_iff queueable_def)
  have w: "wk ?T = wk (tcbs s)" using t by (auto simp: fun_eq_iff wk_def)
  have d: "{n. ?T (Thr n) \<noteq> None} = {n. tcbs s (Thr n) \<noteq> None}" "?T u \<noteq> None \<longleftrightarrow> tcbs s u \<noteq> None" for u using t by auto
  have "q_ok (incoming sw s) ?T (SCHED s)" "c_ok ?T (active_threads s) (next_tcb s)"
    using inv d unfolding sched_inv_def q_ok_def c_ok_def q by auto
  moreover have "h_ok (holder sw s) ?T" "i_ok (holder sw s) (incoming sw s) ?T"
    using inv t by (auto simp: sched_inv_def h_ok_def i_ok_def)
  moreover have "n_ok (incoming sw s) ?T" using inv t unfolding sched_inv_def n_ok_def by fastforce
  moreover have "s_ok sw (holder sw s) (incoming sw s) ?T" using inv t by (auto simp: sched_inv_def s_ok_def)
  moreover have "t_ok ?T (TIMEOUT_LIST s)" using inv t unfolding sched_inv_def t_ok_def w by auto
  ultimately show ?thesis using inv by (simp add: sched_inv_def)
qed

definition thread_queued :: "pid \<Rightarrow> 'a kernel_scheme \<Rightarrow> bool" where
  "thread_queued p s \<longleftrightarrow> (\<exists>n tc a x. main_thread (PT s p) = Some (Thr n) \<and> ptcb_list (PT s p) = [a] \<and> ptcbs s a = Some x \<and>
     ptcb_tcb x = Thr n \<and> ptcb_task x = main_task (PT s p) \<and> ptcb_argl x = argl (PT s p) \<and> ptcb_args x = args (PT s p) \<and>
     tcbs s (Thr n) = Some tc \<and> owner_pcb tc = Some p \<and> owner_ptcb tc = Some a \<and> thread_func tc = Some start_main_thread \<and>
     state tc = READY \<and> Thr n \<in> set (SCHED s (priority tc)))"

lemma start_process_queued:
  assumes "start_process c p s = Some s'" "sched_inv {} s" "ptcb_list (PT s p) = []"
  shows "thread_queued p s'" "sched_inv {} s'" "cctx s' = cctx s" "main_task (PT s' p) = main_task (PT s p)"
    "argl (PT s' p) = argl (PT s p)" "args (PT s' p) = args (PT s p)"
proof -
  let ?t = "Thr (next_tcb s)" and ?a = "next_addr s" and ?s1 = "snd (spawn_thread (Some p) start_main_thread s)"
  obtain tc where tc: "tcbs ?s1 ?t = Some tc" "owner_pcb tc = Some p" "state tc = INIT" "ttype tc = NORMAL_THREAD"
    "phase tc = CTX_CLEAN" "thread_func tc = Some start_main_thread" by (simp add: spawn_thread_def Let_def)
  let ?tc = "tc\<lparr>owner_ptcb := Some ?a\<rparr>"
  let ?s2 = "?s1\<lparr>tcbs := (tcbs ?s1)(?t \<mapsto> ?tc)\<rparr>"
  obtain s6 r where s6: "wakeup c ?t s6 = Some (r, s')" "same_sched ?s2 s6" "main_thread (PT s6 p) = Some ?t"
    "ptcb_list (PT s6 p) = [?a]" "ptcbs s6 ?a = Some \<lparr>ptcb_tcb = ?t, ptcb_task = main_task (PT s p), ptcb_argl = argl (PT s p),
       ptcb_args = args (PT s p), ptcb_exitval = 0, exited = False, detached = False, ptcb_refcount = 2\<rparr>"
    "main_task (PT s6 p) = main_task (PT s p)" "argl (PT s6 p) = argl (PT s p)" "args (PT s6 p) = args (PT s p)"
    using assms(1,3) tc(1)
    by (auto simp: start_process_def spawn_thread_def acquire_PTCB_def xmalloc_def cond_init_def upd_tcb_def upd_ptcb_def upd_pcb_def
        same_sched_def Let_def split: bind_splits)
  have "sched_inv {} ?s1" by (rule spawn_inv [OF assms(2)]) (simp add: prod_eq_iff spawn_thread_def Let_def)
  then have "sched_inv {} ?s2" by (rule sched_inv_owner [OF _ tc(1)])
  then have inv6: "sched_inv {} s6" using sched_inv_same [OF s6(2)] by blast
  have t6: "tcbs s6 ?t = Some ?tc" using s6(2) by (simp add: same_sched_def)
  from wakeup_effect [OF inv6 t6, of c] s6(1)
  have w: "sched_inv {} s'" "tcbs s' ?t = Some (awaken ?tc)" "cctx s' = cctx s6" "frame s6 s'" by auto
  have m: "PT s' = PT s6" "ptcbs s' = ptcbs s6" using wakeup_kframe [OF s6(1)] more_kernel [of s' s6] by (simp_all add: kframe_def)
  show "sched_inv {} s'" by (rule w(1))
  show "cctx s' = cctx s" using w(3) s6(2) by (simp add: same_sched_def spawn_thread_def Let_def)
  show "main_task (PT s' p) = main_task (PT s p)" "argl (PT s' p) = argl (PT s p)" "args (PT s' p) = args (PT s p)"
    using s6(6-8) by (simp_all add: m)
  have aw: "state (awaken ?tc) = READY" "phase (awaken ?tc) = CTX_CLEAN" "ttype (awaken ?tc) = NORMAL_THREAD"
    "owner_pcb (awaken ?tc) = Some p" "owner_ptcb (awaken ?tc) = Some ?a" "thread_func (awaken ?tc) = Some start_main_thread"
    using tc by (simp_all add: awaken_def)
  have "queueable (tcbs s') ?t (priority (awaken ?tc))" using w(2) aw by (simp add: queueable_def)
  then have "?t \<in> set (SCHED s' (priority (awaken ?tc)))" using w(1) by (simp add: sched_inv_def q_ok_def incoming_def)
  then show "thread_queued p s'" unfolding thread_queued_def m using s6(3-8) w(2) aw by fastforce
qed

section \<open>The boot ends in the invariant\<close>

text \<open>The initial task is process 1, has no parent and no open file, and its one thread can run.\<close>

definition init_ready :: "'a kernel_scheme \<Rightarrow> bool" where
  "init_ready s \<longleftrightarrow> used s = {0, 1} \<and> parent (PT s 1) = None \<and> thread_count (PT s 1) = 1 \<and> (\<forall>p. FIDT (PT s p) = (\<lambda>_. None)) \<and>
     FCB_freelist s = [0..<MAX_FILES] \<and> devnum s DEV_NULL = 1 \<and>
     (\<exists>n tc a. tcbs s (Thr n) = Some tc \<and> owner_pcb tc = Some 1 \<and> owner_ptcb tc = Some a \<and> live s a)"

text \<open>Process 1 is the given task with the given arguments, and its thread is ready and in a queue of the scheduler.\<close>

definition init_queued :: "Task \<Rightarrow> int \<Rightarrow> byte list option \<Rightarrow> 'a kernel_scheme \<Rightarrow> bool" where
  "init_queued task al ag s \<longleftrightarrow> main_task (PT s 1) = Some task \<and> argl (PT s 1) = al \<and> args (PT s 1) = ag \<and> thread_queued 1 s"

lemma no_calls: "pins_of Map.empty = (\<lambda>_. 0)" "joiners Map.empty b = {}"
  by (simp_all add: pins_of_def users_def joiners_def fun_eq_iff)

lemma kernel_ok_sem: "kernel_ok pins s \<Longrightarrow> kernel_ok pins (s\<lparr>kernel_sem := k\<rparr>)"
  by (erule kernel_ok_same) (simp_all add: same_family_def same_threads_def same_owners_def same_streams_def)

lemma boot_section_ok:
  assumes "static_storage s" "copy_exec_args al a = Some newargs"
  shows "\<exists>s'. boot_section c (Some task) al a s = Some s' \<and> system_inv (s', Map.empty) \<and> idle_kernel s' \<and> init_ready s' \<and>
    (cores_zeroed s \<longrightarrow> init_queued task al newargs s' \<and> sched_inv {} s' \<and> cctx s' = cctx s)"
proof -
  obtain s1 s4 where s1: "initialize_processes c s = Some s1" "s4 = initialize_scheduler (initialize_files (initialize_devices c s1))"
    and s4: "initialised s4" "idle_kernel s4" "cores_zeroed s \<longrightarrow> sched_initial s4" "cctx s4 = cctx s"
    using initialised_before_init [OF assms(1)] by blast
  define s6 where "s6 = s4\<lparr>kernel_sem := 0, pcb_freelist := next_free MAX_PROC None 1, process_count := 2,
    PT := second_table (Some task) al newargs\<rparr>"
  have i: "initialised (s4\<lparr>kernel_sem := 0\<rparr>)" using s4(1) by (simp add: initialised_def)
  have ok6: "kernel_ok (\<lambda>_. 0) s6" and e6: "ptcbs s6 = Map.empty"
    using s4(1) by (auto intro!: second_table_ok simp: s6_def initialised_def)
  obtain s7 where s7: "start_process c 1 s6 = Some s7" using start_process_total by blast
  have ex: "sys_Exec c (Some task) al a (s4\<lparr>kernel_sem := 0\<rparr>) = Some (1, s7)"
    using exec_init_eq [OF i assms(2)] s7 by (simp add: s6_def)
  have g: "gains_thread 1 s6 s7" by (rule start_process_gains [OF s7 free_TCB [OF ok6]])
  have al: "pstate (PT s6 1) = ALIVE" "(1::nat) < MAX_PROC" by (simp_all add: s6_def second_table_used MAX_PROC_def)
  note ok7 = kernel_ok_gains [OF ok6 g al] and g7 = gains_thread_PT [OF g]
  have idle7: "waitset s7 = (\<lambda>_. [])" "mutexes s7 = (\<lambda>_. False)" "kernel_sem s7 = 0"
    using start_process_idle [OF s7] s4(2) by (simp_all add: s6_def idle_kernel_def)
  have "SYSCALL c (sys_Exec c (Some task) al a) s4 = Some (Some 1, s7\<lparr>kernel_sem := 1\<rparr>)"
    by (rule SYSCALL_idle) (use s4(2) in \<open>simp_all add: ex idle7 idle_kernel_def\<close>)
  then have b: "boot_section c (Some task) al a s = Some (s7\<lparr>kernel_sem := 1\<rparr>)"
    using s1 by (simp add: boot_section_def Let_def)
  have "calls_ok s6 Map.empty" by (simp add: calls_ok_def waits_disjoint_def joins_counted_def e6)
  then have "calls_ok s7 Map.empty" using calls_ok_grow [OF _ _ gains_grow [OF g]] ok6 by (simp add: kernel_ok_def)
  then have "calls_ok (s7\<lparr>kernel_sem := 1\<rparr>) Map.empty" by (simp add: calls_ok_def waits_disjoint_def joins_counted_def)
  then have inv: "system_inv (s7\<lparr>kernel_sem := 1\<rparr>, Map.empty)" using kernel_ok_sem [OF ok7] by (simp add: system_inv_def no_calls)
  have "init_ready s7" unfolding init_ready_def
  proof (intro conjI)
    show "used s7 = {0, 1}" using al(2) by (auto simp: used_def g7(3) s6_def second_table_used split: if_splits)
    show "\<forall>p. FIDT (PT s7 p) = (\<lambda>_. None)" "parent (PT s7 1) = None" "thread_count (PT s7 1) = 1"
      using g7(2,4,7) by (simp_all add: s6_def second_table_sel)
    have "live s7 (next_addr s6)" using g by (auto simp: gains_thread_def live_def split: option.splits)
    then show "\<exists>n tc a. tcbs s7 (Thr n) = Some tc \<and> owner_pcb tc = Some 1 \<and> owner_ptcb tc = Some a \<and> live s7 a"
      using start_process_thread(1) [OF s7] by blast
    show "FCB_freelist s7 = [0..<MAX_FILES]" "devnum s7 DEV_NULL = 1"
      using g start_process_thread(2) [OF s7] s4(1) by (simp_all add: gains_thread_def s6_def initialised_def)
  qed
  then have "init_ready (s7\<lparr>kernel_sem := 1\<rparr>)" by (simp add: init_ready_def used_def live_def)
  moreover have "init_queued task al newargs (s7\<lparr>kernel_sem := 1\<rparr>) \<and> sched_inv {} (s7\<lparr>kernel_sem := 1\<rparr>) \<and>
      cctx (s7\<lparr>kernel_sem := 1\<rparr>) = cctx s" if "cores_zeroed s"
  proof -
    have "sched_inv {} s6" using s4(3) that by (subst sched_inv_ext [of _ s4]) (simp_all add: s6_def sched_initial_inv)
    note q = start_process_queued [OF s7 this]
    have "ptcb_list (PT s6 1) = []" by (simp add: s6_def second_table_sel)
    note q = q [OF this]
    have "sched_inv {} (s7\<lparr>kernel_sem := 1\<rparr>)" using q(2) by (subst sched_inv_ext [of _ s7]) simp_all
    moreover have "cctx s6 = cctx s" using s4(4) by (simp add: s6_def)
    ultimately show ?thesis using q(1,3-6)
      by (simp add: init_queued_def thread_queued_def s6_def second_table_def zero_PCB_def)
  qed
  ultimately show ?thesis using b inv idle7 by (auto simp: idle_kernel_def)
qed

lemma start_keeps:
  "init_ready s \<Longrightarrow> init_ready (run_scheduler c p0 s)" "idle_kernel (run_scheduler c p0 s) = idle_kernel s"
proof -
  have "cc.more (run_scheduler c p0 s) = cc.more s"
    by (simp add: run_scheduler_def Let_def cpu_interrupt_handler_def cpu_enable_interrupts_def)
  note m = more_kernel [OF this]
  have "tcbs (run_scheduler c p0 s) (Thr n) = tcbs s (Thr n)" for n
    by (simp add: run_scheduler_def Let_def cpu_interrupt_handler_def cpu_enable_interrupts_def)
  then show "init_ready s \<Longrightarrow> init_ready (run_scheduler c p0 s)" by (simp add: init_ready_def used_def live_def m)
  show "idle_kernel (run_scheduler c p0 s) = idle_kernel s"
    by (simp add: idle_kernel_def run_scheduler_def Let_def cpu_interrupt_handler_def cpu_enable_interrupts_def)
qed

lemma boot_cores_ok:
  assumes "system_inv (s, Map.empty)" "idle_kernel s" "init_ready s" "0 \<notin> set cs"
  shows "\<exists>s'. boot_cores cs task al a s = Some s' \<and> system_inv (s', Map.empty) \<and> idle_kernel s' \<and> init_ready s'"
  using assms
proof (induction cs arbitrary: s)
  case (Cons c cs)
  note st = start_ok [OF Cons.prems(1), of c]
  from Cons.IH [OF st] Cons.prems start_keeps [where s = s] show ?case by (simp add: boot_tinyos_kernel_def)
qed simp

lemma start_queued:
  assumes "init_queued task al ag s" "sched_inv {} s" "cur_thread c s = None"
  shows "init_queued task al ag (run_scheduler c p0 s)" "sched_inv {} (run_scheduler c p0 s)"
    "cur_thread d (run_scheduler c p0 s) = (if d = c then Some (IdleT c) else cur_thread d s)"
proof -
  have eq: "cc.more (run_scheduler c p0 s) = cc.more s" "SCHED (run_scheduler c p0 s) = SCHED s"
    "\<And>n. tcbs (run_scheduler c p0 s) (Thr n) = tcbs s (Thr n)"
    by (simp_all add: run_scheduler_def Let_def cpu_interrupt_handler_def cpu_enable_interrupts_def)
  show "init_queued task al ag (run_scheduler c p0 s)"
    using assms(1) unfolding init_queued_def thread_queued_def more_kernel [OF eq(1)] eq(2,3) .
  show "sched_inv {} (run_scheduler c p0 s)" using assms(2,3) by (intro start_inv) simp_all
  show "cur_thread d (run_scheduler c p0 s) = (if d = c then Some (IdleT c) else cur_thread d s)"
    by (simp add: run_scheduler_def Let_def cpu_interrupt_handler_def cpu_enable_interrupts_def cur_thread_def)
qed

lemma boot_cores_queued:
  assumes "boot_cores cs task al a s = Some s'" "0 \<notin> set cs" "distinct cs" "\<forall>c \<in> set cs. cur_thread c s = None"
    "init_queued tk bl ag s" "sched_inv {} s"
  shows "init_queued tk bl ag s' \<and> sched_inv {} s' \<and> (\<forall>d. cur_thread d s' = (if d \<in> set cs then Some (IdleT d) else cur_thread d s))"
  using assms
proof (induction cs arbitrary: s)
  case (Cons c cs)
  let ?s1 = "run_scheduler c (get_pcb 0 s) s"
  have "boot_cores cs task al a ?s1 = Some s'" using Cons.prems(1,2) by (simp add: boot_tinyos_kernel_def)
  moreover note q = start_queued [OF Cons.prems(5,6), of c]
  moreover have "\<forall>d \<in> set cs. cur_thread d ?s1 = None" using Cons.prems(3,4) q(3) by auto
  ultimately show ?case using Cons.IH [of ?s1] Cons.prems(2-4) by (auto split: if_splits)
qed simp

lemma boot_queued:
  assumes "static_storage s" "cores_zeroed s" "copy_exec_args al a = Some newargs" "0 < n" "boot n nt (Some task) al a s = Some s'"
  shows "init_queued task al newargs s' \<and> sched_inv {} s' \<and> (\<forall>c. cur_thread c s' = (if c < n then Some (IdleT c) else None))"
proof -
  let ?s0 = "s\<lparr>ncores := n, nterm := nt\<rparr>"
  have st: "static_storage ?s0" "cores_zeroed ?s0" using assms(1,2) by (simp_all add: static_storage_def cores_zeroed_def cur_thread_def)
  from boot_section_ok [OF st(1) assms(3), of 0 task] st(2) obtain s1 where
    s1: "boot_section 0 (Some task) al a ?s0 = Some s1" "init_queued task al newargs s1" "sched_inv {} s1" "cctx s1 = cctx ?s0" by blast
  define s2 where "s2 = run_scheduler 0 (get_pcb 0 s1) s1"
  have none: "cur_thread c s1 = None" for c using s1(4) assms(2) by (simp add: cur_thread_def cores_zeroed_def)
  note s2 = start_queued [OF s1(2,3) none [of 0], where ?p0.0 = "get_pcb 0 s1", folded s2_def]
  have l: "[0..<n] = 0 # [1..<n]" using assms(4) by (simp add: upt_conv_Cons)
  have "boot_cores [1..<n] (Some task) al a s2 = Some s'"
    using assms(5) unfolding boot_def l by (simp add: boot_tinyos_kernel_def s1(1) s2_def)
  from boot_cores_queued [OF this _ _ _ s2(1,2)] show ?thesis using s2(3) none assms(4) by auto
qed

lemma boot_ok:
  assumes "static_storage s" "copy_exec_args al a = Some newargs" "0 < n"
  shows "\<exists>s'. boot n nt (Some task) al a s = Some s' \<and> system_inv (s', Map.empty) \<and> idle_kernel s' \<and> init_ready s'"
proof -
  have st: "static_storage (s\<lparr>ncores := n, nterm := nt\<rparr>)" using assms(1) by (simp add: static_storage_def cur_thread_def)
  from boot_section_ok [OF this assms(2), of 0 task] obtain s1 where
    s1: "boot_section 0 (Some task) al a (s\<lparr>ncores := n, nterm := nt\<rparr>) = Some s1" "system_inv (s1, Map.empty)" "idle_kernel s1"
      "init_ready s1" by blast
  have l: "[0..<n] = 0 # [1..<n]" using assms(3) by (simp add: upt_conv_Cons)
  define s2 where "s2 = run_scheduler 0 (get_pcb 0 s1) s1"
  have s2: "system_inv (s2, Map.empty)" "idle_kernel s2" "init_ready s2"
    using start_ok [OF s1(2), of 0] start_keeps [where s = s1] s1(3,4) by (simp_all add: s2_def)
  have "boot n nt (Some task) al a s = boot_cores [1..<n] (Some task) al a s2"
    unfolding boot_def l by (simp add: boot_tinyos_kernel_def s1(1) s2_def)
  then show ?thesis using boot_cores_ok [OF s2, of "[1..<n]" "Some task" al a] by simp
qed

section \<open>The states of the operating system\<close>

text \<open>
  The states that threads and cores reach after a boot, by any interleaving of calls that obey \<open>rule\<close>;
  the theorems are about programs that obey \<open>waits_apart\<close>.
\<close>

inductive os_reachable :: "(sys_call \<Rightarrow> pid \<Rightarrow> calls \<Rightarrow> bool) \<Rightarrow> 'a kernel_scheme \<times> calls \<Rightarrow> bool" for rule where
  boot: "static_storage s0 \<Longrightarrow> copy_exec_args al a = Some newargs \<Longrightarrow> 0 < n \<Longrightarrow> boot n nt (Some task) al a s0 = Some s \<Longrightarrow>
    os_reachable rule (s, Map.empty)"
| step: "os_reachable rule S \<Longrightarrow> system_step rule S S' \<Longrightarrow> os_reachable rule S'"

lemma os_reachable_inv: "os_reachable waits_apart S \<Longrightarrow> system_inv S"
proof (induction rule: os_reachable.induct)
  case (boot s0 al a newargs n nt task s)
  from boot_ok [OF boot(1-3), of nt task] obtain s' where "boot n nt (Some task) al a s0 = Some s'" "system_inv (s', Map.empty)" by blast
  with boot(4) show ?case by simp
next
  case (step S S')
  then show ?case using system_step_inv by blast
qed

lemma os_reachableD:
  assumes "os_reachable waits_apart (s, pend)"
  shows "kernel_ok (pins_of pend) s" "calls_ok s pend" "family_inv s" "threads_inv s" "fids_dead s" "files_inv {} (pins_of pend) s"
  using os_reachable_inv [OF assms] by (simp_all add: system_inv_def kernel_ok_def)

section \<open>A concrete run\<close>

text \<open>
  The static storage of the machine; \<open>kernel10\<close> is the state after the boot of one core with the
  initial task at address 7.
\<close>

definition kernel_static :: kernel where
  "kernel_static = with_kernel (with_cc sched0)"

definition kernel10 :: kernel where
  "kernel10 = the (boot 1 0 (Some 7) 0 None kernel_static)"

lemma kernel_static_ok: "static_storage kernel_static"
proof -
  have "kernel_sem (with_kernel s) = kernel_sem s" for s by (simp add: with_kernel_def cc.defs kernel.defs)
  then show ?thesis by (simp add: static_storage_def kernel_static_def with_cc_sel fun_eq_iff sched0_sel cur_thread_def)
qed

lemma kernel10_reachable: "os_reachable waits_apart (kernel10, Map.empty)" "init_ready kernel10" "idle_kernel kernel10"
proof -
  obtain s where s: "boot 1 0 (Some 7) 0 None kernel_static = Some s" "init_ready s" "idle_kernel s"
    using boot_ok [OF kernel_static_ok, of 0 None None 1 0 7] by (auto simp: copy_exec_args_def)
  then show "init_ready kernel10" "idle_kernel kernel10" by (simp_all add: kernel10_def)
  show "os_reachable waits_apart (kernel10, Map.empty)"
    using os_reachable.boot [OF kernel_static_ok _ _ s(1), of None] s(1) by (simp add: kernel10_def copy_exec_args_def)
qed

text \<open>The scheduler switches to the initial task.\<close>

lemma init_runs: "\<exists>(s :: kernel) t a. os_reachable waits_apart (s, Map.empty) \<and> caller 0 t 1 a s \<and> init_ready s \<and> idle_kernel s"
proof -
  obtain n tc a where t: "tcbs kernel10 (Thr n) = Some tc" "owner_pcb tc = Some 1" "owner_ptcb tc = Some a" "live kernel10 a"
    using kernel10_reachable(2) unfolding init_ready_def by blast
  define s where "s = kernel10\<lparr>cctx := (cctx kernel10)(0 := \<lparr>current_thread = Some (Thr n), previous_thread = None\<rparr>)\<rparr>"
  have "machine_moves kernel10 s" by (simp add: machine_moves_def same_owners_def s_def)
  then have "os_reachable waits_apart (s, Map.empty)" using os_reachable.step [OF kernel10_reachable(1)] system_step.machine by blast
  moreover have "caller 0 (Thr n) 1 a s" using t by (simp add: caller_def cur_thread_def live_def s_def)
  moreover have "init_ready s" "idle_kernel s"
    using kernel10_reachable(2,3) by (simp_all add: init_ready_def used_def live_def idle_kernel_def s_def)
  ultimately show ?thesis by blast
qed

text \<open>The initial task opens the null device.\<close>

lemma null_opened: "\<exists>(s :: kernel) t a. os_reachable waits_apart (s, Map.empty) \<and> caller 0 t 1 a s \<and> used s = {0, 1} \<and> refs 0 s = {(1, 0)}"
proof -
  obtain s :: kernel and t a where s: "os_reachable waits_apart (s, Map.empty)" "caller 0 t 1 a s" "init_ready s" using init_runs by blast
  have p: "CURPROC 0 s = Some 1" by (rule caller_CURPROC [OF s(2)])
  have M: "0 < MAX_FILES" by (simp add: MAX_FILES_def MAX_PROC_def)
  have f: "FIDT (PT s p) = (\<lambda>_. None)" "FCB_freelist s = 0 # [1..<MAX_FILES]" "devnum s DEV_NULL = 1" "used s = {0, 1}" for p
    using s(3) upt_conv_Cons [of 0 MAX_FILES] M by (simp_all add: init_ready_def)
  let ?s1 = "FCB_incref 0 (set_FIDT 1 0 (Some 0) (upd_fcb 0 (\<lambda>x. x\<lparr>refcount := 0\<rparr>) (s\<lparr>FCB_freelist := [1..<MAX_FILES]\<rparr>)))"
  have "next_fid (\<lambda>_. None) 0 = 0" by (simp add: next_fid.simps)
  then have "FCB_reserve 0 1 s = Some (Some ([0], [0]), ?s1)"
    using p f by (simp add: FCB_reserve_def acquire_FCB_def MAX_FILEID_def)
  moreover have "devnum ?s1 DEV_NULL = 1" by (simp add: FCB_incref_def upd_fcb_def set_FIDT_def upd_pcb_def f)
  moreover define s2 where "s2 = upd_fcb 0 (\<lambda>x. x\<lparr>streamobj := nulldev_open 0, streamfunc := Some nulldev_fops\<rparr>) ?s1"
  ultimately have "sys_OpenNull 0 s = Some (0, s2)" by (simp add: sys_OpenNull_def open_stream_def device_open_def)
  then have d: "dispatch 0 i OpenNull s = Some (Returned, s2)" for i by (simp add: dispatch_def)
  have "system_step waits_apart (s, Map.empty) (s2, after a Returned Map.empty)"
    by (rule system_step.enter [OF s(2) _ _ d]) (simp_all add: waits_apart_def)
  then have "os_reachable waits_apart (s2, after a Returned Map.empty)" by (rule os_reachable.step [OF s(1)])
  then have "os_reachable waits_apart (s2, Map.empty)" by (simp add: after_def fun_upd_idem)
  moreover have T: "PT s2 = (PT s)(1 := (PT s 1)\<lparr>FIDT := [0 \<mapsto> 0]\<rparr>)"
    by (simp add: s2_def FCB_incref_def upd_fcb_def set_FIDT_def upd_pcb_def f(1))
  have "refs 0 s2 = {(1, 0)}" by (auto simp: refs_def T f(1) split: if_splits)
  moreover have "used s2 = used s" by (auto simp: used_def T split: if_splits)
  then have "used s2 = {0, 1}" by (simp add: f(4))
  moreover have "caller 0 t 1 a s2"
    using s(2) by (simp add: s2_def caller_def cur_thread_def live_def FCB_incref_def upd_fcb_def set_FIDT_def upd_pcb_def)
  ultimately show ?thesis by blast
qed

end
