(* ===== verification/Lifecycle.thy ===== *)
theory Lifecycle
  imports Boot
begin

text \<open>
  The life of processes and threads, from their creation to the call that collects the exit value,
  in the reachable states of the operating system.
\<close>

section \<open>Creation\<close>

lemma freelist_empty:
  assumes "family_inv s"
  shows "pcb_freelist s = None \<longleftrightarrow> used s = {..<MAX_PROC}"
proof -
  obtain fl where fl: "free_path (PT s) (pcb_freelist s) fl" "set fl = {..<MAX_PROC} - used s"
    using assms by (auto simp: family_inv_def free_ok_def)
  have "used s \<subseteq> {..<MAX_PROC}" by (auto simp: used_def)
  moreover have "pcb_freelist s = None \<longleftrightarrow> fl = []" using fl(1) by (cases fl) auto
  ultimately show ?thesis using fl(2) by (metis Diff_eq_empty_iff set_empty subset_antisym order_refl)
qed

lemma sys_Exec_total:
  assumes "kernel_ok pins s" "CURPROC c s = Some cp" "copy_exec_args al ag = Some newargs"
  shows "\<exists>r s'. sys_Exec c call al ag s = Some (r, s')"
proof (cases "pcb_freelist s")
  case None
  then show ?thesis by (simp add: sys_Exec_def acquire_PCB_def)
next
  case (Some p)
  have "1 < p" by (rule freelist_head(3) [OF _ Some]) (use assms(1) in \<open>simp add: kernel_ok_def\<close>)
  from start_process_total [of c p "prepared p cp call al newargs s"]
  show ?thesis unfolding sys_Exec_eq [OF Some \<open>1 < p\<close> assms(2)] by (auto simp: assms(3))
qed

text \<open>
  C6. In a reachable state, with programs that keep the discipline \<open>waits_apart\<close>:
  \<^verbatim>\<open>Exec\<close> with valid arguments always returns.  It fails exactly when all process control blocks
  are in use, and then nothing changes.  Otherwise it creates one process: a child of the
  caller, at the head of its list of children, with one thread, a copy of the arguments and the
  same file ids as the caller.
\<close>

theorem Exec_creates_child:
  assumes "os_reachable waits_apart (s, pend)" "caller c t p a s" "copy_exec_args al ag = Some newargs"
  shows "if used s = {..<MAX_PROC} then sys_Exec c (Some task) al ag s = Some (NOPROC, s)
    else \<exists>ch s'. sys_Exec c (Some task) al ag s = Some (int ch, s') \<and> ch \<notin> used s \<and> used s' = insert ch (used s) \<and>
      parent (PT s' ch) = Some p \<and> children_list (PT s' p) = ch # children_list (PT s p) \<and>
      thread_count (PT s' ch) = 1 \<and> main_task (PT s' ch) = Some task \<and> args (PT s' ch) = newargs \<and>
      FIDT (PT s' ch) = FIDT (PT s p)"
proof -
  note k = os_reachableD [OF assms(1)]
  note al = caller_alive [OF k(4) assms(2)]
  obtain r s' where e: "sys_Exec c (Some task) al ag s = Some (r, s')"
    using sys_Exec_total [OF k(1) caller_CURPROC [OF assms(2)] assms(3)] by blast
  note ok = sys_Exec_ok [OF k(1) caller_CURPROC [OF assms(2)] al(2) e] and fl = freelist_empty [OF k(3)]
  show ?thesis
  proof (cases "used s = {..<MAX_PROC}")
    case True
    then show ?thesis using ok fl e by simp
  next
    case False
    with ok fl obtain ch where ch: "pcb_freelist s = Some ch" "r = int ch" "1 < ch" "execs ch p (Some task) al newargs s s'"
      using assms(3) by auto
    note h = freelist_head [OF k(3) ch(1)]
    have ne: "ch \<noteq> p" using h(2) al(2) by auto
    have fam: "pstate (PT s' q) = pstate (PT (adopt ch p s) q)" "parent (PT s' q) = parent (PT (adopt ch p s) q)"
      "children_list (PT s' q) = children_list (PT (adopt ch p s) q)" for q
      using ch(4) by (simp_all add: execs_def same_family_def)
    have "used s' = insert ch (used s)" using h(1) ne by (auto simp: used_def fam adopt_PT(1) [OF ch(1) ne] split: if_splits)
    moreover have "parent (PT s' ch) = Some p" "children_list (PT s' p) = ch # children_list (PT s p)"
      using ne by (simp_all add: fam adopt_PT(1) [OF ch(1) ne])
    ultimately show ?thesis using False e ch(2,4) h(2) by (auto simp: execs_def used_def)
  qed
qed

theorem Exec_creates_child_witness:
  "\<exists>(s :: kernel) ch s'. sys_Exec 0 (Some 9) 2 (Some [65, 0]) s = Some (int ch, s') \<and> used s = {0, 1} \<and> used s' = insert ch (used s) \<and>
     parent (PT s' ch) = Some 1 \<and> args (PT s' ch) = Some [65, 0] \<and> FIDT (PT s' ch) = FIDT (PT s 1)"
proof -
  obtain s :: kernel and t a where s: "os_reachable waits_apart (s, Map.empty)" "caller 0 t 1 a s" "used s = {0, 1}" using null_opened by blast
  have "used s \<noteq> {..<MAX_PROC}"
  proof
    assume "used s = {..<MAX_PROC}"
    then have "2 \<in> used s" by (simp add: MAX_PROC_def)
    then show False by (simp add: s(3))
  qed
  then show ?thesis using Exec_creates_child [OF s(1,2), of 2 "Some [65, 0]" "Some [65, 0]" 9] s(3) by (auto simp: copy_exec_args_def)
qed

section \<open>The end of a process\<close>

lemma process_exit_exitval:
  assumes "kernel_ok pins s" "pstate (PT s p) = ALIVE" "p < MAX_PROC" "process_exit c p s = Some s'"
  shows "exitval (PT s' q) = exitval (PT s q)"
proof -
  from process_exit_steps [OF assms(4)] obtain s1 s2 s3 where
    1: "if p = 1 then s1 = s else leave_family c p s = Some s1" and
    2: "close_fids c p [0..<MAX_FILEID] (upd_pcb p (\<lambda>pcb. pcb\<lparr>args := None\<rparr>) s1) = Some s2" and
    3: "if thread_count (PT s2 p) = 0 then free_ptcbs (ptcb_list (PT s2 p)) p s2 = Some s3 else s3 = s2" and
    4: "s' = upd_pcb p (\<lambda>pcb. pcb\<lparr>main_thread := None, pstate := ZOMBIE\<rparr>) s3" by blast
  have e1: "exitval (PT s1 q) = exitval (PT s q)"
  proof (cases "p = 1")
    case False
    with 1 leave_family_eq [OF _ assms(3,2) False, of c s1] assms(1) obtain par where "kframe (s\<lparr>PT := departed p par (PT s)\<rparr>) s1"
      by (auto simp: kernel_ok_def)
    from this [unfolded kframe_def, THEN conjunct1, THEN more_kernel(1)] show ?thesis by (simp add: departed_def)
  qed (use 1 in simp)
  have close: "close_fids c p is x = Some y \<Longrightarrow> exitval (PT y q) = exitval (PT x q)" for "is" x y
    by (induction "is" arbitrary: x)
      (auto simp: set_FIDT_def upd_pcb_def split: option.splits bind_splits dest!: FCB_decref_frame(3))
  have "exitval (PT s2 q) = exitval (PT s1 q)" using close [OF 2] by (auto simp: upd_pcb_def)
  moreover have "exitval (PT s3 q) = exitval (PT s2 q)"
    using 3 free_ptcbs_eq [of "ptcb_list (PT s2 p)" p s2 s3] by (auto split: if_splits)
  ultimately show ?thesis using e1 by (auto simp: 4 upd_pcb_def)
qed

lemma buried_cong: "same_family s s' \<Longrightarrow> same_family (buried p par s) (buried p par s')"
  by (simp add: same_family_def buried_def departed_def)

lemma exits_family: "exits p a ev s s' \<Longrightarrow> same_family s s'"
  unfolding exits_def
  by (elim exE conjE, drule same_family_kframe, erule same_family_trans [rotated]) (simp add: same_family_def)

text \<open>The last thread of a process calls \<^verbatim>\<open>Exit\<close>.\<close>

lemma last_exit:
  assumes "kernel_ok pins s" "caller c t p a s" "p \<noteq> 1" "thread_count (PT s p) = 1" "dispatch c i (Exit ev) s = Some (st, s')"
  shows "st = Exited" "kernel_ok pins s'" "zombie (PT s' p)" "exitval (PT s' p) = ev" "ptcbs s' a = None"
    "\<exists>par. parent (PT s p) = Some par \<and> par \<noteq> p \<and> par \<in> used s \<and> same_family (buried p par s) s'"
proof -
  let ?s = "upd_pcb p (\<lambda>pcb. pcb\<lparr>exitval := ev\<rparr>) s" and ?s1 = "upd_pcb p (\<lambda>pcb. pcb\<lparr>exitval := ev\<rparr>) (upd_pcb p (\<lambda>pcb. pcb\<lparr>exitval := ev\<rparr>) s)"
  have inv: "threads_inv s" "family_inv s" using assms(1) by (simp_all add: kernel_ok_def)
  note al = caller_alive [OF inv(1) assms(2)]
  have "get_pid (Some p) \<noteq> 1" using assms(3) by (simp add: get_pid_def)
  with assms(5) caller_CURPROC [OF assms(2)]
  have x: "thread_exit_section c ev ?s1 = Some s'" and "st = Exited"
    by (auto simp: dispatch_def exit_loop_def split: bind_splits)
  then show "st = Exited" by simp
  have k1: "kernel_ok pins ?s1" "caller c t p a ?s1" using exitval_ok [OF exitval_ok [OF assms(1)]] assms(2) by (simp_all add: caller_exitval)
  from thread_exit_ok [OF k1 x] assms(4) obtain s5 where s5: "exits p a ev ?s1 s5" "kernel_ok pins s5" "process_exit c p s5 = Some s'"
    and ok: "kernel_ok pins s'" "zombie (PT s' p)" by (auto simp: upd_pcb_def)
  show "kernel_ok pins s'" "zombie (PT s' p)" by (rule ok)+
  note f = exits_fields(1) [OF s5(1)]
  have a5: "pstate (PT s5 p) = ALIVE" "thread_count (PT s5 p) = 0" "exitval (PT s5 p) = ev" "ptcb_list (PT s5 p) = ptcb_list (PT s p)"
    "parent (PT s5 p) = parent (PT s p)"
    using al(2) assms(4) by (simp_all add: f upd_pcb_def)
  show "exitval (PT s' p) = ev" using process_exit_exitval [OF s5(2) a5(1) al(3) s5(3)] a5(3) by simp
  note e = process_exit_ok [OF s5(2) a5(1) al(3) a5(2) s5(3)]
  then show "ptcbs s' a = None" using al(1) by (simp add: a5(4))
  from e assms(3) obtain par where par: "parent (PT s p) = Some par" "same_family (buried p par s5) s'" by (auto simp: a5(5))
  have "p \<in> used s" "1 < p \<or> p = 0" using al(2,3) assms(3) by (auto simp: used_def)
  then have "par \<in> used s \<and> par \<noteq> p" using inv(2) par(1) by (auto simp: family_inv_def parents_ok_def split: if_splits)
  moreover have "same_family s s5"
    using exits_family [OF s5(1)] by (rule same_family_trans [rotated]) (simp add: same_family_def upd_pcb_def)
  then have "same_family (buried p par s) (buried p par s5)" by (rule buried_cong)
  ultimately show "\<exists>par. parent (PT s p) = Some par \<and> par \<noteq> p \<and> par \<in> used s \<and> same_family (buried p par s) s'"
    using par same_family_trans by blast
qed

section \<open>A child runs and exits\<close>

lemma idle_broadcast: "waitset s = (\<lambda>_. []) \<Longrightarrow> mutexes s = (\<lambda>_. False) \<Longrightarrow> kernel_broadcast c cv s = Some s"
  by (simp add: kernel_broadcast_def Cond_Broadcast_def broadcast_loop.simps Mutex_Lock_def Mutex_Unlock_def fun_upd_idem)

lemma close_fids_none: "FIDT (PT s p) = (\<lambda>_. None) \<Longrightarrow> close_fids c p is s = Some s"
  by (induction "is") simp_all

lemma free_ptcbs_total: "distinct l \<Longrightarrow> set l \<subseteq> dom (ptcbs s) \<Longrightarrow> \<exists>s'. free_ptcbs l p s = Some s'"
proof (induction l arbitrary: s)
  case (Cons b l)
  let ?s1 = "(upd_pcb p (\<lambda>pcb. pcb\<lparr>ptcb_list := l\<rparr>) s)\<lparr>ptcbs := (ptcbs s)(b := None)\<rparr>"
  obtain x where x: "ptcbs s b = Some x" using Cons.prems(2) by auto
  have "set l \<subseteq> dom (ptcbs ?s1)" using Cons.prems by (auto simp: domIff)
  from Cons.IH [OF _ this] Cons.prems(1) obtain s' where "free_ptcbs l p ?s1 = Some s'" by auto
  then show ?case using x by (simp add: free_ptcb_def upd_pcb_def)
qed simp

lemma process_exit_total:
  assumes "threads_inv s" "waitset s = (\<lambda>_. [])" "mutexes s = (\<lambda>_. False)" "p \<noteq> 1" "children_list (PT s p) = []" "exited_list (PT s p) = []"
    "parent (PT s p) = Some par" "par \<noteq> p" "FIDT (PT s p) = (\<lambda>_. None)"
  shows "\<exists>s'. process_exit c p s = Some s'"
proof -
  let ?s1 = "upd_pcb par (\<lambda>pcb. pcb\<lparr>exited_list := p # exited_list pcb\<rparr>) s"
  let ?s2 = "upd_pcb p (\<lambda>pcb. pcb\<lparr>args := None\<rparr>) ?s1"
  have "kernel_broadcast c (child_exit par) ?s1 = Some ?s1" by (rule idle_broadcast) (simp_all add: upd_pcb_def assms)
  then have l: "leave_family c p s = Some ?s1" by (simp add: leave_family_def assms Let_def)
  have c: "close_fids c p [0..<MAX_FILEID] ?s2 = Some ?s2" by (rule close_fids_none) (use assms(8,9) in \<open>auto simp: upd_pcb_def\<close>)
  have pt: "ptcb_list (PT ?s2 p) = ptcb_list (PT s p)" "ptcbs ?s2 = ptcbs s" "children_list (PT ?s1 p) = []" "exited_list (PT ?s1 p) = []"
    using assms by (simp_all add: upd_pcb_def)
  have "\<exists>s3. free_ptcbs (ptcb_list (PT ?s2 p)) p ?s2 = Some s3"
    by (rule free_ptcbs_total) (use assms(1) in \<open>simp_all only: pt, simp_all add: threads_inv_def ptcbs_ok_def\<close>)
  then show ?thesis using assms(4) l c pt(3,4) unfolding process_exit_def by (auto simp: get_pid_def Let_def)
qed

text \<open>Without waiters, a thread that is not the last one of its process can exit.\<close>

lemma thread_exit_some:
  assumes "caller c t p a s" "waitset s = (\<lambda>_. [])" "mutexes s = (\<lambda>_. False)" "thread_count (PT s p) \<noteq> 1"
  shows "\<exists>s'. thread_exit_section c ev s = Some s' \<and> ptcbs s' a \<noteq> None"
proof -
  obtain tc x where t: "cur_thread c s = Some t" "tcbs s t = Some tc" "owner_ptcb tc = Some a" "ptcbs s a = Some x" "owner_pcb tc = Some p"
    using assms(1) by (auto simp: caller_def live_def split: option.splits)
  have b: "kernel_broadcast c cv s' = Some s'" if "waitset s' = waitset s" "mutexes s' = mutexes s" for cv and s' :: "'a kernel_scheme"
    using idle_broadcast that assms(2,3) by metis
  show ?thesis unfolding thread_exit_section_def
    using assms(4) by (simp add: upd_pcb_def CURPROC_def cur_thread_def t [unfolded cur_thread_def] upd_ptcb_def b Let_def)
qed

lemma gains_caller: "gains_thread q s s' \<Longrightarrow> caller c t p b s \<Longrightarrow> b \<noteq> next_addr s \<Longrightarrow> tcbs s (Thr (next_tcb s)) = None \<Longrightarrow> caller c t p b s'"
proof -
  assume g: "gains_thread q s s'" and c: "caller c t p b s" and b: "b \<noteq> next_addr s" and n: "tcbs s (Thr (next_tcb s)) = None"
  obtain tc where tc: "tcbs s t = Some tc" "owner_pcb tc = Some p" "owner_ptcb tc = Some b" using c by (auto simp: caller_def)
  have "t \<noteq> Thr (next_tcb s)" using n tc(1) by auto
  moreover have "tcbs s' t \<noteq> None" using g tc(1) by (simp add: gains_thread_def)
  then obtain tc' where tc': "tcbs s' t = Some tc'" by auto
  moreover have "\<forall>t tc'. tcbs s' t = Some tc' \<longrightarrow> t = Thr (next_tcb s) \<and> owner_pcb tc' = Some q \<and> owner_ptcb tc' = Some (next_addr s) \<or>
      (\<exists>tc. tcbs s t = Some tc \<and> owner_pcb tc' = owner_pcb tc \<and> owner_ptcb tc' = owner_ptcb tc)"
    using g by (simp add: gains_thread_def)
  ultimately have "owner_pcb tc' = Some p \<and> owner_ptcb tc' = Some b" using tc by (metis option.inject)
  then have "\<exists>tc'. tcbs s' t = Some tc' \<and> owner_pcb tc' = Some p \<and> owner_ptcb tc' = Some b" using tc' by blast
  moreover have "cctx s' = cctx s" "ptcbs s' b = ptcbs s b" using g b by (simp_all add: gains_thread_def)
  ultimately show ?thesis using c by (simp add: caller_def live_def cur_thread_def)
qed

lemma exit_total:
  assumes "kernel_ok pins s" "caller c t p a s" "waitset s = (\<lambda>_. [])" "mutexes s = (\<lambda>_. False)" "p \<noteq> 1" "thread_count (PT s p) = 1"
    "children_list (PT s p) = []" "exited_list (PT s p) = []" "parent (PT s p) = Some par" "par \<noteq> p" "FIDT (PT s p) = (\<lambda>_. None)"
  shows "\<exists>s'. dispatch c i (Exit ev) s = Some (Exited, s')"
proof -
  let ?s = "upd_pcb p (\<lambda>pcb. pcb\<lparr>exitval := ev\<rparr>) (upd_pcb p (\<lambda>pcb. pcb\<lparr>exitval := ev\<rparr>) s)"
  note cur = caller_CURPROC [OF assms(2)]
  obtain tc x where t: "cur_thread c s = Some t" "tcbs s t = Some tc" "owner_ptcb tc = Some a" "ptcbs s a = Some x" "owner_pcb tc = Some p"
    using assms(2) by (auto simp: caller_def live_def split: option.splits)
  let ?s5 = "?s\<lparr>PT := (PT ?s)(p := (PT ?s p)\<lparr>thread_count := 0\<rparr>),
    ptcbs := (ptcbs s)(a \<mapsto> x\<lparr>ptcb_exitval := ev, ptcb_refcount := ptcb_refcount x - 1, exited := True\<rparr>)\<rparr>"
  have b: "kernel_broadcast c cv s' = Some s'" if "waitset s' = waitset s" "mutexes s' = mutexes s" for cv and s' :: "'a kernel_scheme"
    using idle_broadcast that assms(3,4) by metis
  have e: "thread_exit_section c ev ?s = process_exit c p ?s5"
    unfolding thread_exit_section_def
    by (simp add: upd_pcb_def CURPROC_def cur_thread_def t [unfolded cur_thread_def] upd_ptcb_def b Let_def assms(6))
  have ok: "kernel_ok pins ?s" "caller c t p a ?s" using exitval_ok [OF exitval_ok [OF assms(1)]] assms(2) by (simp_all add: caller_exitval)
  have "exits p a ev ?s ?s5" unfolding exits_def
    by (rule exI [of _ x]) (simp add: t upd_pcb_def assms(6) kframe_def)
  then have "threads_inv ?s5" using exits_ok [OF ok] by (simp add: kernel_ok_def)
  then have "\<exists>s'. process_exit c p ?s5 = Some s'"
    by (rule process_exit_total) (use assms in \<open>simp_all add: upd_pcb_def\<close>)
  then show ?thesis using e assms(5) by (auto simp: dispatch_def cur exit_loop_def get_pid_def)
qed


lemma prepared_idle:
  "waitset (prepared p cp call al newargs s) = waitset s" "mutexes (prepared p cp call al newargs s) = mutexes s"
  "tcbs (prepared p cp call al newargs s) = tcbs s" "cctx (prepared p cp call al newargs s) = cctx s"
proof -
  have "waitset (fold (inherit_fid p cp) is s) = waitset s \<and> mutexes (fold (inherit_fid p cp) is s) = mutexes s \<and>
      tcbs (fold (inherit_fid p cp) is s) = tcbs s \<and> cctx (fold (inherit_fid p cp) is s) = cctx s" for "is" and s :: "'a kernel_scheme"
    by (induction "is" arbitrary: s)
      (simp_all add: inherit_fid_def set_FIDT_def upd_pcb_def FCB_incref_def upd_fcb_def Let_def split: option.splits)
  then show "waitset (prepared p cp call al newargs s) = waitset s" "mutexes (prepared p cp call al newargs s) = mutexes s"
    "tcbs (prepared p cp call al newargs s) = tcbs s" "cctx (prepared p cp call al newargs s) = cctx s"
    by (simp_all add: prepared_def upd_pcb_def adopt_def acquire_PCB_def split: option.splits)
qed

text \<open>The initial task creates a process, and the scheduler switches to it.\<close>

lemma child_runs:
  "\<exists>(s :: kernel) t ch a. os_reachable waits_apart (s, Map.empty) \<and> caller 0 t ch a s \<and> ch \<noteq> 1 \<and> thread_count (PT s ch) = 1 \<and>
     parent (PT s ch) = Some 1 \<and> waitset s = (\<lambda>_. []) \<and> mutexes s = (\<lambda>_. False) \<and> children_list (PT s ch) = [] \<and>
     exited_list (PT s ch) = [] \<and> FIDT (PT s ch) = (\<lambda>_. None) \<and> (\<exists>t C a. caller 0 t 1 a (s\<lparr>cctx := C\<rparr>))"
proof -
  obtain s :: kernel and t a where s: "os_reachable waits_apart (s, Map.empty)" "caller 0 t 1 a s" "init_ready s" "idle_kernel s" using init_runs by blast
  note k = os_reachableD [OF s(1)]
  note al = caller_alive [OF k(4) s(2)]
  have "2 \<notin> used s" "2 < MAX_PROC" using s(3) by (simp_all add: init_ready_def MAX_PROC_def)
  then have "used s \<noteq> {..<MAX_PROC}" by auto
  then obtain ch where ch: "pcb_freelist s = Some ch" using freelist_empty [OF k(3)] by auto
  note h = freelist_head [OF k(3) ch] and f = prepared_ok [OF k(1) ch al(3,2), of "Some 9" 0 None] and none = unused_no_children [OF k(3) h(2)]
  let ?s6 = "prepared ch 1 (Some 9) 0 None s"
  obtain s7 where s7: "start_process 0 ch ?s6 = Some s7" using start_process_total by blast
  have g: "gains_thread ch ?s6 s7" by (rule start_process_gains [OF s7 free_TCB [OF f(1)]])
  note gp = gains_thread_PT [OF g]
  have "dispatch 0 i (Exec (Some 9) 0 None) s = Some (Returned, s7)" for i
    using sys_Exec_eq [OF ch h(3) caller_CURPROC [OF s(2)], of "Some 9" 0 None] s7 by (simp add: dispatch_def copy_exec_args_def)
  then have "system_step waits_apart (s, Map.empty) (s7, after a Returned Map.empty)"
    by (intro system_step.enter [OF s(2)]) (auto simp: waits_apart_def)
  then have r7: "os_reachable waits_apart (s7, Map.empty)" using os_reachable.step [OF s(1)] by (simp add: after_def fun_upd_idem)
  let ?b = "next_addr ?s6" and ?t = "Thr (next_tcb ?s6)"
  define s8 where "s8 = s7\<lparr>cctx := (cctx s7)(0 := \<lparr>current_thread = Some ?t, previous_thread = None\<rparr>)\<rparr>"
  have "machine_moves s7 s8" by (simp add: machine_moves_def same_owners_def s8_def)
  then have r8: "os_reachable waits_apart (s8, Map.empty)" using os_reachable.step [OF r7] system_step.machine by blast
  have "live s7 ?b" using g by (auto simp: gains_thread_def live_def split: option.splits)
  then have c8: "caller 0 ?t ch ?b s8" using start_process_thread(1) [OF s7] by (auto simp: caller_def cur_thread_def live_def s8_def)
  have "caller 0 t 1 a ?s6" using f(9) s(2) by (simp add: caller_def cur_thread_def live_def prepared_idle)
  moreover have "a < next_addr s" using k(4) s(2) by (auto simp: threads_inv_def ptcbs_ok_def caller_def live_def split: option.splits)
  ultimately have "caller 0 t 1 a s7" by (intro gains_caller [OF g]) (use free_TCB [OF f(1)] f(10) in simp_all)
  then have "\<exists>t C a. caller 0 t 1 a (s8\<lparr>cctx := C\<rparr>)" by (intro exI [of _ t] exI [of _ "cctx s7"] exI [of _ a]) (simp add: caller_def cur_thread_def live_def s8_def)
  note r8 c8 this
  moreover have "waitset ?s6 = (\<lambda>_. [])" "mutexes ?s6 = (\<lambda>_. False)" using s(4) by (simp_all add: idle_kernel_def prepared_idle)
  then have "waitset s8 = (\<lambda>_. [])" "mutexes s8 = (\<lambda>_. False)" using start_process_idle [OF s7] by (simp_all add: s8_def)
  moreover have "children_list (PT s8 ch) = []" "exited_list (PT s8 ch) = []" "parent (PT s8 ch) = Some 1"
    using gp(4-6) [of ch] f(2) adopt_PT(1) [OF ch, of 1] h(3) none(1,2) by (simp_all add: s8_def same_family_def)
  moreover have "FIDT (PT s8 ch) = (\<lambda>_. None)" "thread_count (PT s8 ch) = 1"
    using gp(2,7) [of ch] f(3,8) s(3) by (simp_all add: s8_def init_ready_def)
  ultimately show ?thesis using h(3) by (intro exI [of _ s8] exI [of _ ?t] exI [of _ ch] exI [of _ ?b]) simp
qed

text \<open>The initial task waits for the process it has created.\<close>

lemma child_awaited:
  "\<exists>(s :: kernel) a ch. os_reachable waits_apart (s, [a \<mapsto> P_WaitChild 1 ch]) \<and> pstate (PT s ch) = ALIVE"
proof -
  obtain s :: kernel and t ch a where s: "os_reachable waits_apart (s, Map.empty)" "caller 0 t ch a s" "parent (PT s ch) = Some 1"
    "\<exists>t C a. caller 0 t 1 a (s\<lparr>cctx := C\<rparr>)" using child_runs by blast
  then obtain u C b where u: "caller 0 u 1 b (s\<lparr>cctx := C\<rparr>)" by blast
  let ?s = "s\<lparr>cctx := C\<rparr>"
  have "machine_moves s ?s" by (simp add: machine_moves_def same_owners_def)
  then have r: "os_reachable waits_apart (?s, Map.empty)" using os_reachable.step [OF s(1)] system_step.machine by blast
  note al = caller_alive [OF os_reachableD(4) [OF s(1)] s(2)]
  have "dispatch 0 i (WaitChild (int ch)) ?s = Some (Waiting (P_WaitChild 1 ch), ?s)" for i
    using caller_CURPROC [OF u] al s(3)
    by (simp add: dispatch_def sys_WaitChild_def wait_for_specific_child_def get_pcb_def wait_specific_loop_def NOPROC_def)
  then have "system_step waits_apart (?s, Map.empty) (?s, after b (Waiting (P_WaitChild 1 ch)) Map.empty)"
    by (intro system_step.enter [OF u]) (auto simp: waits_apart_def)
  then have "os_reachable waits_apart (?s, [b \<mapsto> P_WaitChild 1 ch])" using os_reachable.step [OF r] by (simp add: after_def)
  then show ?thesis using al by (intro exI [of _ ?s] exI [of _ b] exI [of _ ch]) simp
qed

lemma child_exits:
  "\<exists>(s :: kernel) t ch a s' i. os_reachable waits_apart (s, Map.empty) \<and> caller 0 t ch a s \<and> ch \<noteq> 1 \<and> thread_count (PT s ch) = 1 \<and>
     parent (PT s ch) = Some 1 \<and> dispatch 0 i (Exit 5) s = Some (Exited, s')"
proof -
  obtain s :: kernel and t ch a where s: "os_reachable waits_apart (s, Map.empty)" "caller 0 t ch a s" "ch \<noteq> 1" "thread_count (PT s ch) = 1"
    "parent (PT s ch) = Some 1" "waitset s = (\<lambda>_. [])" "mutexes s = (\<lambda>_. False)" "children_list (PT s ch) = []"
    "exited_list (PT s ch) = []" "FIDT (PT s ch) = (\<lambda>_. None)" using child_runs by blast
  obtain s' i where e: "dispatch 0 i (Exit 5) s = Some (Exited, s')"
    using exit_total [OF os_reachableD(1) [OF s(1)] s(2,6,7,3,4,8,9,5) _ s(10)] s(3) by blast
  then show ?thesis using s(1-5) by blast
qed

section \<open>What becomes of a process\<close>

text \<open>
  C8. In a reachable state, with programs that keep the discipline \<open>waits_apart\<close>:
  When the last thread of a process other than the initial task calls \<^verbatim>\<open>Exit\<close>, the process
  becomes a zombie with the exit value, without threads, file ids or children; its thread block
  is freed, its parent finds it in its list of exited children, and its own children, also those
  that have exited, are children of the initial task.  No process control block is freed.
\<close>

theorem Exit_last_thread:
  assumes "os_reachable waits_apart (s, pend)" "caller c t p a s" "p \<noteq> 1" "thread_count (PT s p) = 1" "dispatch c i (Exit ev) s = Some (st, s')"
  shows "st = Exited \<and> zombie (PT s' p) \<and> exitval (PT s' p) = ev \<and> ptcbs s' a = None \<and> used s' = used s \<and>
    (\<exists>par. parent (PT s p) = Some par \<and> parent (PT s' p) = Some par \<and> p \<in> set (exited_list (PT s' par))) \<and>
    (\<forall>q \<in> used s. parent (PT s q) = Some p \<longrightarrow>
       parent (PT s' q) = Some 1 \<and> q \<in> set (children_list (PT s' 1)) \<and> (pstate (PT s q) = ZOMBIE \<longrightarrow> q \<in> set (exited_list (PT s' 1))))"
proof -
  note k = os_reachableD [OF assms(1)]
  note x = last_exit [OF k(1) assms(2-5)]
  note al = caller_alive [OF k(4) assms(2)]
  obtain par where par: "parent (PT s p) = Some par" "par \<noteq> p" "par \<in> used s" "same_family (buried p par s) s'" using x(6) by blast
  have fam: "family_inv s'" using x(2) by (simp add: kernel_ok_def)
  have pu: "p \<in> used s" using al(2,3) by (simp add: used_def)
  have ps: "pstate (PT s' q) = (if q = p then ZOMBIE else pstate (PT s q))" for q
    using par(4) by (simp add: same_family_def buried_def)
  have pa: "parent (PT s' q) = (if q \<in> set (children_list (PT s p)) then Some 1 else parent (PT s q))" for q
    using par(4) by (auto simp: same_family_def buried_def departed_def)
  have ch: "set (children_list (PT s p)) = {q \<in> used s. parent (PT s q) = Some p}" using k(3) by (simp add: family_inv_def children_ok_def)
  have used: "used s' = used s" using al(2) by (auto simp: used_def ps split: if_splits)
  have child: "q \<in> set (children_list (PT s' r))" if "q \<in> used s'" "parent (PT s' q) = Some r" for q r
    using fam that by (simp add: family_inv_def children_ok_def)
  have dead: "q \<in> set (exited_list (PT s' r))" if "q \<in> used s'" "parent (PT s' q) = Some r" "pstate (PT s' q) = ZOMBIE" for q r
    using fam that by (simp add: family_inv_def exited_ok_def)
  have "parent (PT s' p) = Some par" using pa [of p] par(1,2) by (simp add: ch)
  then have "p \<in> set (exited_list (PT s' par))" using dead pu used by (simp add: ps)
  moreover have "parent (PT s' q) = Some 1 \<and> q \<in> set (children_list (PT s' 1)) \<and> (pstate (PT s q) = ZOMBIE \<longrightarrow> q \<in> set (exited_list (PT s' 1)))"
    if "q \<in> used s" "parent (PT s q) = Some p" for q
  proof -
    have "parent (PT s' q) = Some 1" using that by (simp add: pa ch)
    then show ?thesis using child [of q 1] dead [of q 1] that(1) used ps [of q] by auto
  qed
  ultimately show ?thesis using x(1,3-5) used par(1) \<open>parent (PT s' p) = Some par\<close> by blast
qed

theorem Exit_last_thread_witness:
  "\<exists>(s :: kernel) ch s' i. dispatch 0 i (Exit 5) s = Some (Exited, s') \<and> parent (PT s ch) = Some 1 \<and>
     zombie (PT s' ch) \<and> exitval (PT s' ch) = 5 \<and> ch \<in> set (exited_list (PT s' 1))"
proof -
  obtain s :: kernel and t ch a s' i where s: "os_reachable waits_apart (s, Map.empty)" "caller 0 t ch a s" "ch \<noteq> 1" "thread_count (PT s ch) = 1"
    and e: "parent (PT s ch) = Some 1" "dispatch 0 i (Exit 5) s = Some (Exited, s')" using child_exits by blast
  from Exit_last_thread [OF s(1-4) e(2)] e show ?thesis by auto
qed

text \<open>
  C7. In a reachable state, with programs that keep the discipline \<open>waits_apart\<close>:
  The exit value arrives: after the last thread of a child has called \<^verbatim>\<open>Exit\<close>, the \<^verbatim>\<open>WaitChild\<close> of
  the parent returns at once, with the identifier of the child and the value that it passed, and
  frees the process control block of the child and no other.
\<close>

theorem Exit_WaitChild:
  assumes "os_reachable waits_apart (s, pend)" "caller c t p a s" "p \<noteq> 1" "thread_count (PT s p) = 1" "dispatch c i (Exit ev) s = Some (st, s')"
  shows "\<exists>par s2. parent (PT s p) = Some par \<and> wait_specific_loop par p s' = (Done (int p, Some ev), s2) \<and> used s2 = used s - {p} \<and>
    kernel_ok (pins_of pend) s2"
proof -
  note k = os_reachableD [OF assms(1)]
  note x = last_exit [OF k(1) assms(2-5)]
  note al = caller_alive [OF k(4) assms(2)]
  obtain par where par: "parent (PT s p) = Some par" "par \<noteq> p" "par \<in> used s" "same_family (buried p par s) s'" using x(6) by blast
  have z: "pstate (PT s' p) = ZOMBIE" using x(3) by (simp add: zombie_def)
  have "p \<notin> set (children_list (PT s p))" using k(3) par(1,2) by (simp add: family_inv_def children_ok_def)
  then have pa: "parent (PT s' p) = Some par" using par(1,4) by (simp add: same_family_def buried_def departed_def)
  have "pstate (PT s' q) = (if q = p then ZOMBIE else pstate (PT s q))" for q using par(4) by (simp add: same_family_def buried_def)
  then have us: "used s' = used s" using al(2) by (auto simp: used_def split: if_splits)
  have pu: "p \<in> used s'" using al(2,3) us by (simp add: used_def)
  from wait_specific_loop_ok [OF x(2) pu pa] z x(4)
  have w: "wait_specific_loop par p s' = (Done (int p, Some ev), snd (cleanup_zombie p s'))" "kernel_ok (pins_of pend) (snd (cleanup_zombie p s'))"
    by simp_all
  have "used (snd (cleanup_zombie p s')) = used s - {p}" using us by (auto simp: used_def cleanup_PT split: if_splits)
  with w par(1) show ?thesis by blast
qed

theorem Exit_WaitChild_witness:
  "\<exists>(s :: kernel) ch s' i s2. dispatch 0 i (Exit 5) s = Some (Exited, s') \<and>
     wait_specific_loop 1 ch s' = (Done (int ch, Some 5), s2) \<and> used s2 = used s - {ch}"
proof -
  obtain s :: kernel and t ch a s' i where s: "os_reachable waits_apart (s, Map.empty)" "caller 0 t ch a s" "ch \<noteq> 1" "thread_count (PT s ch) = 1"
    and e: "parent (PT s ch) = Some 1" "dispatch 0 i (Exit 5) s = Some (Exited, s')" using child_exits by blast
  from Exit_WaitChild [OF s(1-4) e(2)] e show ?thesis by auto
qed

text \<open>
  C10. Two threads of a process must not wait for the same child.  When the child has exited, both
  waits return it, and the second one frees a process control block that is free already: the
  list of free blocks becomes a cycle through this block, so that the next two \<^verbatim>\<open>Exec\<close> get the
  same block, and the number of processes is one too small.
\<close>

theorem waiting_twice_reaps_twice:
  assumes "os_reachable waits_apart (s, pend)" "ch \<in> used s" "parent (PT s ch) = Some par" "pstate (PT s ch) = ZOMBIE"
  shows "\<exists>s1 s2. wait_specific_loop par ch s = (Done (int ch, Some (exitval (PT s ch))), s1) \<and>
    wait_specific_loop par ch s1 = (Done (int ch, Some (exitval (PT s ch))), s2) \<and>
    process_count s2 = process_count s - 2 \<and> card (used s2) = card (used s) - 1 \<and> parent (PT s2 ch) = Some ch \<and>
    fst (acquire_PCB s2) = Some ch \<and> fst (acquire_PCB (snd (acquire_PCB s2))) = Some ch"
proof -
  let ?s1 = "snd (cleanup_zombie ch s)" and ?s2 = "snd (cleanup_zombie ch (snd (cleanup_zombie ch s)))"
  have "pstate (PT ?s1 ch) = FREE" "exitval (PT ?s1 ch) = exitval (PT s ch)" by (simp_all add: cleanup_PT)
  then have w: "wait_specific_loop par ch s = (Done (int ch, Some (exitval (PT s ch))), ?s1)"
    "wait_specific_loop par ch ?s1 = (Done (int ch, Some (exitval (PT s ch))), ?s2)"
    using assms(4) by (simp_all add: wait_specific_loop_def cleanup_zombie_def)
  have u: "used ?s2 = used s - {ch}" by (auto simp: used_def cleanup_PT split: if_splits)
  have "finite (used s)" by (simp add: used_def)
  then have "card (used ?s2) = card (used s) - 1" using assms(2) by (simp add: u)
  moreover have "pcb_freelist ?s2 = Some ch" "parent (PT ?s2 ch) = Some ch" "process_count ?s2 = process_count s - 2"
    by (simp_all add: cleanup_PT)
  moreover from this have "fst (acquire_PCB ?s2) = Some ch" "fst (acquire_PCB (snd (acquire_PCB ?s2))) = Some ch"
    by (simp_all add: acquire_PCB_def upd_pcb_def)
  ultimately show ?thesis using w by blast
qed

theorem waiting_twice_reaps_twice_witness:
  "\<exists>(s :: kernel) ch s1 s2. wait_specific_loop 1 ch s = (Done (int ch, Some 5), s1) \<and>
     wait_specific_loop 1 ch s1 = (Done (int ch, Some 5), s2) \<and> parent (PT s2 ch) = Some ch"
proof -
  obtain s :: kernel and t ch a s' i where s: "os_reachable waits_apart (s, Map.empty)" "caller 0 t ch a s" "ch \<noteq> 1" "thread_count (PT s ch) = 1"
    and e: "parent (PT s ch) = Some 1" "dispatch 0 i (Exit 5) s = Some (Exited, s')" using child_exits by blast
  note x = last_exit [OF os_reachableD(1) [OF s(1)] s(2-4) e(2)]
  have "system_step waits_apart (s, Map.empty) (s', after a Exited Map.empty)"
    by (rule system_step.enter [OF s(2) _ _ e(2)]) (simp_all add: waits_apart_def)
  then have r: "os_reachable waits_apart (s', Map.empty)" using os_reachable.step [OF s(1)] by (simp add: after_def fun_upd_idem)
  have "ch \<notin> set (children_list (PT s ch))" using os_reachableD(3) [OF s(1)] e(1) s(3) by (simp add: family_inv_def children_ok_def)
  then have "parent (PT s' ch) = Some 1" using x(6) e(1) by (auto simp: same_family_def buried_def departed_def)
  moreover have "pstate (PT s' ch) = ZOMBIE" "ch \<in> used s'"
    using x(3) caller_alive(3) [OF os_reachableD(4) [OF s(1)] s(2)] by (simp_all add: zombie_def used_def)
  ultimately show ?thesis using waiting_twice_reaps_twice [OF r, of ch 1] x(4) by auto
qed

section \<open>The end of a thread\<close>

text \<open>
  C9. In a reachable state, with programs that keep the discipline \<open>waits_apart\<close>:
  The exit value of a thread arrives at a thread that joins it: when the thread has called
  \<^verbatim>\<open>ThreadExit\<close> and was not detached, the join returns 0 with the value passed.  The join frees the
  block of the thread exactly when it drops the last reference, and then no other thread waits
  for it.
\<close>

theorem ThreadExit_ThreadJoin:
  assumes "os_reachable waits_apart (s, pend)" "caller c t p a s" "thread_count (PT s p) \<noteq> 1" "ptcbs s a = Some x" "\<not> detached x"
    "dispatch c i (ThreadExit ev) s = Some (st, s')" "pend b = Some (P_Join a)"
  shows "\<exists>s2. join_loop a s' = Some (Done (0, Some ev), s2) \<and> (ptcbs s2 a = None \<longleftrightarrow> ptcb_refcount x = 2) \<and>
    (ptcbs s2 a = None \<longrightarrow> joiners pend a = {b})"
proof -
  note k = os_reachableD [OF assms(1)]
  have "thread_exit_section c ev s = Some s'" using assms(6) by (auto simp: dispatch_def)
  from thread_exit_ok [OF k(1) assms(2) this] assms(3) have "exits p a ev s s'" by (auto split: if_splits)
  from exits_fields(3) [OF this] assms(4)
  have s': "ptcbs s' a = Some (x\<lparr>ptcb_exitval := ev, ptcb_refcount := ptcb_refcount x - 1, exited := True\<rparr>)" by simp
  have "\<not> exited x" using assms(2,4) by (simp add: caller_def live_def)
  then have c: "1 + int (card (joiners pend a)) \<le> ptcb_refcount x"
    using k(2) joins_counted_at [OF _ assms(4), of pend] by (simp add: calls_ok_def)
  have fin: "finite (joiners pend a)" using k(2) users_finite(2) [of pend a] by (simp add: calls_ok_def)
  have mem: "b \<in> joiners pend a" using assms(7) by (simp add: joiners_def)
  have "joiners pend a = {b}" if "ptcb_refcount x = 2"
  proof -
    have "card (joiners pend a) \<le> 1" using c that by simp
    then show ?thesis using fin mem card_le_Suc0_iff_eq [OF fin] by auto
  qed
  then show ?thesis using s' assms(5)
    by (simp add: join_loop_def upd_ptcb_def free_ptcb_def remove_ptcb_node_def)
qed

text \<open>The initial task creates a thread and joins it, and the scheduler switches to the thread.\<close>

lemma sys_CreateThread_new:
  assumes "CURPROC c s = Some p" "waitset s = (\<lambda>_. [])" "mutexes s = (\<lambda>_. False)"
  shows "\<exists>s' tc x. sys_CreateThread c task al ag s = Some (next_addr s, s') \<and> waitset s' = (\<lambda>_. []) \<and> mutexes s' = (\<lambda>_. False) \<and>
    tcbs s' (Thr (next_tcb s)) = Some tc \<and> owner_pcb tc = Some p \<and> owner_ptcb tc = Some (next_addr s) \<and>
    ptcbs s' (next_addr s) = Some x \<and> \<not> exited x \<and> \<not> detached x \<and> ptcb_refcount x = 1"
proof -
  let ?t = "Thr (next_tcb s)" and ?a = "next_addr s"
  obtain s4 tc x where s4: "sys_CreateThread c task al ag s = do { (_, s5) \<leftarrow> wakeup c ?t s4; Some (?a, s5) }"
    and t: "tcbs s4 ?t = Some tc" "state tc = INIT" "wakeup_time tc = NO_TIMEOUT" "phase tc = CTX_CLEAN" "priority tc = PRIORITY_QUEUES div 2"
      "owner_pcb tc = Some p" "owner_ptcb tc = Some ?a"
    and x: "ptcbs s4 ?a = Some x" "\<not> exited x" "\<not> detached x" "ptcb_refcount x = 1"
    and w: "waitset s4 = (\<lambda>_. [])" "mutexes s4 = (\<lambda>_. False)"
    using assms
    by (simp add: sys_CreateThread_def spawn_thread_def acquire_PTCB_def xmalloc_def cond_init_def upd_tcb_def upd_ptcb_def upd_pcb_def
        Let_def fun_upd_idem)
  obtain s' where s': "wakeup c ?t s4 = Some (True, s')" using wakeup_new [OF t(1-4)] t(5) by (auto simp: PRIORITY_QUEUES_def)
  have k: "kframe s4 s'" by (rule wakeup_kframe [OF s'])
  then have "map_option owner_pcb (tcbs s' ?t) = Some (Some p)" "map_option owner_ptcb (tcbs s' ?t) = Some (Some ?a)"
    using t by (simp_all add: kframe_def)
  moreover have "ptcbs s' = ptcbs s4" using k more_kernel(4) [of s' s4] by (simp add: kframe_def)
  moreover have "waitset s' = (\<lambda>_. [])" "mutexes s' = (\<lambda>_. False)" using frame_wakeup [OF s'] more_cc(1) [of s' s4] w by (simp_all add: frame_def)
  ultimately show ?thesis using s4 s' x by auto
qed

lemma joined_thread_runs:
  "\<exists>(s :: kernel) pend t a b x. os_reachable waits_apart (s, pend) \<and> caller 0 t 1 a s \<and> pend b = Some (P_Join a) \<and> thread_count (PT s 1) = 2 \<and>
     ptcbs s a = Some x \<and> \<not> detached x \<and> ptcb_refcount x = 2 \<and> waitset s = (\<lambda>_. []) \<and> mutexes s = (\<lambda>_. False)"
proof -
  obtain s :: kernel and t b where s: "os_reachable waits_apart (s, Map.empty)" "caller 0 t 1 b s" "init_ready s" "idle_kernel s" using init_runs by blast
  note k = os_reachableD [OF s(1)]
  have w: "waitset s = (\<lambda>_. [])" "mutexes s = (\<lambda>_. False)" using s(4) by (simp_all add: idle_kernel_def)
  let ?t = "Thr (next_tcb s)" and ?a = "next_addr s"
  obtain s1 tc x where s1: "sys_CreateThread 0 (Some 3) 0 None s = Some (?a, s1)" "waitset s1 = (\<lambda>_. [])" "mutexes s1 = (\<lambda>_. False)"
    "tcbs s1 ?t = Some tc" "owner_pcb tc = Some 1" "owner_ptcb tc = Some ?a"
    and x: "ptcbs s1 ?a = Some x" "\<not> exited x" "\<not> detached x" "ptcb_refcount x = 1"
    using sys_CreateThread_new [OF caller_CURPROC [OF s(2)] w, of "Some 3" 0 None] by blast
  have g: "gains_thread 1 s s1" using sys_CreateThread_ok [OF k(1) s(2) s1(1)] by simp
  note gp = gains_thread_PT [OF g]
  have d1: "dispatch 0 i (CreateThread (Some 3) 0 None) s = Some (Returned, s1)" for i using s1(1) by (simp add: dispatch_def)
  have "system_step waits_apart (s, Map.empty) (s1, after b Returned Map.empty)" by (rule system_step.enter [OF s(2) _ _ d1]) (simp_all add: waits_apart_def)
  then have r1: "os_reachable waits_apart (s1, Map.empty)" using os_reachable.step [OF s(1)] by (simp add: after_def fun_upd_idem)
  have ba: "b < ?a" using k(4) s(2) by (auto simp: threads_inv_def ptcbs_ok_def caller_def live_def split: option.splits)
  have c1: "caller 0 t 1 b s1" by (rule gains_caller [OF g s(2) _ free_TCB [OF k(1)]]) (use ba in simp)
  let ?x2 = "x\<lparr>ptcb_refcount := 2\<rparr>" and ?s2 = "s1\<lparr>ptcbs := (ptcbs s1)(?a \<mapsto> x\<lparr>ptcb_refcount := 2\<rparr>)\<rparr>"
  have "sys_ThreadSelf 0 s1 = Some (Some b)" using c1 by (auto simp: caller_def sys_ThreadSelf_def)
  then have "sys_ThreadJoin 0 (Some ?a) s1 = Some (Block (exit_cv ?a) SCHED_USER NO_TIMEOUT, ?s2)"
    using caller_CURPROC [OF c1] x ba gp(1) [of 1] by (simp add: sys_ThreadJoin_def join_loop_def upd_ptcb_def)
  then have d2: "dispatch 0 i (ThreadJoin (Some ?a)) s1 = Some (Waiting (P_Join ?a), ?s2)" for i by (simp add: dispatch_def)
  have "system_step waits_apart (s1, Map.empty) (?s2, after b (Waiting (P_Join ?a)) Map.empty)"
    by (rule system_step.enter [OF c1 _ _ d2]) (simp_all add: waits_apart_def)
  then have r2: "os_reachable waits_apart (?s2, [b \<mapsto> P_Join ?a])" using os_reachable.step [OF r1] by (simp add: after_def)
  define s3 where "s3 = ?s2\<lparr>cctx := (cctx ?s2)(0 := \<lparr>current_thread = Some ?t, previous_thread = None\<rparr>)\<rparr>"
  have "machine_moves ?s2 s3" by (simp add: machine_moves_def same_owners_def s3_def)
  then have "os_reachable waits_apart (s3, [b \<mapsto> P_Join ?a])" using os_reachable.step [OF r2] system_step.machine by blast
  moreover have "caller 0 ?t 1 ?a s3" using s1(4-6) x by (simp add: caller_def cur_thread_def live_def s3_def)
  moreover have "thread_count (PT s3 1) = 2" using gp(2) [of 1] s(3) by (simp add: s3_def init_ready_def)
  moreover have "ptcbs s3 ?a = Some ?x2" "waitset s3 = (\<lambda>_. [])" "mutexes s3 = (\<lambda>_. False)" using s1(2,3) by (simp_all add: s3_def)
  ultimately show ?thesis using x
    by (intro exI [of _ s3] exI [of _ "[b \<mapsto> P_Join ?a]"] exI [of _ ?t] exI [of _ ?a] exI [of _ b] exI [of _ ?x2]) simp
qed

theorem ThreadExit_ThreadJoin_witness:
  "\<exists>(s :: kernel) a s' i s2. dispatch 0 i (ThreadExit 8) s = Some (Exited, s') \<and>
     join_loop a s' = Some (Done (0, Some 8), s2) \<and> ptcbs s' a \<noteq> None \<and> ptcbs s2 a = None"
proof -
  obtain s :: kernel and pend t a b x where s: "os_reachable waits_apart (s, pend)" "caller 0 t 1 a s" "pend b = Some (P_Join a)" "thread_count (PT s 1) = 2"
    and x: "ptcbs s a = Some x" "\<not> detached x" "ptcb_refcount x = 2" and w: "waitset s = (\<lambda>_. [])" "mutexes s = (\<lambda>_. False)"
    using joined_thread_runs by blast
  obtain s' where e: "thread_exit_section 0 8 s = Some s'" "ptcbs s' a \<noteq> None"
    using thread_exit_some [OF s(2) w, of 8] s(4) by auto
  have d: "dispatch 0 i (ThreadExit 8) s = Some (Exited, s')" for i using e(1) by (simp add: dispatch_def)
  from ThreadExit_ThreadJoin [OF s(1,2) _ x(1,2) d s(3)] s(4) x(3)
  obtain s2 where "join_loop a s' = Some (Done (0, Some 8), s2)" "ptcbs s2 a = None" by auto
  with d e(2) show ?thesis by blast
qed

end
