(* ===== verification/Userlib.thy ===== *)
theory Userlib
  imports Args Lifecycle
begin

text \<open>
  Programs with a C-like \<^verbatim>\<open>main\<close>, from \<^verbatim>\<open>tinyoslib.c\<close>: \<^verbatim>\<open>Execute\<close> packs a pointer to the program and
  its string vector into the argument of \<^verbatim>\<open>Exec\<close>, the task \<^verbatim>\<open>exec_wrapper\<close> of the new process unpacks
  them and calls the program, and \<^verbatim>\<open>ParseProcInfo\<close> unpacks them from the description of a process.

  The parameter \<open>ew\<close> is the number of the task \<^verbatim>\<open>exec_wrapper\<close>; a program is its address.
\<close>

section \<open>Operations\<close>

definition sizeof_Program :: nat where
  "sizeof_Program = 8"

text \<open>\<^verbatim>\<open>memcpy\<close> of bytes to an address and of \<open>n\<close> bytes from an address.\<close>

definition put_bytes :: "nat \<Rightarrow> byte list \<Rightarrow> mem \<Rightarrow> mem" where
  "put_bytes a bs m = (\<lambda>i. if a \<le> i \<and> i < a + length bs then bs ! (i - a) else m i)"

definition get_bytes :: "mem \<Rightarrow> nat \<Rightarrow> nat \<Rightarrow> byte list" where
  "get_bytes m a n = map m [a..<a + n]"

text \<open>The memory behind a pointer to the start of a buffer; \<open>m\<close> is what follows it.\<close>

definition buffer_mem :: "byte list \<Rightarrow> mem \<Rightarrow> mem" where
  "buffer_mem bs m = put_bytes 0 bs m"

definition Execute :: "Task \<Rightarrow> int \<Rightarrow> byte list list \<Rightarrow> mem \<Rightarrow> sys_call" where
  "Execute ew prog argv m =
     (let al = argvlen argv + sizeof_Program;
          m1 = put_bytes 0 (le_bytes sizeof_Program prog) m;
          (m2, _) = argvpack sizeof_Program argv m1
      in Exec (Some ew) (int al) (Some (get_bytes m2 0 al)))"

text \<open>The program called, \<^verbatim>\<open>argc\<close> and \<^verbatim>\<open>argv\<close>; the difference of an \<^verbatim>\<open>int\<close> and a \<^verbatim>\<open>size_t\<close> is converted to \<^verbatim>\<open>int\<close>.\<close>

definition exec_wrapper :: "int \<Rightarrow> mem \<Rightarrow> (int \<times> nat \<times> nat list) option" where
  "exec_wrapper al m =
     do { let prog = le_val (get_bytes m 0 sizeof_Program);
          let al1 = c_int (al - int sizeof_Program);
          let argc = argscount al1 sizeof_Program m;
          (argv, _) \<leftarrow> argvunpack argc sizeof_Program m;
          Some (prog, argc, argv) }"

text \<open>
  \<open>prog\<close> is the contents of the location \<^verbatim>\<open>*prog\<close>, if the pointer is not \<^verbatim>\<open>NULL\<close>; the code copies into the
  local pointer variable and leaves the location as it is.  The result is the value returned, the
  contents of \<^verbatim>\<open>*prog\<close>, and the pointers written to \<^verbatim>\<open>argv\<close>.
\<close>

definition ParseProcInfo :: "Task \<Rightarrow> procinfo \<Rightarrow> int option \<Rightarrow> int \<Rightarrow> bool \<Rightarrow> mem \<Rightarrow> (int \<times> int option \<times> nat list) option" where
  "ParseProcInfo ew pinfo prog argc argv m =
     (if info_main_task pinfo \<noteq> Some ew then Some (-1, prog, [])
      else if info_argl pinfo > int PROCINFO_MAX_ARGS_SIZE then Some (-1, prog, [])
      else do { let ma = buffer_mem (info_args pinfo) m;
                let al = c_int (info_argl pinfo - int sizeof_Program);
                let N = argscount al sizeof_Program ma;
                if argv
                then do { let n = (if argc mod 2 ^ 64 > int N then N else nat (argc mod 2 ^ 64));
                          (ptrs, _) \<leftarrow> argvunpack n sizeof_Program ma;
                          Some (int N, prog, ptrs) }
                else Some (int N, prog, []) })"

section \<open>The packed buffer\<close>

lemma get_bytes_Suc: "get_bytes m a (Suc n) = m a # get_bytes m (a + 1) n"
  unfolding get_bytes_def add_Suc_right by (simp add: upt_conv_Cons del: upt_Suc)

lemma stored_get: "stored m a bs \<Longrightarrow> get_bytes m a (length bs) = bs"
proof (induction bs arbitrary: a)
  case (Cons b bs)
  then show ?case by (simp add: get_bytes_Suc)
qed (simp add: get_bytes_def)

lemma stored_put: "stored (put_bytes a bs m) a bs"
proof (induction bs arbitrary: a)
  case (Cons b bs)
  have "stored (put_bytes a (b # bs) m) (a + 1) bs = stored (put_bytes (a + 1) bs m) (a + 1) bs"
    by (rule stored_frame) (auto simp: put_bytes_def nth_Cons')
  then show ?case using Cons [of "a + 1"] by (simp add: put_bytes_def)
qed simp

text \<open>A buffer that agrees with the packed one on its first \<open>n\<close> bytes holds what is stored there.\<close>

lemma stored_buffer:
  assumes "stored m a bs" "a + length bs \<le> n" "take n buf = get_bytes m 0 n"
  shows "stored (buffer_mem buf r) a bs"
proof -
  have "buffer_mem buf r i = m i" if "i < n" for i
  proof -
    have "length (take n buf) = n" "take n buf ! i = m i" using that assms(3) by (simp_all add: get_bytes_def)
    then show ?thesis using that by (auto simp: buffer_mem_def put_bytes_def min_def split: if_splits)
  qed
  then have "stored (buffer_mem buf r) a bs = stored m a bs" using assms(2) by (intro stored_frame) auto
  then show ?thesis using assms(1) by simp
qed

definition packed :: "byte list list \<Rightarrow> byte list" where
  "packed argv = concat (map (\<lambda>s. cstring s @ [0]) argv)"

lemma Execute_buffer:
  assumes "Execute ew prog argv m = Exec call al ag"
  obtains buf m2 where "call = Some ew" "al = int (argvlen argv + sizeof_Program)" "ag = Some buf"
    "length buf = argvlen argv + sizeof_Program" "buf = get_bytes m2 0 (argvlen argv + sizeof_Program)"
    "stored m2 0 (le_bytes sizeof_Program prog)" "stored m2 sizeof_Program (packed argv)"
proof -
  let ?m1 = "put_bytes 0 (le_bytes sizeof_Program prog) m"
  obtain m2 l where l: "argvpack_loop argv sizeof_Program ?m1 0 = (m2, l)" by (cases "argvpack_loop argv sizeof_Program ?m1 0")
  note spec = argvpack_loop_spec [OF l]
  have "stored m2 0 (le_bytes sizeof_Program prog) = stored ?m1 0 (le_bytes sizeof_Program prog)"
    using spec by (intro stored_frame) (simp add: length_le_bytes)
  then have "stored m2 0 (le_bytes sizeof_Program prog)" using stored_put by simp
  then show ?thesis using assms l spec
    by (intro that [of _ m2]) (auto simp: Execute_def argvpack_def Let_def get_bytes_def packed_def)
qed

text \<open>Unpacking a buffer that starts with the packed one.\<close>

lemma unpack_buffer:
  assumes "stored m sizeof_Program (packed argv)"
  shows "argscount (int (argvlen argv)) sizeof_Program m = length argv"
    "k \<le> length argv \<Longrightarrow> argvunpack k sizeof_Program m =
       Some (offsets sizeof_Program (take k argv), sizeof_Program + argvlen (take k argv))"
    "list_all2 (string_at m) (offsets sizeof_Program (take k argv)) (map cstring (take k argv))"
proof -
  have st: "stored m sizeof_Program (packed (take k argv))"
    using assms stored_append [of m sizeof_Program "packed (take k argv)" "packed (drop k argv)"]
    by (simp add: packed_def flip: concat_append map_append)
  show "argscount (int (argvlen argv)) sizeof_Program m = length argv"
    using argscount_loop_stored [OF assms, of 0] by (simp add: argscount_def argvlen_eq packed_def count_zero_packed)
  show "argvunpack k sizeof_Program m = Some (offsets sizeof_Program (take k argv), sizeof_Program + argvlen (take k argv))"
    if "k \<le> length argv"
    using argvunpack_loop_stored [of m sizeof_Program "take k argv" "[]"] st that by (simp add: argvunpack_def packed_def)
  show "list_all2 (string_at m) (offsets sizeof_Program (take k argv)) (map cstring (take k argv))"
    using strings_at_offsets [of m sizeof_Program "take k argv"] st by (simp add: packed_def)
qed

lemma wrapper_unpacks:
  assumes "stored m 0 (le_bytes sizeof_Program prog)" "stored m sizeof_Program (packed argv)"
    "argvlen argv + sizeof_Program < 2 ^ 31" "0 \<le> prog" "prog < 2 ^ 64"
  shows "exec_wrapper (int (argvlen argv + sizeof_Program)) m = Some (prog, length argv, offsets sizeof_Program argv)"
proof -
  have "le_val (get_bytes m 0 sizeof_Program) = prog"
    using stored_get [OF assms(1)] assms(4,5) by (simp add: le_val_bytes sizeof_Program_def)
  moreover have "c_int (int (argvlen argv + sizeof_Program) - int sizeof_Program) = int (argvlen argv)"
    using assms(3) c_int_id [of "int (argvlen argv)"] by simp
  ultimately show ?thesis
    using unpack_buffer(1) [OF assms(2)] unpack_buffer(2) [OF assms(2), of "length argv"] assms(3) by (simp add: exec_wrapper_def Let_def)
qed

lemma take_offsets: "take k (offsets a argv) = offsets a (take k argv)"
  by (induction argv arbitrary: a k) (simp_all add: take_Cons split: nat.splits)

text \<open>A description of the process that holds all of its arguments.\<close>

lemma ParseProcInfo_unpacks:
  assumes "stored (buffer_mem (info_args i) r) sizeof_Program (packed argv)" "info_main_task i = Some ew"
    "info_argl i = int (argvlen argv + sizeof_Program)" "argvlen argv + sizeof_Program \<le> PROCINFO_MAX_ARGS_SIZE"
    "0 \<le> k" "k < 2 ^ 31"
  shows "ParseProcInfo ew i loc k True r = Some (int (length argv), loc, take (nat k) (offsets sizeof_Program argv))"
proof -
  let ?n = "if k > int (length argv) then length argv else nat k"
  have "argvunpack ?n sizeof_Program (buffer_mem (info_args i) r) =
      Some (offsets sizeof_Program (take ?n argv), sizeof_Program + argvlen (take ?n argv))"
    by (rule unpack_buffer(2) [OF assms(1)]) (auto simp: nat_le_iff)
  moreover have "take ?n argv = take (nat k) argv" by simp
  moreover have "k mod 2 ^ 64 = k" using assms(5,6) by simp
  moreover have "c_int (info_argl i - int sizeof_Program) = int (argvlen argv)"
    using assms(3,4) c_int_id [of "int (argvlen argv)"] by (simp add: PROCINFO_MAX_ARGS_SIZE_def)
  ultimately show ?thesis using assms(2-4) unpack_buffer(1) [OF assms(1)]
    unfolding ParseProcInfo_def Let_def take_offsets by (cases "k > int (length argv)") simp_all
qed

lemma describes_args:
  assumes "describes T p i" "args (T p) = Some buf" "argl (T p) = int n" "0 < n" "n \<le> PROCINFO_MAX_ARGS_SIZE"
  shows "take n (info_args i) = take n buf"
  using assms by (simp add: describes_def args_prefix_def min_def)

section \<open>Properties\<close>

text \<open>
  C33.  The arguments of \<^verbatim>\<open>Execute\<close> reach the program.  In a state reachable under the discipline \<open>waits_apart\<close>, with a free process control block, the call
  creates a process whose task is \<^verbatim>\<open>exec_wrapper\<close>; that task, run on the arguments that the kernel
  keeps, calls the program given to \<^verbatim>\<open>Execute\<close> with the number of the strings and pointers to them.
  From every description of the process by \<^verbatim>\<open>OpenInfo\<close>, \<^verbatim>\<open>ParseProcInfo\<close> recovers the number of the
  strings and pointers to the first \<open>min argc N\<close> of them if the arguments fit into the description,
  and returns \<open>-1\<close> if they do not; in no case does it store the program into \<^verbatim>\<open>*prog\<close>.
\<close>

theorem Execute_arguments:
  assumes "os_reachable waits_apart (s, pend)" "caller c t p a s" "used s \<noteq> {..<MAX_PROC}"
    "Execute ew prog argv m = Exec call al ag" "argvlen argv + sizeof_Program < 2 ^ 31" "0 \<le> prog" "prog < 2 ^ 64" "0 \<le> k" "k < 2 ^ 31"
  shows "\<exists>ch s' bs ptrs. sys_Exec c call al ag s = Some (int ch, s') \<and> main_task (PT s' ch) = Some ew \<and> args (PT s' ch) = Some bs \<and>
      exec_wrapper (argl (PT s' ch)) (buffer_mem bs r) = Some (prog, length argv, ptrs) \<and>
      list_all2 (string_at (buffer_mem bs r)) ptrs (map cstring argv) \<and>
      (\<forall>i. describes (PT s') ch i \<longrightarrow>
         (if argvlen argv + sizeof_Program \<le> PROCINFO_MAX_ARGS_SIZE
          then ParseProcInfo ew i loc k True r = Some (int (length argv), loc, take (nat k) ptrs) \<and>
            list_all2 (string_at (buffer_mem (info_args i) r)) (take (nat k) ptrs) (take (nat k) (map cstring argv))
          else ParseProcInfo ew i loc k True r = Some (-1, loc, [])))"
proof -
  let ?n = "argvlen argv + sizeof_Program" and ?ptrs = "offsets sizeof_Program argv"
  note k = os_reachableD [OF assms(1)]
  note al = caller_alive [OF k(4) assms(2)]
  obtain buf m2 where b: "call = Some ew" "al = int ?n" "ag = Some buf" "length buf = ?n" "buf = get_bytes m2 0 ?n"
      "stored m2 0 (le_bytes sizeof_Program prog)" "stored m2 sizeof_Program (packed argv)"
    by (rule Execute_buffer [OF assms(4)])
  have na: "copy_exec_args al ag = Some (Some buf)" using b(2-4) by (simp add: copy_exec_args_def)
  obtain x s' where e: "sys_Exec c call al ag s = Some (x, s')"
    using sys_Exec_total [OF k(1) caller_CURPROC [OF assms(2)] na] by blast
  from sys_Exec_ok [OF k(1) caller_CURPROC [OF assms(2)] al(2) e] freelist_empty [OF k(3)] assms(3) na
  obtain ch where ch: "x = int ch" "execs ch p call al (Some buf) s s'" by auto
  then have pcb: "main_task (PT s' ch) = Some ew" "argl (PT s' ch) = int ?n" "args (PT s' ch) = Some buf"
    using b(1,2) by (simp_all add: execs_def)
  have len: "length (packed argv) = argvlen argv" by (simp add: argvlen_eq packed_def)
  have tk: "take ?n buf = get_bytes m2 0 ?n" using b(4,5) by simp
  have st: "stored (buffer_mem buf r) 0 (le_bytes sizeof_Program prog)" "stored (buffer_mem buf r) sizeof_Program (packed argv)"
    using stored_buffer [OF b(6) _ tk] stored_buffer [OF b(7) _ tk] len by simp_all
  have parse: "if ?n \<le> PROCINFO_MAX_ARGS_SIZE
      then ParseProcInfo ew i loc k True r = Some (int (length argv), loc, take (nat k) ?ptrs) \<and>
        list_all2 (string_at (buffer_mem (info_args i) r)) (take (nat k) ?ptrs) (take (nat k) (map cstring argv))
      else ParseProcInfo ew i loc k True r = Some (-1, loc, [])" if "describes (PT s') ch i" for i
  proof -
    have i: "info_main_task i = Some ew" "info_argl i = int ?n" using that pcb by (simp_all add: describes_def)
    show ?thesis
    proof (cases "?n \<le> PROCINFO_MAX_ARGS_SIZE")
      case True
      have "0 < ?n" by (simp add: sizeof_Program_def)
      with True have "take ?n (info_args i) = get_bytes m2 0 ?n"
        using describes_args [OF that pcb(3,2)] tk by simp
      then have sb: "stored (buffer_mem (info_args i) r) sizeof_Program (packed argv)"
        by (intro stored_buffer [OF b(7)]) (simp_all add: len)
      show ?thesis using True ParseProcInfo_unpacks [OF sb i True assms(8,9)] unpack_buffer(3) [OF sb, of "nat k"]
        by (simp add: take_offsets take_map)
    next
      case False
      then show ?thesis using i by (simp add: ParseProcInfo_def)
    qed
  qed
  have "exec_wrapper (argl (PT s' ch)) (buffer_mem buf r) = Some (prog, length argv, ?ptrs)"
    unfolding pcb(2) by (rule wrapper_unpacks [OF st assms(5-7)])
  then show ?thesis
    using e ch(1) pcb parse unpack_buffer(3) [OF st(2), of "length argv"] by (intro exI [of _ ch] exI [of _ s'] exI [of _ buf] exI [of _ ?ptrs]) simp
qed

theorem Execute_arguments_witness:
  "\<exists>(s :: kernel) call al ag ch s' bs ptrs.
     Execute 5 4096 [[101, 99, 104, 111], [104, 105]] (\<lambda>_. 0) = Exec call al ag \<and> sys_Exec 0 call al ag s = Some (int ch, s') \<and>
     args (PT s' ch) = Some bs \<and> exec_wrapper (argl (PT s' ch)) (buffer_mem bs (\<lambda>_. 7)) = Some (4096, 2, ptrs) \<and>
     list_all2 (string_at (buffer_mem bs (\<lambda>_. 7))) ptrs [[101, 99, 104, 111], [104, 105]]"
proof -
  obtain s :: kernel and t a where s: "os_reachable waits_apart (s, Map.empty)" "caller 0 t 1 a s" "used s = {0, 1}" using null_opened by blast
  have "card (used s) \<noteq> card {..<MAX_PROC}" unfolding s(3) by (simp add: MAX_PROC_def)
  then have free: "used s \<noteq> {..<MAX_PROC}" by metis
  let ?argv = "[[101, 99, 104, 111], [104, 105]] :: byte list list"
  obtain call al ag where e: "Execute 5 4096 ?argv (\<lambda>_. 0) = Exec call al ag"
    by (auto simp: Execute_def Let_def case_prod_beta)
  have n: "argvlen ?argv + sizeof_Program < 2 ^ 31" "map cstring ?argv = ?argv" "length ?argv = 2"
    by (simp_all add: argvlen_def strlen_def sizeof_Program_def cstring_def)
  from Execute_arguments [OF s(1,2) free e n(1), of 0 "\<lambda>_. 7" None] e show ?thesis unfolding n(2,3) by force
qed

end
