(* ===== verification/RList.thy ===== *)
theory RList
  imports Prelude
begin

text \<open>
  The resource lists of \<^verbatim>\<open>util.h\<close>: doubly linked circular lists built on one splicing
  operation.  The model keeps the two pointers and the key of every node in a heap
  (\<open>rlheap\<close>); the operations read and write those fields exactly as the C inline
  functions do.  A loop over a ring need not end on an arbitrary heap, so the loops
  are \<^theory_text>\<open>partial_function (option)\<close>.

  The abstraction \<open>is_rlist h L xs\<close> says that the ring of the sentinel \<open>L\<close> holds the
  nodes \<open>xs\<close> in order.  The lemmas show that every operation implements the list
  operation that its comment promises; the other components keep the contents of
  their rings as lists on the strength of these lemmas.
\<close>

section \<open>Nodes, pointers and splicing\<close>

record ('n, 'k) rlheap =
  nxt :: "'n \<Rightarrow> 'n"
  prv :: "'n \<Rightarrow> 'n"
  obj :: "'n \<Rightarrow> 'k"

text \<open>An lvalue \<^verbatim>\<open>p->next\<close> or \<^verbatim>\<open>p->prev\<close>, whose address \<^verbatim>\<open>rlnode_swap\<close> is given.\<close>

datatype 'n lval = NextOf 'n | PrevOf 'n

fun lv_read :: "'n lval \<Rightarrow> ('n, 'k) rlheap \<Rightarrow> 'n" where
  "lv_read (NextOf n) h = nxt h n"
| "lv_read (PrevOf n) h = prv h n"

fun lv_write :: "'n lval \<Rightarrow> 'n \<Rightarrow> ('n, 'k) rlheap \<Rightarrow> ('n, 'k) rlheap" where
  "lv_write (NextOf n) v h = h\<lparr>nxt := (nxt h)(n := v)\<rparr>"
| "lv_write (PrevOf n) v h = h\<lparr>prv := (prv h)(n := v)\<rparr>"

definition rlnode_new :: "'n \<Rightarrow> ('n, 'k) rlheap \<Rightarrow> ('n, 'k) rlheap" where
  "rlnode_new p h = lv_write (PrevOf p) p (lv_write (NextOf p) p h)"

definition rlnode_init :: "'n \<Rightarrow> 'k \<Rightarrow> ('n, 'k) rlheap \<Rightarrow> ('n, 'k) rlheap" where
  "rlnode_init p ptr h = (rlnode_new p h)\<lparr>obj := (obj h)(p := ptr)\<rparr>"

definition rlnode_swap :: "'n lval \<Rightarrow> 'n lval \<Rightarrow> ('n, 'k) rlheap \<Rightarrow> ('n, 'k) rlheap" where
  "rlnode_swap p q h =
     (let temp = lv_read p h; h1 = lv_write p (lv_read q h) h in lv_write q temp h1)"

definition rl_splice :: "'n \<Rightarrow> 'n \<Rightarrow> ('n, 'k) rlheap \<Rightarrow> 'n \<times> ('n, 'k) rlheap" where
  "rl_splice a b h =
     (let h1 = rlnode_swap (PrevOf (nxt h a)) (PrevOf (nxt h b)) h;
          h2 = rlnode_swap (NextOf a) (NextOf b) h1
      in (b, h2))"

section \<open>List operations\<close>

definition rlist_remove :: "'n \<Rightarrow> ('n, 'k) rlheap \<Rightarrow> 'n \<times> ('n, 'k) rlheap" where
  "rlist_remove a h = (a, snd (rl_splice a (prv h a) h))"

definition is_rlist_empty :: "'n \<Rightarrow> ('n, 'k) rlheap \<Rightarrow> bool" where
  "is_rlist_empty a h \<longleftrightarrow> a = nxt h a"

definition rlist_push_front :: "'n \<Rightarrow> 'n \<Rightarrow> ('n, 'k) rlheap \<Rightarrow> ('n, 'k) rlheap" where
  "rlist_push_front list node h = snd (rl_splice list node h)"

definition rlist_push_back :: "'n \<Rightarrow> 'n \<Rightarrow> ('n, 'k) rlheap \<Rightarrow> ('n, 'k) rlheap" where
  "rlist_push_back list node h = snd (rl_splice (prv h list) node h)"

definition rlist_pop_front :: "'n \<Rightarrow> ('n, 'k) rlheap \<Rightarrow> 'n \<times> ('n, 'k) rlheap" where
  "rlist_pop_front list h = rl_splice list (nxt h list) h"

definition rlist_pop_back :: "'n \<Rightarrow> ('n, 'k) rlheap \<Rightarrow> 'n \<times> ('n, 'k) rlheap" where
  "rlist_pop_back list h = rl_splice list (prv h list) h"

definition rlist_append :: "'n \<Rightarrow> 'n \<Rightarrow> ('n, 'k) rlheap \<Rightarrow> ('n, 'k) rlheap" where
  "rlist_append ldest lsrc h = snd (rlist_remove lsrc (rlist_push_back ldest lsrc h))"

definition rlist_prepend :: "'n \<Rightarrow> 'n \<Rightarrow> ('n, 'k) rlheap \<Rightarrow> ('n, 'k) rlheap" where
  "rlist_prepend ldest lsrc h = snd (rlist_remove lsrc (rlist_push_front ldest lsrc h))"

text \<open>The loops.  The counter of \<^verbatim>\<open>rlist_len\<close> is an \<^verbatim>\<open>unsigned int\<close>.\<close>

partial_function (option) rlist_len_loop ::
  "'n \<Rightarrow> 'n \<Rightarrow> uint32 \<Rightarrow> ('n, 'k) rlheap \<Rightarrow> uint32 option" where
  "rlist_len_loop list p count h =
     (if p = list then Some count else rlist_len_loop list (nxt h p) (count + 1) h)"

definition rlist_len :: "'n \<Rightarrow> ('n, 'k) rlheap \<Rightarrow> uint32 option" where
  "rlist_len list h = rlist_len_loop list (nxt h list) 0 h"

partial_function (option) rlist_equal_loop ::
  "'n \<Rightarrow> 'n \<Rightarrow> 'n \<Rightarrow> 'n \<Rightarrow> ('n, 'k) rlheap \<Rightarrow> bool option" where
  "rlist_equal_loop L1 L2 i1 i2 h =
     (if i1 = L1 then Some (i2 = L2)
      else if i2 = L2 \<or> obj h i1 \<noteq> obj h i2 then Some False
      else rlist_equal_loop L1 L2 (nxt h i1) (nxt h i2) h)"

definition rlist_equal :: "'n \<Rightarrow> 'n \<Rightarrow> ('n, 'k) rlheap \<Rightarrow> bool option" where
  "rlist_equal L1 L2 h = rlist_equal_loop L1 L2 (nxt h L1) (nxt h L2) h"

partial_function (option) rlist_reverse_loop ::
  "'n \<Rightarrow> 'n \<Rightarrow> ('n, 'k) rlheap \<Rightarrow> ('n, 'k) rlheap option" where
  "rlist_reverse_loop l p h =
     (let h1 = rlnode_swap (PrevOf p) (NextOf p) h; p' = nxt h1 p
      in if p' \<noteq> l then rlist_reverse_loop l p' h1 else Some h1)"

definition rlist_reverse :: "'n \<Rightarrow> ('n, 'k) rlheap \<Rightarrow> ('n, 'k) rlheap option" where
  "rlist_reverse l h = rlist_reverse_loop l l h"

partial_function (option) rlist_find_loop ::
  "'n \<Rightarrow> 'k \<Rightarrow> 'n option \<Rightarrow> 'n \<Rightarrow> ('n, 'k) rlheap \<Rightarrow> 'n option option" where
  "rlist_find_loop List key fail i h =
     (if i = List then Some fail
      else if obj h i = key then Some (Some i)
      else rlist_find_loop List key fail (nxt h i) h)"

definition rlist_find ::
  "'n \<Rightarrow> 'k \<Rightarrow> 'n option \<Rightarrow> ('n, 'k) rlheap \<Rightarrow> 'n option option" where
  "rlist_find List key fail h = rlist_find_loop List key fail (nxt h List) h"

partial_function (option) rlist_select_loop ::
  "'n \<Rightarrow> 'n \<Rightarrow> ('n \<Rightarrow> bool) \<Rightarrow> 'n \<Rightarrow> ('n, 'k) rlheap \<Rightarrow> ('n, 'k) rlheap option" where
  "rlist_select_loop Lsrc Ldest pred I h =
     (if nxt h I = Lsrc then Some h
      else if pred (nxt h I) then
        (let (p, h1) = rlist_remove (nxt h I) h
         in rlist_select_loop Lsrc Ldest pred I (rlist_push_back Ldest p h1))
      else rlist_select_loop Lsrc Ldest pred (nxt h I) h)"

definition rlist_select ::
  "'n \<Rightarrow> 'n \<Rightarrow> ('n \<Rightarrow> bool) \<Rightarrow> ('n, 'k) rlheap \<Rightarrow> ('n, 'k) rlheap option" where
  "rlist_select Lsrc Ldest pred h = rlist_select_loop Lsrc Ldest pred Lsrc h"


section \<open>Rings and the list abstraction\<close>

text \<open>
  \<open>dpath h x zs y\<close>: following \<^verbatim>\<open>next\<close> from \<open>x\<close> leads through \<open>zs\<close> to \<open>y\<close>, and every
  \<^verbatim>\<open>prev\<close> pointer on the way back is the opposite of \<^verbatim>\<open>next\<close>.
\<close>

fun dpath :: "('n, 'k) rlheap \<Rightarrow> 'n \<Rightarrow> 'n list \<Rightarrow> 'n \<Rightarrow> bool" where
  "dpath h x [] y \<longleftrightarrow> nxt h x = y \<and> prv h y = x"
| "dpath h x (z # zs) y \<longleftrightarrow> nxt h x = z \<and> prv h z = x \<and> dpath h z zs y"

text \<open>The ring \<open>[a, xs]\<close>; read from a sentinel, the list \<open>xs\<close>.\<close>

definition is_rlist :: "('n, 'k) rlheap \<Rightarrow> 'n \<Rightarrow> 'n list \<Rightarrow> bool" where
  "is_rlist h a xs \<longleftrightarrow> dpath h a xs a \<and> distinct (a # xs)"

lemma dpath_append: "dpath h x (xs @ z # zs) y \<longleftrightarrow> dpath h x xs z \<and> dpath h z zs y"
  by (induction xs arbitrary: x) auto

lemma dpath_nxt: "dpath h x zs y \<Longrightarrow> nxt h x = (case zs of [] \<Rightarrow> y | z # _ \<Rightarrow> z)"
  by (cases zs) auto

lemma dpath_prv: "dpath h x zs y \<Longrightarrow> prv h y = (if zs = [] then x else last zs)"
  by (induction zs arbitrary: x) (auto split: if_splits)

lemma dpath_prv_nxt: "dpath h x zs y \<Longrightarrow> prv h (nxt h x) = x"
  by (cases zs) auto

lemma dpath_frame:
  assumes "dpath h x zs y"
    and "\<And>z. z \<in> insert x (set zs) \<Longrightarrow> nxt h' z = nxt h z"
    and "\<And>z. z \<in> insert y (set zs) \<Longrightarrow> prv h' z = prv h z"
  shows "dpath h' x zs y"
  using assms by (induction zs arbitrary: x) auto

text \<open>Redirecting the first hop of a path moves the whole path behind a new start.\<close>

lemma dpath_redirect:
  assumes "dpath h p zs q" and "distinct (zs @ [q])"
    and "nxt h' p' = nxt h p" and "prv h' (nxt h p) = p'"
    and "\<And>z. z \<in> set zs \<Longrightarrow> nxt h' z = nxt h z"
    and "\<And>z. z \<in> insert q (set zs) \<Longrightarrow> z \<noteq> nxt h p \<Longrightarrow> prv h' z = prv h z"
  shows "dpath h' p' zs q"
proof (cases zs)
  case Nil
  with assms show ?thesis by auto
next
  case (Cons z zs')
  with assms have "dpath h z zs' q" and "nxt h p = z" by auto
  have "dpath h' z zs' q"
    by (rule dpath_frame [OF \<open>dpath h z zs' q\<close>])
      (use assms(2,5,6) Cons \<open>nxt h p = z\<close> in auto)
  with Cons assms(3,4) \<open>nxt h p = z\<close> show ?thesis by simp
qed

text \<open>What one splice writes, when the two \<^verbatim>\<open>prev\<close> pointers behind the nodes are sound.\<close>

lemma rl_splice_self [simp]: "rl_splice a a h = (a, h)"
  by (simp add: rl_splice_def rlnode_swap_def Let_def)

lemma rl_splice_fields:
  assumes "a \<noteq> b" "prv h (nxt h a) = a" "prv h (nxt h b) = b"
  shows "nxt (snd (rl_splice a b h)) = (nxt h)(a := nxt h b, b := nxt h a)"
    and "prv (snd (rl_splice a b h)) = (prv h)(nxt h a := b, nxt h b := a)"
    and "obj (snd (rl_splice a b h)) = obj h"
    and "fst (rl_splice a b h) = b"
  using assms by (auto simp: rl_splice_def rlnode_swap_def Let_def fun_eq_iff)

lemma is_rlist_rotate: "is_rlist h a (xs @ b # ys) \<longleftrightarrow> is_rlist h b (ys @ a # xs)"
  by (auto simp: is_rlist_def dpath_append)

lemma is_rlist_prv_nxt: "is_rlist h a xs \<Longrightarrow> prv h (nxt h a) = a"
  by (auto simp: is_rlist_def dest: dpath_prv_nxt)

lemma is_rlist_nxt_in: "is_rlist h a xs \<Longrightarrow> nxt h a \<in> insert a (set xs)"
  by (auto simp: is_rlist_def dest!: dpath_nxt split: list.splits)

text \<open>A node that lies on a ring is linked both ways.\<close>

lemma is_rlist_member_prv_nxt:
  assumes "is_rlist h a xs" "b \<in> insert a (set xs)"
  shows "prv h (nxt h b) = b"
proof (cases "b = a")
  case False
  with assms(2) obtain us vs where "xs = us @ b # vs" by (auto dest: split_list)
  with assms(1) have "is_rlist h b (vs @ a # us)" by (simp add: is_rlist_rotate)
  then show ?thesis by (rule is_rlist_prv_nxt)
qed (use assms in \<open>simp add: is_rlist_prv_nxt\<close>)

lemma is_rlist_prv_in:
  assumes "is_rlist h a xs" "b \<in> insert a (set xs)"
  shows "prv h b \<in> insert a (set xs)"
proof (cases "b = a")
  case True
  with assms(1) show ?thesis by (auto simp: is_rlist_def dest!: dpath_prv)
next
  case False
  with assms(2) obtain us vs where xs: "xs = us @ b # vs" by (auto dest: split_list)
  with assms(1) have "dpath h a us b" by (simp add: is_rlist_def dpath_append)
  with xs show ?thesis by (auto dest!: dpath_prv)
qed

lemma splice_join:
  assumes a: "is_rlist h a xs" and b: "is_rlist h b ys"
    and disj: "set (a # xs) \<inter> set (b # ys) = {}"
  shows "is_rlist (snd (rl_splice a b h)) a (ys @ b # xs)"
proof -
  let ?h = "snd (rl_splice a b h)"
  have ab: "a \<noteq> b" using disj by auto
  note fields = rl_splice_fields [OF ab is_rlist_prv_nxt [OF a] is_rlist_prv_nxt [OF b]]
  have na: "nxt h a \<in> insert a (set xs)" and nb: "nxt h b \<in> insert b (set ys)"
    using a b by (auto dest: is_rlist_nxt_in)
  have "dpath ?h a ys b"
    by (rule dpath_redirect [where h = h and p = b])
      (use a b disj na nb ab in \<open>auto simp: is_rlist_def fields\<close>)
  moreover have "dpath ?h b xs a"
    by (rule dpath_redirect [where h = h and p = a])
      (use a b disj na nb ab in \<open>auto simp: is_rlist_def fields\<close>)
  ultimately show ?thesis
    using a b disj by (auto simp: is_rlist_def dpath_append)
qed

lemma splice_split:
  assumes r: "is_rlist h a (xs @ b # ys)"
  shows "is_rlist (snd (rl_splice a b h)) a ys"
    and "is_rlist (snd (rl_splice a b h)) b xs"
proof -
  let ?h = "snd (rl_splice a b h)"
  from r have ab: "a \<noteq> b" and dist: "distinct (a # xs @ b # ys)"
    and p1: "dpath h a xs b" and p2: "dpath h b ys a"
    by (auto simp: is_rlist_def dpath_append)
  note fields = rl_splice_fields [OF ab dpath_prv_nxt [OF p1] dpath_prv_nxt [OF p2]]
  have na: "nxt h a \<in> insert b (set xs)" and nb: "nxt h b \<in> insert a (set ys)"
    using p1 p2 by (auto dest!: dpath_nxt split: list.splits)
  have "dpath ?h a ys a"
    by (rule dpath_redirect [OF p2]) (use dist na nb in \<open>auto simp: fields\<close>)
  then show "is_rlist ?h a ys" using dist by (auto simp: is_rlist_def)
  have "dpath ?h b xs b"
    by (rule dpath_redirect [OF p1]) (use dist na nb in \<open>auto simp: fields\<close>)
  then show "is_rlist ?h b xs" using dist by (auto simp: is_rlist_def)
qed

text \<open>A splice leaves every ring alone that contains neither of the two nodes.\<close>

lemma splice_frame:
  assumes c: "is_rlist h c zs"
    and a: "prv h (nxt h a) = a" and b: "prv h (nxt h b) = b"
    and "a \<notin> set (c # zs)" "b \<notin> set (c # zs)"
  shows "is_rlist (snd (rl_splice a b h)) c zs"
proof (cases "a = b")
  case False
  note fields = rl_splice_fields [OF False a b]
  have "nxt h a \<notin> insert c (set zs)" "nxt h b \<notin> insert c (set zs)"
    using is_rlist_prv_in [OF c, of "nxt h a"] is_rlist_prv_in [OF c, of "nxt h b"]
      assms(4,5) a b by auto
  then show ?thesis
    using c assms(4,5) by (auto simp: is_rlist_def fields intro: dpath_frame)
qed (use c in simp)

section \<open>The operations implement the list operations\<close>

lemma is_rlist_empty_iff: "is_rlist h L xs \<Longrightarrow> is_rlist_empty L h \<longleftrightarrow> xs = []"
  by (cases xs) (auto simp: is_rlist_empty_def is_rlist_def)

lemma is_rlist_unique:
  assumes "is_rlist h L xs" "is_rlist h L ys"
  shows "xs = ys"
proof -
  have "dpath h x xs L \<Longrightarrow> L \<notin> set xs \<Longrightarrow> dpath h x ys L \<Longrightarrow> L \<notin> set ys \<Longrightarrow> xs = ys" for x
  proof (induction xs arbitrary: x ys)
    case Nil
    then show ?case by (cases ys) auto
  next
    case (Cons z zs)
    then show ?case by (cases ys) auto
  qed
  with assms show ?thesis by (auto simp: is_rlist_def)
qed

lemma rlnode_new_singleton: "is_rlist (rlnode_new p h) p []"
  by (simp add: is_rlist_def rlnode_new_def)

lemma rlnode_init_singleton: "is_rlist (rlnode_init p k h) p []"
  by (simp add: is_rlist_def rlnode_new_def rlnode_init_def)

lemma rlist_push_front_ring:
  assumes "is_rlist h L xs" "is_rlist h N ys" "set (L # xs) \<inter> set (N # ys) = {}"
  shows "is_rlist (rlist_push_front L N h) L (ys @ N # xs)"
  using splice_join [OF assms] by (simp add: rlist_push_front_def)

lemma rlist_push_back_ring:
  assumes L: "is_rlist h L xs" and N: "is_rlist h N ys"
    and disj: "set (L # xs) \<inter> set (N # ys) = {}"
  shows "is_rlist (rlist_push_back L N h) L (xs @ ys @ [N])"
proof (cases xs rule: rev_cases)
  case Nil
  with L have "prv h L = L" by (simp add: is_rlist_def)
  with splice_join [OF L N disj] Nil show ?thesis by (simp add: rlist_push_back_def)
next
  case (snoc us x)
  with L have "prv h L = x" by (auto simp: is_rlist_def dest!: dpath_prv)
  moreover from L snoc have "is_rlist h x (L # us)"
    using is_rlist_rotate [of h L us x "[]"] by simp
  then have "is_rlist (snd (rl_splice x N h)) x (ys @ N # L # us)"
    by (rule splice_join [OF _ N]) (use disj snoc in auto)
  then have "is_rlist (snd (rl_splice x N h)) L (us @ x # ys @ [N])"
    by (simp add: is_rlist_rotate [of _ L us x])
  ultimately show ?thesis using snoc by (simp add: rlist_push_back_def)
qed

lemma rlist_pop_front_empty: "is_rlist h L [] \<Longrightarrow> rlist_pop_front L h = (L, h)"
  by (simp add: rlist_pop_front_def is_rlist_def)

lemma rlist_pop_front_Cons:
  assumes "is_rlist h L (x # xs)"
  shows "fst (rlist_pop_front L h) = x"
    and "is_rlist (snd (rlist_pop_front L h)) L xs"
    and "is_rlist (snd (rlist_pop_front L h)) x []"
proof -
  from assms have x: "nxt h L = x" by (simp add: is_rlist_def)
  show "fst (rlist_pop_front L h) = x"
    by (simp add: rlist_pop_front_def rl_splice_def Let_def x)
  show "is_rlist (snd (rlist_pop_front L h)) L xs" "is_rlist (snd (rlist_pop_front L h)) x []"
    using splice_split [of h L "[]" x xs] assms by (auto simp: rlist_pop_front_def x)
qed

lemma rlist_pop_back_snoc:
  assumes "is_rlist h L (xs @ [x])"
  shows "fst (rlist_pop_back L h) = x"
    and "is_rlist (snd (rlist_pop_back L h)) L []"
    and "is_rlist (snd (rlist_pop_back L h)) x xs"
proof -
  from assms have x: "prv h L = x" by (auto simp: is_rlist_def dest!: dpath_prv)
  show "fst (rlist_pop_back L h) = x"
    by (simp add: rlist_pop_back_def rl_splice_def Let_def x)
  show "is_rlist (snd (rlist_pop_back L h)) L []" "is_rlist (snd (rlist_pop_back L h)) x xs"
    using splice_split [of h L xs x "[]"] assms by (auto simp: rlist_pop_back_def x)
qed

lemma rlist_remove_ring:
  assumes "is_rlist h L (us @ a # vs)"
  shows "is_rlist (snd (rlist_remove a h)) L (us @ vs)"
    and "is_rlist (snd (rlist_remove a h)) a []"
proof -
  have split: "is_rlist (snd (rlist_remove a h)) a [] \<and> is_rlist (snd (rlist_remove a h)) b zs"
    if r: "is_rlist h a (zs @ [b])" for zs b
  proof -
    from r have "prv h a = b" by (auto simp: is_rlist_def dest!: dpath_prv)
    with splice_split [OF r] show ?thesis by (simp add: rlist_remove_def)
  qed
  from assms have ring: "is_rlist h a (vs @ L # us)" by (simp add: is_rlist_rotate)
  show "is_rlist (snd (rlist_remove a h)) a []"
    by (cases us rule: rev_cases)
      (use split [of vs L] split [of "vs @ L # butlast us" "last us"] ring in auto)
  show "is_rlist (snd (rlist_remove a h)) L (us @ vs)"
  proof (cases us rule: rev_cases)
    case Nil
    with split [of vs L] ring show ?thesis by auto
  next
    case (snoc us' u)
    with split [of "vs @ L # us'" u] ring
    have "is_rlist (snd (rlist_remove a h)) u (vs @ L # us')" by simp
    with snoc show ?thesis by (simp add: is_rlist_rotate [of _ L us' u])
  qed
qed

text \<open>Rings that the operation does not touch stay as they are.\<close>

lemma rlist_push_back_frame:
  assumes "is_rlist h c zs" and L: "is_rlist h L xs" and N: "is_rlist h N ys"
    and "set (c # zs) \<inter> (set (L # xs) \<union> set (N # ys)) = {}"
  shows "is_rlist (rlist_push_back L N h) c zs"
  unfolding rlist_push_back_def
proof (rule splice_frame [OF assms(1)])
  have "prv h L \<in> insert L (set xs)" by (rule is_rlist_prv_in [OF L]) simp
  with assms(4) show "prv h L \<notin> set (c # zs)" by auto
  show "prv h (nxt h (prv h L)) = prv h L"
    by (rule is_rlist_member_prv_nxt [OF L]) (rule is_rlist_prv_in [OF L], simp)
  show "prv h (nxt h N) = N" by (rule is_rlist_prv_nxt [OF N])
  show "N \<notin> set (c # zs)" using assms(4) by auto
qed

lemma rlist_remove_frame:
  assumes "is_rlist h c zs" and L: "is_rlist h L xs" and "a \<in> set (L # xs)"
    and "set (c # zs) \<inter> set (L # xs) = {}"
  shows "is_rlist (snd (rlist_remove a h)) c zs"
proof -
  have a: "a \<in> insert L (set xs)" using assms(3) by simp
  note pa = is_rlist_prv_in [OF L a]
  have "is_rlist (snd (rl_splice a (prv h a) h)) c zs"
    using splice_frame [OF assms(1) is_rlist_member_prv_nxt [OF L a]
        is_rlist_member_prv_nxt [OF L pa]] pa a assms(4) by auto
  then show ?thesis by (simp add: rlist_remove_def)
qed

lemma is_rlist_nxt_last:
  assumes "is_rlist h L (us @ ws)"
  shows "nxt h (last (L # us)) = (case ws of [] \<Rightarrow> L | w # _ \<Rightarrow> w)"
proof -
  have "dpath h x (us @ ws) y \<Longrightarrow> nxt h (last (x # us)) = (case ws of [] \<Rightarrow> y | w # _ \<Rightarrow> w)" for x y
    by (induction us arbitrary: x) (auto dest: dpath_nxt)
  with assms show ?thesis by (auto simp: is_rlist_def)
qed

text \<open>The loops end on a ring and compute the list function.\<close>

lemma rlist_len_loop_path:
  assumes "dpath h x zs L" "L \<notin> set zs"
  shows "rlist_len_loop L (nxt h x) n h = Some (n + of_nat (length zs))"
  using assms
proof (induction zs arbitrary: x n)
  case Nil
  then show ?case by (simp add: rlist_len_loop.simps)
next
  case (Cons z zs)
  have "rlist_len_loop L z n h = rlist_len_loop L (nxt h z) (n + 1) h"
    using Cons.prems by (subst rlist_len_loop.simps) auto
  with Cons show ?case by (auto simp: add.assoc)
qed

lemma rlist_find_loop_path:
  assumes "dpath h x zs L" "L \<notin> set zs"
  shows "rlist_find_loop L k fail (nxt h x) h =
    Some (case find (\<lambda>n. obj h n = k) zs of None \<Rightarrow> fail | Some n \<Rightarrow> Some n)"
  using assms
proof (induction zs arbitrary: x)
  case Nil
  then show ?case by (simp add: rlist_find_loop.simps)
next
  case (Cons z zs)
  then show ?case by (subst rlist_find_loop.simps) auto
qed

lemma rlist_equal_loop_path:
  assumes "dpath h x zs L1" "L1 \<notin> set zs" "dpath h y ws L2" "L2 \<notin> set ws"
  shows "rlist_equal_loop L1 L2 (nxt h x) (nxt h y) h = Some (map (obj h) zs = map (obj h) ws)"
  using assms
proof (induction zs arbitrary: x y ws)
  case Nil
  then show ?case by (subst rlist_equal_loop.simps) (cases ws; auto)
next
  case (Cons z zs)
  then show ?case by (subst rlist_equal_loop.simps) (cases ws; auto)
qed

lemma rlist_select_loop_ring:
  assumes "is_rlist h S (us @ ws)" "is_rlist h D ds"
    and "set (S # us @ ws) \<inter> set (D # ds) = {}"
  shows "\<exists>h'. rlist_select_loop S D P (last (S # us)) h = Some h' \<and>
    is_rlist h' S (us @ filter (\<lambda>n. \<not> P n) ws) \<and> is_rlist h' D (ds @ filter P ws)"
  using assms
proof (induction ws arbitrary: us ds h)
  case Nil
  then show ?case
    using is_rlist_nxt_last [of h S us "[]"] by (subst rlist_select_loop.simps) auto
next
  case (Cons w ws)
  have nx: "nxt h (last (S # us)) = w"
    using is_rlist_nxt_last [OF Cons.prems(1)] by simp
  have "w \<noteq> S" using Cons.prems(1) by (auto simp: is_rlist_def)
  show ?case
  proof (cases "P w")
    case True
    let ?h1 = "snd (rlist_remove w h)" and ?h2 = "rlist_push_back D w (snd (rlist_remove w h))"
    have r: "is_rlist ?h1 S (us @ ws)" "is_rlist ?h1 w []"
      using rlist_remove_ring [OF Cons.prems(1)] by auto
    have d: "is_rlist ?h1 D ds"
      by (rule rlist_remove_frame [OF Cons.prems(2,1)]) (use Cons.prems(3) in auto)
    have dist: "w \<notin> set (S # us @ ws)" using Cons.prems(1) by (auto simp: is_rlist_def)
    have "is_rlist ?h2 D (ds @ [w])"
      using rlist_push_back_ring [OF d r(2)] Cons.prems(3) by auto
    moreover have "is_rlist ?h2 S (us @ ws)"
      by (rule rlist_push_back_frame [OF r(1) d r(2)]) (use Cons.prems(3) dist in auto)
    moreover have "rlist_select_loop S D P (last (S # us)) h =
        rlist_select_loop S D P (last (S # us)) ?h2"
      using True nx \<open>w \<noteq> S\<close>
      by (subst rlist_select_loop.simps) (simp add: split_beta rlist_remove_def)
    ultimately show ?thesis
      using Cons.IH [of ?h2 us "ds @ [w]"] Cons.prems(3) dist True by auto
  next
    case False
    have "rlist_select_loop S D P (last (S # us)) h =
        rlist_select_loop S D P (last (S # us @ [w])) h"
      using False nx \<open>w \<noteq> S\<close> by (subst rlist_select_loop.simps) simp
    then show ?thesis
      using Cons.IH [of h "us @ [w]" ds] Cons.prems False by auto
  qed
qed

text \<open>Reversal swaps the two pointers of the nodes visited so far.\<close>

definition swap_links :: "'n set \<Rightarrow> ('n, 'k) rlheap \<Rightarrow> ('n, 'k) rlheap" where
  "swap_links V h = h\<lparr>nxt := (\<lambda>n. if n \<in> V then prv h n else nxt h n),
                       prv := (\<lambda>n. if n \<in> V then nxt h n else prv h n)\<rparr>"

lemma swap_links_step:
  "p \<notin> V \<Longrightarrow> rlnode_swap (PrevOf p) (NextOf p) (swap_links V h) = swap_links (insert p V) h"
  by (auto simp: swap_links_def rlnode_swap_def fun_eq_iff)

lemma swap_links_empty: "swap_links {} h = h"
  by (simp add: swap_links_def)

lemma dpath_reversed:
  assumes "dpath h x zs y"
    and "\<And>z. z \<in> insert y (set zs) \<Longrightarrow> nxt h' z = prv h z"
    and "\<And>z. z \<in> insert x (set zs) \<Longrightarrow> prv h' z = nxt h z"
  shows "dpath h' y (rev zs) x"
  using assms by (induction zs arbitrary: x) (auto simp: dpath_append)

lemma rlist_reverse_loop_ring:
  assumes "is_rlist h l (zs @ p # ws)"
  shows "rlist_reverse_loop l p (swap_links (insert l (set ws)) h) =
    Some (swap_links (set (l # zs @ p # ws)) h)"
  using assms
proof (induction zs arbitrary: p ws rule: rev_induct)
  case Nil
  then have "p \<notin> insert l (set ws)" and "prv h p = l" by (auto simp: is_rlist_def)
  then show ?case
    by (subst rlist_reverse_loop.simps)
      (simp add: swap_links_step Let_def, simp add: swap_links_def insert_commute)
next
  case (snoc z zs)
  then have p: "p \<notin> insert l (set ws)" and z: "prv h p = z" "z \<noteq> l"
    by (auto simp: is_rlist_def dpath_append)
  have "rlist_reverse_loop l p (swap_links (insert l (set ws)) h) =
      rlist_reverse_loop l z (swap_links (insert l (set (p # ws))) h)"
    using p z by (subst rlist_reverse_loop.simps)
      (simp add: swap_links_step Let_def, simp add: swap_links_def insert_commute)
  also have "\<dots> = Some (swap_links (set (l # zs @ z # p # ws)) h)"
    using snoc.IH [of z "p # ws"] snoc.prems by simp
  finally show ?case by simp
qed

lemma rlist_reverse_links:
  assumes "is_rlist h l xs"
  shows "rlist_reverse l h = Some (swap_links (set (l # xs)) h)"
proof (cases xs rule: rev_cases)
  case Nil
  with assms have "prv h l = l" by (simp add: is_rlist_def)
  then show ?thesis
    using swap_links_step [of l "{}" h] Nil
    by (simp add: rlist_reverse_def rlist_reverse_loop.simps [of l l] Let_def swap_links_empty)
      (simp add: swap_links_def)
next
  case (snoc us x)
  with assms have "prv h l = x" "x \<noteq> l" by (auto simp: is_rlist_def dest!: dpath_prv)
  then have "rlist_reverse l h = rlist_reverse_loop l x (swap_links (insert l (set [])) h)"
    using swap_links_step [of l "{}" h]
    by (simp add: rlist_reverse_def rlist_reverse_loop.simps [of l l] Let_def swap_links_empty)
      (simp add: swap_links_def)
  with rlist_reverse_loop_ring [of h l us x "[]"] assms snoc show ?thesis by simp
qed

section \<open>Properties\<close>

text \<open>
  Splicing behaves as the comment of \<^verbatim>\<open>util.h\<close> promises: on two different rings
  \<open>[a, xs]\<close> and \<open>[b, ys]\<close> it builds the ring \<open>[a, ys, b, xs]\<close>, and on one ring
  \<open>[a, xs, b, ys]\<close> it builds the two rings \<open>[a, ys]\<close> and \<open>[b, xs]\<close>.
\<close>

theorem rl_splice_rings:
  "(is_rlist h a xs \<and> is_rlist h b ys \<and> set (a # xs) \<inter> set (b # ys) = {} \<longrightarrow>
     is_rlist (snd (rl_splice a b h)) a (ys @ b # xs)) \<and>
   (is_rlist h a (xs @ b # ys) \<longrightarrow>
     is_rlist (snd (rl_splice a b h)) a ys \<and> is_rlist (snd (rl_splice a b h)) b xs)"
  using splice_join [of h a xs b ys] splice_split [of h a xs b ys] by blast

text \<open>A heap with the ring \<open>[0, 1, 2]\<close>, its nodes numbered and keyed, for the witnesses.\<close>

definition ring3 :: "(nat, nat) rlheap" where
  "ring3 = rlist_push_back 0 2 (rlist_push_back 0 1
     (rlnode_init 2 20 (rlnode_init 1 10 (rlnode_init 0 0 \<lparr>nxt = (\<lambda>n. n), prv = (\<lambda>n. n), obj = (\<lambda>_. 0)\<rparr>))))"

lemmas ring3_eval = ring3_def rlist_push_back_def rlnode_init_def rlnode_new_def
  rl_splice_def rlnode_swap_def is_rlist_def

lemma ring3_rings: "is_rlist ring3 0 [1, 2]" "is_rlist ring3 3 []"
  by (simp_all add: ring3_eval)

theorem rl_splice_rings_witness:
  "is_rlist ring3 0 [1, 2] \<and> is_rlist ring3 3 [] \<and>
   is_rlist (snd (rl_splice 0 3 ring3)) 0 [3, 1, 2] \<and>
   is_rlist (snd (rl_splice 0 1 ring3)) 0 [2] \<and> is_rlist (snd (rl_splice 0 1 ring3)) 1 []"
  using rl_splice_rings [of ring3 0 "[1, 2]" 3 "[]"] rl_splice_rings [of ring3 0 "[]" 1 "[2]"]
    ring3_rings by simp

text \<open>
  A splice is undone by repeating it, on any two nodes whose \<^verbatim>\<open>next->prev\<close> pointers
  lead back to them.
\<close>

theorem rl_splice_involution:
  assumes "prv h (nxt h a) = a" and "prv h (nxt h b) = b"
  shows "snd (rl_splice a b (snd (rl_splice a b h))) = h"
proof (cases "a = b")
  case False
  let ?h = "snd (rl_splice a b h)"
  note f = rl_splice_fields [OF False assms]
  have "prv ?h (nxt ?h a) = a" "prv ?h (nxt ?h b) = b"
    using assms False by (auto simp: f)
  note g = rl_splice_fields [OF False this]
  show ?thesis
    by (rule rlheap.equality) (use assms False in \<open>auto simp: f g fun_eq_iff\<close>)
qed simp

theorem rl_splice_involution_witness:
  "snd (rl_splice 0 1 (snd (rl_splice 0 1 ring3))) = ring3"
  by (rule rl_splice_involution) (simp_all add: ring3_eval)

text \<open>
  Appending moves the nodes of the second list behind those of the first, prepending
  moves them before those of the first, and either leaves the second list empty.
\<close>

theorem rlist_append_prepend:
  assumes "is_rlist h D xs" and "is_rlist h S ys" and "set (D # xs) \<inter> set (S # ys) = {}"
  shows "is_rlist (rlist_append D S h) D (xs @ ys) \<and> is_rlist (rlist_append D S h) S [] \<and>
    is_rlist (rlist_prepend D S h) D (ys @ xs) \<and> is_rlist (rlist_prepend D S h) S []"
  using rlist_remove_ring [of "rlist_push_back D S h" D "xs @ ys" S "[]"]
    rlist_remove_ring [of "rlist_push_front D S h" D ys S xs]
    rlist_push_back_ring [OF assms] rlist_push_front_ring [OF assms]
  by (simp add: rlist_append_def rlist_prepend_def)

theorem rlist_append_prepend_witness:
  "is_rlist (rlist_append 3 0 ring3) 3 [1, 2] \<and> is_rlist (rlist_append 3 0 ring3) 0 []"
  using rlist_append_prepend [OF ring3_rings(2,1)] by simp

text \<open>
  \<^verbatim>\<open>rlist_select\<close> ends, leaves the nodes that fail the predicate in the source list
  in their order, and appends those that satisfy it to the destination in theirs.
\<close>

theorem rlist_select_partitions:
  assumes "is_rlist h S xs" and "is_rlist h D ds" and "set (S # xs) \<inter> set (D # ds) = {}"
  shows "\<exists>h'. rlist_select S D P h = Some h' \<and>
    is_rlist h' S (filter (\<lambda>n. \<not> P n) xs) \<and> is_rlist h' D (ds @ filter P xs)"
  using rlist_select_loop_ring [of h S "[]" xs D ds P] assms by (simp add: rlist_select_def)

theorem rlist_select_partitions_witness:
  "\<exists>h'. rlist_select 0 3 even ring3 = Some h' \<and> is_rlist h' 0 [1] \<and> is_rlist h' 3 [2]"
  using rlist_select_partitions [OF ring3_rings, of even] by simp

text \<open>
  C30. The scanning loops end on every list and compute the length (modulo the width of
  the counter), the first node with a given key, the comparison of the key sequences and
  the reversal of the list.
\<close>

theorem rlist_scans:
  assumes L: "is_rlist h L xs" and M: "is_rlist h M ys"
  shows "rlist_len L h = Some (of_nat (length xs)) \<and>
    rlist_find L k fail h =
      Some (case find (\<lambda>n. obj h n = k) xs of None \<Rightarrow> fail | Some n \<Rightarrow> Some n) \<and>
    rlist_equal L M h = Some (map (obj h) xs = map (obj h) ys) \<and>
    (\<exists>h'. rlist_reverse L h = Some h' \<and> is_rlist h' L (rev xs) \<and> obj h' = obj h)"
proof -
  from L have p: "dpath h L xs L" "L \<notin> set xs" "distinct (L # xs)" by (auto simp: is_rlist_def)
  from M have q: "dpath h M ys M" "M \<notin> set ys" by (auto simp: is_rlist_def)
  have "dpath (swap_links (set (L # xs)) h) L (rev xs) L"
    by (rule dpath_reversed [OF p(1)]) (simp_all add: swap_links_def)
  with p(3) have "is_rlist (swap_links (set (L # xs)) h) L (rev xs)"
    by (simp add: is_rlist_def)
  moreover have "obj (swap_links (set (L # xs)) h) = obj h" by (simp add: swap_links_def)
  ultimately show ?thesis
    using rlist_len_loop_path [OF p(1,2), of 0] rlist_find_loop_path [OF p(1,2), of k fail]
      rlist_equal_loop_path [OF p(1,2) q] rlist_reverse_links [OF L]
    by (simp add: rlist_len_def rlist_find_def rlist_equal_def)
qed

theorem rlist_scans_witness:
  "rlist_len 0 ring3 = Some 2 \<and> rlist_find 0 20 None ring3 = Some (Some 2) \<and>
   rlist_equal 0 3 ring3 = Some False \<and>
   (\<exists>h'. rlist_reverse 0 ring3 = Some h' \<and> is_rlist h' 0 [2, 1])"
proof -
  have "obj ring3 1 = 10" "obj ring3 2 = 20" by (simp_all add: ring3_eval)
  then show ?thesis
    using rlist_scans [OF ring3_rings, of 20 None] by auto
qed

text \<open>
  C31. \<^verbatim>\<open>rlist_pop_back\<close> returns the last node, but it does not remove that node only: the
  list is left empty and the other nodes stay on the ring of the returned node, although
  its comment promises that the tail alone is removed.
\<close>

theorem rlist_pop_back_takes_all:
  assumes "is_rlist h L (xs @ [x])"
  shows "fst (rlist_pop_back L h) = x \<and> is_rlist (snd (rlist_pop_back L h)) L [] \<and>
    is_rlist (snd (rlist_pop_back L h)) x xs"
  using rlist_pop_back_snoc [OF assms] by simp

theorem rlist_pop_back_takes_all_witness:
  "fst (rlist_pop_back 0 ring3) = 2 \<and> is_rlist (snd (rlist_pop_back 0 ring3)) 0 [] \<and>
   is_rlist (snd (rlist_pop_back 0 ring3)) 2 [1]"
  using rlist_pop_back_takes_all [of ring3 0 "[1]" 2] ring3_rings(1) by simp

end
