(* ===== verification/Shell.thy ===== *)
theory Shell
  imports RList
begin

text \<open>
  Programs of \<^verbatim>\<open>tinyos_shell.c\<close>: the filters, the towers of Hanoi, and how the shell turns a line into
  the fragments of a pipeline; and the log of the remote server, a ring of records.

  Input and output of a program are strings.  The loops \<^verbatim>\<open>while((c=fgetc(fin))!=EOF)\<close> keep the
  character in a (signed) \<^verbatim>\<open>char\<close>, so that they end at the end of the input and at a byte 255.
\<close>

section \<open>Filters\<close>

definition newline :: char where
  "newline = CHR 0x0A"

definition getc :: "string \<Rightarrow> (char \<times> string) option" where
  "getc inp = (case inp of [] \<Rightarrow> None | c # rest \<Rightarrow> if c = CHR 0xFF then None else Some (c, rest))"

lemma getc_Some [simp]: "getc inp = Some (c, rest) \<longleftrightarrow> inp = c # rest \<and> c \<noteq> CHR 0xFF"
  by (auto simp: getc_def split: list.splits)

definition toupper :: "char \<Rightarrow> char" where
  "toupper c = (let n = of_char c :: nat in if 97 \<le> n \<and> n \<le> 122 then char_of (n - 32) else c)"

definition tolower :: "char \<Rightarrow> char" where
  "tolower c = (let n = of_char c :: nat in if 65 \<le> n \<and> n \<le> 90 then char_of (n + 32) else c)"

definition isblank :: "char \<Rightarrow> bool" where
  "isblank c \<longleftrightarrow> c = CHR '' '' \<or> c = CHR 0x09"

function Capitalize :: "string \<Rightarrow> string" where
  "Capitalize inp = (case getc inp of None \<Rightarrow> [] | Some (c, rest) \<Rightarrow> toupper c # Capitalize rest)"
  by auto

termination by (relation "measure length") auto

function LowerCase :: "string \<Rightarrow> string" where
  "LowerCase inp = (case getc inp of None \<Rightarrow> [] | Some (c, rest) \<Rightarrow> tolower c # LowerCase rest)"
  by auto

termination by (relation "measure length") auto

text \<open>\<^verbatim>\<open>printf\<close> of a number with \<^verbatim>\<open>%zu\<close> in a field of \<open>w\<close> characters.\<close>

fun decimal :: "nat \<Rightarrow> string" where
  "decimal n = (if n < 10 then [char_of (48 + n)] else decimal (n div 10) @ [char_of (48 + n mod 10)])"

definition field :: "nat \<Rightarrow> nat \<Rightarrow> string" where
  "field w n = replicate (w - length (decimal n)) (CHR '' '') @ decimal n"

function LineEnum_loop :: "bool \<Rightarrow> nat \<Rightarrow> string \<Rightarrow> string" where
  "LineEnum_loop atend count inp =
     (case getc inp of
        None \<Rightarrow> []
      | Some (c, rest) \<Rightarrow>
          (if atend then field 6 (count + 1) @ '': '' else []) @
          c # LineEnum_loop (c = newline) (if atend then count + 1 else count) rest)"
  by auto

termination by (relation "measure (\<lambda>(_, _, inp). length inp)") auto

definition LineEnum :: "string \<Rightarrow> string" where
  "LineEnum inp = LineEnum_loop True 0 inp"

text \<open>The numbers of characters, words and lines, and whether the last character was white.\<close>

function WordCount_loop :: "nat \<Rightarrow> nat \<Rightarrow> nat \<Rightarrow> bool \<Rightarrow> string \<Rightarrow> nat \<times> nat \<times> nat" where
  "WordCount_loop nchar nword nline wspace inp =
     (case getc inp of
        None \<Rightarrow> (nline, nword, nchar)
      | Some (c, rest) \<Rightarrow>
          (let starts = wspace \<and> \<not> isblank c;
               w1 = (if starts then False else wspace);
               w2 = (if c = newline then True else w1);
               w3 = (if isblank c then True else w2)
           in WordCount_loop (nchar + 1) (if starts then nword + 1 else nword)
                (if c = newline then nline + 1 else nline) w3 rest))"
  by auto

termination by (relation "measure (\<lambda>(_, _, _, _, inp). length inp)") auto

definition WordCount :: "string \<Rightarrow> nat \<times> nat \<times> nat" where
  "WordCount inp = WordCount_loop 0 0 0 True inp"

declare Capitalize.simps [simp del] LowerCase.simps [simp del] decimal.simps [simp del]
  LineEnum_loop.simps [simp del] WordCount_loop.simps [simp del]

text \<open>What the filters see of their input.\<close>

definition visible :: "string \<Rightarrow> string" where
  "visible inp = takeWhile (\<lambda>c. c \<noteq> CHR 0xFF) inp"

lemma Capitalize_map: "Capitalize inp = map toupper (visible inp)"
  by (induction inp) (simp_all add: Capitalize.simps [of "_ # _"] Capitalize.simps [of "[]"] getc_def visible_def)

lemma LowerCase_map: "LowerCase inp = map tolower (visible inp)"
  by (induction inp) (simp_all add: LowerCase.simps [of "_ # _"] LowerCase.simps [of "[]"] getc_def visible_def)

text \<open>
  The characters that start a word for \<^verbatim>\<open>WordCount\<close>: those that are not blank and follow a blank, a
  newline or nothing.  A newline is not blank, so that an empty line counts as a word.
\<close>

fun word_starts :: "bool \<Rightarrow> string \<Rightarrow> nat" where
  "word_starts w [] = 0"
| "word_starts w (c # cs) = (if w \<and> \<not> isblank c then 1 else 0) + word_starts (isblank c \<or> c = newline) cs"

lemma WordCount_loop_eq:
  "WordCount_loop nc nw nl w inp =
     (nl + count_list (visible inp) newline, nw + word_starts w (visible inp), nc + length (visible inp))"
proof (induction inp arbitrary: nc nw nl w)
  case Nil
  then show ?case by (simp add: WordCount_loop.simps getc_def visible_def)
next
  case (Cons c inp)
  show ?case
    by (subst WordCount_loop.simps) (auto simp: Cons getc_def visible_def Let_def)
qed

lemma WordCount_counts:
  "WordCount inp = (count_list (visible inp) newline, word_starts True (visible inp), length (visible inp))"
  by (simp add: WordCount_def WordCount_loop_eq)

section \<open>The towers of Hanoi\<close>

text \<open>The moves that are printed, from the first peg to the second.\<close>

fun hanoi :: "nat \<Rightarrow> int \<Rightarrow> int \<Rightarrow> int \<Rightarrow> (int \<times> int) list" where
  "hanoi 0 a b c = []"
| "hanoi (Suc n) a b c = hanoi n a c b @ [(a, b)] @ hanoi n c b a"

text \<open>The value returned by the program, and the moves.\<close>

definition Hanoi :: "int \<Rightarrow> int \<times> (int \<times> int) list" where
  "Hanoi n = (if n < 1 \<or> 15 < n then (n, []) else (0, hanoi (nat n) 1 2 3))"

text \<open>Pegs with the disks on them, the top first; a disk never lies on a smaller one.\<close>

definition move_disk :: "int \<times> int \<Rightarrow> (int \<Rightarrow> nat list) \<Rightarrow> (int \<Rightarrow> nat list) option" where
  "move_disk m P =
     (case P (fst m) of
        [] \<Rightarrow> None
      | d # ds \<Rightarrow> if \<forall>e \<in> set (P (snd m)). d < e then Some (P(fst m := ds, snd m := d # P (snd m))) else None)"

fun move_disks :: "(int \<times> int) list \<Rightarrow> (int \<Rightarrow> nat list) \<Rightarrow> (int \<Rightarrow> nat list) option" where
  "move_disks [] P = Some P"
| "move_disks (m # ms) P = do { P' \<leftarrow> move_disk m P; move_disks ms P' }"

lemma move_disks_append: "move_disks (xs @ ys) P = do { P' \<leftarrow> move_disks xs P; move_disks ys P' }"
  by (induction xs arbitrary: P) (auto split: bind_splits)

lemma hanoi_moves:
  assumes "distinct [a, b, c]" "P a = [0..<n] @ X" "\<forall>e \<in> set X \<union> set (P b) \<union> set (P c). n \<le> e"
  shows "move_disks (hanoi n a b c) P = Some (P(a := X, b := [0..<n] @ P b))"
  using assms
proof (induction n arbitrary: a b c P X)
  case 0
  then show ?case by (auto simp: fun_upd_idem)
next
  case (Suc n)
  let ?P1 = "P(a := n # X, c := [0..<n] @ P c)" and ?P2 = "P(a := X, b := n # P b, c := [0..<n] @ P c)"
  have big: "n \<le> e" "n < e" if "e \<in> set X \<union> set (P b) \<union> set (P c)" for e
    using bspec [OF Suc.prems(3) that] by simp_all
  have "move_disks (hanoi n a c b) P = Some ?P1"
    using Suc.prems(1,2) big(1) by (intro Suc.IH) auto
  moreover have "move_disk (a, b) ?P1 = Some ?P2"
    using Suc.prems(1) big(2) by (auto simp: move_disk_def fun_upd_twist)
  moreover have "move_disks (hanoi n c b a) ?P2 = Some (?P2(c := P c, b := [0..<n] @ ?P2 b))"
    using Suc.prems(1) big(1) by (intro Suc.IH) auto
  moreover have "?P2(c := P c, b := [0..<n] @ ?P2 b) = P(a := X, b := [0..<Suc n] @ P b)"
    using Suc.prems by (auto simp: fun_eq_iff)
  ultimately have "move_disks (hanoi n a c b) P = Some ?P1" "move_disks [(a, b)] ?P1 = Some ?P2"
      "move_disks (hanoi n c b a) ?P2 = Some (P(a := X, b := [0..<Suc n] @ P b))" by (simp_all only: move_disks.simps) simp
  then show ?case by (simp only: hanoi.simps move_disks_append Option.bind.bind_lunit)
qed

lemma hanoi_length: "length (hanoi n a b c) = 2 ^ n - 1"
proof (induction n arbitrary: a b c)
  case (Suc n)
  have "(1 :: nat) \<le> 2 ^ n" by simp
  then show ?case using Suc by simp
qed simp

section \<open>From a line to the fragments of a pipeline\<close>

text \<open>\<^verbatim>\<open>strtok_r\<close> with the separators of the shell: the next token and what follows it.\<close>

definition is_sep :: "char \<Rightarrow> bool" where
  "is_sep c \<longleftrightarrow> c = CHR '' '' \<or> c = newline \<or> c = CHR 0x09"

definition strtok :: "string \<Rightarrow> (string \<times> string) option" where
  "strtok s =
     (let s1 = dropWhile is_sep s in
      if s1 = [] then None
      else Some (takeWhile (\<lambda>c. \<not> is_sep c) s1, drop 1 (dropWhile (\<lambda>c. \<not> is_sep c) s1)))"

primrec tokenize :: "nat \<Rightarrow> string \<Rightarrow> string list" where
  "tokenize 0 s = []"
| "tokenize (Suc k) s = (case strtok s of None \<Rightarrow> [] | Some (t, rest) \<Rightarrow> t # tokenize k rest)"

definition ARGN :: nat where
  "ARGN = 128"

text \<open>The arguments on a line; a line is a C string and ends at a zero byte.\<close>

definition line_args :: "string \<Rightarrow> string list" where
  "line_args line = tokenize (ARGN - 1) (takeWhile (\<lambda>c. c \<noteq> CHR 0x00) line)"

fun Echo_loop :: "nat \<Rightarrow> string list \<Rightarrow> string" where
  "Echo_loop i [] = [newline]"
| "Echo_loop i (a # argv) = (if i > 1 then '' '' else []) @ a @ Echo_loop (i + 1) argv"

definition Echo :: "string list \<Rightarrow> string" where
  "Echo argv = Echo_loop 1 (drop 1 argv)"

definition commands :: "string list" where
  "commands = [''help'', ''ls'', ''sysinfo'', ''runterm'', ''sh'', ''repeat'', ''fibo'', ''cap'', ''lcase'', ''wc'', ''lenum'',
     ''more'', ''symposium'', ''symp_thr'', ''hanoi'', ''rserver'', ''rcli'', ''echo'']"

fun find_command :: "nat \<Rightarrow> string list \<Rightarrow> string \<Rightarrow> nat option" where
  "find_command c [] name = None"
| "find_command c (x # xs) name = (if x = name then Some c else find_command (c + 1) xs name)"

definition getprog_byname :: "string \<Rightarrow> int" where
  "getprog_byname name = (case find_command 0 commands name of None \<Rightarrow> -1 | Some c \<Rightarrow> int c)"

text \<open>
  The loop of \<^verbatim>\<open>process_line\<close> that splits the arguments at the bars.  \<^verbatim>\<open>Vargc\<close> and \<^verbatim>\<open>Vargv\<close> are arrays of
  \<^verbatim>\<open>argc\<close> entries, an entry of \<^verbatim>\<open>Vargv\<close> being an index into \<^verbatim>\<open>argv\<close>; the result is \<open>None\<close> if the code writes
  beyond their end.
\<close>

fun split_loop :: "string list \<Rightarrow> nat \<Rightarrow> nat \<Rightarrow> nat list \<Rightarrow> nat list \<Rightarrow> (nat \<times> nat list \<times> nat list) option" where
  "split_loop [] i frag Vargc Vargv = Some (frag + 1, Vargc, Vargv)"
| "split_loop (a # argv) i frag Vargc Vargv =
     (if a \<noteq> ''|''
      then do { c_assert (frag < length Vargc);
                let n = Vargc ! frag + 1;
                split_loop argv (i + 1) frag (Vargc[frag := n]) (if n = 1 then Vargv[frag := i] else Vargv) }
      else do { c_assert (frag + 1 < length Vargc);
                split_loop argv (i + 1) (frag + 1) (Vargc[frag + 1 := 0]) Vargv })"

datatype line_error = Empty_fragment | Command_not_found string

text \<open>The check of the fragments: an error, or the number of the command of each fragment.\<close>

fun check_loop :: "string list \<Rightarrow> (nat \<times> nat) list \<Rightarrow> line_error + nat list" where
  "check_loop argv [] = Inr []"
| "check_loop argv ((n, a) # frags) =
     (if n = 0 then Inl Empty_fragment
      else case find_command 0 commands (argv ! a) of
             None \<Rightarrow> Inl (Command_not_found (argv ! a))
           | Some c \<Rightarrow> (case check_loop argv frags of Inl e \<Rightarrow> Inl e | Inr cs \<Rightarrow> Inr (c # cs)))"

text \<open>
  The first part of \<^verbatim>\<open>process_line\<close>, up to the construction of the pipeline; \<open>g\<close> and \<open>g'\<close> are the initial
  contents of the two arrays.
\<close>

definition process_line_parse :: "string list \<Rightarrow> nat list \<Rightarrow> nat list \<Rightarrow> (line_error + (nat \<times> nat \<times> nat) list) option" where
  "process_line_parse argv g g' =
     do { c_assert (0 < length g);
          (frag, Vargc, Vargv) \<leftarrow> split_loop argv 0 0 (g[0 := 0]) g';
          let frags = take frag (zip Vargc Vargv);
          Some (case check_loop argv frags of Inl e \<Rightarrow> Inl e | Inr cs \<Rightarrow> Inr (zip cs frags)) }"

section \<open>The split of a line\<close>

text \<open>The reference: the sublists between the bars.\<close>

fun split_bars :: "string list \<Rightarrow> string list list" where
  "split_bars [] = [[]]"
| "split_bars (x # xs) = (if x = ''|'' then [] # split_bars xs else (x # hd (split_bars xs)) # tl (split_bars xs))"

lemma split_bars_ne [simp]: "split_bars xs \<noteq> []"
  by (cases xs) simp_all

lemma split_bars_snoc:
  "split_bars (xs @ [a]) = (if a = ''|'' then split_bars xs @ [[]] else butlast (split_bars xs) @ [last (split_bars xs) @ [a]])"
proof (induction xs)
  case (Cons x xs)
  obtain f fs where "split_bars xs = f # fs" using split_bars_ne by (meson neq_Nil_conv)
  then show ?case using Cons by (cases fs) auto
qed simp

lemma length_split_bars: "length (split_bars xs) = count_list xs ''|'' + 1"
  by (induction xs) simp_all

text \<open>What an entry of the arrays says about a fragment, and the arrays after the arguments \<open>xs\<close>.\<close>

definition frag_ok :: "string list \<Rightarrow> string list \<Rightarrow> nat \<Rightarrow> nat \<Rightarrow> bool" where
  "frag_ok xs f n a \<longleftrightarrow> n = length f \<and> (f \<noteq> [] \<longrightarrow> a + n \<le> length xs \<and> take n (drop a xs) = f)"

definition frags_at :: "string list \<Rightarrow> nat list \<Rightarrow> nat list \<Rightarrow> bool" where
  "frags_at xs Vargc Vargv \<longleftrightarrow> length Vargc = length Vargv \<and> length (split_bars xs) \<le> length Vargc \<and>
     (\<forall>j < length (split_bars xs). frag_ok xs (split_bars xs ! j) (Vargc ! j) (Vargv ! j))"

definition last_ends :: "string list \<Rightarrow> nat list \<Rightarrow> nat list \<Rightarrow> bool" where
  "last_ends xs Vargc Vargv \<longleftrightarrow>
     (let k = count_list xs ''|'' in 0 < Vargc ! k \<longrightarrow> Vargv ! k + Vargc ! k = length xs)"

lemma frag_ok_snoc: "frag_ok xs f n a \<Longrightarrow> frag_ok (xs @ [x]) f n a"
  by (auto simp: frag_ok_def)

lemma frags_at_bar:
  assumes "frags_at xs Vc Vv" "count_list xs ''|'' + 1 < length Vc"
  shows "frags_at (xs @ [''|'']) (Vc[count_list xs ''|'' + 1 := 0]) Vv"
    "last_ends (xs @ [''|'']) (Vc[count_list xs ''|'' + 1 := 0]) Vv"
proof -
  have "frag_ok (xs @ [''|'']) ((split_bars xs @ [[]]) ! j) (Vc[count_list xs ''|'' + 1 := 0] ! j) (Vv ! j)"
    if "j < length (split_bars xs) + 1" for j
  proof (cases "j = length (split_bars xs)")
    case True
    then have "(split_bars xs @ [[]]) ! j = []" by simp
    then show ?thesis using True assms(2) by (simp add: length_split_bars frag_ok_def)
  next
    case False
    then have "j < length (split_bars xs)" using that by simp
    then show ?thesis using assms(1) frag_ok_snoc by (simp add: frags_at_def nth_append length_split_bars)
  qed
  then show "frags_at (xs @ [''|'']) (Vc[count_list xs ''|'' + 1 := 0]) Vv"
    using assms by (simp add: frags_at_def split_bars_snoc length_split_bars)
  show "last_ends (xs @ [''|'']) (Vc[count_list xs ''|'' + 1 := 0]) Vv"
    using assms(2) by (simp add: last_ends_def)
qed

lemma frags_at_word:
  fixes Vc Vv xs
  defines "k \<equiv> count_list xs ''|''"
  assumes "frags_at xs Vc Vv" "last_ends xs Vc Vv" "x \<noteq> ''|''"
  defines "Vc' \<equiv> Vc[k := Vc ! k + 1]" and "Vv' \<equiv> (if Vc ! k + 1 = 1 then Vv[k := length xs] else Vv)"
  shows "frags_at (xs @ [x]) Vc' Vv'" "last_ends (xs @ [x]) Vc' Vv'" "k < length Vc"
proof -
  let ?fs = "split_bars xs"
  have len: "length ?fs = k + 1" "length Vc = length Vv" "k < length Vc"
    using assms(2) by (simp_all add: k_def length_split_bars frags_at_def)
  then show "k < length Vc" by simp
  have fk: "frag_ok xs (last ?fs) (Vc ! k) (Vv ! k)"
    using assms(2) len(1) by (simp add: frags_at_def last_conv_nth)
  show ends: "last_ends (xs @ [x]) Vc' Vv'"
    using assms(3,4) len by (auto simp: last_ends_def k_def [symmetric] Vc'_def Vv'_def Let_def)
  have "frag_ok (xs @ [x]) ((butlast ?fs @ [last ?fs @ [x]]) ! j) (Vc' ! j) (Vv' ! j)" if "j < k + 1" for j
  proof (cases "j = k")
    case True
    have "Vv ! k + Vc ! k = length xs" if "last ?fs \<noteq> []"
      using assms(3) fk that by (simp add: last_ends_def k_def frag_ok_def)
    then show ?thesis using True fk len by (auto simp: frag_ok_def Vc'_def Vv'_def nth_append)
  next
    case False
    then have "frag_ok xs (?fs ! j) (Vc ! j) (Vv ! j)" using that assms(2) len(1) by (simp add: frags_at_def)
    then show ?thesis using False that len frag_ok_snoc by (simp add: Vc'_def Vv'_def nth_append nth_butlast)
  qed
  then show "frags_at (xs @ [x]) Vc' Vv'"
    using assms(4) len by (simp add: frags_at_def split_bars_snoc Vc'_def Vv'_def)
qed

lemma split_loop_eq:
  assumes "frags_at xs Vc Vv" "last_ends xs Vc Vv"
  shows "if count_list (xs @ ys) ''|'' < length Vc
    then \<exists>Vc' Vv'. split_loop ys (length xs) (count_list xs ''|'') Vc Vv = Some (count_list (xs @ ys) ''|'' + 1, Vc', Vv') \<and>
      frags_at (xs @ ys) Vc' Vv'
    else split_loop ys (length xs) (count_list xs ''|'') Vc Vv = None"
  using assms
proof (induction ys arbitrary: xs Vc Vv)
  case Nil
  then show ?case by (auto simp: frags_at_def length_split_bars)
next
  case (Cons y ys)
  let ?k = "count_list xs ''|''"
  show ?case
  proof (cases "y = ''|''")
    case True
    show ?thesis
    proof (cases "?k + 1 < length Vc")
      case T: True
      note st = frags_at_bar [OF Cons.prems(1) T]
      show ?thesis using Cons.IH [OF st] True T by (cases "count_list (xs @ y # ys) ''|'' < length Vc") simp_all
    qed (use True in simp)
  next
    case False
    note st = frags_at_word [OF Cons.prems False]
    show ?thesis using Cons.IH [OF st(1,2)] st(3) False
      by (cases "count_list (xs @ y # ys) ''|'' < length Vc") (simp_all add: Let_def)
  qed
qed

text \<open>The reference for the checks: the first fragment that is empty or has no command is the error.\<close>

fun commands_of :: "string list list \<Rightarrow> line_error + nat list" where
  "commands_of [] = Inr []"
| "commands_of (f # fs) =
     (if f = [] then Inl Empty_fragment
      else case find_command 0 commands (hd f) of
             None \<Rightarrow> Inl (Command_not_found (hd f))
           | Some c \<Rightarrow> (case commands_of fs of Inl e \<Rightarrow> Inl e | Inr cs \<Rightarrow> Inr (c # cs)))"

lemma check_loop_eq:
  "list_all2 (\<lambda>f (n, a). frag_ok argv f n a) fs frags \<Longrightarrow> check_loop argv frags = commands_of fs"
proof (induction fs arbitrary: frags)
  case (Cons f fs)
  then obtain n a frags' where fr: "frags = (n, a) # frags'" "frag_ok argv f n a"
      "list_all2 (\<lambda>f (n, a). frag_ok argv f n a) fs frags'"
    by (auto simp: list_all2_Cons1)
  have "argv ! a = hd f" if "f \<noteq> []"
  proof -
    have f: "take n (drop a argv) = f" "a + n \<le> length argv" "0 < n" using fr(2) that by (auto simp: frag_ok_def)
    then have "hd f = hd (drop a argv)" using hd_take by metis
    then show ?thesis using f(2,3) by (simp add: hd_drop_conv_nth)
  qed
  then show ?case using Cons.IH [OF fr(3)] fr(1,2) by (auto simp: frag_ok_def split: option.splits sum.splits)
qed simp

lemma all_bars: "count_list argv x < length argv \<longleftrightarrow> (\<exists>a \<in> set argv. a \<noteq> x)"
proof (induction argv)
  case (Cons b argv)
  have "count_list argv x \<le> length argv" by (rule count_le_length)
  then show ?case using Cons by auto
qed simp

lemma process_line_parse_eq:
  assumes "argv \<noteq> []" "length g = length argv" "length g' = length argv"
  shows "if \<forall>a \<in> set argv. a = ''|'' then process_line_parse argv g g' = None
    else \<exists>frags. list_all2 (\<lambda>f (n, a). frag_ok argv f n a) (split_bars argv) frags \<and>
      process_line_parse argv g g' =
        Some (case commands_of (split_bars argv) of Inl e \<Rightarrow> Inl e | Inr cs \<Rightarrow> Inr (zip cs frags))"
proof -
  have st: "frags_at [] (g[0 := 0]) g'" "last_ends [] (g[0 := 0]) g'"
    using assms by (auto simp: frags_at_def last_ends_def frag_ok_def Suc_le_eq)
  note run = split_loop_eq [OF st, of argv, simplified append_Nil]
  have N: "length (g[0 := 0]) = length argv" "0 < length g" using assms by auto
  show ?thesis
  proof (cases "count_list argv ''|'' < length argv")
    case False
    then have "\<forall>a \<in> set argv. a = ''|''" using all_bars [of argv] by blast
    moreover have "split_loop argv 0 0 (g[0 := 0]) g' = None" using run False N(1) by simp
    ultimately show ?thesis using N(2) by (simp add: process_line_parse_def)
  next
    case True
    then have ex: "\<not> (\<forall>a \<in> set argv. a = ''|'')" using all_bars [of argv] by blast
    from run True N(1) obtain Vc Vv where s: "split_loop argv 0 0 (g[0 := 0]) g' = Some (count_list argv ''|'' + 1, Vc, Vv)"
      "frags_at argv Vc Vv" by auto
    let ?fr = "take (count_list argv ''|'' + 1) (zip Vc Vv)"
    have all: "list_all2 (\<lambda>f (n, a). frag_ok argv f n a) (split_bars argv) ?fr"
      using s(2) by (auto simp: frags_at_def list_all2_conv_all_nth length_split_bars)
    have "process_line_parse argv g g' =
        Some (case commands_of (split_bars argv) of Inl e \<Rightarrow> Inl e | Inr cs \<Rightarrow> Inr (zip cs ?fr))"
      unfolding process_line_parse_def using s(1) N(2) check_loop_eq [OF all]
      by (cases "commands_of (split_bars argv)") (simp_all add: Let_def)
    with all show ?thesis unfolding if_not_P [OF ex] by blast
  qed
qed

section \<open>Lines written by \<^verbatim>\<open>echo\<close>\<close>

definition is_word :: "string \<Rightarrow> bool" where
  "is_word w \<longleftrightarrow> w \<noteq> [] \<and> (\<forall>c \<in> set w. \<not> is_sep c \<and> c \<noteq> CHR 0x00)"

lemma strtok_word:
  assumes "is_word w" "is_sep c" "\<forall>x \<in> set pre. is_sep x"
  shows "strtok (pre @ w @ c # rest) = Some (w, rest)"
proof -
  obtain x w' where w: "w = x # w'" "\<not> is_sep x" using assms(1) by (cases w) (auto simp: is_word_def)
  then have d: "dropWhile is_sep (pre @ w @ c # rest) = w @ c # rest" using assms(3) by simp
  have "\<forall>y \<in> set w. \<not> is_sep y" using assms(1) by (simp add: is_word_def)
  then have t: "takeWhile (\<lambda>c. \<not> is_sep c) (w @ c # rest) = w" "dropWhile (\<lambda>c. \<not> is_sep c) (w @ c # rest) = c # rest"
    using assms(2) by simp_all
  show ?thesis unfolding strtok_def Let_def d t using w(1) by simp
qed

lemma Echo_loop_later: "1 < i \<Longrightarrow> 1 < j \<Longrightarrow> Echo_loop i as = Echo_loop j as"
proof (induction "as" arbitrary: i j)
  case (Cons a "as")
  show ?case using Cons.IH [of "i + 1" "j + 1"] Cons.prems by simp
qed simp

text \<open>What follows a word on the line: a separator, and the rest of the arguments.\<close>

lemma Echo_loop_rest:
  obtains c rest where "Echo_loop 2 as = c # rest" "is_sep c" "as = [] \<and> rest = [] \<or> as \<noteq> [] \<and> rest = Echo_loop 1 as"
proof (cases "as")
  case Nil
  then show ?thesis by (intro that [of newline "[]"]) (simp_all add: is_sep_def)
next
  case (Cons a as')
  have "Echo_loop (Suc (Suc (Suc 0))) as' = Echo_loop (Suc (Suc 0)) as'" by (rule Echo_loop_later) simp_all
  then show ?thesis using Cons by (intro that [of "CHR '' ''" "Echo_loop 1 as"]) (simp_all add: is_sep_def numeral_2_eq_2)
qed

lemma tokenize_Echo: "\<forall>a \<in> set as. is_word a \<Longrightarrow> tokenize k (Echo_loop 1 as) = take k as"
proof (induction "as" arbitrary: k)
  case Nil
  then show ?case by (cases k) (simp_all add: strtok_def is_sep_def)
next
  case (Cons a "as")
  show ?case
  proof (cases k)
    case (Suc k')
    obtain c rest where r: "Echo_loop 2 as = c # rest" "is_sep c" "as = [] \<and> rest = [] \<or> as \<noteq> [] \<and> rest = Echo_loop 1 as"
      by (rule Echo_loop_rest)
    have "Echo_loop 1 (a # as) = [] @ a @ c # rest" using r(1) by (simp add: numeral_2_eq_2)
    then have "strtok (Echo_loop 1 (a # as)) = Some (a, rest)" using strtok_word [of a c "[]" rest] Cons.prems r(2) by simp
    moreover have "tokenize k' rest = take k' as"
      using r(3) Cons.IH [of k'] Cons.prems by (cases k') (auto simp: strtok_def)
    ultimately show ?thesis using Suc by simp
  qed simp
qed

lemma Echo_no_zero: "\<forall>a \<in> set as. is_word a \<Longrightarrow> CHR 0x00 \<notin> set (Echo_loop i as)"
  by (induction "as" arbitrary: i) (auto simp: is_word_def newline_def)

text \<open>The shell reads back the words that \<^verbatim>\<open>echo\<close> has written, up to its limit of 127.\<close>

lemma line_args_Echo:
  assumes "\<forall>a \<in> set as. is_word a"
  shows "line_args (Echo (name # as)) = take 127 as"
proof -
  have "takeWhile (\<lambda>c. c \<noteq> CHR 0x00) (Echo_loop 1 as) = Echo_loop 1 as"
    using Echo_no_zero [OF assms, of 1] by (auto simp: takeWhile_eq_all_conv)
  moreover have "line_args (Echo (name # as)) = tokenize 127 (takeWhile (\<lambda>c. c \<noteq> CHR 0x00) (Echo_loop 1 as))"
    by (simp add: line_args_def Echo_def ARGN_def)
  ultimately show ?thesis using tokenize_Echo [OF assms, of 127] by (simp only:)
qed

section \<open>The log of the remote server\<close>

text \<open>
  The part of \<^verbatim>\<open>struct __rs_globals\<close> that the log uses: the heap of the list nodes, whose keys are the
  numbers of the records, and \<^verbatim>\<open>logcount\<close>.  The sentinel is the node \<open>L\<close>; every operation runs with the mutex
  of the server held.
\<close>

record 'n rs_log =
  log_heap :: "('n, nat) rlheap"
  logcount :: nat

definition log_init :: "'n \<Rightarrow> 'n rs_log \<Rightarrow> 'n rs_log" where
  "log_init L g = \<lparr>log_heap = rlnode_init L 0 (log_heap g), logcount = 0\<rparr>"

definition log_message :: "'n \<Rightarrow> 'n \<Rightarrow> 'n rs_log \<Rightarrow> 'n rs_log" where
  "log_message L rec g =
     (let n = logcount g + 1; h = rlnode_new rec (log_heap g) in
      \<lparr>log_heap = rlist_push_back L rec (h\<lparr>obj := (obj h)(rec := n)\<rparr>), logcount = n\<rparr>)"

text \<open>The numbers that \<^verbatim>\<open>log_print\<close> prints, and the loop that frees the records one by one.\<close>

partial_function (option) log_print_loop :: "'n \<Rightarrow> 'n \<Rightarrow> ('n, nat) rlheap \<Rightarrow> nat list option" where
  "log_print_loop L p h =
     (if p = L then Some [] else do { ns \<leftarrow> log_print_loop L (nxt h p) h; Some (obj h p # ns) })"

definition log_print :: "'n \<Rightarrow> 'n rs_log \<Rightarrow> nat list option" where
  "log_print L g = log_print_loop L (nxt (log_heap g) L) (log_heap g)"

partial_function (option) free_loop :: "'n \<Rightarrow> ('n, nat) rlheap \<Rightarrow> 'n list \<Rightarrow> ('n list \<times> ('n, nat) rlheap) option" where
  "free_loop l h freed =
     (if nxt h l = l then Some (freed, h)
      else let (rec, h1) = rlist_pop_front l h in free_loop l h1 (freed @ [rec]))"

definition log_truncate :: "'n \<Rightarrow> 'n \<Rightarrow> 'n rs_log \<Rightarrow> ('n list \<times> 'n rs_log) option" where
  "log_truncate l L g =
     do { (freed, h) \<leftarrow> free_loop l (rlist_append l L (rlnode_init l 0 (log_heap g))) [];
          Some (freed, g\<lparr>log_heap := h\<rparr>) }"

text \<open>The log holds the records \<open>rs\<close>, numbered from 1.\<close>

definition log_ok :: "'n \<Rightarrow> 'n list \<Rightarrow> 'n rs_log \<Rightarrow> bool" where
  "log_ok L rs g \<longleftrightarrow> is_rlist (log_heap g) L rs \<and> logcount g = length rs \<and> map (obj (log_heap g)) rs = [1..<length rs + 1]"

lemma splice_obj: "obj (snd (rl_splice a b h)) = obj h"
  by (simp add: rl_splice_def rlnode_swap_def Let_def)

lemma is_rlist_obj: "is_rlist (h\<lparr>obj := k\<rparr>) L xs = is_rlist h L xs"
proof -
  have "dpath (h\<lparr>obj := k\<rparr>) a ys b = dpath h a ys b" for a ys b by (induction ys arbitrary: a) simp_all
  then show ?thesis by (simp add: is_rlist_def)
qed

lemma log_init_ok: "log_ok L [] (log_init L g)"
  by (simp add: log_ok_def log_init_def rlnode_init_singleton)

lemma rlnode_new_frame:
  assumes "is_rlist h L xs" "p \<notin> set (L # xs)"
  shows "is_rlist (rlnode_new p h) L xs"
proof -
  have "dpath (rlnode_new p h) L xs L"
    by (rule dpath_frame [of h]) (use assms in \<open>auto simp: is_rlist_def rlnode_new_def\<close>)
  then show ?thesis using assms(1) by (simp add: is_rlist_def)
qed

lemma log_message_ok:
  assumes "log_ok L rs g" "r \<notin> set (L # rs)"
  shows "log_ok L (rs @ [r]) (log_message L r g)"
proof -
  let ?n = "logcount g + 1" and ?h1 = "rlnode_new r (log_heap g)"
  let ?h = "?h1\<lparr>obj := (obj ?h1)(r := ?n)\<rparr>"
  have rings: "is_rlist ?h L rs" "is_rlist ?h r []"
    using assms rlnode_new_frame [of "log_heap g" L rs r]
    by (simp_all add: is_rlist_obj log_ok_def rlnode_new_singleton)
  have ring: "is_rlist (rlist_push_back L r ?h) L (rs @ [r])"
    using rlist_push_back_ring [OF rings] assms(2) by auto
  have o: "obj (rlist_push_back L r ?h) = (obj (log_heap g))(r := ?n)"
    by (simp add: rlist_push_back_def splice_obj) (simp add: rlnode_new_def)
  have same: "map ((obj (log_heap g))(r := ?n)) rs = map (obj (log_heap g)) rs" using assms(2) by auto
  have num: "logcount g = length rs" "map (obj (log_heap g)) rs = [1..<length rs + 1]"
    using assms(1) unfolding log_ok_def by blast+
  have "map ((obj (log_heap g))(r := ?n)) (rs @ [r]) = [1..<length (rs @ [r]) + 1]"
    unfolding map_append same num(2) by (simp add: num(1))
  then show ?thesis unfolding log_ok_def log_message_def Let_def rs_log.simps o using ring num(1) by (simp only: length_append_singleton Suc_eq_plus1)
qed

lemma log_print_path:
  "dpath h x zs L \<Longrightarrow> L \<notin> set zs \<Longrightarrow> log_print_loop L (nxt h x) h = Some (map (obj h) zs)"
proof (induction zs arbitrary: x)
  case (Cons z zs)
  then show ?case by (subst log_print_loop.simps) auto
qed (simp add: log_print_loop.simps)

text \<open>The loop that frees the records ends, frees each once, and leaves other empty rings alone.\<close>

lemma free_loop_ok:
  assumes "is_rlist h l rs" "is_rlist h L []" "L \<notin> set (l # rs)"
  shows "\<exists>h'. free_loop l h freed = Some (freed @ rs, h') \<and> is_rlist h' l [] \<and> is_rlist h' L []"
  using assms
proof (induction rs arbitrary: h freed)
  case Nil
  then show ?case by (subst free_loop.simps) (simp add: is_rlist_def)
next
  case (Cons x rs)
  let ?h1 = "snd (rlist_pop_front l h)"
  note pop = rlist_pop_front_Cons [OF Cons.prems(1)]
  have nx: "nxt h l = x" "x \<noteq> l" using Cons.prems(1) by (auto simp: is_rlist_def)
  have "is_rlist ?h1 L []" unfolding rlist_pop_front_def nx(1)
    by (rule splice_frame [OF Cons.prems(2)])
      (use Cons.prems is_rlist_member_prv_nxt [OF Cons.prems(1)] in auto)
  from Cons.IH [OF pop(2) this, of "freed @ [x]"] Cons.prems(3)
  obtain h' where h': "free_loop l ?h1 (freed @ [x]) = Some (freed @ x # rs, h')" "is_rlist h' l []" "is_rlist h' L []" by auto
  have "free_loop l h freed = free_loop l ?h1 (freed @ [x])"
    using nx pop(1) by (subst free_loop.simps) (simp add: case_prod_beta)
  with h' show ?case by auto
qed

lemma log_truncate_ok:
  assumes "log_ok L rs g" "l \<notin> set (L # rs)"
  shows "\<exists>g'. log_truncate l L g = Some (rs, g') \<and> is_rlist (log_heap g') L []"
proof -
  let ?h = "rlnode_init l 0 (log_heap g)"
  have L: "is_rlist ?h L rs" using assms rlnode_new_frame [of "log_heap g" L rs l]
    by (simp add: rlnode_init_def is_rlist_obj log_ok_def)
  have l: "is_rlist ?h l []" by (rule rlnode_init_singleton)
  have disj: "set [l] \<inter> set (L # rs) = {}" using assms(2) by auto
  have push: "is_rlist (rlist_push_back l L ?h) l (rs @ [L])" using rlist_push_back_ring [OF l L disj] by simp
  have "is_rlist (rlist_append l L ?h) l rs" "is_rlist (rlist_append l L ?h) L []"
    using rlist_remove_ring [of "rlist_push_back l L ?h" l rs L "[]"] push by (simp_all add: rlist_append_def)
  moreover have "L \<notin> set (l # rs)" using L assms(2) by (auto simp: is_rlist_def)
  ultimately obtain h' where "free_loop l (rlist_append l L ?h) [] = Some (rs, h')" "is_rlist h' L []"
    using free_loop_ok [of "rlist_append l L ?h" l rs L "[]"] by auto
  then show ?thesis by (simp add: log_truncate_def)
qed

section \<open>Properties\<close>

text \<open>
  C37.  The first part of \<^verbatim>\<open>process_line\<close> splits the arguments at the bars: the fragments are the sublists
  between them, each entry of the arrays gives the length and the place of its fragment, and the result
  is the error of the first bad fragment or the numbers of the commands.  On a line of bars only, and
  on no other, the code writes beyond the end of its arrays.
\<close>

theorem process_line_fragments:
  assumes "argv \<noteq> []" "length g = length argv" "length g' = length argv"
  shows "if \<forall>a \<in> set argv. a = ''|'' then process_line_parse argv g g' = None
    else \<exists>frags. list_all2 (\<lambda>f (n, a). n = length f \<and> (f \<noteq> [] \<longrightarrow> take n (drop a argv) = f)) (split_bars argv) frags \<and>
      process_line_parse argv g g' =
        Some (case commands_of (split_bars argv) of Inl e \<Rightarrow> Inl e | Inr cs \<Rightarrow> Inr (zip cs frags))"
proof (cases "\<forall>a \<in> set argv. a = ''|''")
  case False
  with process_line_parse_eq [OF assms] obtain frags where
    fr: "list_all2 (\<lambda>f (n, a). frag_ok argv f n a) (split_bars argv) frags"
    "process_line_parse argv g g' = Some (case commands_of (split_bars argv) of Inl e \<Rightarrow> Inl e | Inr cs \<Rightarrow> Inr (zip cs frags))"
    unfolding if_not_P [OF False] by blast
  have "list_all2 (\<lambda>f (n, a). n = length f \<and> (f \<noteq> [] \<longrightarrow> take n (drop a argv) = f)) (split_bars argv) frags"
    by (rule list_all2_mono [OF fr(1)]) (auto simp: frag_ok_def)
  with fr(2) show ?thesis unfolding if_not_P [OF False] by blast
qed (use process_line_parse_eq [OF assms] in simp)

theorem process_line_fragments_witness:
  "process_line_parse [''echo'', ''a'', ''|'', ''wc''] [7, 7, 7, 7] [7, 7, 7, 7] = Some (Inr [(17, 2, 0), (9, 1, 3)]) \<and>
   process_line_parse [''|''] [7] [7] = None"
  using process_line_fragments [of "[''echo'', ''a'', ''|'', ''wc'']" "[7, 7, 7, 7]" "[7, 7, 7, 7]"]
    process_line_fragments [of "[''|'']" "[7]" "[7]"]
  by (simp add: process_line_parse_def commands_def)

text \<open>
   The moves of \<^verbatim>\<open>Hanoi\<close> are right: executed on three pegs they take all \<open>n\<close> disks from the first to the
  second, one at a time, and never put a disk on a smaller one; there are \<open>2^n - 1\<close> of them, at most
  32767 for the arguments that the program accepts.
\<close>

theorem Hanoi_solves:
  assumes "1 \<le> n" "n \<le> 15"
  shows "\<exists>ms. Hanoi n = (0, ms) \<and> length ms = 2 ^ nat n - 1 \<and> length ms \<le> 32767 \<and>
    move_disks ms ((\<lambda>_. [])(1 := [0..<nat n])) = Some ((\<lambda>_. [])(2 := [0..<nat n]))"
proof -
  let ?P = "(\<lambda>_. [])(1 := [0..<nat n]) :: int \<Rightarrow> nat list"
  have "move_disks (hanoi (nat n) 1 2 3) ?P = Some (?P(1 := [], 2 := [0..<nat n] @ ?P 2))"
    by (rule hanoi_moves) simp_all
  moreover have "?P(1 := [], 2 := [0..<nat n] @ ?P 2) = (\<lambda>_. [])(2 := [0..<nat n])" by auto
  moreover have "(2 :: nat) ^ nat n \<le> 2 ^ 15" using assms by (intro power_increasing) simp_all
  ultimately show ?thesis using assms by (simp add: Hanoi_def hanoi_length)
qed

theorem Hanoi_solves_witness:
  "\<exists>ms. Hanoi 3 = (0, ms) \<and> length ms = 7 \<and> move_disks ms ((\<lambda>_. [])(1 := [0, 1, 2])) = Some ((\<lambda>_. [])(2 := [0, 1, 2]))"
proof -
  have "[0..<nat 3] = [0, 1, 2]" by (simp add: upt_rec numeral_eq_Suc)
  then show ?thesis using Hanoi_solves [of 3] by auto
qed

end
