(* ===== verification/Pipeline.thy ===== *)
theory Pipeline
  imports Userlib Shell
begin

text \<open>
  The second part of \<^verbatim>\<open>process_line\<close> of \<^verbatim>\<open>tinyos_shell.c\<close>: the shell saves its standard streams, starts the
  commands of the fragments with pipes between them, and restores its streams.  The program runs on the
  system calls of the kernel model; the calls of one line are made one after the other.
\<close>

section \<open>The operation\<close>

definition savefid :: "nat \<Rightarrow> nat \<Rightarrow> 'a kernel_scheme \<Rightarrow> (nat \<times> 'a kernel_scheme) option" where
  "savefid c fsaved s =
     do { (savior, s1) \<leftarrow> sys_OpenNull c s;
          c_assert (savior \<noteq> NOFILE);
          (_, s2) \<leftarrow> sys_Dup2 c (int fsaved) savior s1;
          Some (nat savior, s2) }"

text \<open>\<^verbatim>\<open>Dup2(from, to); Close(from);\<close>\<close>

definition move_fid :: "nat \<Rightarrow> nat \<Rightarrow> nat \<Rightarrow> 'a kernel_scheme \<Rightarrow> 'a kernel_scheme option" where
  "move_fid c from to s =
     do { (_, s1) \<leftarrow> sys_Dup2 c (int from) (int to) s;
          (_, s2) \<leftarrow> sys_Close c (int from) s1;
          Some s2 }"

text \<open>\<^verbatim>\<open>Execute\<close> of a fragment: the call of \<^verbatim>\<open>Exec\<close> that it makes.\<close>

definition exec_call :: "nat \<Rightarrow> sys_call \<Rightarrow> 'a kernel_scheme \<Rightarrow> (int \<times> 'a kernel_scheme) option" where
  "exec_call c call s = (case call of Exec task al ag \<Rightarrow> sys_Exec c task al ag s | _ \<Rightarrow> None)"

text \<open>
  The loop over the fragments, each given by its call of \<^verbatim>\<open>Exec\<close>.  A failing \<^verbatim>\<open>Pipe\<close> leaves the two file
  ids uninitialised.
\<close>

fun pipeline_loop :: "nat \<Rightarrow> nat \<Rightarrow> nat \<Rightarrow> sys_call list \<Rightarrow> 'a kernel_scheme \<Rightarrow> (int list \<times> 'a kernel_scheme) option" where
  "pipeline_loop c savein saveout [] s = Some ([], s)"
| "pipeline_loop c savein saveout [call] s =
     do { s1 \<leftarrow> move_fid c saveout 1 s;
          (child, s2) \<leftarrow> exec_call c call s1;
          s3 \<leftarrow> move_fid c savein 0 s2;
          Some ([child], s3) }"
| "pipeline_loop c savein saveout (call # calls) s =
     do { ((_, fids), s1) \<leftarrow> sys_Pipe c s;
          (rd, wr) \<leftarrow> fids;
          s2 \<leftarrow> move_fid c wr 1 s1;
          (child, s3) \<leftarrow> exec_call c call s2;
          s4 \<leftarrow> move_fid c rd 0 s3;
          (children, s5) \<leftarrow> pipeline_loop c savein saveout calls s4;
          Some (child # children, s5) }"

definition process_line_run :: "nat \<Rightarrow> sys_call list \<Rightarrow> 'a kernel_scheme \<Rightarrow> (int list \<times> 'a kernel_scheme) option" where
  "process_line_run c calls s =
     do { (savein, s1) \<leftarrow> savefid c 0 s;
          (saveout, s2) \<leftarrow> savefid c 1 s1;
          pipeline_loop c savein saveout calls s2 }"

text \<open>
  \<^verbatim>\<open>process_line\<close> up to the loop of \<^verbatim>\<open>WaitChild\<close>.  \<open>prog\<close> gives the addresses of the programs in the table
  \<^verbatim>\<open>COMMANDS\<close>, \<open>ew\<close> the address of \<^verbatim>\<open>exec_wrapper\<close>, and \<open>m\<close> what the buffer of \<^verbatim>\<open>Execute\<close> holds before.
\<close>

definition cbytes :: "string \<Rightarrow> byte list" where
  "cbytes = map of_char"

definition fragment_call :: "Task \<Rightarrow> (nat \<Rightarrow> int) \<Rightarrow> string list \<Rightarrow> mem \<Rightarrow> nat \<times> nat \<times> nat \<Rightarrow> sys_call" where
  "fragment_call ew prog argv m = (\<lambda>(comd, n, a). Execute ew (prog comd) (map cbytes (take n (drop a argv))) m)"

definition process_line :: "nat \<Rightarrow> Task \<Rightarrow> (nat \<Rightarrow> int) \<Rightarrow> string list \<Rightarrow> nat list \<Rightarrow> nat list \<Rightarrow> mem \<Rightarrow> 'a kernel_scheme \<Rightarrow>
    ((line_error + int list) \<times> 'a kernel_scheme) option" where
  "process_line c ew prog argv Vargc Vargv m s =
     do { r \<leftarrow> process_line_parse argv Vargc Vargv;
          case r of
            Inl e \<Rightarrow> Some (Inl e, s)
          | Inr frags \<Rightarrow> do { (child, s1) \<leftarrow> process_line_run c (map (fragment_call ew prog argv m) frags) s;
                             Some (Inr child, s1) } }"

section \<open>The calls of one process in sequence\<close>

text \<open>A thread of process \<open>p\<close> that runs on core \<open>c\<close>, in a state in which the kernel is in order.\<close>

definition calling :: "nat \<Rightarrow> tcb_ref \<Rightarrow> pid \<Rightarrow> nat \<Rightarrow> (fcb_ref \<Rightarrow> int) \<Rightarrow> 'a kernel_scheme \<Rightarrow> bool" where
  "calling c t p a pins s \<longleftrightarrow> kernel_ok pins s \<and> caller c t p a s"

text \<open>The file ids of \<open>p\<close> become \<open>T\<close>; those of the other processes and the streams that have a name stay.\<close>

definition named :: "'a kernel_scheme \<Rightarrow> fcb_ref \<Rightarrow> bool" where
  "named s f \<longleftrightarrow> (\<exists>q i. FIDT (PT s q) i = Some f)"

definition same_kinds :: "'a kernel_scheme \<Rightarrow> 'a kernel_scheme \<Rightarrow> bool" where
  "same_kinds s s' \<longleftrightarrow>
     (\<forall>f. named s f \<longrightarrow> streamobj (FT s' f) = streamobj (FT s f) \<and> streamfunc (FT s' f) = streamfunc (FT s f))"

text \<open>The program of a process and its arguments.\<close>

definition proc_image :: "PCB \<Rightarrow> Task option \<times> int \<times> byte list option" where
  "proc_image x = (main_task x, argl x, args x)"

definition fids_become :: "pid \<Rightarrow> (nat \<rightharpoonup> fcb_ref) \<Rightarrow> 'a kernel_scheme \<Rightarrow> 'a kernel_scheme \<Rightarrow> bool" where
  "fids_become p T s s' \<longleftrightarrow> (\<forall>q. FIDT (PT s' q) = (if q = p then T else FIDT (PT s q))) \<and>
     same_kinds s s' \<and> used s' = used s \<and> devnum s' = devnum s \<and> (\<forall>q. proc_image (PT s' q) = proc_image (PT s q))"

lemma same_kindsI:
  "(\<And>f. named s f \<Longrightarrow> streamobj (FT s' f) = streamobj (FT s f) \<and> streamfunc (FT s' f) = streamfunc (FT s f)) \<Longrightarrow> same_kinds s s'"
  by (simp add: same_kinds_def)

lemma same_kindsD:
  "same_kinds s s' \<Longrightarrow> FIDT (PT s q) k = Some f \<Longrightarrow> streamobj (FT s' f) = streamobj (FT s f) \<and> streamfunc (FT s' f) = streamfunc (FT s f)"
  by (auto simp: same_kinds_def named_def)

lemma callingD:
  assumes "calling c t p a pins s"
  shows "kernel_ok pins s" "caller c t p a s" "CURPROC c s = Some p" "files_ok pins s" "files_inv {} pins s" "fidt_ok s"
    "pstate (PT s p) = ALIVE" "p < MAX_PROC"
proof -
  show k: "kernel_ok pins s" "caller c t p a s" using assms by (simp_all add: calling_def)
  then show "CURPROC c s = Some p" "files_ok pins s" using caller_CURPROC kernel_ok_files by blast+
  show "files_inv {} pins s" using k by (simp add: kernel_ok_def)
  then show "fidt_ok s" by (simp add: files_inv_def)
  have "threads_inv s" using k by (simp add: kernel_ok_def)
  from caller_alive [OF this k(2)] show "pstate (PT s p) = ALIVE" "p < MAX_PROC" by simp_all
qed

lemma fid_bounds: "calling c t p a pins s \<Longrightarrow> FIDT (PT s q) i = Some f \<Longrightarrow> i < MAX_FILEID \<and> f < MAX_FILES"
  using callingD(6) [of c t p a pins s] by (auto simp: fidt_ok_def)

lemma get_fcb_own: "calling c t p a pins s \<Longrightarrow> i < MAX_FILEID \<Longrightarrow> get_fcb c (int i) s = Some (FIDT (PT s p) i)"
  using callingD(3) [of c t p a pins s] by (simp add: get_fcb_def)

text \<open>A block named by two file ids survives the loss of one.\<close>

lemma two_names:
  assumes "calling c t p a pins s" "FIDT (PT s q) i = Some f" "FIDT (PT s q') i' = Some f" "(q, i) \<noteq> (q', i')"
  shows "1 < held pins f s"
proof -
  have "{(q, i), (q', i')} \<subseteq> refs f s" using assms(2,3) by (simp add: refs_def)
  then have "card {(q, i), (q', i')} \<le> card (refs f s)" by (rule card_mono [OF finite_refs(1) [OF callingD(6) [OF assms(1)]]])
  moreover have "card {(q, i), (q', i')} = 2" using assms(4) by simp
  moreover have "0 \<le> pins f" using callingD(4) [OF assms(1)] by (simp add: files_ok_def)
  ultimately show ?thesis by (simp add: held_def)
qed

lemma decref_shared:
  assumes "files_inv {} pins s" "f < MAX_FILES" "1 < held pins f s"
  shows "FCB_decref c f s = Some (0, upd_fcb f (\<lambda>x. x\<lparr>refcount := refcount x - 1\<rparr>) s)"
  using FCB_decref_last [OF assms(1,2)] assms(3) by (simp add: FCB_decref_def Let_def)

lemma used_cong: "(\<And>q. pstate (PT s' q) = pstate (PT s q)) \<Longrightarrow> used s' = used s"
  by (simp add: used_def)

lemma Dup2_over:
  assumes "calling c t p a pins s" "FIDT (PT s p) i = Some f" "FIDT (PT s p) j = Some g"
    "f = g \<or> (\<exists>q k. (q, k) \<noteq> (p, j) \<and> FIDT (PT s q) k = Some g)"
  obtains s' where "sys_Dup2 c (int i) (int j) s = Some (0, s')" "calling c t p a pins s'"
    "fids_become p ((FIDT (PT s p))(j \<mapsto> f)) s s'" "FCB_freelist s' = FCB_freelist s"
proof -
  note d = callingD [OF assms(1)]
  have b: "i < MAX_FILEID" "j < MAX_FILEID" "g < MAX_FILES" using fid_bounds [OF assms(1)] assms(2,3) by blast+
  note own = get_fcb_own [OF assms(1) b(1)] get_fcb_own [OF assms(1) b(2)]
  let ?s1 = "upd_fcb g (\<lambda>x. x\<lparr>refcount := refcount x - 1\<rparr>) s"
  let ?s2 = "set_FIDT p j (Some f) (FCB_incref f ?s1)"
  show ?thesis
  proof (cases "f = g")
    case True
    then have "sys_Dup2 c (int i) (int j) s = Some (0, s)" using assms(2,3) own b by (simp add: sys_Dup2_def)
    moreover have "fids_become p ((FIDT (PT s p))(j \<mapsto> f)) s s" using True assms(3) by (auto simp: fids_become_def same_kinds_def fun_upd_idem)
    ultimately show ?thesis using that assms(1) by blast
  next
    case False
    then have "1 < held pins g s" using assms(3,4) two_names [OF assms(1)] by blast
    then have e: "sys_Dup2 c (int i) (int j) s = Some (0, ?s2)"
      using False assms(2,3) own b decref_shared [OF d(5) b(3)] d(3) by (simp add: sys_Dup2_def upd_fcb_def)
    have "kernel_ok pins ?s2"
      by (rule Dup2_call.keeps_kernel_ok [OF d(1,2) e]) (use sys_Dup2_files [OF d(4) e] in \<open>simp_all add: files_ok_def\<close>)
    then have "calling c t p a pins ?s2" using Dup2_call.keeps_callers [OF e] d(2) by (simp add: calling_def)
    moreover have "fids_become p ((FIDT (PT s p))(j \<mapsto> f)) s ?s2"
      by (auto simp: fids_become_def proc_image_def same_kinds_def used_def set_FIDT_def upd_pcb_def FCB_incref_def upd_fcb_def)
    moreover have "FCB_freelist ?s2 = FCB_freelist s" by (simp add: FCB_incref_def upd_fcb_def)
    ultimately show ?thesis using e that by blast
  qed
qed

lemma Close_shared:
  assumes "calling c t p a pins s" "FIDT (PT s p) i = Some f" "(q, k) \<noteq> (p, i)" "FIDT (PT s q) k = Some f"
  obtains s' where "sys_Close c (int i) s = Some (0, s')" "calling c t p a pins s'"
    "fids_become p ((FIDT (PT s p))(i := None)) s s'" "FCB_freelist s' = FCB_freelist s"
proof -
  note d = callingD [OF assms(1)]
  have b: "i < MAX_FILEID" "f < MAX_FILES" using fid_bounds [OF assms(1,2)] by blast+
  let ?s1 = "set_FIDT p i None s"
  let ?s2 = "upd_fcb f (\<lambda>x. x\<lparr>refcount := refcount x - 1\<rparr>) ?s1"
  have inv: "files_inv {} (pin f pins) ?s1" by (rule cleared_inv [OF d(4) assms(2)])
  have "refs f ?s1 \<supseteq> {(q, k)}" using assms(3,4) by (auto simp: refs_def set_FIDT_def upd_pcb_def)
  then have "card {(q, k)} \<le> card (refs f ?s1)" using inv finite_refs(1) by (intro card_mono) (auto simp: files_inv_def)
  moreover have "0 \<le> pins f" using d(4) by (simp add: files_ok_def)
  ultimately have "1 < held (pin f pins) f ?s1" by (simp add: held_def pin_def)
  then have e: "sys_Close c (int i) s = Some (0, ?s2)"
    using get_fcb_own [OF assms(1) b(1)] assms(2) d(3) decref_shared [OF inv b(2)] by (simp add: sys_Close_def)
  have "kernel_ok pins ?s2"
    by (rule Close_call.keeps_kernel_ok [OF d(1,2) e]) (use sys_Close_files [OF d(4) e] in \<open>simp_all add: files_ok_def\<close>)
  then have "calling c t p a pins ?s2" using Close_call.keeps_callers [OF e] d(2) by (simp add: calling_def)
  moreover have "fids_become p ((FIDT (PT s p))(i := None)) s ?s2"
    by (auto simp: fids_become_def proc_image_def same_kinds_def used_def set_FIDT_def upd_pcb_def upd_fcb_def)
  moreover have "FCB_freelist ?s2 = FCB_freelist s" by (simp add: upd_fcb_def)
  ultimately show ?thesis using e that by blast
qed

text \<open>The blocks on the free list have no name.\<close>

lemma free_unnamed:
  assumes "calling c t p a pins s" "f \<in> set (FCB_freelist s)"
  shows "\<not> named s f" "f < MAX_FILES"
proof -
  have inv: "files_inv {} pins s" by (rule callingD(5) [OF assms(1)])
  then show f: "f < MAX_FILES" using assms(2) by (auto simp: files_inv_def)
  have "0 \<le> pins f" using callingD(4) [OF assms(1)] by (simp add: files_ok_def)
  moreover have "held pins f s = 0" using inv f assms(2) by (auto simp: files_inv_def)
  ultimately have "card (refs f s) = 0" by (simp add: held_def)
  then have "refs f s = {}" using finite_refs(1) [OF callingD(6) [OF assms(1)]] by simp
  then show "\<not> named s f" by (auto simp: named_def refs_def)
qed

lemma in_free_fids: "i \<in> set (free_fids T 0) \<longleftrightarrow> i < MAX_FILEID \<and> T i = None"
  by (auto simp: free_fids_def)

lemma reserve_own:
  assumes "calling c t p a pins s" "num \<le> length (free_fids (FIDT (PT s p)) 0)" "num \<le> length (FCB_freelist s)"
  shows "FCB_reserve c num s = Some (Some (take num (free_fids (FIDT (PT s p)) 0), take num (FCB_freelist s)),
    reserved p (take num (free_fids (FIDT (PT s p)) 0)) (take num (FCB_freelist s)) s)"
  using FCB_reserve_ok [OF callingD(5,3,8) [OF assms(1)] assms(2,3)] by (simp add: Let_def)

definition null_opened_at :: "pid \<Rightarrow> nat \<Rightarrow> fcb_ref \<Rightarrow> 'a kernel_scheme \<Rightarrow> 'a kernel_scheme" where
  "null_opened_at p fid f s =
     upd_fcb f (\<lambda>y. y\<lparr>streamobj := nulldev_open 0, streamfunc := Some nulldev_fops\<rparr>) (reserved p [fid] [f] s)"

lemma OpenNull_opens:
  assumes "calling c t p a pins s" "free_fids (FIDT (PT s p)) 0 = fid # fids" "FCB_freelist s = f # fl" "0 < devnum s DEV_NULL"
  shows "sys_OpenNull c s = Some (int fid, null_opened_at p fid f s)" "calling c t p a pins (null_opened_at p fid f s)"
    "FIDT (PT (null_opened_at p fid f s) p) = (FIDT (PT s p))(fid \<mapsto> f)"
proof -
  note d = callingD [OF assms(1)]
  let ?s2 = "null_opened_at p fid f s"
  have "FCB_reserve c 1 s = Some (Some ([fid], [f]), reserved p [fid] [f] s)"
    using reserve_own [OF assms(1), of 1] assms(2,3) by simp
  moreover have "device_open DEV_NULL 0 (reserved p [fid] [f] s) = Some (Some (nulldev_open 0, nulldev_fops))"
    using assms(4) by (simp add: device_open_def reserved_def)
  ultimately show e: "sys_OpenNull c s = Some (int fid, ?s2)" by (simp add: sys_OpenNull_def open_stream_def null_opened_at_def)
  have "kernel_ok pins ?s2"
    by (rule open_stream_call.keeps_kernel_ok [OF d(1,2) e [unfolded sys_OpenNull_def]])
      (use open_stream_files [OF d(4) e [unfolded sys_OpenNull_def]] in \<open>simp_all add: files_ok_def\<close>)
  then show "calling c t p a pins ?s2"
    using open_stream_call.keeps_callers [OF e [unfolded sys_OpenNull_def]] d(2) by (simp add: calling_def)
  show "FIDT (PT ?s2 p) = (FIDT (PT s p))(fid \<mapsto> f)" by (simp add: null_opened_at_def reserved_def upd_fcb_def)
qed

lemma savefid_saves:
  assumes "calling c t p a pins s" "FIDT (PT s p) i = Some x" "free_fids (FIDT (PT s p)) 0 = fid # fids"
    "FCB_freelist s \<noteq> []" "0 < devnum s DEV_NULL"
  obtains s' where "savefid c i s = Some (fid, s')" "calling c t p a pins s'" "fids_become p ((FIDT (PT s p))(fid \<mapsto> x)) s s'"
    "length (FCB_freelist s') = length (FCB_freelist s)"
proof -
  note d = callingD [OF assms(1)]
  let ?T = "FIDT (PT s p)"
  obtain f fl where fl: "FCB_freelist s = f # fl" using assms(4) by (cases "FCB_freelist s") auto
  note un = free_unnamed [OF assms(1), of f, unfolded fl, simplified]
  have fid: "fid < MAX_FILEID" "?T fid = None" using in_free_fids [of fid ?T] assms(3) by auto
  have i: "i < MAX_FILEID" "i \<noteq> fid" "x \<noteq> f" using fid_bounds [OF assms(1,2)] assms(2) fid(2) un(1) by (auto simp: named_def)
  let ?s2 = "null_opened_at p fid f s"
  note op = OpenNull_opens [OF assms(1,3) fl assms(5)]
  note e1 = op(1) and c2 = op(2) and T2 = op(3)
  note k2 = callingD(1) [OF c2]
  let ?s3 = "release_FCB f (upd_fcb f (\<lambda>y. y\<lparr>refcount := refcount y - 1\<rparr>) ?s2)"
  let ?s4 = "set_FIDT p fid (Some x) (FCB_incref x ?s3)"
  have dec: "FCB_decref c f ?s2 = Some (nulldev_close, ?s3)"
    by (simp add: FCB_decref_def Let_def null_opened_at_def upd_fcb_def reserved_def fops_Close_def)
  have C3: "CURPROC c ?s3 = Some p" using callingD(3) [OF c2] by (simp add: release_FCB_def upd_fcb_def)
  have e2: "sys_Dup2 c (int i) (int fid) ?s2 = Some (0, ?s4)"
    using get_fcb_own [OF c2 i(1)] get_fcb_own [OF c2 fid(1)] i fid(1) assms(2) dec C3 unfolding sys_Dup2_def T2 by simp
  have "kernel_ok pins ?s4"
    by (rule Dup2_call.keeps_kernel_ok [OF k2 callingD(2) [OF c2] e2])
      (use sys_Dup2_files [OF callingD(4) [OF c2] e2] in \<open>simp_all add: files_ok_def\<close>)
  then have c4: "calling c t p a pins ?s4" using Dup2_call.keeps_callers [OF e2] callingD(2) [OF c2] by (simp add: calling_def)
  have n: "int fid \<noteq> NOFILE" by (simp add: NOFILE_def)
  have "savefid c i s = Some (fid, ?s4)" using e1 e2 n by (simp add: savefid_def)
  moreover have "same_kinds s ?s4"
    using un(1) by (intro same_kindsI) (auto simp: set_FIDT_def upd_pcb_def FCB_incref_def release_FCB_def null_opened_at_def upd_fcb_def reserved_def)
  then have "fids_become p (?T(fid \<mapsto> x)) s ?s4"
    by (auto simp: fids_become_def proc_image_def used_def set_FIDT_def upd_pcb_def FCB_incref_def release_FCB_def null_opened_at_def upd_fcb_def reserved_def)
  moreover have "length (FCB_freelist ?s4) = length (FCB_freelist s)"
    using fl by (simp add: FCB_incref_def release_FCB_def null_opened_at_def upd_fcb_def reserved_def)
  ultimately show ?thesis using that c4 by blast
qed

text \<open>A new pipe has two fresh file ids, two fresh blocks, and a reader and a writer on one buffer.\<close>

definition pipe_ends :: "'a kernel_scheme \<Rightarrow> fcb_ref \<Rightarrow> fcb_ref \<Rightarrow> bool" where
  "pipe_ends s r w \<longleftrightarrow> (\<exists>b. streamobj (FT s r) = Some (Pipe_obj b) \<and> streamfunc (FT s r) = Some reader_file_ops \<and>
     streamobj (FT s w) = Some (Pipe_obj b) \<and> streamfunc (FT s w) = Some writer_file_ops)"

lemma pipe_ends_kept: "pipe_ends s r w \<Longrightarrow> same_kinds s s' \<Longrightarrow> named s r \<Longrightarrow> named s w \<Longrightarrow> pipe_ends s' r w"
  by (simp add: pipe_ends_def same_kinds_def)

lemma Pipe_opens:
  assumes "calling c t p a pins s" "free_fids (FIDT (PT s p)) 0 = fr # fw # fids" "FCB_freelist s = r # w # fl"
  obtains s' where "sys_Pipe c s = Some ((0, Some (fr, fw)), s')" "calling c t p a pins s'"
    "fids_become p ((FIDT (PT s p))(fr \<mapsto> r, fw \<mapsto> w)) s s'" "FCB_freelist s' = fl" "pipe_ends s' r w" "r \<noteq> w" "fr \<noteq> fw"
    "\<not> named s r" "\<not> named s w"
proof -
  note d = callingD [OF assms(1)]
  let ?T = "FIDT (PT s p)" and ?b = "next_addr s" and ?s1 = "reserved p [fr, fw] [r, w] s"
  have rw: "r \<noteq> w" using d(5) assms(3) by (auto simp: files_inv_def)
  have "distinct (free_fids ?T 0)" by (simp add: free_fids_def)
  then have frw: "fr \<noteq> fw" using assms(2) by simp
  have un: "\<not> named s r" "\<not> named s w" using free_unnamed(1) [OF assms(1)] assms(3) by auto
  have r: "FCB_reserve c 2 s = Some (Some ([fr, fw], [r, w]), ?s1)"
    using reserve_own [OF assms(1), of 2] assms(2,3) by simp
  obtain s' where e: "sys_Pipe c s = Some ((0, Some (fr, fw)), s')"
    and PT: "PT s' = PT ?s1" "devnum s' = devnum ?s1" "FCB_freelist s' = FCB_freelist ?s1"
    and FT: "FT s' = (FT ?s1)(r := (FT ?s1 r)\<lparr>streamobj := Some (Pipe_obj ?b), streamfunc := Some reader_file_ops\<rparr>,
      w := (FT ?s1 w)\<lparr>streamobj := Some (Pipe_obj ?b), streamfunc := Some writer_file_ops\<rparr>)"
    using rw r by (simp add: sys_Pipe_def acquire_PipeCB_def xmalloc_def cond_init_def upd_pipe_def upd_fcb_def Let_def reserved_def)
  have "kernel_ok pins s'"
    by (rule Pipe_call.keeps_kernel_ok [OF d(1,2) e]) (use sys_Pipe_files [OF d(4) e] in \<open>simp_all add: files_ok_def\<close>)
  then have "calling c t p a pins s'" using Pipe_call.keeps_callers [OF e] d(2) by (simp add: calling_def)
  moreover have "same_kinds s s'" using un by (intro same_kindsI) (auto simp: FT reserved_def)
  then have "fids_become p (?T(fr \<mapsto> r, fw \<mapsto> w)) s s'"
    using frw by (auto simp: fids_become_def proc_image_def used_def PT reserved_def fun_eq_iff)
  moreover have "FCB_freelist s' = fl" using assms(3) by (simp add: PT reserved_def)
  moreover have "pipe_ends s' r w" using rw by (auto simp: pipe_ends_def FT)
  ultimately show ?thesis using e rw frw un that by blast
qed

lemma prepared_kinds:
  "streamobj (FT (prepared q cp call al na s) f) = streamobj (FT s f)" "streamfunc (FT (prepared q cp call al na s) f) = streamfunc (FT s f)"
  "FCB_freelist (prepared q cp call al na s) = FCB_freelist s" "tcbs (prepared q cp call al na s) = tcbs s"
  "cctx (prepared q cp call al na s) = cctx s" "q' \<noteq> q \<Longrightarrow> proc_image (PT (prepared q cp call al na s) q') = proc_image (PT s q')"
proof -
  have "streamobj (FT (fold (inherit_fid q cp) is s) f) = streamobj (FT s f) \<and> streamfunc (FT (fold (inherit_fid q cp) is s) f) = streamfunc (FT s f) \<and>
      FCB_freelist (fold (inherit_fid q cp) is s) = FCB_freelist s \<and> tcbs (fold (inherit_fid q cp) is s) = tcbs s \<and>
      cctx (fold (inherit_fid q cp) is s) = cctx s \<and> proc_image (PT (fold (inherit_fid q cp) is s) q') = proc_image (PT s q')" for "is" and s :: "'a kernel_scheme"
    by (induction "is" arbitrary: s)
      (simp_all add: inherit_fid_def set_FIDT_def upd_pcb_def FCB_incref_def upd_fcb_def Let_def proc_image_def split: option.splits)
  then show "streamobj (FT (prepared q cp call al na s) f) = streamobj (FT s f)" "streamfunc (FT (prepared q cp call al na s) f) = streamfunc (FT s f)"
    "FCB_freelist (prepared q cp call al na s) = FCB_freelist s" "tcbs (prepared q cp call al na s) = tcbs s"
    "cctx (prepared q cp call al na s) = cctx s" "q' \<noteq> q \<Longrightarrow> proc_image (PT (prepared q cp call al na s) q') = proc_image (PT s q')"
    by (simp_all add: prepared_def upd_pcb_def adopt_def acquire_PCB_def proc_image_def split: option.splits)
qed

lemma Exec_starts:
  assumes "calling c t p a pins s" "used s \<noteq> {..<MAX_PROC}" "copy_exec_args al ag = Some na"
  obtains ch s' where "sys_Exec c (Some task) al ag s = Some (int ch, s')" "calling c t p a pins s'" "ch \<notin> used s" "ch < MAX_PROC"
    "used s' = insert ch (used s)" "\<And>q. FIDT (PT s' q) = (if q = ch then FIDT (PT s p) else FIDT (PT s q))"
    "same_kinds s s'" "FCB_freelist s' = FCB_freelist s"
    "\<And>q. proc_image (PT s' q) = (if q = ch then (Some task, al, na) else proc_image (PT s q))"
proof -
  note d = callingD [OF assms(1)]
  have fam: "family_inv s" using d(1) by (simp add: kernel_ok_def)
  obtain ch where ch: "pcb_freelist s = Some ch" using freelist_empty [OF fam] assms(2) by auto
  note h = freelist_head [OF fam ch] and f = prepared_ok [OF d(1) ch d(8,7), of "Some task" al na]
  let ?s6 = "prepared ch p (Some task) al na s"
  obtain s' where s': "start_process c ch ?s6 = Some s'" using start_process_total by blast
  have g: "gains_thread ch ?s6 s'" by (rule start_process_gains [OF s' free_TCB [OF f(1)]])
  have e: "sys_Exec c (Some task) al ag s = Some (int ch, s')"
    using sys_Exec_eq [OF ch h(3) d(3), of "Some task" al ag] assms(3) s' by simp
  note ok = sys_Exec_ok [OF d(1,3,7) e]
  have x: "execs ch p (Some task) al na s s'" using ok ch assms(3) by auto
  have im: "proc_image (PT s' q) = (if q = ch then (Some task, al, na) else proc_image (PT s q))" for q
  proof (cases "q = ch")
    case False
    with g have "(PT s' q)\<lparr>main_thread := None\<rparr> = (PT ?s6 q)\<lparr>main_thread := None\<rparr>" by (simp add: gains_thread_def)
    from arg_cong [OF this, of proc_image] show ?thesis using False prepared_kinds(6) by (simp add: proc_image_def)
  qed (use x in \<open>simp add: execs_def proc_image_def\<close>)
  from x have FIDT: "FIDT (PT s' q) = (if q = ch then FIDT (PT s p) else FIDT (PT s q))"
    and pst: "pstate (PT s' q) = pstate (PT (adopt ch p s) q)" for q by (simp_all add: execs_def same_family_def)
  have chp: "ch \<noteq> p" using h(2) d(7) by auto
  have unused: "ch \<notin> used s" using h(2) by (simp add: used_def)
  have us: "used s' = insert ch (used s)"
    using h(1) chp by (auto simp: used_def pst adopt_PT(1) [OF ch chp] split: if_splits)
  have a: "a \<noteq> next_addr ?s6"
  proof -
    have "ptcbs s a \<noteq> None" using d(2) by (auto simp: caller_def live_def split: option.splits)
    then show ?thesis using d(1) f(10) by (auto simp: kernel_ok_def threads_inv_def ptcbs_ok_def)
  qed
  have "caller c t p a ?s6" using d(2) f(9) by (simp add: caller_def cur_thread_def live_def prepared_kinds)
  then have "caller c t p a s'" by (rule gains_caller [OF g _ a free_TCB [OF f(1)]])
  then have "calling c t p a pins s'" using ok by (simp add: calling_def)
  moreover have "FT s' = FT ?s6" "FCB_freelist s' = FCB_freelist ?s6" using g by (simp_all add: gains_thread_def)
  then have "same_kinds s s'" "FCB_freelist s' = FCB_freelist s" by (simp_all add: same_kinds_def prepared_kinds)
  ultimately show ?thesis using e unused h(1) us FIDT im that by blast
qed

lemma move_fid_moves:
  assumes "calling c t p a pins s" "FIDT (PT s p) i = Some f" "FIDT (PT s p) j = Some g" "i \<noteq> j"
    "f = g \<or> (\<exists>q k. (q, k) \<noteq> (p, j) \<and> FIDT (PT s q) k = Some g)"
  obtains s' where "move_fid c i j s = Some s'" "calling c t p a pins s'"
    "fids_become p ((FIDT (PT s p))(j \<mapsto> f, i := None)) s s'" "FCB_freelist s' = FCB_freelist s"
proof -
  obtain s1 where s1: "sys_Dup2 c (int i) (int j) s = Some (0, s1)" "calling c t p a pins s1"
    "fids_become p ((FIDT (PT s p))(j \<mapsto> f)) s s1" "FCB_freelist s1 = FCB_freelist s"
    by (rule Dup2_over [OF assms(1-3,5)])
  have T1: "FIDT (PT s1 p) = (FIDT (PT s p))(j \<mapsto> f)" using s1(3) by (simp add: fids_become_def)
  obtain s2 where s2: "sys_Close c (int i) s1 = Some (0, s2)" "calling c t p a pins s2"
    "fids_become p ((FIDT (PT s1 p))(i := None)) s1 s2" "FCB_freelist s2 = FCB_freelist s1"
    by (rule Close_shared [OF s1(2), of i f p j]) (use T1 assms(2,4) in auto)
  have "same_kinds s s2"
  proof (rule same_kindsI)
    fix x assume "named s x"
    then obtain q k where q: "FIDT (PT s q) k = Some x" by (auto simp: named_def)
    have "\<exists>q' k'. (q', k') \<noteq> (p, j) \<and> FIDT (PT s q') k' = Some x \<or> x = f"
      using q assms(3,5) by (cases "(q, k) = (p, j)") auto
    moreover have "FIDT (PT s1 p) j = Some f" using T1 by simp
    moreover have "FIDT (PT s1 q') k' = Some x" if "(q', k') \<noteq> (p, j)" "FIDT (PT s q') k' = Some x" for q' k'
      using that s1(3) by (cases "q' = p") (auto simp: fids_become_def)
    ultimately have "named s1 x" unfolding named_def by blast
    then show "streamobj (FT s2 x) = streamobj (FT s x) \<and> streamfunc (FT s2 x) = streamfunc (FT s x)"
      using s1(3) s2(3) \<open>named s x\<close> by (simp add: fids_become_def same_kinds_def)
  qed
  then have "fids_become p ((FIDT (PT s p))(j \<mapsto> f, i := None)) s s2" using s1(3) s2(3) T1 by (simp add: fids_become_def)
  then show ?thesis using that s1 s2 by (simp add: move_fid_def)
qed

section \<open>The loop\<close>

text \<open>What the calls of \<open>p\<close> leave of the other processes: their programs, their file ids and the streams behind them.\<close>

definition others_kept :: "pid \<Rightarrow> 'a kernel_scheme \<Rightarrow> 'a kernel_scheme \<Rightarrow> bool" where
  "others_kept p s s' \<longleftrightarrow> used s \<subseteq> used s' \<and> (\<forall>q \<in> used s. q \<noteq> p \<longrightarrow> FIDT (PT s' q) = FIDT (PT s q) \<and>
     proc_image (PT s' q) = proc_image (PT s q) \<and>
     (\<forall>k f. FIDT (PT s q) k = Some f \<longrightarrow> streamobj (FT s' f) = streamobj (FT s f) \<and> streamfunc (FT s' f) = streamfunc (FT s f)))"

lemma others_kept_trans: "others_kept p s s' \<Longrightarrow> others_kept p s' s'' \<Longrightarrow> others_kept p s s''"
  by (auto simp: others_kept_def subset_iff)

lemma become_others_kept: "fids_become p T s s' \<Longrightarrow> others_kept p s s'"
  by (auto simp: fids_become_def others_kept_def same_kinds_def named_def)

text \<open>
  The children \<open>chs\<close> form a pipeline from the stream \<open>i\<close> to the stream \<open>out\<close>.  A child that writes to a pipe
  also keeps a file id for the end that the next child reads from.
\<close>

fun wired :: "'a kernel_scheme \<Rightarrow> fcb_ref \<Rightarrow> fcb_ref \<Rightarrow> pid list \<Rightarrow> bool" where
  "wired s i out [] \<longleftrightarrow> True"
| "wired s i out [ch] \<longleftrightarrow> FIDT (PT s ch) 0 = Some i \<and> FIDT (PT s ch) 1 = Some out"
| "wired s i out (ch # chs) \<longleftrightarrow> (\<exists>r w. FIDT (PT s ch) 0 = Some i \<and> FIDT (PT s ch) 1 = Some w \<and> pipe_ends s r w \<and>
     (\<exists>k > 1. FIDT (PT s ch) k = Some r) \<and> wired s r out chs)"

text \<open>The file ids of the shell inside the loop: \<open>T\<close> with the saved ones, and \<open>cur\<close> and \<open>x\<close> as standard streams.\<close>

definition shell_fids :: "(nat \<rightharpoonup> fcb_ref) \<Rightarrow> nat \<Rightarrow> nat \<Rightarrow> fcb_ref \<Rightarrow> fcb_ref \<Rightarrow> (nat \<rightharpoonup> fcb_ref)" where
  "shell_fids T savein saveout cur x = T(savein := T 0, saveout := T 1, 0 \<mapsto> cur, 1 \<mapsto> x)"

definition exec_ok :: "sys_call \<Rightarrow> bool" where
  "exec_ok call \<longleftrightarrow> (\<exists>task al ag na. call = Exec (Some task) al ag \<and> copy_exec_args al ag = Some na)"

definition saved_fids :: "(nat \<rightharpoonup> fcb_ref) \<Rightarrow> nat \<Rightarrow> nat \<Rightarrow> fcb_ref \<Rightarrow> fcb_ref \<Rightarrow> bool" where
  "saved_fids T savein saveout i out \<longleftrightarrow> T 0 = Some i \<and> T 1 = Some out \<and> T savein = None \<and> T saveout = None \<and> savein \<noteq> saveout"

definition runs_call :: "'a kernel_scheme \<Rightarrow> pid \<Rightarrow> sys_call \<Rightarrow> bool" where
  "runs_call s ch call \<longleftrightarrow> (\<exists>task al ag na. call = Exec (Some task) al ag \<and> copy_exec_args al ag = Some na \<and>
     proc_image (PT s ch) = (Some task, al, na))"

lemma saved_fidsD:
  assumes "saved_fids T savein saveout i out"
  shows "savein \<noteq> 0" "savein \<noteq> 1" "saveout \<noteq> 0" "saveout \<noteq> 1" "savein \<noteq> saveout" "T 0 = Some i" "T 1 = Some out"
    "T savein = None" "T saveout = None"
  using assms unfolding saved_fids_def by (metis option.distinct(1))+

lemma used_room: "card (used s) < MAX_PROC \<Longrightarrow> used s \<noteq> {..<MAX_PROC}"
  by (metis card_lessThan less_irrefl)

lemma exec_call_starts:
  assumes "calling c t p a pins s" "card (used s) < MAX_PROC" "exec_ok call"
  obtains ch s' where "exec_call c call s = Some (int ch, s')" "calling c t p a pins s'" "ch \<notin> used s" "ch \<noteq> p"
    "used s' = insert ch (used s)" "\<And>q. FIDT (PT s' q) = (if q = ch then FIDT (PT s p) else FIDT (PT s q))"
    "same_kinds s s'" "FCB_freelist s' = FCB_freelist s" "others_kept p s s'" "runs_call s' ch call"
proof -
  obtain task al ag na where call: "call = Exec (Some task) al ag" "copy_exec_args al ag = Some na" using assms(3) by (auto simp: exec_ok_def)
  obtain ch s' where e: "sys_Exec c (Some task) al ag s = Some (int ch, s')" "calling c t p a pins s'" "ch \<notin> used s" "ch < MAX_PROC"
    "used s' = insert ch (used s)" "\<And>q. FIDT (PT s' q) = (if q = ch then FIDT (PT s p) else FIDT (PT s q))"
    "same_kinds s s'" "FCB_freelist s' = FCB_freelist s"
    "\<And>q. proc_image (PT s' q) = (if q = ch then (Some task, al, na) else proc_image (PT s q))"
    by (rule Exec_starts [OF assms(1) used_room [OF assms(2)] call(2), of task]) blast
  have "p \<in> used s" using callingD(7,8) [OF assms(1)] by (simp add: used_def)
  then have "ch \<noteq> p" using e(3) by auto
  moreover have "FIDT (PT s' q) = FIDT (PT s q)" "proc_image (PT s' q) = proc_image (PT s q)" if "q \<in> used s" for q using that e(3,6,9) by auto
  then have "others_kept p s s'" using same_kindsD [OF e(7)] by (auto simp: others_kept_def e(5))
  moreover have "runs_call s' ch call" using call e(9) [of ch] by (simp add: runs_call_def)
  ultimately show ?thesis using e(1-8) that by (simp add: exec_call_def call(1))
qed

text \<open>The last fragment.\<close>

lemma pipeline_last:
  assumes "calling c t p a pins s" "saved_fids T savein saveout i out" "FIDT (PT s p) = shell_fids T savein saveout cur x"
    "x = out \<or> (\<exists>q k. (q, k) \<noteq> (p, 1) \<and> FIDT (PT s q) k = Some x)" "card (used s) < MAX_PROC" "exec_ok call"
  obtains ch s' where "pipeline_loop c savein saveout [call] s = Some ([int ch], s')" "calling c t p a pins s'"
    "FIDT (PT s' p) = T" "others_kept p s s'" "used s' = insert ch (used s)" "ch \<notin> used s" "wired s' cur out [ch]" "runs_call s' ch call"
proof -
  note ne = saved_fidsD [OF assms(2)]
  let ?A = "T(savein := T 0, 0 \<mapsto> cur, 1 \<mapsto> out)"
  have f: "FIDT (PT s p) saveout = Some out" "FIDT (PT s p) 1 = Some x" using ne by (simp_all add: assms(3) shell_fids_def)
  obtain s1 where s1: "move_fid c saveout 1 s = Some s1" "calling c t p a pins s1"
    "fids_become p ((FIDT (PT s p))(1 \<mapsto> out, saveout := None)) s s1"
    by (rule move_fid_moves [OF assms(1) f ne(4)]) (use assms(4) in auto)
  have T1: "FIDT (PT s1 p) = ?A"
    using s1(3) ne assms(2) by (auto simp: fids_become_def assms(3) shell_fids_def saved_fids_def fun_eq_iff)
  have u1: "used s1 = used s" using s1(3) by (simp add: fids_become_def)
  obtain ch s2 where s2: "exec_call c call s1 = Some (int ch, s2)" "calling c t p a pins s2" "ch \<notin> used s1" "ch \<noteq> p"
    "used s2 = insert ch (used s1)" "\<And>q. FIDT (PT s2 q) = (if q = ch then FIDT (PT s1 p) else FIDT (PT s1 q))" "others_kept p s1 s2" "runs_call s2 ch call"
    by (rule exec_call_starts [OF s1(2) _ assms(6)]) (use assms(5) u1 in auto)
  have T2: "FIDT (PT s2 p) = ?A" "FIDT (PT s2 ch) = ?A" using s2(4,6) T1 by simp_all
  have g: "FIDT (PT s2 p) savein = Some i" "FIDT (PT s2 p) 0 = Some cur" "FIDT (PT s2 ch) 0 = Some cur" using ne by (simp_all add: T2)
  obtain s3 where s3: "move_fid c savein 0 s2 = Some s3" "calling c t p a pins s3"
    "fids_become p ((FIDT (PT s2 p))(0 \<mapsto> i, savein := None)) s2 s3"
    by (rule move_fid_moves [OF s2(2) g(1,2) ne(1)]) (use g(3) s2(4) in auto)
  have "FIDT (PT s3 p) = T" using s3(3) ne assms(2) by (auto simp: fids_become_def T2 saved_fids_def fun_eq_iff)
  moreover have "FIDT (PT s3 ch) = ?A" "used s3 = used s2" using s3(3) s2(4) T2(2) by (simp_all add: fids_become_def)
  moreover have "others_kept p s s3"
    using others_kept_trans [OF others_kept_trans [OF become_others_kept [OF s1(3)] s2(7)] become_others_kept [OF s3(3)]] .
  moreover have "runs_call s3 ch call" using s2(8) s3(3) by (simp add: runs_call_def fids_become_def)
  ultimately show ?thesis using s1(1) s2(1-7) s3(1,2) u1 that by simp
qed

text \<open>A fragment that is not the last one.\<close>

lemma pipeline_step:
  assumes "calling c t p a pins s" "saved_fids T savein saveout i out" "FIDT (PT s p) = shell_fids T savein saveout cur x"
    "x = out \<or> (\<exists>q k. (q, k) \<noteq> (p, 1) \<and> FIDT (PT s q) k = Some x)" "card (used s) < MAX_PROC" "exec_ok call"
    "2 \<le> length (free_fids (FIDT (PT s p)) 0)" "2 \<le> length (FCB_freelist s)"
  obtains ch r w s' where
    "pipeline_loop c savein saveout (call # d # ds) s =
       do { (chs, s'') \<leftarrow> pipeline_loop c savein saveout (d # ds) s'; Some (int ch # chs, s'') }"
    "calling c t p a pins s'" "FIDT (PT s' p) = shell_fids T savein saveout r w" "others_kept p s s'" "used s' = insert ch (used s)"
    "ch \<notin> used s" "ch \<noteq> p" "FIDT (PT s' ch) 0 = Some cur" "FIDT (PT s' ch) 1 = Some w" "\<exists>k > 1. FIDT (PT s' ch) k = Some r"
    "pipe_ends s' r w" "length (FCB_freelist s') = length (FCB_freelist s) - 2" "runs_call s' ch call"
proof -
  note ne = saved_fidsD [OF assms(2)]
  let ?L = "shell_fids T savein saveout"
  obtain fr fw fids where ff: "free_fids (FIDT (PT s p)) 0 = fr # fw # fids"
    using assms(7) by (auto simp: numeral_2_eq_2 Suc_le_length_iff)
  obtain r w fl where fl: "FCB_freelist s = r # w # fl" using assms(8) by (auto simp: numeral_2_eq_2 Suc_le_length_iff)
  obtain s1 where s1: "sys_Pipe c s = Some ((0, Some (fr, fw)), s1)" "calling c t p a pins s1"
    "fids_become p ((FIDT (PT s p))(fr \<mapsto> r, fw \<mapsto> w)) s s1" "FCB_freelist s1 = fl" "pipe_ends s1 r w" "r \<noteq> w" "fr \<noteq> fw"
    "\<not> named s r" "\<not> named s w"
    by (rule Pipe_opens [OF assms(1) ff fl])
  have fresh: "?L cur x fr = None" "?L cur x fw = None"
    using in_free_fids [of fr "?L cur x"] in_free_fids [of fw "?L cur x"] ff by (simp_all add: assms(3))
  then have frw: "fr \<noteq> 0" "fr \<noteq> 1" "fw \<noteq> 0" "fw \<noteq> 1"
    unfolding shell_fids_def by (metis fun_upd_same fun_upd_other option.distinct(1))+
  have T1: "FIDT (PT s1 p) = (?L cur x)(fr \<mapsto> r, fw \<mapsto> w)" using s1(3) by (simp add: fids_become_def assms(3))
  have f1: "FIDT (PT s1 p) fw = Some w" "FIDT (PT s1 p) 1 = Some x" using frw by (simp_all add: T1 shell_fids_def)
  have share: "w = x \<or> (\<exists>q k. (q, k) \<noteq> (p, 1) \<and> FIDT (PT s1 q) k = Some x)"
  proof -
    have "\<exists>q k. (q, k) \<noteq> (p, 1) \<and> FIDT (PT s q) k = Some x"
      using assms(4) ne by (metis assms(3) shell_fids_def fun_upd_apply prod.inject)
    then obtain q k where q: "(q, k) \<noteq> (p, 1)" "FIDT (PT s q) k = Some x" by blast
    have "FIDT (PT s1 q) k = Some x"
    proof (cases "q = p")
      case True
      then have "k \<noteq> fr" "k \<noteq> fw" using q(2) fresh by (auto simp: assms(3))
      then show ?thesis using True q(2) by (simp add: T1 assms(3))
    qed (use s1(3) q(2) in \<open>simp add: fids_become_def\<close>)
    with q(1) show ?thesis by blast
  qed
  obtain s2 where s2: "move_fid c fw 1 s1 = Some s2" "calling c t p a pins s2"
    "fids_become p ((FIDT (PT s1 p))(1 \<mapsto> w, fw := None)) s1 s2" "FCB_freelist s2 = FCB_freelist s1"
    by (rule move_fid_moves [OF s1(2) f1 frw(4) share])
  let ?A = "(?L cur w)(fr \<mapsto> r)"
  have T2: "FIDT (PT s2 p) = ?A"
    using s2(3) s1(7) frw fresh by (auto simp: fids_become_def T1 shell_fids_def fun_eq_iff)
  have u: "used s1 = used s" "used s2 = used s" using s1(3) s2(3) by (simp_all add: fids_become_def)
  obtain ch s3 where s3: "exec_call c call s2 = Some (int ch, s3)" "calling c t p a pins s3" "ch \<notin> used s2" "ch \<noteq> p"
    "used s3 = insert ch (used s2)" "\<And>q. FIDT (PT s3 q) = (if q = ch then FIDT (PT s2 p) else FIDT (PT s2 q))"
    "same_kinds s2 s3" "FCB_freelist s3 = FCB_freelist s2" "others_kept p s2 s3" "runs_call s3 ch call"
    by (rule exec_call_starts [OF s2(2) _ assms(6)]) (use assms(5) u in auto)
  have T3: "FIDT (PT s3 p) = ?A" "FIDT (PT s3 ch) = ?A" using s3(4,6) T2 by simp_all
  have f3: "FIDT (PT s3 p) fr = Some r" "FIDT (PT s3 p) 0 = Some cur" "FIDT (PT s3 ch) 0 = Some cur"
    using frw by (simp_all add: T3 shell_fids_def)
  obtain s4 where s4: "move_fid c fr 0 s3 = Some s4" "calling c t p a pins s4"
    "fids_become p ((FIDT (PT s3 p))(0 \<mapsto> r, fr := None)) s3 s4" "FCB_freelist s4 = FCB_freelist s3"
    by (rule move_fid_moves [OF s3(2) f3(1,2) frw(1)]) (use f3(3) s3(4) in auto)
  have T4: "FIDT (PT s4 p) = ?L r w" using s4(3) frw fresh by (auto simp: fids_become_def T3 shell_fids_def fun_eq_iff)
  have C4: "FIDT (PT s4 ch) = ?A" "used s4 = used s3" using s4(3) s3(4) T3(2) by (simp_all add: fids_become_def)
  have nm: "named s1 r" "named s1 w" "named s2 r" "named s2 w" "named s3 r" "named s3 w"
    using T1 T2 T3 s1(7) frw unfolding named_def
    by (metis fun_upd_apply shell_fids_def)+
  have "same_kinds s1 s2" "same_kinds s3 s4" using s2(3) s4(3) by (simp_all add: fids_become_def)
  then have ends: "pipe_ends s4 r w"
    using pipe_ends_kept [OF pipe_ends_kept [OF pipe_ends_kept [OF s1(5) _ nm(1,2)] s3(7) nm(3,4)] _ nm(5,6)] by blast
  have kept: "others_kept p s s4"
    using become_others_kept [OF s1(3)] become_others_kept [OF s2(3)] s3(9) become_others_kept [OF s4(3)] others_kept_trans by metis
  have run: "pipeline_loop c savein saveout (call # d # ds) s =
      do { (chs, s'') \<leftarrow> pipeline_loop c savein saveout (d # ds) s4; Some (int ch # chs, s'') }"
    using s1(1) s2(1) s3(1) s4(1) by simp
  have "runs_call s4 ch call" using s3(10) s4(3) by (simp add: runs_call_def fids_become_def)
  moreover have "\<exists>k > 1. FIDT (PT s4 ch) k = Some r" using frw C4(1) by (intro exI [of _ fr]) simp
  moreover have "length (FCB_freelist s4) = length (FCB_freelist s) - 2" using s4(4) s3(8) s2(4) s1(4) fl by simp
  moreover have "FIDT (PT s4 ch) 0 = Some cur" "FIDT (PT s4 ch) 1 = Some w" using frw by (simp_all add: C4(1) shell_fids_def)
  moreover have "used s4 = insert ch (used s)" "ch \<notin> used s" using C4(2) s3(3,5) u by simp_all
  ultimately show ?thesis using that [OF run s4(2) T4 kept] s3(4) ends by blast
qed

lemma free_shell_fids: "free_fids (shell_fids T a b x y) 0 = free_fids (shell_fids T a b x' y') 0"
  unfolding free_fids_def shell_fids_def by (rule filter_cong) (simp_all add: fun_upd_apply)

text \<open>The wires of the children stay when the shell goes on.\<close>

lemma wired_head:
  assumes "FIDT (PT s ch) 0 = Some i" "FIDT (PT s ch) 1 = Some w" "\<exists>k > 1. FIDT (PT s ch) k = Some r" "pipe_ends s r w"
    "others_kept p s s'" "ch \<in> used s" "ch \<noteq> p" "wired s' r out chs" "chs \<noteq> []"
  shows "wired s' i out (ch # chs)"
proof -
  obtain k where k: "1 < k" "FIDT (PT s ch) k = Some r" using assms(3) by blast
  have T: "FIDT (PT s' ch) = FIDT (PT s ch)" using assms(5-7) by (simp add: others_kept_def)
  have "streamobj (FT s' f) = streamobj (FT s f) \<and> streamfunc (FT s' f) = streamfunc (FT s f)" if "FIDT (PT s ch) j = Some f" for j f
    using that assms(5-7) by (auto simp: others_kept_def)
  from this [OF k(2)] this [OF assms(2)] have "pipe_ends s' r w" using assms(4) by (simp add: pipe_ends_def)
  moreover obtain d ds where "chs = d # ds" using assms(9) by (cases chs) auto
  ultimately show ?thesis using assms(1,2,8) k T by auto
qed

lemma pipeline_ok:
  assumes "calling c t p a pins s" "saved_fids T savein saveout i out" "FIDT (PT s p) = shell_fids T savein saveout cur x"
    "x = out \<or> (\<exists>q k. (q, k) \<noteq> (p, 1) \<and> FIDT (PT s q) k = Some x)" "card (used s) + length calls \<le> MAX_PROC"
    "\<forall>call \<in> set calls. exec_ok call" "2 \<le> length (free_fids (shell_fids T savein saveout 0 0) 0)"
    "2 * (length calls - 1) \<le> length (FCB_freelist s)" "calls \<noteq> []"
  shows "\<exists>chs s'. pipeline_loop c savein saveout calls s = Some (map int chs, s') \<and> length chs = length calls \<and>
    calling c t p a pins s' \<and> FIDT (PT s' p) = T \<and> others_kept p s s' \<and> distinct chs \<and> set chs \<inter> used s = {} \<and>
    used s' = used s \<union> set chs \<and> wired s' cur out chs \<and> list_all2 (runs_call s') chs calls"
  using assms
proof (induction calls arbitrary: s cur x)
  case (Cons call calls)
  note H = Cons.prems and IH = Cons.IH
  have ok: "exec_ok call" "card (used s) < MAX_PROC" using H(5,6) by auto
  show ?case
  proof (cases calls)
    case Nil
    obtain ch s' where
      l: "pipeline_loop c savein saveout [call] s = Some ([int ch], s')" "calling c t p a pins s'"
      "FIDT (PT s' p) = T" "others_kept p s s'" "used s' = insert ch (used s)" "ch \<notin> used s" "wired s' cur out [ch]" "runs_call s' ch call"
      by (rule pipeline_last [OF H(1-4) ok(2,1)])
    show ?thesis by (rule exI [of _ "[ch]"], rule exI [of _ s']) (use l Nil in simp)
  next
    case (Cons d ds)
    have two: "2 \<le> length (free_fids (FIDT (PT s p)) 0)" "2 \<le> length (FCB_freelist s)"
      using H(7,8) Cons unfolding H(3) free_shell_fids [of T savein saveout cur x 0 0] by simp_all
    obtain ch r w s1 where
      run: "pipeline_loop c savein saveout (call # d # ds) s =
        do { (chs, s'') \<leftarrow> pipeline_loop c savein saveout (d # ds) s1; Some (int ch # chs, s'') }"
      and s1: "calling c t p a pins s1" "FIDT (PT s1 p) = shell_fids T savein saveout r w" "others_kept p s s1"
        "used s1 = insert ch (used s)"
      and ch: "ch \<notin> used s" "ch \<noteq> p" "FIDT (PT s1 ch) 0 = Some cur" "FIDT (PT s1 ch) 1 = Some w"
        "\<exists>k > 1. FIDT (PT s1 ch) k = Some r" "pipe_ends s1 r w"
      and fl: "length (FCB_freelist s1) = length (FCB_freelist s) - 2" "runs_call s1 ch call"
      by (rule pipeline_step [OF H(1-4) ok(2,1) two, of d ds])
    have "finite (used s)" by (simp add: used_def)
    then have room: "card (used s1) + length calls \<le> MAX_PROC" "2 * (length calls - 1) \<le> length (FCB_freelist s1)"
      using H(5,8) ch(1) Cons by (simp_all add: s1(4) fl(1))
    have "w = out \<or> (\<exists>q k. (q, k) \<noteq> (p, 1) \<and> FIDT (PT s1 q) k = Some w)" using ch(2,4) by blast
    from IH [OF s1(1) H(2) s1(2) this room(1) _ H(7) room(2)] H(6) Cons obtain chs s2 where
      I: "pipeline_loop c savein saveout calls s1 = Some (map int chs, s2)" "length chs = length calls" "calling c t p a pins s2"
      "FIDT (PT s2 p) = T" "others_kept p s1 s2" "distinct chs" "set chs \<inter> used s1 = {}" "used s2 = used s1 \<union> set chs"
      "wired s2 r out chs" "list_all2 (runs_call s2) chs calls" by auto
    have "wired s2 cur out (ch # chs)"
      by (rule wired_head [OF ch(3-6) I(5) _ ch(2) I(9)]) (use s1(4) I(2) Cons in auto)
    moreover have "runs_call s2 ch call" using fl(2) I(5) ch(2) s1(4) by (simp add: runs_call_def others_kept_def)
    ultimately show ?thesis
      using run I others_kept_trans [OF s1(3) I(5)] ch(1) s1(4) Cons
      by (intro exI [of _ "ch # chs"] exI [of _ s2]) auto
  qed
qed simp

section \<open>The whole line\<close>

lemma free_fids_upd: "free_fids (T(k \<mapsto> v)) 0 = filter (\<lambda>j. j \<noteq> k) (free_fids T 0)"
  by (auto simp: free_fids_def intro!: filter_cong)

lemma process_line_run_ok:
  assumes "calling c t p a pins s" "FIDT (PT s p) 0 = Some i" "FIDT (PT s p) 1 = Some out" "4 \<le> length (free_fids (FIDT (PT s p)) 0)"
    "0 < length (FCB_freelist s)" "2 * (length calls - 1) \<le> length (FCB_freelist s)" "card (used s) + length calls \<le> MAX_PROC"
    "0 < devnum s DEV_NULL" "\<forall>call \<in> set calls. exec_ok call" "calls \<noteq> []"
  shows "\<exists>chs s'. process_line_run c calls s = Some (map int chs, s') \<and> length chs = length calls \<and>
    calling c t p a pins s' \<and> FIDT (PT s' p) = FIDT (PT s p) \<and> others_kept p s s' \<and> distinct chs \<and> set chs \<inter> used s = {} \<and>
    used s' = used s \<union> set chs \<and> wired s' i out chs \<and> list_all2 (runs_call s') chs calls"
proof -
  let ?T = "FIDT (PT s p)"
  obtain savein saveout y z fids where ff: "free_fids ?T 0 = savein # saveout # y # z # fids"
    using assms(4) by (auto simp: numeral_eq_Suc Suc_le_length_iff)
  have dist: "distinct (free_fids ?T 0)" by (simp add: free_fids_def)
  have sv: "saved_fids ?T savein saveout i out"
    using in_free_fids [of savein ?T] in_free_fids [of saveout ?T] ff assms(2,3) dist by (simp add: saved_fids_def)
  note ne = saved_fidsD [OF sv]
  obtain s1 where s1: "savefid c 0 s = Some (savein, s1)" "calling c t p a pins s1" "fids_become p (?T(savein \<mapsto> i)) s s1"
    "length (FCB_freelist s1) = length (FCB_freelist s)"
    by (rule savefid_saves [OF assms(1,2) ff _ assms(8)]) (use assms(5) in auto)
  have T1: "FIDT (PT s1 p) = ?T(savein \<mapsto> i)" "devnum s1 = devnum s" "used s1 = used s" using s1(3) by (simp_all add: fids_become_def)
  have ff1: "free_fids (FIDT (PT s1 p)) 0 = saveout # y # z # fids" using dist ff unfolding T1 free_fids_upd by (auto simp: filter_id_conv)
  have f1: "FIDT (PT s1 p) 1 = Some out" "FCB_freelist s1 \<noteq> []" "0 < devnum s1 DEV_NULL" using assms(3,5,8) s1(4) T1 ne by auto
  obtain s2 where s2: "savefid c 1 s1 = Some (saveout, s2)" "calling c t p a pins s2" "fids_become p ((FIDT (PT s1 p))(saveout \<mapsto> out)) s1 s2"
    "length (FCB_freelist s2) = length (FCB_freelist s1)"
    by (rule savefid_saves [OF s1(2) f1(1) ff1 f1(2,3)])
  have T2: "FIDT (PT s2 p) = shell_fids ?T savein saveout i out" "used s2 = used s"
    using s2(3) T1 ne by (auto simp: fids_become_def shell_fids_def fun_eq_iff)
  have "shell_fids ?T savein saveout i out = (FIDT (PT s1 p))(saveout \<mapsto> out)" using T2(1) s2(3) by (simp add: fids_become_def)
  then have "free_fids (shell_fids ?T savein saveout 0 0) 0 = y # z # fids"
    using dist ff unfolding free_shell_fids [of ?T savein saveout 0 0 i out] by (auto simp: free_fids_upd ff1 filter_id_conv)
  then have "2 \<le> length (free_fids (shell_fids ?T savein saveout 0 0) 0)" by simp
  from pipeline_ok [OF s2(2) sv T2(1) _ _ assms(9) this _ assms(10)] assms(6,7) s1(4) s2(4) T2(2) obtain chs s' where
    l: "pipeline_loop c savein saveout calls s2 = Some (map int chs, s')" "length chs = length calls" "calling c t p a pins s'"
    "FIDT (PT s' p) = ?T" "others_kept p s2 s'" "distinct chs" "set chs \<inter> used s = {}" "used s' = used s \<union> set chs" "wired s' i out chs"
    "list_all2 (runs_call s') chs calls" by auto
  have "others_kept p s s'"
    using become_others_kept [OF s1(3)] become_others_kept [OF s2(3)] l(5) others_kept_trans by metis
  then show ?thesis using s1(1) s2(1) l by (intro exI [of _ chs] exI [of _ s']) (simp add: process_line_run_def)
qed

lemma Execute_exec_ok: "exec_ok (Execute ew prog argv m)"
proof -
  obtain call al ag where e: "Execute ew prog argv m = Exec call al ag" by (auto simp: Execute_def Let_def case_prod_beta)
  from Execute_buffer [OF this] obtain buf where "call = Some ew" "al = int (argvlen argv + sizeof_Program)" "ag = Some buf"
    "length buf = argvlen argv + sizeof_Program" by metis
  then show ?thesis by (simp add: e exec_ok_def copy_exec_args_def)
qed

lemma commands_ofD: "commands_of fs = Inr cs \<Longrightarrow> length cs = length fs \<and> [] \<notin> set fs"
  by (induction fs arbitrary: cs) (auto split: if_splits option.splits sum.splits)

lemma split_all_bars: "\<forall>a \<in> set argv. a = ''|'' \<Longrightarrow> [] \<in> set (split_bars argv)"
  by (cases argv) simp_all

lemma fragment_calls:
  assumes "list_all2 (\<lambda>f (n, a). frag_ok argv f n a) fs frags" "length cs = length fs"
  shows "map (fragment_call ew prog argv m) (zip cs frags) = map2 (\<lambda>c f. Execute ew (prog c) (map cbytes f) m) cs fs"
proof (rule nth_equalityI)
  fix j assume "j < length (map (fragment_call ew prog argv m) (zip cs frags))"
  then have j: "j < length frags" "j < length fs" "j < length cs" using list_all2_lengthD [OF assms(1)] assms(2) by simp_all
  obtain n a where na: "frags ! j = (n, a)" by (cases "frags ! j") auto
  then have "frag_ok argv (fs ! j) n a" using list_all2_nthD [OF assms(1) j(2)] by simp
  then have "take n (drop a argv) = fs ! j" by (cases "fs ! j = []") (auto simp: frag_ok_def)
  then show "map (fragment_call ew prog argv m) (zip cs frags) ! j = map2 (\<lambda>c f. Execute ew (prog c) (map cbytes f) m) cs fs ! j"
    using j na by (simp add: fragment_call_def)
qed (use list_all2_lengthD [OF assms(1)] assms(2) in simp)

text \<open>
  C35.  The pipeline of a line of the shell.  In any state of the system, reachable under the discipline \<open>waits_apart\<close>, in which the shell has its two
  standard streams, four more file ids, and the kernel has blocks and processes enough, a line whose
  fragments all have commands starts one new process per fragment.  Process \<open>j\<close> runs the program of
  fragment \<open>j\<close> on the words of the fragment.  The first one reads the standard input of the shell, the
  last one writes the standard output, and between neighbours there is a pipe, of which the writer also
  keeps the reading end open.  All processes that were there keep their file ids, the shell included.
\<close>

theorem process_line_pipeline:
  assumes "os_reachable waits_apart (s, pend)" "caller c t p a s" "argv \<noteq> []" "length g = length argv" "length g' = length argv"
    "commands_of (split_bars argv) = Inr cs" "FIDT (PT s p) 0 = Some i" "FIDT (PT s p) 1 = Some out"
    "4 \<le> length (free_fids (FIDT (PT s p)) 0)" "2 * length cs \<le> length (FCB_freelist s)"
    "card (used s) + length cs \<le> MAX_PROC" "0 < devnum s DEV_NULL"
  shows "\<exists>chs s'. process_line c ew prog argv g g' m s = Some (Inr (map int chs), s') \<and> distinct chs \<and> set chs \<inter> used s = {} \<and>
    used s' = used s \<union> set chs \<and> (\<forall>q \<in> used s. FIDT (PT s' q) = FIDT (PT s q)) \<and> wired s' i out chs \<and>
    list_all2 (runs_call s') chs (map2 (\<lambda>c f. Execute ew (prog c) (map cbytes f) m) cs (split_bars argv))"
proof -
  let ?calls = "map2 (\<lambda>c f. Execute ew (prog c) (map cbytes f) m) cs (split_bars argv)"
  note D = commands_ofD [OF assms(6)]
  then have nb: "\<not> (\<forall>a \<in> set argv. a = ''|'')" using split_all_bars by blast
  from process_line_parse_eq [OF assms(3-5)] obtain frags where
    fr: "list_all2 (\<lambda>f (n, a). frag_ok argv f n a) (split_bars argv) frags" "process_line_parse argv g g' = Some (Inr (zip cs frags))"
    unfolding if_not_P [OF nb] by (auto simp: assms(6))
  have calls: "map (fragment_call ew prog argv m) (zip cs frags) = ?calls" using fragment_calls [OF fr(1)] D by blast
  have c: "calling c t p a (pins_of pend) s" using os_reachableD(1) [OF assms(1)] assms(2) by (simp add: calling_def)
  have n: "length ?calls = length cs" "0 < length cs" using D by simp_all
  then have "?calls \<noteq> []" by (metis length_greater_0_conv)
  moreover have "\<forall>call \<in> set ?calls. exec_ok call" by (auto simp: Execute_exec_ok)
  moreover have "0 < length (FCB_freelist s)" "2 * (length ?calls - 1) \<le> length (FCB_freelist s)" "card (used s) + length ?calls \<le> MAX_PROC"
    using n assms(10,11) by linarith+
  ultimately obtain chs s' where l: "process_line_run c ?calls s = Some (map int chs, s')" "FIDT (PT s' p) = FIDT (PT s p)"
    "others_kept p s s'" "distinct chs" "set chs \<inter> used s = {}" "used s' = used s \<union> set chs" "wired s' i out chs"
    "list_all2 (runs_call s') chs ?calls"
    using process_line_run_ok [OF c assms(7-9)] assms(12) by meson
  have "FIDT (PT s' q) = FIDT (PT s q)" if "q \<in> used s" for q
    using that l(2,3) by (cases "q = p") (auto simp: others_kept_def)
  then show ?thesis using l fr(2) calls by (intro exI [of _ chs] exI [of _ s']) (simp add: process_line_def)
qed

text \<open>The initial task opens the null device twice.\<close>

lemma OpenNull_reachable:
  fixes s :: "'a kernel_scheme"
  assumes "os_reachable waits_apart (s, Map.empty)" "caller c t p a s" "free_fids (FIDT (PT s p)) 0 = fid # fids" "FCB_freelist s = f # fl"
    "0 < devnum s DEV_NULL"
  obtains s' :: "'a kernel_scheme" where "os_reachable waits_apart (s', Map.empty)" "caller c t p a s'" "FIDT (PT s' p) = (FIDT (PT s p))(fid \<mapsto> f)" "used s' = used s"
    "FCB_freelist s' = fl" "devnum s' = devnum s"
proof -
  have c: "calling c t p a (pins_of Map.empty) s" using os_reachableD(1) [OF assms(1)] assms(2) by (simp add: calling_def)
  note op = OpenNull_opens [OF c assms(3-5)]
  let ?s = "null_opened_at p fid f s"
  from op(1) have d: "dispatch c i OpenNull s = Some (Returned, ?s)" for i by (simp add: dispatch_def)
  have "system_step waits_apart (s, Map.empty) (?s, after a Returned Map.empty)"
    by (rule system_step.enter [OF assms(2) _ _ d]) (simp_all add: waits_apart_def)
  then have "os_reachable waits_apart (?s, Map.empty)" using os_reachable.step [OF assms(1)] by (simp add: after_def fun_upd_idem)
  moreover have "used ?s = used s" "FCB_freelist ?s = fl" "devnum ?s = devnum s"
    by (auto simp: used_def null_opened_at_def upd_fcb_def reserved_def assms(4))
  ultimately show ?thesis by (intro that [OF _ callingD(2) [OF op(2)] op(3)])
qed

lemma two_streams:
  "\<exists>(s :: kernel) t a. os_reachable waits_apart (s, Map.empty) \<and> caller 0 t 1 a s \<and> FIDT (PT s 1) = [0 \<mapsto> 0, 1 \<mapsto> 1] \<and> used s = {0, 1} \<and>
     FCB_freelist s = [2..<MAX_FILES] \<and> devnum s DEV_NULL = 1"
proof -
  obtain s :: kernel and t a where s: "os_reachable waits_apart (s, Map.empty)" "caller 0 t 1 a s" "init_ready s" using init_runs by blast
  have M: "0 < MAX_FILES" "1 < MAX_FILES" by (simp_all add: MAX_FILES_def MAX_PROC_def)
  have f: "FIDT (PT s 1) = (\<lambda>_. None)" "FCB_freelist s = 0 # 1 # [2..<MAX_FILES]" "devnum s DEV_NULL = 1" "used s = {0, 1}"
    using s(3) upt_conv_Cons [OF M(1)] upt_conv_Cons [OF M(2)] by (simp_all add: init_ready_def numeral_2_eq_2)
  have dv: "0 < devnum s DEV_NULL" by (simp add: f(3))
  have N: "0 < MAX_FILEID" "1 < MAX_FILEID" by (simp_all add: MAX_FILEID_def)
  have ids: "[0..<MAX_FILEID] = 0 # [1..<MAX_FILEID]" "[1..<MAX_FILEID] = 1 # [2..<MAX_FILEID]"
    by (metis One_nat_def upt_conv_Cons [OF N(1)]) (metis Suc_1 upt_conv_Cons [OF N(2)])
  have e: "free_fids (\<lambda>_. None) 0 = 0 # [1..<MAX_FILEID]" unfolding free_fids_def ids(1) by simp
  obtain s1 :: kernel where s1: "os_reachable waits_apart (s1, Map.empty)" "caller 0 t 1 a s1" "FIDT (PT s1 1) = (FIDT (PT s 1))(0 \<mapsto> 0)" "used s1 = used s"
    "FCB_freelist s1 = 1 # [2..<MAX_FILES]" "devnum s1 = devnum s"
    by (rule OpenNull_reachable [OF s(1,2) e [folded f(1)] f(2) dv])
  have "free_fids [0 \<mapsto> 0] 0 = 1 # filter (\<lambda>i. [0 \<mapsto> 0] i = None) [2..<MAX_FILEID]"
    unfolding free_fids_def ids by simp
  then have e1: "free_fids (FIDT (PT s1 1)) 0 = 1 # filter (\<lambda>i. [0 \<mapsto> 0] i = None) [2..<MAX_FILEID]" unfolding s1(3) f(1) .
  obtain s2 :: kernel where "os_reachable waits_apart (s2, Map.empty)" "caller 0 t 1 a s2" "FIDT (PT s2 1) = (FIDT (PT s1 1))(1 \<mapsto> 1)" "used s2 = used s1"
    "FCB_freelist s2 = [2..<MAX_FILES]" "devnum s2 = devnum s1"
    by (rule OpenNull_reachable [OF s1(1,2) e1 s1(5) dv [folded s1(6)]])
  then show ?thesis using s1 f by (intro exI [of _ s2] exI [of _ t] exI [of _ a]) simp
qed

theorem process_line_pipeline_witness:
  "\<exists>(s :: kernel) ch1 ch2 s'. os_reachable waits_apart (s, Map.empty) \<and>
     process_line 0 5 (\<lambda>c. 4096 + int c) [''echo'', ''a'', ''|'', ''wc''] [7, 7, 7, 7] [7, 7, 7, 7] (\<lambda>_. 0) s =
       Some (Inr [int ch1, int ch2], s') \<and> ch1 \<noteq> ch2 \<and> wired s' 0 1 [ch1, ch2] \<and>
     runs_call s' ch1 (Execute 5 4113 (map cbytes [''echo'', ''a'']) (\<lambda>_. 0)) \<and>
     runs_call s' ch2 (Execute 5 4105 (map cbytes [''wc'']) (\<lambda>_. 0))"
proof -
  let ?argv = "[''echo'', ''a'', ''|'', ''wc'']"
  obtain s :: kernel and t a where s: "os_reachable waits_apart (s, Map.empty)" "caller 0 t 1 a s" "FIDT (PT s 1) = [0 \<mapsto> 0, 1 \<mapsto> 1]"
    "used s = {0, 1}" "FCB_freelist s = [2..<MAX_FILES]" "devnum s DEV_NULL = 1" using two_streams by blast
  have sp: "split_bars ?argv = [[''echo'', ''a''], [''wc'']]" by simp
  have cs: "commands_of (split_bars ?argv) = Inr [17, 9]" by (simp add: commands_def)
  have "length (FCB_freelist s) = MAX_FILES - 2" by (simp add: s(5))
  then have fl: "length (FCB_freelist s) = 65534" by (simp add: MAX_FILES_def MAX_PROC_def)
  have ff: "length (free_fids [0 \<mapsto> 0, 1 \<mapsto> 1] 0) = 14" by code_simp
  have f: "FIDT (PT s 1) 0 = Some 0" "FIDT (PT s 1) 1 = Some 1" using s(3) by simp_all
  have r: "4 \<le> length (free_fids (FIDT (PT s 1)) 0)" "2 * length [17, 9 :: nat] \<le> length (FCB_freelist s)"
    "card (used s) + length [17, 9 :: nat] \<le> MAX_PROC" "0 < devnum s DEV_NULL"
    unfolding s(3,4,6) ff fl by (simp_all add: MAX_PROC_def)
  have g: "?argv \<noteq> []" "length [7, 7, 7, 7 :: nat] = length ?argv" by simp_all
  from process_line_pipeline [OF s(1,2) g(1,2,2) cs f r, of 5 "\<lambda>c. 4096 + int c" "\<lambda>_. 0"]
  obtain chs s' where l: "process_line 0 5 (\<lambda>c. 4096 + int c) ?argv [7, 7, 7, 7] [7, 7, 7, 7] (\<lambda>_. 0) s = Some (Inr (map int chs), s')"
    "distinct chs" "wired s' 0 1 chs"
    "list_all2 (runs_call s') chs [Execute 5 4113 (map cbytes [''echo'', ''a'']) (\<lambda>_. 0), Execute 5 4105 (map cbytes [''wc'']) (\<lambda>_. 0)]"
    unfolding sp by auto
  obtain ch1 ch2 where "chs = [ch1, ch2]" using l(4) by (auto simp: list_all2_Cons2)
  with s(1) l show ?thesis by (intro exI [of _ s] exI [of _ ch1] exI [of _ ch2] exI [of _ s']) simp
qed

end
