(* ===== verification/Remote.thy ===== *)
theory Remote
  imports Userlib Monitor
begin

text \<open>
  The request of the remote client of \<^verbatim>\<open>tinyos_shell.c\<close>: \<^verbatim>\<open>RemoteClient\<close> sends the length of the packed
  arguments and then the arguments, in as many calls of \<^verbatim>\<open>Write\<close> as the pipe of the connection takes, and
  shuts its direction down; \<^verbatim>\<open>rsrv_client\<close> receives both, in as many calls of \<^verbatim>\<open>Read\<close> as it needs, and unpacks
  the arguments.  The two threads run on the sockets of the kernel model.  A step is one call, from its start or
  from the point where it woke up, to its end or to the point where it sleeps; a thread that sleeps is in the
  ring of a condition variable of the pipe and goes on only when a broadcast has taken it from there.
\<close>

section \<open>The operations\<close>

text \<open>
  One turn of the loops of \<^verbatim>\<open>send_message\<close> and \<^verbatim>\<open>recv_message\<close>: the call has to wait, or the loop goes on with
  what has been sent or received so far, or it is left because the call has failed.  \<open>w\<close> is the condition variable
  on which the call has waited, if it is continued.
\<close>

datatype 'c turn = Wait cv_ref | Go 'c | Leave 'c

definition send_turn :: "nat \<Rightarrow> nat \<Rightarrow> cv_ref option \<Rightarrow> byte list \<Rightarrow> nat \<Rightarrow> 'a kernel_scheme \<Rightarrow> (nat turn \<times> 'a kernel_scheme) option" where
  "send_turn c sock w buf count s =
     do { (r, s1) \<leftarrow> (case w of None \<Rightarrow> socket_write c sock (drop count buf) s | Some cv \<Rightarrow> write_resume c cv (drop count buf) s);
          case r of
            Done rc \<Rightarrow> Some (if rc < 1 then Leave count else Go (count + nat rc), s1)
          | Block cv _ _ \<Rightarrow> Some (Wait cv, s1)
          | Yield _ \<Rightarrow> None }"

definition recv_turn :: "nat \<Rightarrow> nat \<Rightarrow> cv_ref option \<Rightarrow> nat \<Rightarrow> byte list \<Rightarrow> 'a kernel_scheme \<Rightarrow> (byte list turn \<times> 'a kernel_scheme) option" where
  "recv_turn c sock w len buf s =
     do { (r, s1) \<leftarrow> (case w of None \<Rightarrow> socket_read c sock (len - length buf) s
                         | Some cv \<Rightarrow> read_resume c cv (\<lambda>_. RAgain) (len - length buf) s);
          case r of
            Done (rc, bs) \<Rightarrow> Some (if rc < 1 then Leave buf else Go (buf @ bs), s1)
          | Block cv _ _ \<Rightarrow> Some (Wait cv, s1)
          | Yield _ \<Rightarrow> None }"

text \<open>
  The places of the two threads: the client inside its first or second \<^verbatim>\<open>send_message\<close>, before \<^verbatim>\<open>ShutDown\<close>, after it,
  or in \<^verbatim>\<open>Exit(1)\<close>; the server inside its first or second \<^verbatim>\<open>recv_message\<close>, after them, or at the label \<^verbatim>\<open>finish\<close>
  after a message that was not received.
\<close>

datatype party = Client | Server

datatype req_pc =
    Send_len nat | Send_args nat | Shut | Sent | Send_error
  | Recv_len "byte list" | Recv_args nat "byte list" | Received nat "byte list" | Recv_error

text \<open>The next place, by the condition of the loops and the assertion of \<^verbatim>\<open>rsrv_client\<close>.\<close>

definition sending_args :: "byte list \<Rightarrow> nat \<Rightarrow> req_pc" where
  "sending_args argb n = (if n < length argb then Send_args n else Shut)"

definition sending_len :: "byte list \<Rightarrow> nat \<Rightarrow> req_pc" where
  "sending_len argb n = (if n < 4 then Send_len n else sending_args argb 0)"

definition receiving_args :: "nat \<Rightarrow> byte list \<Rightarrow> req_pc" where
  "receiving_args al buf = (if length buf < al then Recv_args al buf else Received al buf)"

definition receiving_len :: "byte list \<Rightarrow> req_pc option" where
  "receiving_len buf =
     (if length buf < 4 then Some (Recv_len buf)
      else do { let al = signed_le buf;
                c_assert (al > 0 \<and> al \<le> 2048);
                Some (receiving_args (nat al) []) })"

text \<open>A step of a thread; the second component of the place is the condition variable on which its call waits.\<close>

type_synonym req_at = "req_pc \<times> cv_ref option"

definition RemoteClient_step :: "nat \<Rightarrow> nat \<Rightarrow> byte list \<Rightarrow> req_at \<Rightarrow> 'a kernel_scheme \<Rightarrow> (req_at \<times> 'a kernel_scheme) option" where
  "RemoteClient_step c sock argb pw s =
     (case pw of (pc, w) \<Rightarrow>
      case pc of
        Send_len n \<Rightarrow>
          do { (t, s1) \<leftarrow> send_turn c sock w (le_bytes 4 (int (length argb))) n s;
               Some (case t of Wait cv \<Rightarrow> (pc, Some cv) | Go m \<Rightarrow> (sending_len argb m, None) | Leave m \<Rightarrow> (Send_error, None), s1) }
      | Send_args n \<Rightarrow>
          do { (t, s1) \<leftarrow> send_turn c sock w argb n s;
               Some (case t of Wait cv \<Rightarrow> (pc, Some cv) | Go m \<Rightarrow> (sending_args argb m, None) | Leave m \<Rightarrow> (Send_error, None), s1) }
      | Shut \<Rightarrow>
          do { so \<leftarrow> sockets s sock;
               (_, wp) \<leftarrow> peer_s so;
               (_, s1) \<leftarrow> pipe_writer_close c wp s;
               Some ((Sent, None), s1) }
      | _ \<Rightarrow> Some ((pc, None), s))"

definition rsrv_client_step :: "nat \<Rightarrow> nat \<Rightarrow> req_at \<Rightarrow> 'a kernel_scheme \<Rightarrow> (req_at \<times> 'a kernel_scheme) option" where
  "rsrv_client_step c sock pw s =
     (case pw of (pc, w) \<Rightarrow>
      case pc of
        Recv_len buf \<Rightarrow>
          do { (t, s1) \<leftarrow> recv_turn c sock w 4 buf s;
               case t of
                 Wait cv \<Rightarrow> Some ((pc, Some cv), s1)
               | Go buf' \<Rightarrow> do { q \<leftarrow> receiving_len buf'; Some ((q, None), s1) }
               | Leave buf' \<Rightarrow> Some ((Recv_error, None), s1) }
      | Recv_args al buf \<Rightarrow>
          do { (t, s1) \<leftarrow> recv_turn c sock w al buf s;
               Some (case t of Wait cv \<Rightarrow> (pc, Some cv) | Go buf' \<Rightarrow> (receiving_args al buf', None) | Leave buf' \<Rightarrow> (Recv_error, None), s1) }
      | _ \<Rightarrow> Some ((pc, None), s))"

text \<open>What the client packs, and what the server unpacks; \<open>m\<close> is the memory around the buffers.\<close>

definition client_args :: "byte list list \<Rightarrow> mem \<Rightarrow> byte list" where
  "client_args argv m = get_bytes (fst (argvpack 0 argv m)) 0 (argvlen argv)"

definition rsrv_argv :: "nat \<Rightarrow> byte list \<Rightarrow> mem \<Rightarrow> (nat \<times> nat list) option" where
  "rsrv_argv al argb m =
     do { let argc = argscount (int al) 0 (buffer_mem argb m);
          (argv, _) \<leftarrow> argvunpack argc 0 (buffer_mem argb m);
          Some (argc, argv) }"

section \<open>The two threads\<close>

text \<open>
  The client has socket \<open>a\<close>, the server socket \<open>b\<close>; \<open>core\<close> and \<open>tid\<close> give the core that a thread runs on and its control
  block.  A call that blocks puts its thread at the end of the ring, as \<^verbatim>\<open>cv_wait\<close> does.
\<close>

definition wait_on :: "tcb_ref \<Rightarrow> cv_ref \<Rightarrow> 'a cc_scheme \<Rightarrow> 'a cc_scheme" where
  "wait_on t cv s = s\<lparr>waiter := (waiter s)(t := \<lparr>signalled = False, removed = False\<rparr>),
     waitset := (waitset s)(cv := waitset s cv @ [t])\<rparr>"

definition req_thread :: "(party \<Rightarrow> nat) \<Rightarrow> (party \<Rightarrow> tcb_ref) \<Rightarrow> nat \<Rightarrow> nat \<Rightarrow> byte list \<Rightarrow> party \<Rightarrow> req_at \<Rightarrow> 'a kernel_scheme \<Rightarrow>
    (req_at \<times> 'a kernel_scheme) option" where
  "req_thread core tid a b argb t pw s =
     do { ((q, w), s1) \<leftarrow> (case t of Client \<Rightarrow> RemoteClient_step (core Client) a argb pw s | Server \<Rightarrow> rsrv_client_step (core Server) b pw s);
          Some ((q, w), case w of None \<Rightarrow> s1 | Some cv \<Rightarrow> wait_on (tid t) cv s1) }"

definition req_over :: "req_pc \<Rightarrow> bool" where
  "req_over pc \<longleftrightarrow> (case pc of Sent \<Rightarrow> True | Send_error \<Rightarrow> True | Received _ _ \<Rightarrow> True | Recv_error \<Rightarrow> True | _ \<Rightarrow> False)"

text \<open>A thread is ready if it is not at the end and is not in the ring of the condition variable on which its call waits.\<close>

definition in_wait :: "(party \<Rightarrow> tcb_ref) \<Rightarrow> party \<Rightarrow> (party, req_at, 'a kernel_scheme) mstate \<Rightarrow> bool" where
  "in_wait tid t T = (case snd (fst T t) of None \<Rightarrow> False | Some cv \<Rightarrow> tid t \<in> set (waitset (snd T) cv))"

definition req_ready :: "(party \<Rightarrow> tcb_ref) \<Rightarrow> party \<Rightarrow> (party, req_at, 'a kernel_scheme) mstate \<Rightarrow> bool" where
  "req_ready tid t T \<longleftrightarrow> \<not> req_over (fst (fst T t)) \<and> \<not> in_wait tid t T"

inductive req_step :: "(party \<Rightarrow> nat) \<Rightarrow> (party \<Rightarrow> tcb_ref) \<Rightarrow> nat \<Rightarrow> nat \<Rightarrow> byte list \<Rightarrow> (party, req_at, 'a kernel_scheme) mstate \<Rightarrow>
    (party, req_at, 'a kernel_scheme) mstate \<Rightarrow> bool" for core tid a b argb where
  "req_ready tid t (pc, s) \<Longrightarrow> req_thread core tid a b argb t (pc t) s = Some (q, s') \<Longrightarrow>
     req_step core tid a b argb (pc, s) (pc(t := q), s')"

inductive_simps req_step_iff: "req_step core tid a b argb (pc, s) T"

definition req_start :: "party \<Rightarrow> req_at" where
  "req_start t = (case t of Client \<Rightarrow> (Send_len 0, None) | Server \<Rightarrow> (Recv_len [], None))"

section \<open>The invariant\<close>

text \<open>The pipe \<open>q\<close> at \<open>p\<close> from socket \<open>a\<close> to socket \<open>b\<close>, with its reading end open.\<close>

definition channel :: "nat set \<Rightarrow> nat \<Rightarrow> nat \<Rightarrow> nat \<Rightarrow> 'a kernel_scheme \<Rightarrow> Pipe_CB \<Rightarrow> bool" where
  "channel sw a b p s q \<longleftrightarrow> quiet sw s \<and> pipe_inv q \<and> reader q \<noteq> None \<and> pipes s p = Some q \<and>
     (\<exists>sa sb. sockets s a = Some sa \<and> sockets s b = Some sb \<and> sock_type sa = SOCKET_PEER \<and> sock_type sb = SOCKET_PEER \<and>
        write_pipe sa = Some p \<and> read_pipe sb = Some p)"

lemma connected_channel: "connected a b s \<Longrightarrow> quiet sw s \<Longrightarrow> \<exists>p q. channel sw a b p s q \<and> writer q \<noteq> None \<and> pipe_contents q = []"
  unfolding connected_def channel_def by auto

text \<open>A completed operation changes the pipe, and wakes up who waits on a condition variable.\<close>

definition wakes :: "cv_ref \<Rightarrow> 'a kernel_scheme \<Rightarrow> 'a kernel_scheme \<Rightarrow> bool" where
  "wakes cv s s' \<longleftrightarrow> waitset s' = (waitset s)(cv := []) \<and> (\<forall>t. tcbs s t \<noteq> None \<longrightarrow> tcbs s' t \<noteq> None)"

lemma channel_only:
  assumes "channel sw a b p s q" "pipe_only p q' s s'" "quiet sw s'" "pipe_inv q'" "reader q' \<noteq> None"
  shows "channel sw a b p s' q'"
proof -
  have "sockets s' = sockets s"
    using assms(2) more_kernel(8) [of s' "s\<lparr>pipes := (pipes s)(p \<mapsto> q')\<rparr>"] by (simp add: pipe_only_def kframe_def)
  moreover have "pipes s' p = Some q'" using pipe_only_pipes [OF assms(2)] by simp
  ultimately show ?thesis using assms by (auto simp: channel_def)
qed

lemma woken_wakes:
  assumes "woken cv s s'" "pipe_only p q' s s'"
  shows "wakes cv s s'"
proof -
  have "map_option owner_pcb (tcbs s' t) = map_option owner_pcb (tcbs s t)" for t
    using assms(2) by (simp add: pipe_only_def kframe_def)
  then have "tcbs s' t = None \<longleftrightarrow> tcbs s t = None" for t by (metis option.map_disc_iff)
  then show ?thesis using assms(1) by (simp add: wakes_def woken_def)
qed

text \<open>One turn on a channel.\<close>

lemma send_turn_ok:
  assumes "channel sw a b p s q" "writer q \<noteq> None" "n < length buf" "w = None \<or> w = Some (has_space p)"
  shows "send_turn c a w buf n s = Some (Wait (has_space p), s) \<and> used_space q = PIPE_BUFFER_SIZE \<or>
    (\<exists>k q' s'. 0 < k \<and> n + k \<le> length buf \<and> send_turn c a w buf n s = Some (Go (n + k), s') \<and> channel sw a b p s' q' \<and> writer q' \<noteq> None \<and>
       pipe_contents q' = pipe_contents q @ take k (drop n buf) \<and> wakes (has_data p) s s')"
proof -
  have p: "pipes s p = Some q" "quiet sw s" "pipe_inv q" "reader q \<noteq> None" using assms(1) by (auto simp: channel_def)
  have w: "(case w of None \<Rightarrow> socket_write c a (drop n buf) s | Some cv \<Rightarrow> write_resume c cv (drop n buf) s) = pipe_write_loop c p (drop n buf) s"
    using assms(1,2,4) by (auto simp: channel_def socket_write_def pipe_write_def write_resume_def)
  show ?thesis
  proof (cases "used_space q = PIPE_BUFFER_SIZE")
    case True
    then have "pipe_write_loop c p (drop n buf) s = Some (Block (has_space p) SCHED_PIPE NO_TIMEOUT, s)"
      using p by (simp add: pipe_write_loop_def)
    then show ?thesis using True by (simp add: send_turn_def w)
  next
    case False
    let ?k = "min (length (drop n buf)) (PIPE_BUFFER_SIZE - used_space q)"
    from False have "used_space q < PIPE_BUFFER_SIZE" using p(3) by (simp add: pipe_inv_def)
    from pipe_write_copies [OF p(2,1,3,4) this, of c "drop n buf"] obtain q' s' where
      e: "pipe_write_loop c p (drop n buf) s = Some (Done (int ?k), s')" "pipe_inv q'"
      "pipe_contents q' = pipe_contents q @ take ?k (drop n buf)" "reader q' = reader q" "writer q' = writer q" "pipe_only p q' s s'"
      "woken (has_data p) s s'" "quiet sw s'" by blast
    have k: "0 < ?k" "n + ?k \<le> length buf" using assms(3) \<open>used_space q < PIPE_BUFFER_SIZE\<close> by auto
    then have "send_turn c a w buf n s = Some (Go (n + ?k), s')" using e(1) by (simp add: send_turn_def w)
    moreover have "channel sw a b p s' q'" using channel_only [OF assms(1) e(6,8,2)] e(4) p(4) by simp
    ultimately show ?thesis using k e(3,5) assms(2) woken_wakes [OF e(7,6)] by metis
  qed
qed

lemma recv_turn_ok:
  assumes "channel sw a b p s q" "length buf < len" "w = None \<or> w = Some (has_data p)"
  shows "recv_turn c b w len buf s = Some (Wait (has_data p), s) \<and> used_space q = 0 \<and> writer q \<noteq> None \<or>
    used_space q = 0 \<and> writer q = None \<or>
    (\<exists>bs q' s'. 0 < length bs \<and> length buf + length bs \<le> len \<and> recv_turn c b w len buf s = Some (Go (buf @ bs), s') \<and>
       channel sw a b p s' q' \<and> writer q' = writer q \<and> pipe_contents q = bs @ pipe_contents q' \<and> wakes (has_space p) s s')"
proof -
  have p: "pipes s p = Some q" "quiet sw s" "pipe_inv q" "reader q \<noteq> None" using assms(1) by (auto simp: channel_def)
  let ?n = "len - length buf"
  have r: "(case w of None \<Rightarrow> socket_read c b ?n s | Some cv \<Rightarrow> read_resume c cv (\<lambda>_. RAgain) ?n s) = pipe_read_loop c p ?n s"
    using assms(1,3) by (auto simp: channel_def socket_read_def pipe_read_def read_resume_def)
  consider "used_space q = 0" "writer q \<noteq> None" | "used_space q = 0" "writer q = None" | "used_space q > 0" by blast
  then show ?thesis
  proof cases
    case 1
    then have "pipe_read_loop c p ?n s = Some (Block (has_data p) SCHED_PIPE NO_TIMEOUT, s)"
      using p by (simp add: pipe_read_loop_def)
    then show ?thesis using 1 by (simp add: recv_turn_def r)
  next
    case 3
    then have "used_space q > 0 \<or> writer q = None" by simp
    from pipe_read_copies [OF p(2,1,3) this, of c ?n] obtain q' s' where
      e: "pipe_read_loop c p ?n s = Some (Done (int (min ?n (used_space q)), take ?n (pipe_contents q)), s')" "pipe_inv q'"
      "pipe_contents q' = drop ?n (pipe_contents q)" "reader q' = reader q" "writer q' = writer q" "pipe_only p q' s s'"
      "woken (has_space p) s s'" "quiet sw s'" by blast
    let ?bs = "take ?n (pipe_contents q)"
    have l: "0 < length ?bs" "length buf + length ?bs \<le> len" using 3 assms(2) by auto
    have "recv_turn c b w len buf s = Some (Go (buf @ ?bs), s')" using e(1) 3 assms(2) by (simp add: recv_turn_def r)
    moreover have "channel sw a b p s' q'" using channel_only [OF assms(1) e(6,8,2)] e(4) p(4) by simp
    moreover have "pipe_contents q = ?bs @ pipe_contents q'" by (simp add: e(3))
    ultimately show ?thesis using l e(5) woken_wakes [OF e(7,6)] by blast
  qed blast
qed

text \<open>The bytes of a request, how many of them the client has sent, and which the server has received.\<close>

definition req_msg :: "byte list \<Rightarrow> byte list" where
  "req_msg argb = le_bytes 4 (int (length argb)) @ argb"

definition sent_bytes :: "byte list \<Rightarrow> req_pc \<Rightarrow> nat" where
  "sent_bytes argb pc = (case pc of Send_len n \<Rightarrow> n | Send_args n \<Rightarrow> 4 + n | _ \<Rightarrow> 4 + length argb)"

definition got_bytes :: "req_pc \<Rightarrow> byte list" where
  "got_bytes pc = (case pc of Recv_len buf \<Rightarrow> buf | Recv_args l buf \<Rightarrow> le_bytes 4 (int l) @ buf | Received l buf \<Rightarrow> le_bytes 4 (int l) @ buf | _ \<Rightarrow> [])"

definition client_at :: "byte list \<Rightarrow> req_pc \<Rightarrow> bool" where
  "client_at argb pc \<longleftrightarrow> (case pc of Send_len n \<Rightarrow> n < 4 | Send_args n \<Rightarrow> n < length argb | Shut \<Rightarrow> True | Sent \<Rightarrow> True | _ \<Rightarrow> False)"

definition server_at :: "byte list \<Rightarrow> req_pc \<Rightarrow> bool" where
  "server_at argb pc \<longleftrightarrow> (case pc of Recv_len buf \<Rightarrow> length buf < 4 | Recv_args l buf \<Rightarrow> l = length argb \<and> length buf < l
     | Received l buf \<Rightarrow> l = length argb \<and> length buf = l | _ \<Rightarrow> False)"

text \<open>What the server has and what is in the pipe is what the client has sent.\<close>

definition data_inv :: "nat set \<Rightarrow> nat \<Rightarrow> nat \<Rightarrow> nat \<Rightarrow> byte list \<Rightarrow> req_pc \<Rightarrow> req_pc \<Rightarrow> 'a kernel_scheme \<Rightarrow> Pipe_CB \<Rightarrow> bool" where
  "data_inv sw a b p argb cp sp s q \<longleftrightarrow> client_at argb cp \<and> server_at argb sp \<and> channel sw a b p s q \<and> (writer q = None \<longleftrightarrow> cp = Sent) \<and>
     got_bytes sp @ pipe_contents q = take (sent_bytes argb cp) (req_msg argb)"

definition client_left :: "byte list \<Rightarrow> req_pc \<Rightarrow> nat" where
  "client_left argb pc = (if pc = Sent then 0 else 1 + (4 + length argb - sent_bytes argb pc))"

definition server_left :: "byte list \<Rightarrow> req_pc \<Rightarrow> nat" where
  "server_left argb pc = 4 + length argb - length (got_bytes pc)"

lemma length_req_msg [simp]: "length (req_msg argb) = 4 + length argb"
  by (simp add: req_msg_def)

lemma sending_places:
  assumes "0 < length argb"
  shows "n \<le> 4 \<Longrightarrow> client_at argb (sending_len argb n) \<and> sent_bytes argb (sending_len argb n) = n \<and> sending_len argb n \<noteq> Sent"
    "m \<le> length argb \<Longrightarrow> client_at argb (sending_args argb m) \<and> sent_bytes argb (sending_args argb m) = 4 + m \<and> sending_args argb m \<noteq> Sent"
  using assms by (auto simp: sending_len_def sending_args_def client_at_def sent_bytes_def)

lemma sent_on:
  assumes "data_inv sw a b p argb cp sp s q" "channel sw a b p s' q'" "writer q' \<noteq> None"
    "pipe_contents q' = pipe_contents q @ take k (drop (sent_bytes argb cp) (req_msg argb))" "0 < k"
    "client_at argb x" "sent_bytes argb x = sent_bytes argb cp + k" "x \<noteq> Sent" "sent_bytes argb x \<le> 4 + length argb"
  shows "data_inv sw a b p argb x sp s' q'" "client_left argb x < client_left argb cp \<or> cp = Sent"
proof -
  have "got_bytes sp @ pipe_contents q' = take (sent_bytes argb x) (req_msg argb)"
    using assms(1,7,9) by (simp add: data_inv_def assms(4) take_add flip: append_assoc)
  then show "data_inv sw a b p argb x sp s' q'" using assms by (auto simp: data_inv_def)
  show "client_left argb x < client_left argb cp \<or> cp = Sent" using assms(5,7-9) by (auto simp: client_left_def)
qed

text \<open>A turn inside a message: \<open>place m\<close> is the place of the client when \<open>m\<close> bytes of the message are sent.\<close>

lemma client_sends:
  assumes "data_inv sw a b p argb cp sp s q" "cp \<noteq> Sent" "n < length buf" "w = None \<or> w = Some (has_space p)"
    "\<And>k. n + k \<le> length buf \<Longrightarrow> take k (drop n buf) = take k (drop (sent_bytes argb cp) (req_msg argb)) \<and>
       client_at argb (place (n + k)) \<and> sent_bytes argb (place (n + k)) = sent_bytes argb cp + k \<and> place (n + k) \<noteq> Sent \<and>
       sent_bytes argb (place (n + k)) \<le> 4 + length argb"
  shows "send_turn c a w buf n s = Some (Wait (has_space p), s) \<and> used_space q = PIPE_BUFFER_SIZE \<or>
    (\<exists>m s' q'. send_turn c a w buf n s = Some (Go m, s') \<and> data_inv sw a b p argb (place m) sp s' q' \<and> wakes (has_data p) s s' \<and>
       client_left argb (place m) < client_left argb cp)"
proof -
  have q: "channel sw a b p s q" "writer q \<noteq> None" using assms(1,2) by (auto simp: data_inv_def)
  from send_turn_ok [OF q assms(3,4), of c] show ?thesis
  proof (elim disjE exE conjE)
    fix k q' s' assume k: "0 < k" "n + k \<le> length buf" "send_turn c a w buf n s = Some (Go (n + k), s')" "channel sw a b p s' q'"
      "writer q' \<noteq> None" "pipe_contents q' = pipe_contents q @ take k (drop n buf)" "wakes (has_data p) s s'"
    note pl = assms(5) [OF k(2)]
    then have on: "pipe_contents q' = pipe_contents q @ take k (drop (sent_bytes argb cp) (req_msg argb))" using k(6) by simp
    have "data_inv sw a b p argb (place (n + k)) sp s' q'" "client_left argb (place (n + k)) < client_left argb cp"
      using sent_on [OF assms(1) k(4,5) on k(1), of "place (n + k)"] pl assms(2) by blast+
    then show ?thesis using k(3,7) by blast
  qed auto
qed

lemma client_shuts:
  assumes "data_inv sw a b p argb Shut sp s q"
  shows "\<exists>s' q'. RemoteClient_step c a argb (Shut, w) s = Some ((Sent, None), s') \<and> data_inv sw a b p argb Sent sp s' q' \<and> wakes (has_data p) s s'"
proof -
  have ch: "channel sw a b p s q" using assms by (simp add: data_inv_def)
  then have p: "pipes s p = Some q" "quiet sw s" "pipe_inv q" "reader q \<noteq> None" by (auto simp: channel_def)
  from pipe_writer_close_effect [OF p(2,1), of c] p(4) obtain s' where
    e: "pipe_writer_close c (Some p) s = Some (0, s')" "quiet sw s'" "pipe_only p (q\<lparr>writer := None\<rparr>) s s'" "woken (has_data p) s s'" by auto
  have same: "pipe_inv (q\<lparr>writer := None\<rparr>)" "pipe_contents (q\<lparr>writer := None\<rparr>) = pipe_contents q"
    using p(3) by (simp_all add: pipe_inv_def pipe_contents_def)
  have "channel sw a b p s' (q\<lparr>writer := None\<rparr>)" using channel_only [OF ch e(3,2) same(1)] p(4) by simp
  then have "data_inv sw a b p argb Sent sp s' (q\<lparr>writer := None\<rparr>)"
    using assms same(2) by (auto simp: data_inv_def client_at_def sent_bytes_def)
  moreover have "RemoteClient_step c a argb (Shut, w) s = Some ((Sent, None), s')"
    using e(1) ch by (auto simp: RemoteClient_step_def channel_def peer_s_def)
  ultimately show ?thesis using woken_wakes [OF e(4,3)] by blast
qed

lemma client_turn:
  assumes "data_inv sw a b p argb cp sp s q" "0 < length argb" "\<not> req_over cp" "w = None \<or> w = Some (has_space p)"
  shows "RemoteClient_step c a argb (cp, w) s = Some ((cp, Some (has_space p)), s) \<and> used_space q = PIPE_BUFFER_SIZE \<or>
    (\<exists>x s' q'. RemoteClient_step c a argb (cp, w) s = Some ((x, None), s') \<and> data_inv sw a b p argb x sp s' q' \<and> wakes (has_data p) s s' \<and>
       client_left argb x < client_left argb cp)"
proof (cases cp)
  case (Send_len n)
  let ?buf = "le_bytes 4 (int (length argb))"
  have "n < 4" using assms(1) by (simp add: data_inv_def client_at_def Send_len)
  then have "send_turn c a w ?buf n s = Some (Wait (has_space p), s) \<and> used_space q = PIPE_BUFFER_SIZE \<or>
      (\<exists>m s' q'. send_turn c a w ?buf n s = Some (Go m, s') \<and> data_inv sw a b p argb (sending_len argb m) sp s' q' \<and> wakes (has_data p) s s' \<and>
       client_left argb (sending_len argb m) < client_left argb cp)"
    using sending_places(1) [OF assms(2)]
    by (intro client_sends [OF assms(1)]) (use assms(4) in \<open>auto simp: Send_len sent_bytes_def [of argb "Send_len n"] req_msg_def\<close>)
  then show ?thesis by (auto simp: RemoteClient_step_def Send_len)
next
  case (Send_args n)
  have "n < length argb" using assms(1) by (simp add: data_inv_def client_at_def Send_args)
  then have "send_turn c a w argb n s = Some (Wait (has_space p), s) \<and> used_space q = PIPE_BUFFER_SIZE \<or>
      (\<exists>m s' q'. send_turn c a w argb n s = Some (Go m, s') \<and> data_inv sw a b p argb (sending_args argb m) sp s' q' \<and> wakes (has_data p) s s' \<and>
       client_left argb (sending_args argb m) < client_left argb cp)"
    using sending_places(2) [OF assms(2)]
    by (intro client_sends [OF assms(1)]) (use assms(4) in \<open>auto simp: Send_args sent_bytes_def [of argb "Send_args n"] req_msg_def\<close>)
  then show ?thesis by (auto simp: RemoteClient_step_def Send_args)
next
  case Shut
  then show ?thesis using client_shuts [of sw a b p argb sp s q c w] assms(1) by (auto simp: client_left_def)
qed (use assms in \<open>simp_all add: req_over_def data_inv_def client_at_def\<close>)

lemma receiving_place:
  assumes "0 < length argb" "length argb \<le> 2048" "buf = take (length buf) (req_msg argb)" "length buf \<le> 4"
  shows "\<exists>x. receiving_len buf = Some x \<and> server_at argb x \<and> got_bytes x = buf"
proof (cases "length buf < 4")
  case False
  then have l: "length buf = 4" using assms(4) by simp
  then have b: "buf = le_bytes 4 (int (length argb))" using assms(3) by (simp add: req_msg_def)
  then have "signed_le buf = int (length argb)" using signed_le_bytes [of 4 "int (length argb)"] assms(2) by simp
  then have "receiving_len buf = Some (Recv_args (length argb) [])"
    using assms(1,2) l by (simp add: receiving_len_def receiving_args_def Let_def)
  then show ?thesis using assms(1) b by (auto simp: server_at_def got_bytes_def)
qed (auto simp: receiving_len_def server_at_def got_bytes_def)

lemma got_on:
  assumes "data_inv sw a b p argb cp sp s q" "channel sw a b p s' q'" "writer q' = writer q"
    "pipe_contents q = bs @ pipe_contents q'" "0 < length bs"
  shows "got_bytes sp @ bs = take (length (got_bytes sp @ bs)) (req_msg argb)"
    "server_at argb x \<Longrightarrow> got_bytes x = got_bytes sp @ bs \<Longrightarrow>
       data_inv sw a b p argb cp x s' q' \<and> server_left argb x < server_left argb sp"
proof -
  let ?n = "sent_bytes argb cp" and ?g = "got_bytes sp @ bs"
  have g: "?g @ pipe_contents q' = take ?n (req_msg argb)" using assms(1,4) by (simp add: data_inv_def)
  have le: "length ?g \<le> ?n" "length ?g \<le> 4 + length argb" using arg_cong [OF g, of length] by simp_all
  then show "?g = take (length ?g) (req_msg argb)" using arg_cong [OF g, of "take (length ?g)"] by (simp add: min_def)
  show "data_inv sw a b p argb cp x s' q' \<and> server_left argb x < server_left argb sp"
    if "server_at argb x" "got_bytes x = ?g"
  proof
    show "data_inv sw a b p argb cp x s' q'" using that g assms(1-3) by (auto simp: data_inv_def)
    show "server_left argb x < server_left argb sp"
      using assms(5) le(2) unfolding server_left_def that(2) length_append by linarith
  qed
qed

text \<open>A turn inside a message; the end of the stream is not reached before the end of the message.\<close>

lemma server_receives:
  assumes "data_inv sw a b p argb cp sp s q" "length (got_bytes sp) < 4 + length argb" "length buf < len" "w = None \<or> w = Some (has_data p)"
  shows "recv_turn c b w len buf s = Some (Wait (has_data p), s) \<and> used_space q = 0 \<and> writer q \<noteq> None \<or>
    (\<exists>bs s' q'. length buf + length bs \<le> len \<and> recv_turn c b w len buf s = Some (Go (buf @ bs), s') \<and> wakes (has_space p) s s' \<and>
       got_bytes sp @ bs = take (length (got_bytes sp @ bs)) (req_msg argb) \<and>
       (\<forall>x. server_at argb x \<and> got_bytes x = got_bytes sp @ bs \<longrightarrow>
          data_inv sw a b p argb cp x s' q' \<and> server_left argb x < server_left argb sp))"
proof -
  have q: "channel sw a b p s q" "writer q = None \<longleftrightarrow> cp = Sent" "got_bytes sp @ pipe_contents q = take (sent_bytes argb cp) (req_msg argb)"
    using assms(1) by (auto simp: data_inv_def)
  have more: "\<not> (used_space q = 0 \<and> writer q = None)"
  proof
    assume "used_space q = 0 \<and> writer q = None"
    then have e: "pipe_contents q = []" "cp = Sent" using q(2) by simp_all
    have "got_bytes sp = req_msg argb" using q(3) unfolding e by (simp add: sent_bytes_def)
    then show False using assms(2) by simp
  qed
  from recv_turn_ok [OF q(1) assms(3,4), of c] show ?thesis
  proof (elim disjE exE)
    fix bs q' s' assume k: "0 < length bs \<and> length buf + length bs \<le> len \<and> recv_turn c b w len buf s = Some (Go (buf @ bs), s') \<and>
       channel sw a b p s' q' \<and> writer q' = writer q \<and> pipe_contents q = bs @ pipe_contents q' \<and> wakes (has_space p) s s'"
    then have k': "channel sw a b p s' q'" "writer q' = writer q" "pipe_contents q = bs @ pipe_contents q'" "0 < length bs" by blast+
    note on = got_on [OF assms(1) k']
    then show ?thesis using k by (intro disjI2 exI [of _ bs] exI [of _ s'] exI [of _ q']) blast
  qed (use more in auto)
qed

lemma server_turn:
  assumes "data_inv sw a b p argb cp sp s q" "0 < length argb" "length argb \<le> 2048" "\<not> req_over sp" "w = None \<or> w = Some (has_data p)"
  shows "rsrv_client_step c b (sp, w) s = Some ((sp, Some (has_data p)), s) \<and> used_space q = 0 \<and> writer q \<noteq> None \<or>
    (\<exists>x s' q'. rsrv_client_step c b (sp, w) s = Some ((x, None), s') \<and> data_inv sw a b p argb cp x s' q' \<and> wakes (has_space p) s s' \<and>
       server_left argb x < server_left argb sp)"
proof -
  have at: "server_at argb sp" using assms(1) by (simp add: data_inv_def)
  then have short: "length (got_bytes sp) < 4 + length argb"
    using assms(4) by (cases sp) (auto simp: server_at_def got_bytes_def req_over_def)
  show ?thesis
  proof (cases sp)
    case (Recv_len buf)
    have "length buf < 4" using at by (simp add: server_at_def Recv_len)
    from server_receives [OF assms(1) short this assms(5), of c] show ?thesis
    proof (elim disjE exE conjE)
      fix bs s' q' assume k: "length buf + length bs \<le> 4" "recv_turn c b w 4 buf s = Some (Go (buf @ bs), s')" "wakes (has_space p) s s'"
        "got_bytes sp @ bs = take (length (got_bytes sp @ bs)) (req_msg argb)"
        "\<forall>x. server_at argb x \<and> got_bytes x = got_bytes sp @ bs \<longrightarrow>
          data_inv sw a b p argb cp x s' q' \<and> server_left argb x < server_left argb sp"
      then obtain x where "receiving_len (buf @ bs) = Some x" "server_at argb x" "got_bytes x = buf @ bs"
        using receiving_place [OF assms(2,3), of "buf @ bs"] by (auto simp: got_bytes_def Recv_len)
      then show ?thesis using k(2,3,5) by (auto simp: rsrv_client_step_def got_bytes_def Recv_len)
    qed (auto simp: rsrv_client_step_def Recv_len)
  next
    case (Recv_args l buf)
    have l: "length buf < l" "l = length argb" using at by (simp_all add: server_at_def Recv_args)
    from server_receives [OF assms(1) short l(1) assms(5), of c] show ?thesis
    proof (elim disjE exE conjE)
      fix bs s' q' assume k: "length buf + length bs \<le> l" "recv_turn c b w l buf s = Some (Go (buf @ bs), s')" "wakes (has_space p) s s'"
        "\<forall>x. server_at argb x \<and> got_bytes x = got_bytes sp @ bs \<longrightarrow>
          data_inv sw a b p argb cp x s' q' \<and> server_left argb x < server_left argb sp"
      let ?x = "receiving_args l (buf @ bs)"
      have "server_at argb ?x" "got_bytes ?x = got_bytes sp @ bs"
        using k(1) l(2) by (auto simp: receiving_args_def server_at_def got_bytes_def Recv_args)
      with k(4) have "data_inv sw a b p argb cp ?x s' q' \<and> server_left argb ?x < server_left argb sp" by blast
      then show ?thesis using k(2,3) by (auto simp: rsrv_client_step_def Recv_args)
    qed (auto simp: rsrv_client_step_def Recv_args)
  qed (use assms(4) at in \<open>simp_all add: req_over_def server_at_def\<close>)
qed

section \<open>Sleeping and waking up\<close>

text \<open>
  A thread is in a ring only while its call waits there.  The client sleeps only while the pipe is full, the server only
  while the pipe is empty and open: every operation that ends this ends the sleep.
\<close>

definition waits_inv :: "(party \<Rightarrow> tcb_ref) \<Rightarrow> nat \<Rightarrow> Pipe_CB \<Rightarrow> (party, req_at, 'a kernel_scheme) mstate \<Rightarrow> bool" where
  "waits_inv tid p q T \<longleftrightarrow> tid Client \<noteq> tid Server \<and> (\<forall>t. tcbs (snd T) (tid t) \<noteq> None) \<and>
     (snd (fst T Client) = None \<or> snd (fst T Client) = Some (has_space p)) \<and> (snd (fst T Server) = None \<or> snd (fst T Server) = Some (has_data p)) \<and>
     (\<forall>t cv. tid t \<in> set (waitset (snd T) cv) \<longrightarrow> snd (fst T t) = Some cv) \<and>
     (in_wait tid Client T \<longrightarrow> used_space q = PIPE_BUFFER_SIZE) \<and> (in_wait tid Server T \<longrightarrow> used_space q = 0 \<and> writer q \<noteq> None)"

definition req_inv :: "nat set \<Rightarrow> (party \<Rightarrow> tcb_ref) \<Rightarrow> nat \<Rightarrow> nat \<Rightarrow> byte list \<Rightarrow> (party, req_at, 'a kernel_scheme) mstate \<Rightarrow> bool" where
  "req_inv sw tid a b argb T \<longleftrightarrow> (\<exists>p q. data_inv sw a b p argb (fst (fst T Client)) (fst (fst T Server)) (snd T) q \<and> waits_inv tid p q T)"

text \<open>What is left to do: a completed call wakes up at most one thread, and a call that blocks puts one to sleep.\<close>

definition awake :: "(party \<Rightarrow> tcb_ref) \<Rightarrow> party \<Rightarrow> (party, req_at, 'a kernel_scheme) mstate \<Rightarrow> nat" where
  "awake tid t T = (if in_wait tid t T then 0 else 1)"

definition req_left :: "(party \<Rightarrow> tcb_ref) \<Rightarrow> byte list \<Rightarrow> (party, req_at, 'a kernel_scheme) mstate \<Rightarrow> nat" where
  "req_left tid argb T = 2 * (client_left argb (fst (fst T Client)) + server_left argb (fst (fst T Server))) + awake tid Client T + awake tid Server T"

lemma quiet_wait_on:
  assumes "quiet sw s" "tcbs s t \<noteq> None" "\<And>cv. t \<notin> set (waitset s cv)"
  shows "quiet sw (wait_on t cv s)"
proof -
  have "sched_inv sw (wait_on t cv s)"
    using assms(1) by (subst sched_inv_cong [of _ s]) (simp_all add: wait_on_def quiet_def waits_ok_def)
  then show ?thesis using assms by (auto simp: quiet_def waits_ok_def wait_on_def)
qed

lemma data_inv_wait_on:
  assumes "data_inv sw a b p argb cp sp s q" "tcbs s t \<noteq> None" "\<And>cv. t \<notin> set (waitset s cv)"
  shows "data_inv sw a b p argb cp sp (wait_on t cv s) q"
proof -
  have "quiet sw (wait_on t cv s)" using assms by (intro quiet_wait_on) (auto simp: data_inv_def channel_def)
  then show ?thesis using assms(1) by (auto simp: data_inv_def channel_def wait_on_def)
qed

lemma ready_in_no_ring:
  assumes "waits_inv tid p q (pc, s)" "req_ready tid t (pc, s)"
  shows "tid t \<notin> set (waitset s cv)" "tcbs s (tid t) \<noteq> None"
  using assms by (auto simp: waits_inv_def req_ready_def in_wait_def)

lemma client_step_inv:
  assumes "data_inv sw a b p argb (fst (pc Client)) (fst (pc Server)) s q" "waits_inv tid p q (pc, s)" "0 < length argb" "req_ready tid Client (pc, s)"
  shows "\<exists>x s'. req_thread core tid a b argb Client (pc Client) s = Some (x, s') \<and> req_inv sw tid a b argb (pc(Client := x), s') \<and>
    req_left tid argb (pc(Client := x), s') < req_left tid argb (pc, s)"
proof -
  obtain cp w where c: "pc Client = (cp, w)" by (cases "pc Client")
  have w: "w = None \<or> w = Some (has_space p)" "\<not> req_over cp" "awake tid Client (pc, s) = 1"
    using assms(2,4) c by (auto simp: waits_inv_def req_ready_def awake_def)
  note no = ready_in_no_ring [OF assms(2,4)]
  have inj: "tid t = tid Client \<longleftrightarrow> t = Client" for t using assms(2) by (cases t) (auto simp: waits_inv_def)
  have d: "data_inv sw a b p argb cp (fst (pc Server)) s q" using assms(1) c by simp
  from client_turn [OF d assms(3) w(2,1), of "core Client"] show ?thesis
  proof (elim disjE exE conjE)
    assume st: "RemoteClient_step (core Client) a argb (cp, w) s = Some ((cp, Some (has_space p)), s)" and full: "used_space q = PIPE_BUFFER_SIZE"
    let ?s = "wait_on (tid Client) (has_space p) s" and ?x = "(cp, Some (has_space p))"
    have "waits_inv tid p q (pc(Client := ?x), ?s)"
      using assms(2) no full by (auto simp: inj waits_inv_def wait_on_def in_wait_def split: if_splits party.splits option.splits)
    moreover have "data_inv sw a b p argb cp (fst (pc Server)) ?s q" by (rule data_inv_wait_on [OF d no(2,1)])
    moreover have "awake tid Client (pc(Client := ?x), ?s) = 0" by (simp add: awake_def in_wait_def wait_on_def)
    moreover have "awake tid Server (pc(Client := ?x), ?s) = awake tid Server (pc, s)"
      using assms(2) by (auto simp: waits_inv_def awake_def in_wait_def wait_on_def split: option.splits)
    ultimately show ?thesis using st c w(3) by (auto simp: req_thread_def req_inv_def req_left_def)
  next
    fix x s' q' assume st: "RemoteClient_step (core Client) a argb (cp, w) s = Some ((x, None), s')" and d': "data_inv sw a b p argb x (fst (pc Server)) s' q'"
      and wk: "wakes (has_data p) s s'" and less: "client_left argb x < client_left argb cp"
    have nr: "tid t \<notin> set (waitset s' cv)" for t cv
      using assms(2) no(1) wk by (cases t) (auto simp: waits_inv_def wakes_def split: if_splits)
    have "waits_inv tid p q' (pc(Client := (x, None)), s')"
      using assms(2) wk nr by (auto simp: waits_inv_def wakes_def in_wait_def split: option.splits)
    moreover have "awake tid Client (pc(Client := (x, None)), s') = 1" "awake tid Server (pc(Client := (x, None)), s') \<le> 1"
      by (simp_all add: awake_def in_wait_def)
    ultimately show ?thesis using st d' less c w(3) by (auto simp: req_thread_def req_inv_def req_left_def)
  qed
qed

lemma server_step_inv:
  assumes "data_inv sw a b p argb (fst (pc Client)) (fst (pc Server)) s q" "waits_inv tid p q (pc, s)" "0 < length argb" "length argb \<le> 2048"
    "req_ready tid Server (pc, s)"
  shows "\<exists>x s'. req_thread core tid a b argb Server (pc Server) s = Some (x, s') \<and> req_inv sw tid a b argb (pc(Server := x), s') \<and>
    req_left tid argb (pc(Server := x), s') < req_left tid argb (pc, s)"
proof -
  obtain sp w where c: "pc Server = (sp, w)" by (cases "pc Server")
  have w: "w = None \<or> w = Some (has_data p)" "\<not> req_over sp" "awake tid Server (pc, s) = 1"
    using assms(2,5) c by (auto simp: waits_inv_def req_ready_def awake_def)
  note no = ready_in_no_ring [OF assms(2,5)]
  have inj: "tid t = tid Server \<longleftrightarrow> t = Server" for t using assms(2) by (cases t) (auto simp: waits_inv_def)
  have d: "data_inv sw a b p argb (fst (pc Client)) sp s q" using assms(1) c by simp
  from server_turn [OF d assms(3,4) w(2,1), of "core Server"] show ?thesis
  proof (elim disjE exE conjE)
    assume st: "rsrv_client_step (core Server) b (sp, w) s = Some ((sp, Some (has_data p)), s)" and empty: "used_space q = 0" "writer q \<noteq> None"
    let ?s = "wait_on (tid Server) (has_data p) s" and ?x = "(sp, Some (has_data p))"
    have "waits_inv tid p q (pc(Server := ?x), ?s)"
      using assms(2) no empty by (auto simp: inj waits_inv_def wait_on_def in_wait_def split: if_splits party.splits option.splits)
    moreover have "data_inv sw a b p argb (fst (pc Client)) sp ?s q" by (rule data_inv_wait_on [OF d no(2,1)])
    moreover have "awake tid Server (pc(Server := ?x), ?s) = 0" by (simp add: awake_def in_wait_def wait_on_def)
    moreover have "awake tid Client (pc(Server := ?x), ?s) = awake tid Client (pc, s)"
      using assms(2) by (auto simp: waits_inv_def awake_def in_wait_def wait_on_def split: option.splits)
    ultimately show ?thesis using st c w(3) by (auto simp: req_thread_def req_inv_def req_left_def)
  next
    fix x s' q' assume st: "rsrv_client_step (core Server) b (sp, w) s = Some ((x, None), s')" and d': "data_inv sw a b p argb (fst (pc Client)) x s' q'"
      and wk: "wakes (has_space p) s s'" and less: "server_left argb x < server_left argb sp"
    have nr: "tid t \<notin> set (waitset s' cv)" for t cv
      using assms(2) no(1) wk by (cases t) (auto simp: waits_inv_def wakes_def split: if_splits)
    have "waits_inv tid p q' (pc(Server := (x, None)), s')"
      using assms(2) wk nr by (auto simp: waits_inv_def wakes_def in_wait_def split: option.splits)
    moreover have "awake tid Server (pc(Server := (x, None)), s') = 1" "awake tid Client (pc(Server := (x, None)), s') \<le> 1"
      by (simp_all add: awake_def in_wait_def)
    ultimately show ?thesis using st d' less c w(3) by (auto simp: req_thread_def req_inv_def req_left_def)
  qed
qed

text \<open>The dialogue is a bounded monitor.\<close>

definition request_inv :: "nat set \<Rightarrow> (party \<Rightarrow> tcb_ref) \<Rightarrow> nat \<Rightarrow> nat \<Rightarrow> byte list \<Rightarrow> (party, req_at, 'a kernel_scheme) mstate \<Rightarrow> bool" where
  "request_inv sw tid a b argb T \<longleftrightarrow> req_inv sw tid a b argb T \<and> 0 < length argb \<and> length argb \<le> 2048"

lemma req_turn:
  assumes "request_inv sw tid a b argb (pc, s)" "req_ready tid t (pc, s)"
  shows "\<exists>x s'. req_thread core tid a b argb t (pc t) s = Some (x, s') \<and> request_inv sw tid a b argb (pc(t := x), s') \<and>
    req_left tid argb (pc(t := x), s') < req_left tid argb (pc, s)"
proof -
  have l: "0 < length argb" "length argb \<le> 2048" using assms(1) by (simp_all add: request_inv_def)
  obtain p q where "data_inv sw a b p argb (fst (pc Client)) (fst (pc Server)) s q" "waits_inv tid p q (pc, s)"
    using assms(1) by (auto simp: request_inv_def req_inv_def)
  then show ?thesis using client_step_inv [of sw a b p argb pc s q tid core] server_step_inv [of sw a b p argb pc s q tid core] assms(2) l
    by (cases t) (auto simp: request_inv_def)
qed

interpretation req: bounded_monitor "req_step core tid a b argb" "req_ready tid" "req_thread core tid a b argb"
  "request_inv sw tid a b argb" "req_left tid argb" for core tid a b argb sw
proof
  show "\<exists>x s'. req_thread core tid a b argb t (pc t) s = Some (x, s') \<and> request_inv sw tid a b argb (pc(t := x), s')"
    if "request_inv sw tid a b argb (pc, s)" "req_ready tid t (pc, s)" for pc t and s :: "'a kernel_scheme"
    using req_turn [OF that, of core] by blast
  show "req_left tid argb T' < req_left tid argb T" if "request_inv sw tid a b argb T" "req_step core tid a b argb T T'"
    for T T' :: "(party, req_at, 'a kernel_scheme) mstate"
    using that(2)
  proof cases
    case (1 t pc s q s')
    then show ?thesis using that(1) req_turn [of sw tid a b argb pc s t core] by auto
  qed
qed (auto simp: req_step_iff)

text \<open>Somebody can run until both are through.\<close>

lemma req_progress:
  assumes "request_inv sw tid a b argb (pc, s)" "\<nexists>t. req_ready tid t (pc, s)"
  shows "fst (pc Client) = Sent" "fst (pc Server) = Received (length argb) argb"
proof -
  obtain p q where i: "data_inv sw a b p argb (fst (pc Client)) (fst (pc Server)) s q" "waits_inv tid p q (pc, s)"
    using assms(1) by (auto simp: request_inv_def req_inv_def)
  then have at: "client_at argb (fst (pc Client))" "server_at argb (fst (pc Server))" "writer q = None \<longleftrightarrow> fst (pc Client) = Sent"
    "got_bytes (fst (pc Server)) @ pipe_contents q = take (sent_bytes argb (fst (pc Client))) (req_msg argb)" by (auto simp: data_inv_def)
  have C: "req_over (fst (pc Client)) \<or> 0 < used_space q" and S: "req_over (fst (pc Server)) \<or> used_space q = 0 \<and> fst (pc Client) \<noteq> Sent"
    using assms(2) i(2) at(3) by (auto simp: req_ready_def waits_inv_def PIPE_BUFFER_SIZE_def)
  have over: "req_over (fst (pc Client)) \<longleftrightarrow> fst (pc Client) = Sent" using at(1) by (cases "fst (pc Client)") (auto simp: client_at_def req_over_def)
  then have "req_over (fst (pc Server))" using C S by auto
  then obtain buf where r: "fst (pc Server) = Received (length argb) buf" "length buf = length argb"
    using at(2) by (cases "fst (pc Server)") (auto simp: server_at_def req_over_def)
  have len: "4 + length argb + used_space q \<le> 4 + length argb"
    using arg_cong [OF at(4), of length] r by (simp add: got_bytes_def)
  then show sent: "fst (pc Client) = Sent" using C over by simp
  have e: "pipe_contents q = []" using len by simp
  have "got_bytes (fst (pc Server)) = req_msg argb" using at(4) unfolding e sent by (simp add: sent_bytes_def)
  then show "fst (pc Server) = Received (length argb) argb" using r by (simp add: got_bytes_def req_msg_def)
qed

text \<open>The packed arguments, and the request at its start.\<close>

lemma client_args_packed: "client_args argv m = packed argv" "length (client_args argv m) = argvlen argv"
proof -
  obtain m' l where l: "argvpack_loop argv 0 m 0 = (m', l)" by (cases "argvpack_loop argv 0 m 0")
  then have "stored m' 0 (packed argv)" using argvpack_loop_spec [OF l] by (simp add: packed_def)
  from stored_get [OF this] show "client_args argv m = packed argv"
    using l by (simp add: client_args_def argvpack_def argvlen_eq packed_def)
  then show "length (client_args argv m) = argvlen argv" by (simp add: argvlen_eq packed_def)
qed

lemma rsrv_argv_unpacks:
  "\<exists>ptrs. rsrv_argv (argvlen argv) (packed argv) r = Some (length argv, ptrs) \<and>
     list_all2 (string_at (buffer_mem (packed argv) r)) ptrs (map cstring argv)"
proof -
  have st: "stored (buffer_mem (packed argv) r) 0 (packed argv)" unfolding buffer_mem_def by (rule stored_put)
  then have "argscount (int (argvlen argv)) 0 (buffer_mem (packed argv) r) = length argv"
    using argscount_loop_stored [OF st, of 0] by (simp add: argscount_def argvlen_eq packed_def count_zero_packed)
  moreover have "argvunpack (length argv) 0 (buffer_mem (packed argv) r) = Some (offsets 0 argv, argvlen argv)"
    using argvunpack_loop_stored [of "buffer_mem (packed argv) r" 0 argv "[]"] st by (simp add: argvunpack_def packed_def)
  ultimately show ?thesis using strings_at_offsets [of "buffer_mem (packed argv) r" 0 argv] st
    by (simp add: rsrv_argv_def Let_def packed_def)
qed

lemma req_start_inv:
  assumes "quiet sw s" "connected a b s" "0 < length argb" "length argb \<le> 2048"
    "tid Client \<noteq> tid Server" "\<And>t. tcbs s (tid t) \<noteq> None" "\<And>t cv. tid t \<notin> set (waitset s cv)"
  shows "request_inv sw tid a b argb (req_start, s)"
proof -
  obtain p q where q: "channel sw a b p s q" "writer q \<noteq> None" "pipe_contents q = []" using connected_channel [OF assms(2,1)] by blast
  then have "data_inv sw a b p argb (Send_len 0) (Recv_len []) s q"
    by (simp add: data_inv_def client_at_def server_at_def got_bytes_def sent_bytes_def)
  moreover have "waits_inv tid p q (req_start, s)" using assms(5-7) by (simp add: waits_inv_def req_start_def in_wait_def)
  ultimately show ?thesis using assms(3,4) by (auto simp: request_inv_def req_inv_def req_start_def)
qed

section \<open>Properties\<close>

text \<open>A server that reads before the client has written falls asleep.\<close>

lemma server_first_sleeps:
  assumes "request_inv sw tid a b argb (req_start, s)" "connected a b s" "quiet sw s"
  shows "\<exists>T. req_step core tid a b argb (req_start, s) T \<and> in_wait tid Server T"
proof -
  obtain p q where q: "channel sw a b p s q" "writer q \<noteq> None" "pipe_contents q = []" using connected_channel [OF assms(2,3)] by blast
  have "recv_turn (core Server) b None 4 [] s = Some (Wait (has_data p), s)"
    using recv_turn_ok [OF q(1), of "[]" 4 None "core Server"] q(2) unfolding q(3) by auto
  then have st: "req_thread core tid a b argb Server (req_start Server) s = Some ((Recv_len [], Some (has_data p)), wait_on (tid Server) (has_data p) s)"
    by (simp add: req_thread_def rsrv_client_step_def req_start_def)
  have "req_ready tid Server (req_start, s)" by (simp add: req_ready_def req_start_def req_over_def in_wait_def)
  then have "req_step core tid a b argb (req_start, s)
      (req_start(Server := (Recv_len [], Some (has_data p))), wait_on (tid Server) (has_data p) s)" using st by (rule req_step.intros)
  then show ?thesis by (intro exI conjI) (assumption, simp add: in_wait_def wait_on_def)
qed

text \<open>
  C36.  The request of a remote client arrives.  On a new connection, with two threads that wait for nothing, and for
  arguments that pack into at most 2048 bytes, the two threads make in any order at most \<open>4 n + 20\<close> steps, \<open>n\<close>
  being the number of the bytes, where a step is a call that completes or that falls asleep; no assertion fails on the
  way; and when neither of them can go on, the client has shut down its direction, and the server has received all the bytes and
  unpacks from them the strings that the client was given.  No thread is left asleep: who waits for space or for data is
  woken up by the broadcast of the other.
\<close>

theorem remote_request_arrives:
  assumes "quiet sw s" "connected a b s" "argv \<noteq> []" "argvlen argv \<le> 2048"
    "tid Client \<noteq> tid Server" "\<And>t. tcbs s (tid t) \<noteq> None" "\<And>t cv. tid t \<notin> set (waitset s cv)"
    "(req_step core tid a b (client_args argv m) ^^ n) (req_start, s) (pc, s')"
  shows "n \<le> 4 * argvlen argv + 20 \<and>
    (\<forall>t. req_ready tid t (pc, s') \<longrightarrow> req_thread core tid a b (client_args argv m) t (pc t) s' \<noteq> None) \<and>
    ((\<nexists>T. req_step core tid a b (client_args argv m) (pc, s') T) \<longrightarrow>
       fst (pc Client) = Sent \<and> (\<exists>bs ptrs. fst (pc Server) = Received (argvlen argv) bs \<and> rsrv_argv (argvlen argv) bs r = Some (length argv, ptrs) \<and>
         list_all2 (string_at (buffer_mem bs r)) ptrs (map cstring argv)))"
proof -
  let ?b = "client_args argv m"
  have "0 < length ?b" "length ?b \<le> 2048"
    using assms(3,4) by (simp_all add: client_args_packed(2), cases argv) (simp_all add: argvlen_eq)
  then have st: "request_inv sw tid a b ?b (req_start, s)" by (intro req_start_inv [OF assms(1,2)] assms(5-7))
  have run: "request_inv sw tid a b ?b (pc, s')" "n + req_left tid ?b (pc, s') \<le> req_left tid ?b (req_start, s)"
    using req.run_bounded [OF assms(8) st] by blast+
  have "n \<le> 4 * argvlen argv + 20"
    using run(2) by (simp add: req_left_def req_start_def client_left_def server_left_def sent_bytes_def got_bytes_def client_args_packed(2)
        awake_def in_wait_def)
  moreover have "req_thread core tid a b ?b t (pc t) s' \<noteq> None" if "req_ready tid t (pc, s')" for t
    using req.ready_steps(1) [OF run(1) that] .
  moreover have "fst (pc Client) = Sent" "fst (pc Server) = Received (argvlen argv) (packed argv)" if "\<nexists>T. req_step core tid a b ?b (pc, s') T"
  proof -
    have "\<nexists>t. req_ready tid t (pc, s')" using req.ready_steps(2) [OF run(1)] that by blast
    from req_progress [OF run(1) this] show "fst (pc Client) = Sent" "fst (pc Server) = Received (argvlen argv) (packed argv)"
      by (simp_all add: client_args_packed(1)) (simp add: argvlen_eq packed_def)
  qed
  ultimately show ?thesis using rsrv_argv_unpacks [of argv r] by blast
qed

text \<open>In this run the server sleeps first and is woken up by the client.\<close>

definition tid1 :: "party \<Rightarrow> tcb_ref" where
  "tid1 t = (case t of Client \<Rightarrow> Thr 0 | Server \<Rightarrow> Thr 1)"

lemma new_connection:
  "\<exists>s :: kernel. connected 1 3 s \<and> quiet {} s \<and> waitset s = (\<lambda>_. []) \<and> (\<forall>t. tcbs s (tid1 t) \<noteq> None)"
proof -
  obtain s :: kernel where s: "accept_loop 0 0 kernel5 = Some (Done 0, s)" "connected 1 3 s" "quiet {} s"
    using accept_loop_effect [OF kernel5_facts(1-5)] kernel5_facts(8) by (auto simp del: One_nat_def)
  have "map_option owner_pcb (tcbs s t) = map_option owner_pcb (tcbs kernel5 t)" for t
    using accept_loop_frame [OF s(1), of kernel5] by (simp add: stream_frame_def)
  then have "tcbs s t = None \<longleftrightarrow> tcbs kernel5 t = None" for t by (metis option.map_disc_iff)
  moreover have "tcbs kernel5 (tid1 t) \<noteq> None" for t
    by (cases t) (simp_all add: tid1_def kernel5_def kernel_files_def initialize_files_eq kernel_waiting_sel sched7_def)
  ultimately have "tcbs s (tid1 t) \<noteq> None" for t by simp
  moreover have "connected 1 3 (s\<lparr>waitset := (\<lambda>_. [])\<rparr>)" using s(2) by (simp add: connected_def)
  moreover have "sched_inv {} (s\<lparr>waitset := (\<lambda>_. [])\<rparr>)"
    using s(3) by (subst sched_inv_cong [of _ s]) (simp_all add: quiet_def waits_ok_def)
  then have "quiet {} (s\<lparr>waitset := (\<lambda>_. [])\<rparr>)" using s(3) by (simp add: quiet_def waits_ok_def)
  ultimately show ?thesis by (intro exI [of _ "s\<lparr>waitset := (\<lambda>_. [])\<rparr>"]) simp
qed

theorem remote_request_arrives_witness:
  "\<exists>(s :: kernel) T n pc s'. connected 1 3 s \<and> req_step (\<lambda>_. 0) tid1 1 3 (client_args [[108, 115], [45, 97]] (\<lambda>_. 7)) (req_start, s) T \<and>
     in_wait tid1 Server T \<and> (req_step (\<lambda>_. 0) tid1 1 3 (client_args [[108, 115], [45, 97]] (\<lambda>_. 7)) ^^ n) T (pc, s') \<and>
     n < 44 \<and> fst (pc Client) = Sent \<and> (\<exists>bs ptrs. fst (pc Server) = Received 6 bs \<and> rsrv_argv 6 bs (\<lambda>_. 9) = Some (2, ptrs) \<and>
       list_all2 (string_at (buffer_mem bs (\<lambda>_. 9))) ptrs [[108, 115], [45, 97]])"
proof -
  let ?argv = "[[108, 115], [45, 97]] :: byte list list"
  obtain s :: kernel where s: "connected 1 3 s" "quiet {} s" "waitset s = (\<lambda>_. [])" "\<And>t. tcbs s (tid1 t) \<noteq> None" using new_connection by blast
  have id: "tid1 Client \<noteq> tid1 Server" "\<And>t cv. tid1 t \<notin> set (waitset s cv)" using s(3) by (simp_all add: tid1_def)
  have n: "argvlen ?argv = 6" "map cstring ?argv = ?argv" "length ?argv = 2" "?argv \<noteq> []"
    by (simp_all add: argvlen_def strlen_def cstring_def)
  let ?step = "req_step (\<lambda>_. 0) tid1 1 3 (client_args ?argv (\<lambda>_. 7))"
  have i: "request_inv {} tid1 1 3 (client_args ?argv (\<lambda>_. 7)) (req_start, s)"
    using n by (intro req_start_inv [OF s(2,1)] id s(4)) (simp_all add: client_args_packed(2))
  obtain T where T: "?step (req_start, s) T" "in_wait tid1 Server T" using server_first_sleeps [OF i s(1,2)] by blast
  obtain k pc s' where run: "(?step ^^ k) T (pc, s')" "\<nexists>R. ?step (pc, s') R"
    using req.run_ends [OF req.step_keeps [OF i T(1)]] by (metis surj_pair)
  have all: "(?step ^^ Suc k) (req_start, s) (pc, s')" by (rule relpowp_Suc_I2 [OF T(1) run(1)])
  have l: "argvlen ?argv \<le> 2048" by (simp add: n(1))
  from remote_request_arrives [OF s(2,1) n(4) l id(1) s(4) id(2) all, of "\<lambda>_. 9"] run(2)
  have "Suc k \<le> 44" "fst (pc Client) = Sent" "\<exists>bs ptrs. fst (pc Server) = Received 6 bs \<and> rsrv_argv 6 bs (\<lambda>_. 9) = Some (2, ptrs) \<and>
       list_all2 (string_at (buffer_mem bs (\<lambda>_. 9))) ptrs ?argv" unfolding n(1-3) by simp_all
  then show ?thesis using s(1) T run(1) by (intro exI [of _ s] exI [of _ T] exI [of _ k] exI [of _ pc] exI [of _ s']) simp
qed

end
