(* ===== verification/Spec2Isabelle.thy ===== *)
theory Spec2Isabelle
  imports Lock_Steps Barrier Symposium Pipeline Remote
begin

text \<open>
  TinyOS 3 is a small operating system that runs on a simulated multi-core machine.  Its parts, from the
  bottom up, and the theories that model them (sources under \<^verbatim>\<open>src/tinyos3-master\<close>):

  \<^item> \<^verbatim>\<open>util.h\<close>: intrusive lists on a heap of nodes, operation by operation and loop by loop (\<open>RList\<close>); packing of
    string vectors into byte buffers (\<open>Args\<close>).
  \<^item> \<^verbatim>\<open>bios.c\<close>: cores with their interrupt vectors, halting and restarting, timers, serial ports (\<open>Bios\<close>).
  \<^item> \<^verbatim>\<open>kernel_sched.c\<close>: thread control blocks, priority queues, timeouts, \<^verbatim>\<open>yield\<close> and \<^verbatim>\<open>gain\<close> (\<open>Sched\<close>); the steps of all
    cores interleaved and their invariant (\<open>Sched_Inv\<close>, \<open>Sched_Safety\<close>).
  \<^item> \<^verbatim>\<open>kernel_cc.c\<close>: mutexes, condition variables, the kernel semaphore (\<open>CC\<close>); the kernel lock as a protocol of many
    threads, section by section (\<open>Kernel_Lock\<close>) and with one access to shared memory per step (\<open>Lock_Steps\<close>).
  \<^item> The state of the kernel (\<open>Kernel\<close>), a record that extends those of the scheduler and of concurrency control, so
    that a signal in a system call acts on the real rings of waiters and on the real scheduler.
  \<^item> \<^verbatim>\<open>kernel_streams.c\<close>: the file table with its reference counts (\<open>Files\<close>), the calls on file ids (\<open>Streams\<close>), and the
    drivers behind them: \<^verbatim>\<open>kernel_dev.c\<close> (\<open>Dev\<close>), \<^verbatim>\<open>kernel_pipe.c\<close> (\<open>Pipe\<close>), \<^verbatim>\<open>kernel_socket.c\<close> (\<open>Socket\<close>), and the
    information streams of \<^verbatim>\<open>kernel_proc.c\<close> (\<open>Info\<close>).
  \<^item> \<^verbatim>\<open>kernel_proc.c\<close> and \<^verbatim>\<open>kernel_threads.c\<close>: processes (\<open>Proc\<close>), threads and the end of a process (\<open>Threads\<close>).
  \<^item> \<^verbatim>\<open>kernel_sys.c\<close> and \<^verbatim>\<open>kernel_init.c\<close>: the table of the system calls and the system as a machine (\<open>System\<close>), the boot
    (\<open>Boot\<close>).
  \<^item> \<^verbatim>\<open>tinyoslib.c\<close>: programs with string arguments (\<open>Userlib\<close>) and the barrier (\<open>Barrier\<close>); \<^verbatim>\<open>symposium.c\<close>: the dining
    philosophers (\<open>Symposium\<close>); \<^verbatim>\<open>tinyos_shell.c\<close>: filters, the parsing of a line, the log of the server (\<open>Shell\<close>),
    the pipeline of a line (\<open>Pipeline\<close>), the request of the remote client (\<open>Remote\<close>).

  \<^bold>\<open>How the code is modelled.\<close>  A C struct is a record with the fields of the source, an enumeration a datatype, a
  function a definition of the same name that takes and returns the state.  Objects from \<^verbatim>\<open>malloc\<close> live in maps from
  addresses to records, so that a freed object is gone and an access to it is visible.  A result \<open>None\<close> is a failed
  \<^verbatim>\<open>assert\<close>, a \<^verbatim>\<open>FATAL\<close>, or an access through a dangling, null or out-of-range pointer.  A call that may sleep returns an
  \<open>outcome\<close>: it is done, or it blocks on a condition variable and its continuation runs when the thread is resumed.
  Integers have their width where it matters (the interrupt vector, the timers, the counters of the lists and of the
  barrier, the lengths of packed arguments, the arguments of \<^verbatim>\<open>fibo\<close>) and are \<open>int\<close> or \<open>nat\<close> otherwise.

  \<^bold>\<open>Concurrency.\<close>  The scheduler interleaves the sections between two accesses to its spinlock on any number of cores;
  mutexes, and the kernel lock in \<open>Lock_Steps\<close>, are modelled one memory access at a time.  Above that, the kernel lock gives atomicity: the theorems of
  \<open>Kernel_Lock\<close> show that one thread at a time is inside, and the steps of \<open>System\<close> are the sections of system calls between
  two sleeps, in any order, with the scheduler, the lock and the interrupt handlers running in between (\<open>Machine\<close>).
  In the user programs a step is a section that holds the mutex of the monitor; in the dialogue of the remote client and server it
  is a system call up to its end or to its sleep in a ring of the pipe.

  \<^bold>\<open>Discipline of programs.\<close>  The kernel is not correct for every program: two threads that wait for one child release its block
  twice (\<open>waiting_twice_reaps_twice\<close>).  The reachable states are therefore those of programs that obey a rule, a parameter of
  \<open>os_reachable\<close>; the theorems take \<open>waits_apart\<close>: while a call waits for a particular child, no other call in progress of the
  same process can collect that child, and fewer than \<open>2 ^ 31\<close> calls are in progress.

  \<^bold>\<open>What is shown.\<close>
  \<^item> Whole system (\<open>Family\<close>, \<open>Thread_Inv\<close>, \<open>Process_Inv\<close>, \<open>Exit_Inv\<close>, \<open>Calls\<close>, \<open>Machine\<close>, \<open>System\<close>, \<open>Boot\<close>, this theory): the boot
    succeeds and leaves the initial task ready; in every state reachable from it by calls of any threads that keep the discipline, reference counts are exact, the process table
    is a consistent forest, thread counts are exact, and no waiting call finds its object gone.
  \<^item> Life of processes and threads (\<open>Lifecycle\<close>): what \<^verbatim>\<open>Exec\<close>, \<^verbatim>\<open>Exit\<close>, \<^verbatim>\<open>WaitChild\<close>, \<^verbatim>\<open>ThreadExit\<close> and \<^verbatim>\<open>ThreadJoin\<close> do in such
    states; two waits for one child release its block twice.
  \<^item> Scheduler: no thread runs on two cores, the queues are exact, a context switch never fails, expired timeouts are
    woken.  Kernel lock: mutual exclusion, no lost wakeup, no deadlock.
  \<^item> Streams: a pipe refines a bounded byte stream and keeps the order of its bytes; reservation of file ids; the last
    close; devices and information streams; sockets connect and transfer, with the faults of the source proved as such.
  \<^item> User programs: arguments survive \<^verbatim>\<open>Execute\<close>; the barrier separates rounds; the philosophers neither collide nor
    deadlock and always finish; \<^verbatim>\<open>fibo\<close> agrees with its recurrence; a line is split as intended unless it is all bars,
    and its fragments run as processes joined by pipes, with the file ids of the shell restored; a remote
    request of at most 2048 bytes arrives whole, however the calls of the client and the server interleave and sleep.

  \<^bold>\<open>Interfaces.\<close>  The contracts between the parts are locales, interpreted on the operations that provide them: a method of
  a driver leaves the file table alone (\<open>driver_method\<close> in \<open>Files\<close>), a buffer is a bounded queue of bytes (\<open>bounded_fifo\<close> in
  \<open>Pipe\<close>), a call on streams changes only the file ids of its process (\<open>stream_call\<close> in \<open>Calls\<close>), an operation below the calls
  moves threads only (\<open>machine_operation\<close> in \<open>Machine\<close>), and the threads that share an object under a mutex keep its
  invariant and shorten what is left to do (\<open>monitor\<close> and \<open>bounded_monitor\<close> in \<open>Monitor\<close>).

  \<^bold>\<open>Bounds.\<close>  \<open>MAX_PROC\<close>, \<open>MAX_FILEID\<close>, \<open>MAX_FILES\<close>, \<open>PIPE_BUFFER_SIZE\<close> and \<open>MAX_PORT\<close> have the values of the source.  No fuel is
  used: a loop is structural, has a termination proof, or is a \<^theory_text>\<open>partial_function (option)\<close> for which termination is proved on
  the states where the code runs it.

  \<^bold>\<open>Not modelled.\<close>  The POSIX layer of \<^verbatim>\<open>bios.c\<close> (the threads behind the cores, the daemon of the interrupt controller,
  \<^verbatim>\<open>vm_boot\<close>, contexts and stacks), which consists of calls to the host; the C streams on file ids of \<^verbatim>\<open>tinyoslib.c\<close>; the
  tasks that start the philosophers and the floating-point adjustment of their workload; the loop of the
  shell that waits for the children of a line, the listener and the console of the remote server; the terminal emulator
  and the console; the unit testing framework, which works with processes and signals of the host, and the tests.
\<close>

section \<open>The operating system as a whole\<close>



text \<open>
  C1. For programs that keep the discipline \<open>waits_apart\<close> (no call waits for a particular child while another call in progress of
  the same process can collect that child; fewer than \<open>2 ^ 31\<close> calls in progress):
  in every reachable state the reference count of a file control block is exact: it is the
  number of file ids that name the block, over all processes, plus the number of system calls in
  progress that use it.  The block is in the pool if and only if this number is zero, so that no
  stream is closed while it is in use and none is lost.
\<close>

theorem reference_counts_exact:
  assumes "os_reachable waits_apart (s, pend)" "f < MAX_FILES"
  shows "(f \<in> set (FCB_freelist s) \<longleftrightarrow> refs f s = {} \<and> users pend f = {}) \<and>
    (f \<notin> set (FCB_freelist s) \<longrightarrow> unat (refcount (FT s f)) = card (refs f s) + card (users pend f))"
proof -
  note k = os_reachableD [OF assms(1)]
  have fin: "finite (refs f s)" "finite (users pend f)"
    using finite_refs(1) k(6) users_finite(1) k(2) by (auto simp: files_inv_def calls_ok_def)
  have h: "held (pins_of pend) f s = int (card (refs f s) + card (users pend f))" by (simp add: held_def pins_of_def)
  have "f \<in> set (FCB_freelist s) \<longleftrightarrow> held (pins_of pend) f s = 0" using k(6) assms(2) by (simp add: files_inv_def)
  then have "f \<in> set (FCB_freelist s) \<longleftrightarrow> refs f s = {} \<and> users pend f = {}" unfolding h of_nat_eq_0_iff using fin by simp
  moreover have "unat (refcount (FT s f)) = card (refs f s) + card (users pend f)" if "f \<notin> set (FCB_freelist s)"
    using refcount_exact [OF k(6) assms(2) that] unfolding h of_nat_eq_iff .
  ultimately show ?thesis by blast
qed

theorem reference_counts_exact_witness:
  "\<exists>s :: kernel. os_reachable waits_apart (s, Map.empty) \<and> refs 0 s = {(1, 0)} \<and> 0 \<notin> set (FCB_freelist s) \<and> unat (refcount (FT s 0)) = 1"
proof -
  obtain s :: kernel where s: "os_reachable waits_apart (s, Map.empty)" "refs 0 s = {(1, 0)}" using null_opened by blast
  have "users Map.empty 0 = {}" by (simp add: users_def)
  then show ?thesis using reference_counts_exact [OF s(1), of 0] s by (auto simp: MAX_FILES_def MAX_PROC_def)
qed

text \<open>
  C2. For programs that keep the discipline \<open>waits_apart\<close> (no call waits for a particular child while another call in progress of
  the same process can collect that child; fewer than \<open>2 ^ 31\<close> calls in progress):
  in every reachable state the process table is a consistent forest: the list of children
  of a process holds, once each, exactly the processes whose parent it is, and its list of
  exited children exactly the zombies among them; every process but the two first has a parent,
  which is the initial task or alive; the counter of processes is exact; and the chain of
  free process control blocks runs through all the blocks that are not in use, once each.
\<close>

theorem process_table_consistent:
  assumes "os_reachable waits_apart (s, pend)"
  shows "(\<forall>p. distinct (children_list (PT s p)) \<and> set (children_list (PT s p)) = {q \<in> used s. parent (PT s q) = Some p}) \<and>
    (\<forall>p. distinct (exited_list (PT s p)) \<and>
       set (exited_list (PT s p)) = {q \<in> used s. parent (PT s q) = Some p \<and> pstate (PT s q) = ZOMBIE}) \<and>
    {0, 1} \<subseteq> used s \<and>
    (\<forall>q \<in> used s. 1 < q \<longrightarrow> (\<exists>p \<in> used s. p \<noteq> q \<and> parent (PT s q) = Some p \<and> (p = 1 \<or> pstate (PT s p) = ALIVE))) \<and>
    unat (process_count s) = card (used s) \<and>
    (\<exists>fl. free_path (PT s) (pcb_freelist s) fl \<and> distinct fl \<and> set fl = {..<MAX_PROC} - used s)"
proof -
  have inv: "free_ok s" "children_ok s" "exited_ok s" "parents_ok s" using os_reachableD(3) [OF assms] by (simp_all add: family_inv_def)
  have "card (used s) \<le> card {..<MAX_PROC}" by (rule card_mono) (auto simp: used_def)
  then have "unat (process_count s) = card (used s)"
    using inv(1) by (simp add: free_ok_def MAX_PROC_def unat_of_nat take_bit_nat_eq_self)
  moreover have "\<exists>p \<in> used s. p \<noteq> q \<and> parent (PT s q) = Some p \<and> (p = 1 \<or> pstate (PT s p) = ALIVE)" if "q \<in> used s" "1 < q" for q
    using inv(4) that by (auto simp: parents_ok_def)
  ultimately show ?thesis using inv by (simp add: free_ok_def children_ok_def exited_ok_def parents_ok_def)
qed

theorem process_table_consistent_witness:
  "\<exists>(s :: kernel) ch. os_reachable waits_apart (s, Map.empty) \<and> ch \<noteq> 1 \<and> parent (PT s ch) = Some 1 \<and> ch \<in> set (children_list (PT s 1))"
proof -
  obtain s :: kernel and t ch a where s: "os_reachable waits_apart (s, Map.empty)" "caller 0 t ch a s" "ch \<noteq> 1" "parent (PT s ch) = Some 1"
    using child_runs by blast
  have "ch \<in> used s" using caller_alive(2,3) [OF os_reachableD(4) [OF s(1)] s(2)] by (simp add: used_def)
  then have "ch \<in> set (children_list (PT s 1))" using process_table_consistent [OF s(1)] s(4) by simp
  then show ?thesis using s by blast
qed

text \<open>
  C4. For programs that keep the discipline \<open>waits_apart\<close> (no call waits for a particular child while another call in progress of
  the same process can collect that child; fewer than \<open>2 ^ 31\<close> calls in progress):
  in every reachable state the number of threads of a process is the number of its thread
  blocks whose thread has not exited, a process that is not alive has neither threads nor
  open files, and every thread that runs in a process has a block in the list of that process,
  if the block still exists.
\<close>

theorem threads_counted:
  assumes "os_reachable waits_apart (s, pend)"
  shows "(\<forall>p. thread_count (PT s p) = int (card {a \<in> set (ptcb_list (PT s p)). live s a})) \<and>
    (\<forall>p. pstate (PT s p) \<noteq> ALIVE \<longrightarrow> thread_count (PT s p) = 0 \<and> ptcb_list (PT s p) = [] \<and> FIDT (PT s p) = (\<lambda>_. None)) \<and>
    (\<forall>t tc a. tcbs s t = Some tc \<longrightarrow> owner_ptcb tc = Some a \<longrightarrow> ptcbs s a \<noteq> None \<longrightarrow>
       (\<exists>p. owner_pcb tc = Some p \<and> a \<in> set (ptcb_list (PT s p))))"
proof -
  have inv: "ptcbs_ok s" "counts_ok s" "owners_ok s" "fids_dead s"
    using os_reachableD(4,5) [OF assms] by (simp_all add: threads_inv_def)
  have "thread_count (PT s p) = int (card {a \<in> set (ptcb_list (PT s p)). live s a})" for p
    using inv(1,2) distinct_card [of "filter (live s) (ptcb_list (PT s p))"] by (simp add: ptcbs_ok_def counts_ok_def)
  moreover have "thread_count (PT s p) = 0 \<and> ptcb_list (PT s p) = [] \<and> FIDT (PT s p) = (\<lambda>_. None)" if "pstate (PT s p) \<noteq> ALIVE" for p
    using inv(2,4) that by (simp add: counts_ok_def fids_dead_def)
  ultimately show ?thesis using inv(3) by (simp add: owners_ok_def)
qed

theorem threads_counted_witness:
  "\<exists>(s :: kernel) pend. os_reachable waits_apart (s, pend) \<and> thread_count (PT s 1) = 2 \<and> card {a \<in> set (ptcb_list (PT s 1)). live s a} = 2"
proof -
  obtain s :: kernel and pend where s: "os_reachable waits_apart (s, pend)" "thread_count (PT s 1) = 2" using joined_thread_runs by blast
  with threads_counted [OF s(1)] have "int (card {a \<in> set (ptcb_list (PT s 1)). live s a}) = 2" by metis
  then show ?thesis using s by auto
qed

text \<open>
  C3. For programs that keep the discipline \<open>waits_apart\<close> (no call waits for a particular child while another call in progress of
  the same process can collect that child; fewer than \<open>2 ^ 31\<close> calls in progress):
  a thread that waits in a system call never finds its object gone.  In every reachable
  state the waiting thread has not exited; a file control block that it uses is not in the pool;
  the child it waits for is in the process table and is still a child of its process, and the wait, when resumed,
  sleeps again while the child is alive and collects exactly this child otherwise; the thread
  it joins still has its block, in the list of the same process, and continuing the join does not
  follow a dangling pointer.
\<close>

theorem waiting_calls_safe:
  assumes "os_reachable waits_apart (s, pend)" "pend a = Some w"
  shows "live s a \<and> (\<forall>f. uses w = Some f \<longrightarrow> f < MAX_FILES \<and> f \<notin> set (FCB_freelist s)) \<and>
    (\<forall>par ch. w = P_WaitChild par ch \<longrightarrow> ch \<in> used s \<and> parent (PT s ch) = Some par \<and> a \<in> set (ptcb_list (PT s par)) \<and>
       (if pstate (PT s ch) = ALIVE then wait_specific_loop par ch s = (Block (child_exit par) SCHED_USER NO_TIMEOUT, s)
        else pstate (PT s ch) = ZOMBIE \<and> (\<exists>s'. wait_specific_loop par ch s = (Done (int ch, Some (exitval (PT s ch))), s') \<and>
          used s' = used s - {ch} \<and> family_inv s'))) \<and>
    (\<forall>par. w = P_WaitAny par \<longrightarrow> a \<in> set (ptcb_list (PT s par)) \<and> wait_any_loop par s \<noteq> None) \<and>
    (\<forall>b. w = P_Join b \<longrightarrow> (\<exists>p. {a, b} \<subseteq> set (ptcb_list (PT s p))) \<and> ptcbs s b \<noteq> None \<and> join_loop b s \<noteq> None)"
proof -
  note k = os_reachableD [OF assms(1)]
  have l: "waits_legally s a w" using k(2) assms(2) by (simp add: calls_ok_def)
  have files: "f < MAX_FILES \<and> f \<notin> set (FCB_freelist s)" if f: "uses w = Some f" for f
  proof -
    have m: "f < MAX_FILES" using l f by (simp add: waits_legally_def)
    have "a \<in> users pend f" using assms(2) f by (simp add: users_def)
    then have "0 < pins_of pend f" using users_finite(1) [of pend f] k(2) by (auto simp: pins_of_def calls_ok_def card_gt_0_iff)
    then have "held (pins_of pend) f s \<noteq> 0" by (simp add: held_def)
    then show ?thesis using m k(6) by (simp add: files_inv_def)
  qed
  have joins: "ptcbs s b \<noteq> None \<and> join_loop b s \<noteq> None" if "b \<in> set (ptcb_list (PT s p))" for b p
  proof -
    have "b \<in> dom (ptcbs s)" using k(4) that unfolding threads_inv_def ptcbs_ok_def by blast
    then show ?thesis by (auto simp: join_loop_def upd_ptcb_def free_ptcb_def remove_ptcb_node_def)
  qed
  have child: "if pstate (PT s ch) = ALIVE then wait_specific_loop par ch s = (Block (child_exit par) SCHED_USER NO_TIMEOUT, s)
      else pstate (PT s ch) = ZOMBIE \<and> (\<exists>s'. wait_specific_loop par ch s = (Done (int ch, Some (exitval (PT s ch))), s') \<and>
        used s' = used s - {ch} \<and> family_inv s')" if "w = P_WaitChild par ch" for par ch
  proof -
    have "ch \<in> used s" "parent (PT s ch) = Some par" using l that by (simp_all add: waits_legally_def)
    moreover have "used (snd (cleanup_zombie ch s)) = used s - {ch}" by (auto simp: used_def cleanup_PT split: if_splits)
    ultimately show ?thesis using wait_specific_loop_ok [OF k(1), of ch par] by (auto simp: kernel_ok_def split: if_splits)
  qed
  show ?thesis
  proof (intro conjI allI impI)
    show "if pstate (PT s ch) = ALIVE then wait_specific_loop par ch s = (Block (child_exit par) SCHED_USER NO_TIMEOUT, s)
      else pstate (PT s ch) = ZOMBIE \<and> (\<exists>s'. wait_specific_loop par ch s = (Done (int ch, Some (exitval (PT s ch))), s') \<and>
        used s' = used s - {ch} \<and> family_inv s')" if "w = P_WaitChild par ch" for par ch by (rule child [OF that])
    show "wait_any_loop par s \<noteq> None" for par using wait_any_loop_ok [OF k(1), of par] by auto
    show "\<exists>p. {a, b} \<subseteq> set (ptcb_list (PT s p))" if "w = P_Join b" for b using l that by (simp add: waits_legally_def)
    then have "\<exists>p. b \<in> set (ptcb_list (PT s p))" if "w = P_Join b" for b using that by blast
    then show "ptcbs s b \<noteq> None" "join_loop b s \<noteq> None" if "w = P_Join b" for b using joins that by metis+
  qed (use l files in \<open>simp_all add: waits_legally_def\<close>)
qed

theorem waiting_calls_safe_witness:
  "(\<exists>(s :: kernel) pend a b. os_reachable waits_apart (s, pend) \<and> pend b = Some (P_Join a) \<and> live s b \<and> join_loop a s \<noteq> None) \<and>
   (\<exists>(s :: kernel) pend a ch. os_reachable waits_apart (s, pend) \<and> pend a = Some (P_WaitChild 1 ch) \<and> live s a \<and> ch \<in> used s \<and>
      parent (PT s ch) = Some 1)"
proof
  obtain s :: kernel and pend a b where s: "os_reachable waits_apart (s, pend)" "pend b = Some (P_Join a)" using joined_thread_runs by blast
  have "live s b \<and> join_loop a s \<noteq> None" using waiting_calls_safe [OF s] by simp
  then show "\<exists>(s :: kernel) pend a b. os_reachable waits_apart (s, pend) \<and> pend b = Some (P_Join a) \<and> live s b \<and> join_loop a s \<noteq> None"
    using s by (intro exI [of _ s] exI [of _ pend] exI [of _ a] exI [of _ b]) simp
next
  obtain s :: kernel and a ch where s: "os_reachable waits_apart (s, [a \<mapsto> P_WaitChild 1 ch])" using child_awaited by blast
  have p: "[a \<mapsto> P_WaitChild 1 ch] a = Some (P_WaitChild 1 ch)" by simp
  have "live s a \<and> ch \<in> used s \<and> parent (PT s ch) = Some 1" using waiting_calls_safe [OF s p] by blast
  then show "\<exists>(s :: kernel) pend a ch. os_reachable waits_apart (s, pend) \<and> pend a = Some (P_WaitChild 1 ch) \<and> live s a \<and> ch \<in> used s \<and>
      parent (PT s ch) = Some 1" using s p by blast
qed

end
